(* ===== verification/QR_Prelude.thy ===== *)
theory QR_Prelude
  imports Main "HOL-Library.Word" "HOL-Library.Code_Target_Numeral"
begin

text \<open>
  Shared vocabulary of the development: the machine types of the C sources, the result
  type of fallible operations and of programs that may exit, the reference notion of ``the bits of a number, most
  significant first'' and the generic lemmas about words, lists and results that the
  component theories share.
\<close>

unbundle bit_operations_syntax

section \<open>Machine types\<close>

text \<open>
  \<open>byte\<close> is C's \<open>unsigned char\<close> and \<open>uint\<close> its 32-bit \<open>unsigned int\<close>.
  C's \<open>int\<close> is modelled by \<^typ>\<open>int\<close> where the code tests for negative
  values (version numbers, mask numbers, chunk sizes given by a caller) and by \<^typ>\<open>nat\<close>
  where it is a length, a count or an index.
\<close>

type_synonym byte = "8 word"
type_synonym uint = "32 word"

section \<open>Results\<close>

text \<open>
  An operation that returns \<open>NULL\<close> or \<open>-1\<close> fails with the value of \<open>errno\<close> it set
  (\<open>EINVAL\<close>, \<open>ERANGE\<close>), with \<open>ENOERR\<close> when it set none, and with \<open>EFAULT\<close> where the C
  program has no defined behaviour (a null pointer is dereferenced); \<open>EHANG\<close> stands for a call
  that does not return.
\<close>

datatype qr_error = EINVAL | ERANGE | ENOERR | EFAULT | EHANG

type_synonym 'a res = "qr_error + 'a"

fun res_bind :: "'a res \<Rightarrow> ('a \<Rightarrow> 'b res) \<Rightarrow> 'b res" where
  "res_bind (Inl e) f = Inl e"
| "res_bind (Inr x) f = f x"

named_theorems res_simps \<open>equations that run the result type\<close>

lemma res_bind_Inr_iff [res_simps]:
  "res_bind m f = Inr y \<longleftrightarrow> (\<exists>x. m = Inr x \<and> f x = Inr y)"
  by (cases m) auto

lemma res_bind_Inl_iff [res_simps]:
  "res_bind m f = Inl e \<longleftrightarrow> m = Inl e \<or> (\<exists>x. m = Inr x \<and> f x = Inl e)"
  by (cases m) auto

lemma res_bind_assoc: "res_bind (res_bind m f) g = res_bind m (\<lambda>x. res_bind (f x) g)"
  by (cases m) auto

lemma res_bind_cong [fundef_cong]:
  "m = m' \<Longrightarrow> (\<And>x. m' = Inr x \<Longrightarrow> f x = g x) \<Longrightarrow> res_bind m f = res_bind m' g"
  by (cases m') auto

text \<open>A counting loop whose body may abort the function.\<close>

fun fold_res :: "('a \<Rightarrow> 's \<Rightarrow> 's res) \<Rightarrow> 'a list \<Rightarrow> 's \<Rightarrow> 's res" where
  "fold_res f [] s = Inr s"
| "fold_res f (x # xs) s = res_bind (f x s) (fold_res f xs)"

lemma fold_res_append:
  "fold_res f (xs @ ys) s = res_bind (fold_res f xs s) (fold_res f ys)"
proof (induction xs arbitrary: s)
  case (Cons x xs)
  then show ?case by (cases "f x s") auto
qed simp

lemma fold_res_cong [fundef_cong]:
  "xs = ys \<Longrightarrow> s = t \<Longrightarrow> (\<And>x s. x \<in> set ys \<Longrightarrow> f x s = g x s) \<Longrightarrow> fold_res f xs s = fold_res g ys t"
proof (induction ys arbitrary: xs s t)
  case (Cons y ys)
  then show ?case by (auto intro!: res_bind_cong)
qed simp

definition is_ok :: "'a res \<Rightarrow> bool" where
  "is_ok m \<longleftrightarrow> (case m of Inl e \<Rightarrow> False | Inr x \<Rightarrow> True)"

lemma is_ok_Inr [simp]: "is_ok (Inr x)"
  by (simp add: is_ok_def)

lemma is_ok_Inl [simp]: "\<not> is_ok (Inl e)"
  by (simp add: is_ok_def)

section \<open>Programs\<close>

text \<open>How a program ends; \<open>FAULT\<close> is behaviour that C leaves undefined.\<close>

datatype status = EXIT_SUCCESS | EXIT_FAILURE | FAULT

type_synonym 'a exit = "status + 'a"

fun exit_bind :: "'a exit \<Rightarrow> ('a \<Rightarrow> 'b exit) \<Rightarrow> 'b exit" where
  "exit_bind (Inl s) f = Inl s"
| "exit_bind (Inr x) f = f x"

text \<open>A computed \<open>int\<close> that overflows is undefined.\<close>

definition int_value :: "int \<Rightarrow> int exit" where
  "int_value i = (if - (2 ^ 31) \<le> i \<and> i < 2 ^ 31 then Inr i else Inl FAULT)"

fun exit_map :: "('a \<Rightarrow> 'b exit) \<Rightarrow> 'a list \<Rightarrow> 'b list exit" where
  "exit_map f [] = Inr []"
| "exit_map f (x # xs) = exit_bind (f x) (\<lambda>y. exit_bind (exit_map f xs) (\<lambda>ys. Inr (y # ys)))"

lemma exit_bind_Inr: "exit_bind r f = Inr y \<longleftrightarrow> (\<exists>x. r = Inr x \<and> f x = Inr y)"
  by (cases r) simp_all

lemma exit_bind_Inl: "exit_bind r f = Inl s \<longleftrightarrow> r = Inl s \<or> (\<exists>x. r = Inr x \<and> f x = Inl s)"
  by (cases r) auto

lemma exit_bind_cong [fundef_cong]:
  "r = r' \<Longrightarrow> (\<And>x. r' = Inr x \<Longrightarrow> f x = g x) \<Longrightarrow> exit_bind r f = exit_bind r' g"
  by (cases r') auto

text \<open>A counting loop whose body may end the program.\<close>

fun fold_exit :: "('a \<Rightarrow> 's \<Rightarrow> 's exit) \<Rightarrow> 'a list \<Rightarrow> 's \<Rightarrow> 's exit" where
  "fold_exit f [] s = Inr s"
| "fold_exit f (x # xs) s = exit_bind (f x s) (fold_exit f xs)"

lemma fold_exit_append: "fold_exit f (xs @ ys) s = exit_bind (fold_exit f xs s) (fold_exit f ys)"
proof (induction xs arbitrary: s)
  case (Cons x xs)
  then show ?case by (cases "f x s") simp_all
qed simp

text \<open>An invariant over the indices of a loop that ends.\<close>

lemma fold_exit_upt:
  assumes "P a s" "a \<le> b"
    and "\<And>i s. P i s \<Longrightarrow> a \<le> i \<Longrightarrow> i < b \<Longrightarrow> \<exists>s'. f i s = Inr s' \<and> P (Suc i) s'"
  shows "\<exists>s'. fold_exit f [a..<b] s = Inr s' \<and> P b s'"
  using assms
proof (induction "b - a" arbitrary: a s)
  case (Suc n)
  then have ab: "a < b" by simp
  obtain s' where s': "f a s = Inr s'" "P (Suc a) s'" using Suc.prems(1,3) ab by blast
  have "\<exists>s''. fold_exit f [Suc a..<b] s' = Inr s'' \<and> P b s''"
    using Suc.hyps(2) ab s'(2) Suc.prems(3) by (intro Suc.hyps(1)) auto
  then show ?case using s'(1) ab by (simp add: upt_conv_Cons)
qed simp

section \<open>Bits of a number, most significant first\<close>

fun bits_msb :: "nat \<Rightarrow> nat \<Rightarrow> byte list" where
  "bits_msb 0 v = []"
| "bits_msb (Suc n) v = of_bool (odd (v div 2 ^ n)) # bits_msb n v"

fun bits_val :: "byte list \<Rightarrow> nat" where
  "bits_val [] = 0"
| "bits_val (b # bs) = unat b * 2 ^ length bs + bits_val bs"

definition is_bits :: "byte list \<Rightarrow> bool" where
  "is_bits bs \<longleftrightarrow> (\<forall>b \<in> set bs. b = 0 \<or> b = 1)"

lemma length_bits_msb [simp]: "length (bits_msb n v) = n"
  by (induction n) auto

lemma bits_msb_eq_Nil_iff [simp]: "bits_msb n v = [] \<longleftrightarrow> n = 0"
  by (cases n) auto

lemma is_bits_Nil [simp]: "is_bits []"
  by (simp add: is_bits_def)

lemma is_bits_Cons [simp]: "is_bits (b # bs) \<longleftrightarrow> (b = 0 \<or> b = 1) \<and> is_bits bs"
  by (auto simp: is_bits_def)

lemma is_bits_append [simp]: "is_bits (xs @ ys) \<longleftrightarrow> is_bits xs \<and> is_bits ys"
  by (auto simp: is_bits_def)

lemma is_bits_bits_msb [simp]: "is_bits (bits_msb n v)"
  by (induction n) auto

lemma is_bits_take: "is_bits xs \<Longrightarrow> is_bits (take n xs)"
  by (auto simp: is_bits_def dest: in_set_takeD)

lemma is_bits_drop: "is_bits xs \<Longrightarrow> is_bits (drop n xs)"
  by (auto simp: is_bits_def dest: in_set_dropD)

lemma is_bits_replicate [simp]: "is_bits (replicate n 0)"
  by (auto simp: is_bits_def)

lemma unat_of_bool_byte [simp]: "unat (of_bool b :: byte) = of_bool b"
  by (cases b) auto

lemma mod_two_power_Suc:
  "(v::nat) mod 2 ^ Suc n = of_bool (odd (v div 2 ^ n)) * 2 ^ n + v mod 2 ^ n"
proof -
  have "v mod 2 ^ Suc n = 2 ^ n * (v div 2 ^ n mod 2) + v mod 2 ^ n"
    by (metis mod_mult2_eq power_Suc2)
  then show ?thesis
    by (simp add: odd_iff_mod_2_eq_one of_bool_def) 
qed

lemma bits_val_bits_msb: "bits_val (bits_msb n v) = v mod 2 ^ n"
  by (induction n) (simp_all add: mod_two_power_Suc del: power_Suc)

lemma bits_val_less: "is_bits bs \<Longrightarrow> bits_val bs < 2 ^ length bs"
  by (induction bs) auto

lemma bits_msb_mod: "n \<le> m \<Longrightarrow> bits_msb n (v mod 2 ^ m) = bits_msb n v"
proof (induction n)
  case 0
  then show ?case by simp
next
  case (Suc n)
  have "odd (v mod 2 ^ m div 2 ^ n) \<longleftrightarrow> odd (v div 2 ^ n)"
    using Suc.prems by (simp flip: bit_iff_odd take_bit_eq_mod add: bit_take_bit_iff)
  with Suc show ?case by simp
qed

lemma bits_msb_bits_val: "is_bits bs \<Longrightarrow> bits_msb (length bs) (bits_val bs) = bs"
proof (induction bs)
  case Nil
  then show ?case by simp
next
  case (Cons b bs)
  have "bits_val bs < 2 ^ length bs" using Cons.prems by (simp add: bits_val_less)
  moreover from this have "bits_msb (length bs) (unat b * 2 ^ length bs + bits_val bs)
      = bits_msb (length bs) (bits_val bs)"
    using bits_msb_mod [of "length bs" "length bs" "unat b * 2 ^ length bs + bits_val bs"] by simp
  ultimately show ?case using Cons by auto
qed

lemma bits_val_append: "bits_val (xs @ ys) = bits_val xs * 2 ^ length ys + bits_val ys"
  by (induction xs) (auto simp: power_add algebra_simps)

lemma bits_msb_zero: "bits_msb n 0 = replicate n 0"
  by (induction n) auto

lemma bits_val_zeros [simp]: "bits_val (replicate n 0) = 0"
  by (induction n) auto

lemma bits_val_inject:
  "is_bits xs \<Longrightarrow> is_bits ys \<Longrightarrow> length xs = length ys \<Longrightarrow> bits_val xs = bits_val ys \<Longrightarrow> xs = ys"
  by (metis bits_msb_bits_val)

lemma nth_bits_msb: "i < n \<Longrightarrow> bits_msb n v ! i = of_bool (odd (v div 2 ^ (n - 1 - i)))"
proof (induction n arbitrary: i)
  case 0
  then show ?case by simp
next
  case (Suc n)
  then show ?case by (cases i) auto
qed

lemma bits_msb_eq_map: "bits_msb n v = map (\<lambda>i. of_bool (odd (v div 2 ^ (n - 1 - i)))) [0..<n]"
  by (rule nth_equalityI) (simp_all add: nth_bits_msb)

section \<open>Words\<close>

lemma bit_word_unat: "bit (w :: 'a::len word) k \<longleftrightarrow> odd (unat w div 2 ^ k)"
  by (simp flip: bit_iff_odd add: bit_unsigned_iff)

lemma word_eq_bits_iff:
  "(a :: 'a::len word) = b \<longleftrightarrow> (\<forall>n < LENGTH('a). bit a n \<longleftrightarrow> bit b n)"
  by (auto intro: bit_word_eqI)

lemma and_single_bit_eq_0:
  "(w :: 'a::len word) AND 2 ^ k = 0 \<longleftrightarrow> \<not> (k < LENGTH('a) \<and> bit w k)"
  by (auto simp: word_eq_bits_iff bit_simps)

lemma drop_bit_single_bit:
  "0 < n \<Longrightarrow> n < LENGTH('a) \<Longrightarrow> drop_bit 1 (push_bit n 1 :: 'a::len word) = push_bit (n - 1) 1"
  by (auto simp: word_eq_bits_iff bit_simps)

lemma shift_or_bit:
  "b = 0 \<or> b = 1 \<Longrightarrow> v * 2 OR b = v * 2 + (b :: 'a::len word)"
proof (elim disjE)
  assume b: "b = 1"
  have "push_bit 1 v AND (1 :: 'a word) = 0"
    unfolding word_eq_bits_iff bit_and_iff bit_push_bit_iff bit_1_iff by auto
  then have "push_bit 1 v OR 1 = push_bit 1 v + (1 :: 'a word)"
    using word_plus_and_or [of "push_bit 1 v" "1 :: 'a word"] by simp
  then show ?thesis by (simp add: b)
qed simp

lemma unat_byte_less: "unat (v :: byte) < 256"
  using unsigned_less [of v] by simp

lemma funpow_fold: "(f ^^ n) a = fold (\<lambda>_. f) [0..<n] a"
  by (induction n) auto

section \<open>Lists\<close>

lemma list_update_append_here:
  "length xs = n \<Longrightarrow> (xs @ y # ys)[n := z] = xs @ z # ys"
  by (auto simp: list_update_append)

text \<open>Storing a list of values from a position on: \<open>memset\<close>, \<open>memcpy\<close> and copying loops.\<close>

fun write_at :: "nat \<Rightarrow> 'a list \<Rightarrow> 'a list \<Rightarrow> 'a list" where
  "write_at p [] d = d"
| "write_at p (v # vs) d = write_at (Suc p) vs (d[p := v])"

lemma length_write_at [simp]: "length (write_at p vs d) = length d"
  by (induction vs arbitrary: p d) auto

lemma nth_write_at:
  "k < length d \<Longrightarrow> write_at p vs d ! k = (if p \<le> k \<and> k < p + length vs then vs ! (k - p) else d ! k)"
proof (induction vs arbitrary: p d)
  case (Cons v vs)
  then show ?case by (auto simp: nth_list_update nth_Cons' not_le less_Suc_eq Suc_le_eq)
qed auto

lemma take_Suc_update: "p < length d \<Longrightarrow> take (Suc p) (d[p := v]) = take p d @ [v]"
  by (simp add: take_Suc_conv_app_nth)

lemma list_all_upt: "list_all P [0..<n] \<Longrightarrow> i < n \<Longrightarrow> P i"
  by (simp add: list_all_iff)

lemma length_fold_update:
  "(\<And>x f. length (g x f) = length f) \<Longrightarrow> length (fold g xs f) = length (f :: 'a list)"
  by (induction xs arbitrary: f) auto

lemma length_snd_fold:
  "(\<And>x s. length (snd (g x s)) = length (snd s)) \<Longrightarrow> length (snd (fold g xs s)) = length (snd s)"
  by (induction xs arbitrary: s) auto

text \<open>
  The loops that keep the best candidate so far. A strict order \<open>better\<close> is a weak order when
  not being better is transitive; the loop then ends with the first of the best candidates.
\<close>

locale candidate_choice =
  fixes better :: "'s \<Rightarrow> 's \<Rightarrow> bool"
  assumes better_irrefl: "\<not> better s s"
    and better_trans: "better a b \<Longrightarrow> better b c \<Longrightarrow> better a c"
    and not_better_trans: "\<not> better a b \<Longrightarrow> \<not> better b c \<Longrightarrow> \<not> better a c"
begin

lemma keep_best:
  fixes cand :: "nat \<Rightarrow> 's \<times> 'm"
  defines "step \<equiv> \<lambda>i (s, m). let (s', m') = cand i in if better s' s then (s', Some m') else (s, m)"
  shows "(\<forall>i < n. \<not> better (fst (cand i)) s) \<and> fold step [0..<n] (s, None) = (s, None)
     \<or> (\<exists>i < n. better (fst (cand i)) s
          \<and> (\<forall>j < n. \<not> better (fst (cand j)) (fst (cand i)))
          \<and> (\<forall>j < i. better (fst (cand i)) (fst (cand j)))
          \<and> fold step [0..<n] (s, None) = (fst (cand i), Some (snd (cand i))))"
proof (induction n)
  case (Suc n)
  let ?c = "\<lambda>i. fst (cand i)"
  from Suc show ?case
  proof (elim disjE conjE exE)
    assume none: "\<forall>i < n. \<not> better (?c i) s" and f: "fold step [0..<n] (s, None) = (s, None)"
    show ?thesis
    proof (cases "better (?c n) s")
      case True
      have "better (?c n) (?c j)" if "j < n" for j using none not_better_trans True that by blast
      then have "\<forall>j < Suc n. \<not> better (?c j) (?c n)" using better_irrefl better_trans less_Suc_eq by metis
      with True f \<open>\<And>j. j < n \<Longrightarrow> better (?c n) (?c j)\<close> show ?thesis
        by (intro disjI2 exI [of _ n]) (simp add: step_def Let_def case_prod_unfold)
    next
      case False
      with none f show ?thesis by (simp add: step_def Let_def case_prod_unfold less_Suc_eq)
    qed
  next
    fix i assume i: "i < n" "better (?c i) s" "\<forall>j < n. \<not> better (?c j) (?c i)"
      "\<forall>j < i. better (?c i) (?c j)" and f: "fold step [0..<n] (s, None) = (?c i, Some (snd (cand i)))"
    show ?thesis
    proof (cases "better (?c n) (?c i)")
      case True
      have "better (?c n) (?c j)" if "j < n" for j using i(3) not_better_trans True that by blast
      then have "\<forall>j < Suc n. \<not> better (?c j) (?c n)" using better_irrefl better_trans less_Suc_eq by metis
      moreover have "better (?c n) s" using better_trans True i(2) by blast
      ultimately show ?thesis using f True \<open>\<And>j. j < n \<Longrightarrow> better (?c n) (?c j)\<close>
        by (intro disjI2 exI [of _ n]) (simp add: step_def Let_def case_prod_unfold)
    next
      case False
      with i f show ?thesis
        by (intro disjI2 exI [of _ i]) (simp add: step_def Let_def case_prod_unfold less_Suc_eq)
    qed
  qed
qed simp

lemma keep_best_exists:
  fixes cand :: "nat \<Rightarrow> 's \<times> 'm"
  assumes "k < n" "better (fst (cand k)) s"
  obtains i where "i < n" "better (fst (cand i)) s" "\<And>j. j < n \<Longrightarrow> \<not> better (fst (cand j)) (fst (cand i))"
    "\<And>j. j < i \<Longrightarrow> better (fst (cand i)) (fst (cand j))"
    "fold (\<lambda>i (s, m). let (s', m') = cand i in if better s' s then (s', Some m') else (s, m)) [0..<n] (s, None)
       = (fst (cand i), Some (snd (cand i)))"
  using keep_best [of n cand s] assms by blast

end

end
