(* ===== verification/QR_GF256.thy ===== *)
theory QR_GF256
  imports QR_Prelude
begin

text \<open>
  The mathematics behind \<open>rscode.c\<close>: a locale of fields of characteristic two in which
  polynomial evaluation, division by a shift register and the distance of a cyclic code
  are treated once, and the field \<open>GF(2^8)\<close> with the modulus \<open>0x11d\<close>, defined by
  shift-and-xor multiplication and shown to be an instance.
\<close>

section \<open>Fields of characteristic two\<close>

locale char2_field =
  fixes add :: "'a \<Rightarrow> 'a \<Rightarrow> 'a"
    and mul :: "'a \<Rightarrow> 'a \<Rightarrow> 'a"
    and zero :: 'a
    and one :: 'a
  assumes add_assoc: "add (add x y) z = add x (add y z)"
    and add_comm: "add x y = add y x"
    and add_zero: "add x zero = x"
    and add_self: "add x x = zero"
    and mul_assoc: "mul (mul x y) z = mul x (mul y z)"
    and mul_comm: "mul x y = mul y x"
    and mul_one: "mul x one = x"
    and distrib: "mul x (add y z) = add (mul x y) (mul x z)"
    and no_zero_div: "mul x y = zero \<Longrightarrow> x = zero \<or> y = zero"
    and one_neq_zero: "one \<noteq> zero"
begin

lemma add_left_comm: "add x (add y z) = add y (add x z)"
  by (metis add_assoc add_comm)

lemma add_cancel: "add x (add x y) = y"
  by (metis add_assoc add_comm add_self add_zero)

lemma mul_left_comm: "mul x (mul y z) = mul y (mul x z)"
  by (metis mul_assoc mul_comm)

lemma mul_zero: "mul x zero = zero"
  by (metis add_self distrib)

lemma zero_mul: "mul zero x = zero"
  by (metis mul_zero mul_comm)

lemma zero_add: "add zero x = x"
  by (metis add_zero add_comm)

lemma distrib_right: "mul (add x y) z = add (mul x z) (mul y z)"
  by (metis distrib mul_comm)

lemma one_mul: "mul one x = x"
  by (metis mul_one mul_comm)

lemma add_eq_zero_iff: "add x y = zero \<longleftrightarrow> x = y"
  by (metis add_assoc add_self add_zero zero_add)

lemmas add_ac = add_assoc add_comm add_left_comm
lemmas mul_ac = mul_assoc mul_comm mul_left_comm
lemmas ring_simps = add_zero zero_add add_self add_cancel mul_zero zero_mul mul_one one_mul

subsection \<open>Polynomials as coefficient lists, highest degree first\<close>

primrec pow :: "'a \<Rightarrow> nat \<Rightarrow> 'a" where
  "pow b 0 = one"
| "pow b (Suc n) = mul b (pow b n)"

primrec peval :: "'a \<Rightarrow> 'a list \<Rightarrow> 'a" where
  "peval b [] = zero"
| "peval b (c # cs) = add (mul c (pow b (length cs))) (peval b cs)"

lemma pow_add: "pow b (m + n) = mul (pow b m) (pow b n)"
  by (induction m) (simp_all add: ring_simps mul_assoc)

lemma peval_append: "peval b (xs @ ys) = add (mul (peval b xs) (pow b (length ys))) (peval b ys)"
  by (induction xs) (simp_all add: ring_simps pow_add distrib_right add_assoc mul_assoc)

lemma peval_snoc: "peval b (xs @ [c]) = add (mul b (peval b xs)) c"
  by (simp add: peval_append ring_simps mul_comm)

lemma peval_add:
  "length xs = length ys \<Longrightarrow> peval b (map2 add xs ys) = add (peval b xs) (peval b ys)"
  by (induction xs ys rule: list_induct2) (simp_all add: ring_simps distrib_right add_ac)

lemma peval_scale: "peval b (map (mul f) xs) = mul f (peval b xs)"
  by (induction xs) (simp_all add: ring_simps distrib mul_assoc)

lemma peval_zeros: "peval b (replicate n zero) = zero"
  by (induction n) (simp_all add: ring_simps)

subsection \<open>Division by a shift register\<close>

text \<open>
  \<open>G\<close> holds the coefficients of a monic generator below its leading one. \<open>lfsr\<close> is one
  step of the register; the register then holds the remainder of the symbols shifted in.
\<close>

definition lfsr :: "'a list \<Rightarrow> 'a \<Rightarrow> 'a list \<Rightarrow> 'a list" where
  "lfsr G d r = map2 add (tl r @ [zero]) (map (mul (add d (hd r))) G)"

lemma length_lfsr [simp]: "r \<noteq> [] \<Longrightarrow> length G = length r \<Longrightarrow> length (lfsr G d r) = length r"
  by (simp add: lfsr_def)

lemma length_fold_lfsr: "G \<noteq> [] \<Longrightarrow> length r = length G \<Longrightarrow> length (fold (lfsr G) ds r) = length G"
proof (induction ds arbitrary: r)
  case (Cons d ds)
  then have "length (lfsr G d r) = length G" by (metis length_0_conv length_lfsr)
  with Cons show ?case by simp
qed simp

lemma peval_lfsr:
  assumes "r \<noteq> []" "length G = length r" "peval b (one # G) = zero"
  shows "peval b (lfsr G d r) = add (mul b (peval b r)) (mul d (pow b (length r)))"
proof -
  obtain p ps where r: "r = p # ps" using assms(1) by (cases r) auto
  have G: "peval b G = pow b (length r)"
    using assms(2,3) by (simp add: ring_simps add_eq_zero_iff)
  have "peval b (lfsr G d r) = add (mul b (peval b ps)) (mul (add d p) (pow b (length r)))"
    using assms(2) by (simp add: lfsr_def r peval_add peval_snoc peval_scale ring_simps G [unfolded r])
  then show ?thesis
    by (simp add: r distrib distrib_right mul_ac add_ac)
qed

lemma peval_fold_lfsr:
  assumes "peval b (one # G) = zero" "r \<noteq> []" "length G = length r"
  shows "peval b (fold (lfsr G) ds r)
       = add (mul (pow b (length ds)) (peval b r)) (mul (peval b ds) (pow b (length r)))"
  using assms(2,3)
proof (induction ds arbitrary: r)
  case Nil
  then show ?case by (simp add: ring_simps)
next
  case (Cons d ds)
  have len: "length (lfsr G d r) = length r" using Cons.prems by simp
  then have ne: "lfsr G d r \<noteq> []" using Cons.prems(1) by (metis length_0_conv)
  have "peval b (fold (lfsr G) (d # ds) r)
      = add (mul (pow b (length ds)) (peval b (lfsr G d r))) (mul (peval b ds) (pow b (length r)))"
    using Cons.IH [OF ne] Cons.prems len by simp
  then show ?case
    using peval_lfsr [OF Cons.prems assms(1), of d] by (simp add: distrib distrib_right mul_ac add_ac)
qed

theorem lfsr_codeword:
  assumes "peval b (one # G) = zero" "G \<noteq> []"
  shows "peval b (ds @ fold (lfsr G) ds (replicate (length G) zero)) = zero"
proof -
  have "length (fold (lfsr G) ds (replicate (length G) zero)) = length G"
    using assms(2) by (simp add: length_fold_lfsr)
  then show ?thesis
    using peval_fold_lfsr [OF assms(1), of "replicate (length G) zero" ds] assms(2)
    by (simp add: peval_append peval_zeros ring_simps)
qed

subsection \<open>The generator from its roots\<close>

text \<open>Multiplying a polynomial by \<open>x + c\<close>.\<close>

definition mul_root :: "'a \<Rightarrow> 'a list \<Rightarrow> 'a list" where
  "mul_root c g = map2 add (g @ [zero]) (zero # map (mul c) g)"

lemma length_mul_root [simp]: "length (mul_root c g) = Suc (length g)"
  by (simp add: mul_root_def)

lemma peval_mul_root: "peval b (mul_root c g) = mul (add b c) (peval b g)"
  by (simp add: mul_root_def peval_add peval_snoc peval_scale ring_simps distrib_right)

lemma hd_mul_root: "g \<noteq> [] \<Longrightarrow> hd (mul_root c g) = hd g"
  by (cases g) (simp_all add: mul_root_def ring_simps)

lemma length_fold_mul_root: "length (fold mul_root cs g) = length g + length cs"
  by (induction cs arbitrary: g) auto

lemma peval_fold_mul_root_zero:
  "b \<in> set cs \<or> peval b g = zero \<Longrightarrow> peval b (fold mul_root cs g) = zero"
  by (induction cs arbitrary: g) (auto simp: peval_mul_root ring_simps)

lemma hd_fold_mul_root: "g \<noteq> [] \<Longrightarrow> hd (fold mul_root cs g) = hd g"
proof (induction cs arbitrary: g)
  case (Cons c cs)
  have "mul_root c g \<noteq> []" by (metis length_mul_root list.size(3) nat.simps(3))
  with Cons show ?case by (simp add: hd_mul_root)
qed simp

subsection \<open>Distance\<close>

text \<open>
  A weighted sum \<open>wsum\<close> over evaluation points that vanishes for the first \<open>n\<close> powers
  vanishes for every product of fewer than \<open>n\<close> linear factors; a word with at most \<open>n\<close>
  non-zero symbols and \<open>n\<close> consecutive roots is therefore zero.
\<close>

primrec wsum :: "('a \<times> 'a) list \<Rightarrow> ('a \<Rightarrow> 'a) \<Rightarrow> 'a" where
  "wsum [] h = zero"
| "wsum (cx # ps) h = add (mul (fst cx) (h (snd cx))) (wsum ps h)"

lemma wsum_add: "wsum ps (\<lambda>x. add (h x) (k x)) = add (wsum ps h) (wsum ps k)"
  by (induction ps) (simp_all add: ring_simps distrib add_ac)

lemma wsum_scale: "wsum ps (\<lambda>x. mul c (h x)) = mul c (wsum ps h)"
  by (induction ps) (simp_all add: ring_simps distrib mul_ac)

primrec lprod :: "'a list \<Rightarrow> 'a \<Rightarrow> 'a" where
  "lprod [] x = one"
| "lprod (c # cs) x = mul (add x c) (lprod cs x)"

lemma wsum_lprod_zero:
  assumes "\<And>i. i < n \<Longrightarrow> wsum ps (\<lambda>x. pow x i) = zero" and "i + length cs < n"
  shows "wsum ps (\<lambda>x. mul (pow x i) (lprod cs x)) = zero"
  using assms(2)
proof (induction cs arbitrary: i)
  case Nil
  then show ?case using assms(1) by (simp add: ring_simps)
next
  case (Cons c cs)
  have "wsum ps (\<lambda>x. mul (pow x i) (lprod (c # cs) x))
      = wsum ps (\<lambda>x. add (mul (pow x (Suc i)) (lprod cs x)) (mul c (mul (pow x i) (lprod cs x))))"
    by (simp add: distrib distrib_right mul_ac)
  also have "\<dots> = zero"
    using Cons.IH [of "Suc i"] Cons.IH [of i] Cons.prems
    by (simp add: wsum_add wsum_scale ring_simps)
  finally show ?case .
qed

lemma lprod_eq_zero_iff: "lprod cs x = zero \<longleftrightarrow> x \<in> set cs"
proof (induction cs)
  case (Cons c cs)
  then show ?case
    by (metis add_eq_zero_iff list.set_intros(1,2) lprod.simps(2) mul_zero no_zero_div set_ConsD zero_mul)
qed (simp add: one_neq_zero)

lemma wsum_zero: "(\<And>c x. (c, x) \<in> set ps \<Longrightarrow> mul c (h x) = zero) \<Longrightarrow> wsum ps h = zero"
  by (induction ps) (auto simp: ring_simps)

lemma wsum_filter: "wsum (filter (\<lambda>cx. fst cx \<noteq> zero) ps) h = wsum ps h"
  by (induction ps) (auto simp: ring_simps)

lemma wsum_vanish:
  assumes roots: "\<And>i. i < n \<Longrightarrow> wsum ps (\<lambda>x. pow x i) = zero"
    and dist: "distinct (map snd ps)"
    and few: "length (filter (\<lambda>cx. fst cx \<noteq> zero) ps) \<le> n"
  shows "\<forall>cx \<in> set ps. fst cx = zero"
proof (rule ccontr)
  let ?qs = "filter (\<lambda>cx. fst cx \<noteq> zero) ps"
  assume "\<not> (\<forall>cx \<in> set ps. fst cx = zero)"
  then obtain c x us vs where qs: "?qs = us @ (c, x) # vs" and c: "c \<noteq> zero"
  proof -
    from \<open>\<not> _\<close> obtain cx where "cx \<in> set ?qs" by auto
    with that [of _ "fst cx" "snd cx"] show thesis by (auto dest!: split_list)
  qed
  have "distinct (map snd ?qs)" using dist by (rule distinct_map_filter)
  then have x: "x \<notin> set (map snd (us @ vs))" by (auto simp: qs)
  have "wsum ?qs (\<lambda>z. mul (pow z 0) (lprod (map snd (us @ vs)) z)) = zero"
  proof (rule wsum_lprod_zero [where n = n])
    show "wsum ?qs (\<lambda>x. pow x i) = zero" if "i < n" for i
      using roots that by (simp only: wsum_filter)
    show "0 + length (map snd (us @ vs)) < n" using few by (simp add: qs)
  qed
  moreover have term0: "mul d (lprod (map snd (us @ vs)) z) = zero" if "(d, z) \<in> set (us @ vs)" for d z
  proof -
    have "z \<in> set (map snd (us @ vs))"
      using that by (metis image_eqI set_map snd_conv)
    then have "lprod (map snd (us @ vs)) z = zero" by (simp only: lprod_eq_zero_iff)
    then show ?thesis by (simp only: mul_zero)
  qed
  then have "wsum us (lprod (map snd (us @ vs))) = zero" "wsum vs (lprod (map snd (us @ vs))) = zero"
    by (auto intro!: wsum_zero)
  moreover have "wsum (as @ bs) h = add (wsum as h) (wsum bs h)" for as bs h
    by (induction as) (simp_all add: ring_simps add_assoc)
  ultimately have "mul c (lprod (map snd (us @ vs)) x) = zero"
    by (simp add: qs ring_simps)
  then have "c = zero \<or> lprod (map snd (us @ vs)) x = zero" by (rule no_zero_div)
  with c x show False by (simp only: lprod_eq_zero_iff simp_thms)
qed

lemma peval_wsum:
  "peval (pow a i) cs = wsum (zip cs (map (pow a) (rev [0..<length cs]))) (\<lambda>x. pow x i)"
proof (induction cs)
  case (Cons c cs)
  have "pow (pow a i) k = pow (pow a k) i" for k
  proof (induction k)
    case (Suc k)
    have "pow (mul a b) i = mul (pow a i) (pow b i)" for b
      by (induction i) (simp_all add: ring_simps mul_ac)
    with Suc show ?case by simp
  next
    case 0
    show ?case by (induction i) (simp_all add: ring_simps)
  qed
  with Cons show ?case by simp
qed simp

theorem few_symbols_zero:
  assumes "\<And>i. i < n \<Longrightarrow> peval (pow a i) cs = zero"
    and "inj_on (pow a) {..<length cs}"
    and "length (filter (\<lambda>c. c \<noteq> zero) cs) \<le> n"
  shows "\<forall>c \<in> set cs. c = zero"
proof -
  let ?xs = "map (pow a) (rev [0..<length cs])"
  have len: "length ?xs = length cs" by simp
  have "length (filter (\<lambda>cx. fst cx \<noteq> zero) (zip cs xs)) = length (filter (\<lambda>c. c \<noteq> zero) cs)"
    if "length xs = length cs" for xs :: "'a list"
    using that by (induction cs xs rule: list_induct2') auto
  then have "length (filter (\<lambda>cx. fst cx \<noteq> zero) (zip cs ?xs)) \<le> n"
    using assms(3) len by simp
  moreover have "distinct (map snd (zip cs ?xs))"
    using assms(2) by (simp add: distinct_map lessThan_atLeast0)
  ultimately have "\<forall>cx \<in> set (zip cs ?xs). fst cx = zero"
    using assms(1) by (intro wsum_vanish [where n = n]) (simp_all add: peval_wsum)
  then show ?thesis
    by (metis in_set_impl_in_set_zip1 fst_conv len)
qed

end

section \<open>The field with 256 elements\<close>

text \<open>Multiplication by \<open>x\<close> modulo \<open>x^8 + x^4 + x^3 + x^2 + 1\<close>, and by any element.\<close>

definition xtime :: "byte \<Rightarrow> byte" where
  "xtime a = push_bit 1 a XOR (if bit a 7 then 0x1d else 0)"

fun gmul_bits :: "nat \<Rightarrow> byte \<Rightarrow> byte \<Rightarrow> byte" where
  "gmul_bits 0 a b = 0"
| "gmul_bits (Suc i) a b = gmul_bits i a b XOR (if bit b i then (xtime ^^ i) a else 0)"

definition gmul :: "byte \<Rightarrow> byte \<Rightarrow> byte" where
  "gmul a b = gmul_bits 8 a b"

definition gpow :: "nat \<Rightarrow> byte" where
  "gpow n = (xtime ^^ n) 1"

lemma xtime_0 [simp]: "xtime 0 = 0"
  by (simp add: xtime_def)

lemma bit_xtime:
  "n < 8 \<Longrightarrow> bit (xtime a) n
     \<longleftrightarrow> (0 < n \<and> bit a (n - 1)) \<noteq> (bit a 7 \<and> bit (0x1d :: byte) n)"
  unfolding xtime_def bit_xor_iff bit_push_bit_iff by auto

lemma xtime_xor: "xtime (a XOR b) = xtime a XOR xtime b"
  by (auto simp: word_eq_bits_iff bit_xtime bit_xor_iff)

lemma xtime_pow_xor: "(xtime ^^ n) (a XOR b) = (xtime ^^ n) a XOR (xtime ^^ n) b"
  by (induction n) (simp_all add: xtime_xor)

lemma xtime_pow_0 [simp]: "(xtime ^^ n) 0 = 0"
  by (induction n) simp_all

text \<open>A property closed under xor need only be checked on the eight single-bit bytes.\<close>

lemma byte_linear_induct:
  assumes zero: "P 0" and one: "list_all P [1, 2, 4, 8, 16, 32, 64, 128]"
    and xor: "\<And>a b. P a \<Longrightarrow> P b \<Longrightarrow> P (a XOR b)"
  shows "P (a :: byte)"
proof -
  define c where "c i = (if bit a i then 2 ^ i else 0 :: byte)" for i
  have Pc: "P (c i)" if "i < 8" for i
  proof -
    have "i \<in> {0, 1, 2, 3, 4, 5, 6, 7}" using that by auto
    then have "P (2 ^ i)" using one by auto
    then show ?thesis using zero by (simp add: c_def)
  qed
  have "P (fold (\<lambda>i r. r XOR c i) is 0)" if "\<forall>i \<in> set is. i < 8" for "is"
  proof -
    have "P (fold (\<lambda>i r. r XOR c i) is r)" if "P r" "\<forall>i \<in> set is. i < 8" for r
      using that by (induction "is" arbitrary: r) (auto intro!: xor Pc)
    then show ?thesis using that zero by blast
  qed
  then have "P (fold (\<lambda>i r. r XOR c i) [0..<8] 0)" by simp
  moreover have "bit (fold (\<lambda>i r. r XOR c i) is r) n \<longleftrightarrow> bit r n \<noteq> (n \<in> set is \<and> bit a n)"
    if "distinct is" "n < 8" for "is" r n
    using that by (induction "is" arbitrary: r) (auto simp: bit_simps c_def)
  then have "fold (\<lambda>i r. r XOR c i) [0..<8] 0 = a"
    by (auto simp: word_eq_bits_iff)
  ultimately show ?thesis by simp
qed

lemma xtime_pow_8: "(xtime ^^ 8) a = (xtime ^^ 4) a XOR (xtime ^^ 3) a XOR (xtime ^^ 2) a XOR a"
proof (induction a rule: byte_linear_induct)
  show "list_all (\<lambda>a. (xtime ^^ 8) a = (xtime ^^ 4) a XOR (xtime ^^ 3) a XOR (xtime ^^ 2) a XOR a)
    [1, 2, 4, 8, 16, 32, 64, 128]"
    unfolding funpow_fold by (simp add: xtime_def upt_rec)
next
  fix a b :: byte
  assume "(xtime ^^ 8) a = (xtime ^^ 4) a XOR (xtime ^^ 3) a XOR (xtime ^^ 2) a XOR a"
    and "(xtime ^^ 8) b = (xtime ^^ 4) b XOR (xtime ^^ 3) b XOR (xtime ^^ 2) b XOR b"
  then show "(xtime ^^ 8) (a XOR b) = (xtime ^^ 4) (a XOR b) XOR (xtime ^^ 3) (a XOR b)
      XOR (xtime ^^ 2) (a XOR b) XOR (a XOR b)"
    by (simp add: xtime_pow_xor xor.assoc xor.commute xor.left_commute)
qed simp

subsection \<open>Powers of the primitive element\<close>

lemma gpow_Suc: "gpow (Suc n) = xtime (gpow n)"
  by (simp add: gpow_def)

lemma gpow_0 [simp]: "gpow 0 = 1"
  by (simp add: gpow_def)

lemma gpow_add: "gpow (m + n) = (xtime ^^ n) (gpow m)"
  by (metis add.commute comp_apply funpow_add gpow_def)

lemma gpow_values: "gpow 255 = 1" "gpow 85 \<noteq> 1" "gpow 51 \<noteq> 1" "gpow 15 \<noteq> 1"
  unfolding gpow_def funpow_fold by (simp_all add: xtime_def upt_rec)

lemma xtime_period: "(xtime ^^ 255) a = a"
proof (induction a rule: byte_linear_induct)
  show "list_all (\<lambda>a. (xtime ^^ 255) a = a) [1, 2, 4, 8, 16, 32, 64, 128]"
  proof -
    have p: "(xtime ^^ 255) (gpow n) = gpow n" for n
    proof -
      have "(xtime ^^ 255) (gpow n) = gpow (255 + n)" by (simp only: gpow_add [of n 255] add.commute)
      also have "\<dots> = (xtime ^^ n) 1" by (simp only: gpow_add [of 255 n] gpow_values)
      finally show ?thesis by (simp only: gpow_def)
    qed
    have eq: "[1, 2, 4, 8, 16, 32, 64, 128] = map gpow [0, 1, 2, 3, 4, 5, 6, 7]"
      unfolding gpow_def funpow_fold by (simp add: xtime_def upt_rec)
    show ?thesis
      unfolding eq list.pred_map comp_def p by (simp only: list.pred_inject simp_thms)
  qed
qed (simp_all add: xtime_pow_xor)

lemma inj_xtime: "inj xtime"
proof (rule injI)
  fix a b assume "xtime a = xtime b"
  then have "(xtime ^^ 254) (xtime a) = (xtime ^^ 254) (xtime b)" by simp
  then have "(xtime ^^ Suc 254) a = (xtime ^^ Suc 254) b" by (simp only: funpow_Suc_right comp_apply)
  then show "a = b" using xtime_period [of a] xtime_period [of b] by simp
qed

lemma gpow_diff: "i \<le> j \<Longrightarrow> gpow i = gpow j \<Longrightarrow> gpow (j - i) = 1"
proof (induction i arbitrary: j)
  case (Suc i)
  then obtain k where j: "j = Suc k" by (cases j) auto
  with Suc show ?case by (simp add: gpow_Suc inj_eq [OF inj_xtime])
qed simp

lemma gpow_mod: "gpow d = 1 \<Longrightarrow> gpow (n mod d) = gpow n"
proof -
  assume d: "gpow d = 1"
  have "gpow (d * k + r) = gpow r" for k r
  proof (induction k)
    case (Suc k)
    have "gpow (d + (d * k + r)) = gpow (d * k + r)"
      by (metis d gpow_add gpow_def)
    with Suc show ?case by (simp add: add.assoc)
  qed simp
  then show ?thesis by (metis mult_div_mod_eq)
qed

lemma gpow_gcd: "gpow m = 1 \<Longrightarrow> gpow n = 1 \<Longrightarrow> gpow (gcd m n) = 1"
proof (induction m n rule: gcd_nat_induct)
  case (step m n)
  then show ?case by (metis gcd_red_nat gpow_mod)
qed simp

lemma dvd_255_cases: "k dvd (255::nat) \<Longrightarrow> k \<noteq> 255 \<Longrightarrow> k dvd 85 \<or> k dvd 51 \<or> k dvd 15"
proof (rule ccontr)
  assume k: "k dvd (255::nat)" "k \<noteq> 255" and n: "\<not> (k dvd 85 \<or> k dvd 51 \<or> k dvd 15)"
  have c: "p dvd k" if "\<not> coprime p k" "\<forall>d \<in> {2..<p}. \<not> d dvd p" "1 < p" for p :: nat
  proof -
    have "gcd p k dvd p" "gcd p k \<noteq> 1" "gcd p k \<le> p" "gcd p k > 0"
      using that by (auto simp: coprime_iff_gcd_eq_1 intro: gcd_le1_nat)
    then have "gcd p k = p"
      using that(2) by (metis One_nat_def Suc_1 Suc_leI atLeastLessThan_iff nat_less_le not_less_eq_eq)
    then show ?thesis by (metis gcd_dvd2)
  qed
  have pr: "\<forall>d \<in> {2..<3}. \<not> d dvd (3::nat)" "\<forall>d \<in> {2..<5}. \<not> d dvd (5::nat)"
    "\<forall>d \<in> {2..<17}. \<not> d dvd (17::nat)"
    by (simp_all add: atLeastLessThan_nat_numeral flip: set_upt)
  have "\<not> coprime 3 k" "\<not> coprime 5 k" "\<not> coprime 17 k"
    using k(1) n coprime_dvd_mult_right_iff [of k 3 85] coprime_dvd_mult_right_iff [of k 5 51]
      coprime_dvd_mult_right_iff [of k 17 15] by (auto simp: coprime_commute)
  then have d: "3 dvd k" "5 dvd k" "17 dvd k" using c pr by simp_all
  have "3 * 5 dvd k" using d by (intro divides_mult) (simp_all add: coprime_iff_gcd_eq_1 gcd_non_0_nat)
  then have "15 * 17 dvd k" using d by (intro divides_mult) (simp_all add: coprime_iff_gcd_eq_1 gcd_non_0_nat)
  then show False using k by (simp add: dvd_antisym)
qed

lemma gpow_order: "0 < d \<Longrightarrow> d < 255 \<Longrightarrow> gpow d \<noteq> 1"
proof
  assume d: "0 < d" "d < 255" and "gpow d = 1"
  then have 1: "gpow (gcd d 255) = 1" by (simp add: gpow_gcd gpow_values)
  have "gcd d 255 < 255" using d by (metis gcd_le1_nat le_less_trans not_gr_zero)
  then have "gcd d 255 dvd 85 \<or> gcd d 255 dvd 51 \<or> gcd d 255 dvd 15"
    by (intro dvd_255_cases) simp_all
  then obtain k where "k \<in> {85, 51, 15}" "gcd d 255 dvd k" by auto
  then have "gpow k = 1" using 1 gpow_mod [OF 1, of k] by (simp add: dvd_eq_mod_eq_0)
  with \<open>k \<in> _\<close> show False using gpow_values by auto
qed

lemma inj_on_gpow: "inj_on gpow {..<255}"
proof (rule inj_onI)
  have "i = j" if "i \<le> j" "j < 255" "gpow i = gpow j" for i j
    using gpow_diff [of i j] gpow_order [of "j - i"] that by force
  then show "i = j" if "i \<in> {..<255}" "j \<in> {..<255}" "gpow i = gpow j" for i j
    using that by (metis lessThan_iff nle_le)
qed

lemma gpow_nonzero [simp]: "gpow n \<noteq> 0"
proof
  assume "gpow n = 0"
  then have "(xtime ^^ (255 * n - n)) (gpow n) = 0" by simp
  then have "gpow (255 * n) = 0" by (simp add: gpow_add [symmetric])
  then show False using gpow_mod [OF gpow_values(1), of "255 * n"] by simp
qed

lemma gpow_surj: "a \<noteq> 0 \<Longrightarrow> \<exists>k < 255. a = gpow k"
proof -
  have "card (gpow ` {..<255}) = 255" by (simp add: card_image inj_on_gpow)
  moreover have "card (UNIV - {0 :: byte}) = 255" by (simp add: card_Diff_subset card_word)
  moreover have "gpow ` {..<255} \<subseteq> UNIV - {0}" by auto
  ultimately have "gpow ` {..<255} = UNIV - {0}" by (metis card_subset_eq finite finite_Diff)
  then show "a \<noteq> 0 \<Longrightarrow> \<exists>k < 255. a = gpow k" by auto
qed

subsection \<open>Multiplication\<close>

definition xcond :: "bool \<Rightarrow> byte \<Rightarrow> byte" where
  "xcond p x = (if p then x else 0)"

lemma xcond_simps: "xcond (p \<noteq> q) x = xcond p x XOR xcond q x"
  "xcond p (x XOR y) = xcond p x XOR xcond p y" "xtime (xcond p x) = xcond p (xtime x)"
  by (auto simp: xcond_def)

lemma gmul_unfold: "gmul a b = xcond (bit b 0) a XOR xcond (bit b 1) ((xtime ^^ 1) a)
    XOR xcond (bit b 2) ((xtime ^^ 2) a) XOR xcond (bit b 3) ((xtime ^^ 3) a)
    XOR xcond (bit b 4) ((xtime ^^ 4) a) XOR xcond (bit b 5) ((xtime ^^ 5) a)
    XOR xcond (bit b 6) ((xtime ^^ 6) a) XOR xcond (bit b 7) ((xtime ^^ 7) a)"
  unfolding gmul_def xcond_def by (simp add: eval_nat_numeral xor.assoc)

lemma gmul_xor_right: "gmul a (b XOR c) = gmul a b XOR gmul a c"
  unfolding gmul_unfold bit_xor_iff xcond_simps by (simp only: xor.assoc xor.commute xor.left_commute)

lemma gmul_xtime: "gmul a (xtime b) = xtime (gmul a b)"
proof -
  have t: "xtime ((xtime ^^ n) a) = (xtime ^^ Suc n) a" for n by simp
  have bits: "bit (xtime b) 0 = bit b 7" "bit (xtime b) 1 = bit b 0"
    "bit (xtime b) 2 = (bit b 1 \<noteq> bit b 7)" "bit (xtime b) 3 = (bit b 2 \<noteq> bit b 7)"
    "bit (xtime b) 4 = (bit b 3 \<noteq> bit b 7)" "bit (xtime b) 5 = bit b 4"
    "bit (xtime b) 6 = bit b 5" "bit (xtime b) 7 = bit b 6"
    by (simp_all add: bit_xtime)
  have s: "xtime a = (xtime ^^ 1) a" "Suc 1 = 2" "Suc 2 = 3" "Suc 3 = 4" "Suc 4 = 5" "Suc 5 = 6" "Suc 6 = 7" "Suc 7 = 8"
    by simp_all
  show ?thesis
    unfolding gmul_unfold xtime_xor xcond_simps bits t s xtime_pow_8
    by (simp only: xor.assoc xor.commute xor.left_commute)
qed

lemma gmul_gpow: "gmul a (gpow n) = (xtime ^^ n) a"
proof (induction n)
  case 0
  show ?case unfolding gmul_unfold xcond_def by (simp add: bit_1_iff)
qed (simp add: gpow_Suc gmul_xtime)

lemma gmul_0 [simp]: "gmul a 0 = 0" "gmul 0 a = 0"
  by (simp_all add: gmul_unfold xcond_def)

lemma gmul_gpow_gpow: "gmul (gpow m) (gpow n) = gpow (m + n)"
  by (simp add: gmul_gpow gpow_add)

lemma byte_cases: obtains "a = 0" | k where "k < 255" "a = gpow k"
  using gpow_surj [of a] by blast

lemma gmul_comm: "gmul a b = gmul b a"
  by (cases a rule: byte_cases; cases b rule: byte_cases) (simp_all add: gmul_gpow_gpow add.commute)

lemma gmul_assoc: "gmul (gmul a b) c = gmul a (gmul b c)"
  by (cases a rule: byte_cases; cases b rule: byte_cases; cases c rule: byte_cases)
    (simp_all add: gmul_gpow_gpow add.assoc)

lemma gmul_eq_0: "gmul a b = 0 \<Longrightarrow> a = 0 \<or> b = 0"
  by (cases a rule: byte_cases; cases b rule: byte_cases) (simp_all add: gmul_gpow_gpow)

interpretation gf: char2_field "(XOR)" gmul "0 :: byte" 1
proof
  show "gmul x 1 = x" for x using gmul_gpow [of x 0] by simp
  show "gmul (gmul x y) z = gmul x (gmul y z)" for x y z by (rule gmul_assoc)
  show "gmul x y = gmul y x" for x y by (rule gmul_comm)
  show "(x XOR y) XOR z = x XOR (y XOR z)" for x y z :: byte by (rule xor.assoc)
qed (simp_all add: xor.commute gmul_xor_right gmul_eq_0)

lemma gf_pow_gpow: "gf.pow (gpow 1) i = gpow i"
proof (induction i)
  case (Suc i)
  then show ?case using gmul_gpow_gpow [of 1 i] by simp
qed simp

end
