(* ===== verification/QR_RScode.thy ===== *)
theory QR_RScode
  imports QR_GF256 "HOL-Library.While_Combinator"
begin

text \<open>
  \<open>rscode.c\<close>: the Reed-Solomon encoder. The control block with its logarithm tables and
  its generator polynomial, the cache of control blocks and the encoder are translated
  statement by statement; the tables are then shown to be those of \<open>GF(2^8)\<close>, and the
  encoder to be division by the generator. Allocation is taken to succeed; the mutex
  around the cache is left out, so the cache operations are those of one thread.
\<close>

section \<open>State\<close>

record RS =
  rs_mm :: nat
  rs_nn :: nat
  rs_alpha_to :: "byte list"
  rs_index_of :: "byte list"
  rs_genpoly :: "byte list"
  rs_nroots :: nat
  rs_fcr :: nat
  rs_prim :: nat
  rs_iprim :: nat
  rs_pad :: nat
  rs_gfpoly :: nat

text \<open>
  \<open>modnn\<close>: the loop is kept as a loop. \<open>while_option\<close> returns \<open>None\<close> where it does not
  end, which \<open>modnn_opt_eq\<close> below excludes for every control block with
  \<open>nn = 2^mm - 1\<close> and \<open>mm > 0\<close>.
\<close>

definition modnn_opt :: "nat \<Rightarrow> nat \<Rightarrow> nat \<Rightarrow> nat option" where
  "modnn_opt m n x =
     while_option (\<lambda>x. n \<le> x) (\<lambda>x. drop_bit m (x - n) + ((x - n) AND n)) x"

definition modnn :: "nat \<Rightarrow> nat \<Rightarrow> nat \<Rightarrow> nat" where
  "modnn m n x = (case modnn_opt m n x of Some y \<Rightarrow> y | None \<Rightarrow> 0)"

section \<open>Initialisation\<close>

text \<open>The next power of the primitive element: \<open>sr\<close> in the table loop.\<close>

definition gf_next :: "nat \<Rightarrow> nat \<Rightarrow> nat \<Rightarrow> nat \<Rightarrow> nat" where
  "gf_next symsize gfpoly n sr =
     (let s1 = push_bit 1 sr;
          s2 = (if s1 AND 2 ^ symsize \<noteq> 0 then s1 XOR gfpoly else s1)
      in s2 AND n)"

fun gf_tables_step :: "nat \<Rightarrow> nat \<Rightarrow> nat \<Rightarrow> nat \<Rightarrow> nat \<times> byte list \<times> byte list
    \<Rightarrow> nat \<times> byte list \<times> byte list" where
  "gf_tables_step symsize gfpoly n i (sr, idx, alp) =
     (gf_next symsize gfpoly n sr, idx[sr := word_of_nat i], alp[i := word_of_nat sr])"

definition gf_tables :: "nat \<Rightarrow> nat \<Rightarrow> nat \<Rightarrow> nat \<times> byte list \<times> byte list" where
  "gf_tables symsize gfpoly n =
     fold (gf_tables_step symsize gfpoly n) [0..<n]
       (1, (replicate (Suc n) 0)[0 := word_of_nat n], (replicate (Suc n) 0)[n := 0])"

text \<open>One round of the generator loop: multiplication by the root \<open>alpha^root\<close>, in place.\<close>

definition genpoly_round :: "nat \<Rightarrow> nat \<Rightarrow> byte list \<Rightarrow> byte list \<Rightarrow> nat \<Rightarrow> nat \<Rightarrow> byte list \<Rightarrow> byte list" where
  "genpoly_round m n alp idx root i g =
     (let g1 = g[Suc i := 1];
          g2 = fold (\<lambda>j g. g[j := (if g ! j \<noteq> 0
                                 then g ! (j - 1) XOR alp ! modnn m n (unat (idx ! unat (g ! j)) + root)
                                 else g ! (j - 1))])
                 (rev [1..<Suc i]) g1
      in g2[0 := alp ! modnn m n (unat (idx ! unat (g2 ! 0)) + root)])"

definition genpoly_coeffs :: "nat \<Rightarrow> nat \<Rightarrow> byte list \<Rightarrow> byte list \<Rightarrow> nat \<Rightarrow> nat \<Rightarrow> nat \<Rightarrow> byte list" where
  "genpoly_coeffs m n alp idx fcr prim nroots =
     fold (\<lambda>i. genpoly_round m n alp idx (fcr * prim + i * prim) i) [0..<nroots]
       ((replicate (Suc nroots) 0)[0 := 1])"

definition init_rs_char :: "int \<Rightarrow> nat \<Rightarrow> int \<Rightarrow> int \<Rightarrow> int \<Rightarrow> int \<Rightarrow> RS res" where
  "init_rs_char symsize gfpoly fcr prim nroots pad =
     (if symsize < 0 \<or> symsize > 8 then Inl ENOERR
      else if fcr < 0 \<or> fcr \<ge> 2 ^ nat symsize then Inl ENOERR
      else if prim \<le> 0 \<or> prim \<ge> 2 ^ nat symsize then Inl ENOERR
      else if nroots < 0 \<or> nroots \<ge> 2 ^ nat symsize then Inl ENOERR
      else if pad < 0 \<or> pad \<ge> 2 ^ nat symsize - 1 - nroots then Inl ENOERR
      else let m = nat symsize; n = 2 ^ m - 1;
               (sr, idx, alp) = gf_tables m gfpoly n
           in if sr \<noteq> 1 then Inl ENOERR
              else case while_option (\<lambda>ip. ip mod nat prim \<noteq> 0) (\<lambda>ip. ip + n) 1 of
                     None \<Rightarrow> Inl EHANG
                   | Some ip \<Rightarrow>
                       Inr \<lparr>rs_mm = m, rs_nn = n, rs_alpha_to = alp, rs_index_of = idx,
                            rs_genpoly = map (\<lambda>c. idx ! unat c)
                              (genpoly_coeffs m n alp idx (nat fcr) (nat prim) (nat nroots)),
                            rs_nroots = nat nroots, rs_fcr = nat fcr, rs_prim = nat prim,
                            rs_iprim = ip div nat prim, rs_pad = nat pad, rs_gfpoly = gfpoly\<rparr>)"

text \<open>\<open>rslist\<close> is the argument and, updated, the second component of the result.\<close>

definition init_rs :: "RS list \<Rightarrow> int \<Rightarrow> nat \<Rightarrow> int \<Rightarrow> int \<Rightarrow> int \<Rightarrow> int \<Rightarrow> RS res \<times> RS list" where
  "init_rs rslist symsize gfpoly fcr prim nroots pad =
     (case find (\<lambda>rs. int (rs_pad rs) = pad \<and> int (rs_nroots rs) = nroots
                    \<and> int (rs_mm rs) = symsize \<and> rs_gfpoly rs = gfpoly
                    \<and> int (rs_fcr rs) = fcr \<and> int (rs_prim rs) = prim) rslist of
        Some rs \<Rightarrow> (Inr rs, rslist)
      | None \<Rightarrow>
          (case init_rs_char symsize gfpoly fcr prim nroots pad of
             Inl e \<Rightarrow> (Inl e, rslist)
           | Inr rs \<Rightarrow> (Inr rs, rs # rslist)))"

definition free_rs_cache :: "RS list \<Rightarrow> RS list" where
  "free_rs_cache rslist = []"

section \<open>Encoding\<close>

definition encode_step :: "RS \<Rightarrow> byte \<Rightarrow> byte list \<Rightarrow> byte list" where
  "encode_step rs d parity =
     (let n = rs_nroots rs;
          feedback = rs_index_of rs ! unat (d XOR parity ! 0);
          A0 = word_of_nat (rs_nn rs);
          gf = (\<lambda>k. rs_alpha_to rs ! modnn (rs_mm rs) (rs_nn rs) (unat feedback + unat (rs_genpoly rs ! k)));
          p1 = (if feedback \<noteq> A0
                then fold (\<lambda>j p. p[j := p ! j XOR gf (n - j)]) [1..<n] parity
                else parity);
          p2 = take (n - 1) (drop 1 p1) @ drop (n - 1) p1
      in p2[n - 1 := (if feedback \<noteq> A0 then gf 0 else 0)])"

definition encode_rs_char :: "RS \<Rightarrow> byte list \<Rightarrow> byte list" where
  "encode_rs_char rs data =
     fold (encode_step rs) (take (rs_nn rs - rs_nroots rs - rs_pad rs) data) (replicate (rs_nroots rs) 0)"

section \<open>Reduction modulo \<open>nn\<close>\<close>

lemma modnn_step:
  fixes y :: nat
  assumes "n = 2 ^ m - 1" "0 < m"
  shows "(drop_bit m y + (y AND n)) mod n = y mod n" and "drop_bit m y + (y AND n) \<le> y"
proof -
  have a: "y AND n = y mod 2 ^ m"
    by (simp only: assms(1) mask_eq_exp_minus_1 [symmetric] take_bit_eq_mask [symmetric] take_bit_eq_mod)
  have q: "y = (y div 2 ^ m) * n + (y div 2 ^ m + y mod 2 ^ m)"
    using assms div_mult_mod_eq [of y "2 ^ m"] by (simp add: algebra_simps diff_mult_distrib)
  show "(drop_bit m y + (y AND n)) mod n = y mod n"
    by (subst (2) q) (simp add: a drop_bit_eq_div)
  show "drop_bit m y + (y AND n) \<le> y"
    by (subst (2) q) (simp add: a drop_bit_eq_div)
qed

lemma modnn_opt_eq:
  assumes "n = 2 ^ m - 1" "0 < m"
  shows "modnn_opt m n x = Some (x mod n)"
proof -
  have n: "0 < n" using assms one_less_power [of "2::nat" m] by simp
  let ?c = "\<lambda>x. drop_bit m (x - n) + ((x - n) AND n)"
  have dec: "?c y < y" if "n \<le> y" for y
    using modnn_step(2) [OF assms, of "y - n"] that n by simp
  obtain r where r: "while_option (\<lambda>x. n \<le> x) ?c x = Some r"
    using measure_while_option_Some [of "\<lambda>_. True" "\<lambda>x. n \<le> x" ?c "\<lambda>y. y" x] dec by auto
  have "r mod n = x mod n"
  proof (rule while_option_rule [where P = "\<lambda>y. y mod n = x mod n", OF _ r])
    show "?c y mod n = x mod n" if "y mod n = x mod n" "n \<le> y" for y
      using modnn_step(1) [OF assms, of "y - n"] that by (simp add: le_mod_geq [symmetric])
  qed simp
  moreover have "r < n" using while_option_stop [OF r] by simp
  ultimately show ?thesis using r by (simp add: modnn_opt_def)
qed

lemma modnn_eq: "n = 2 ^ m - 1 \<Longrightarrow> 0 < m \<Longrightarrow> modnn m n x = x mod n"
  by (simp add: modnn_def modnn_opt_eq)

lemma modnn_8: "modnn 8 255 x = x mod 255"
  by (rule modnn_eq) simp_all

section \<open>The tables\<close>

definition rs_tables :: "byte list \<Rightarrow> byte list \<Rightarrow> bool" where
  "rs_tables idx alp \<longleftrightarrow> length idx = 256 \<and> length alp = 256
     \<and> (\<forall>i < 255. alp ! i = gpow i) \<and> alp ! 255 = 0
     \<and> (\<forall>i < 255. idx ! unat (gpow i) = word_of_nat i) \<and> idx ! 0 = 255"

lemma gf_next_xtime: "gf_next 8 0x11d 255 (unat a) = unat (xtime a)"
proof -
  define s2 where "s2 = (if bit a 7 then push_bit 1 (unat a) XOR 0x11d else push_bit 1 (unat a))"
  have "push_bit 1 (unat a) AND 2 ^ 8 = 0 \<longleftrightarrow> \<not> bit a 7"
    unfolding and_exp_eq_0_iff_not_bit bit_push_bit_iff by (simp add: bit_unsigned_iff)
  moreover have "(255 :: nat) = mask 8" by (simp add: mask_eq_exp_minus_1)
  ultimately have g: "gf_next 8 0x11d 255 (unat a) = take_bit 8 s2"
    unfolding gf_next_def Let_def s2_def by (simp only: take_bit_eq_mask if_not_P if_P simp_thms split: if_split)
  have b: "bit (0x11d :: nat) n = bit (0x1d :: byte) n" if "n < 8" for n
  proof -
    have "n \<in> {0, 1, 2, 3, 4, 5, 6, 7}" using that by auto
    then show ?thesis by auto
  qed
  have "bit (take_bit 8 s2) n = bit (unat (xtime a)) n" for n
  proof (cases "n < 8")
    case True
    then show ?thesis
      unfolding bit_take_bit_iff bit_unsigned_iff bit_xtime [OF True] s2_def
      by (simp only: if_distrib [of "\<lambda>x. bit x n"] bit_xor_iff bit_push_bit_iff bit_unsigned_iff b) auto
  qed (auto simp: bit_take_bit_iff bit_unsigned_iff dest: bit_imp_le_length)
  then show ?thesis unfolding g by (rule bit_eqI)
qed

lemma unat_gpow_inj: "i < 255 \<Longrightarrow> j < 255 \<Longrightarrow> unat (gpow i) = unat (gpow j) \<Longrightarrow> i = j"
  by (metis inj_onD inj_on_gpow lessThan_iff word_unat_eq_iff)

lemma unat_gpow_bounds: "0 < unat (gpow i)" "unat (gpow i) < 256"
  using unat_byte_less [of "gpow i"] by (simp_all add: unat_gt_0)

lemma gf_tables_prefix:
  assumes "k \<le> 255"
  shows "\<exists>idx alp. fold (gf_tables_step 8 0x11d 255) [0..<k] (1, (replicate 256 0)[0 := 255], (replicate 256 0)[255 := 0]) = (unat (gpow k), idx, alp)
     \<and> length idx = 256 \<and> length alp = 256 \<and> idx ! 0 = 255 \<and> alp ! 255 = 0
     \<and> (\<forall>i < k. idx ! unat (gpow i) = word_of_nat i) \<and> (\<forall>i < k. alp ! i = gpow i)"
  using assms
proof (induction k)
  case 0
  show ?case by simp
next
  case (Suc k)
  then obtain idx alp where IH:
    "fold (gf_tables_step 8 0x11d 255) [0..<k] (1, (replicate 256 0)[0 := 255], (replicate 256 0)[255 := 0]) = (unat (gpow k), idx, alp)"
    "length idx = 256" "length alp = 256" "idx ! 0 = 255" "alp ! 255 = 0"
    "\<forall>i < k. idx ! unat (gpow i) = word_of_nat i" "\<forall>i < k. alp ! i = gpow i"
    by (meson Suc_leD)
  have "\<forall>i < Suc k. idx[unat (gpow k) := word_of_nat k] ! unat (gpow i) = word_of_nat i"
  proof -
    have "unat (gpow k) \<noteq> unat (gpow i)" if "i < k" for i
      using unat_gpow_inj [of i k] that Suc.prems by auto
    then show ?thesis
      using IH(2,6) unat_gpow_bounds(2) [of k] by (auto simp: less_Suc_eq nth_list_update)
  qed
  moreover have "\<forall>i < Suc k. alp[k := word_of_nat (unat (gpow k))] ! i = gpow i"
    using IH(3,7) Suc.prems by (auto simp: less_Suc_eq nth_list_update)
  moreover have "idx[unat (gpow k) := word_of_nat k] ! 0 = 255"
    using IH(4) unat_gpow_bounds(1) [of k] by (simp add: nth_list_update)
  ultimately show ?case
    using IH Suc.prems by (simp add: gf_next_xtime gpow_Suc)
qed

lemma gf_tables_correct:
  "\<exists>idx alp. gf_tables 8 0x11d 255 = (1, idx, alp) \<and> rs_tables idx alp"
proof -
  have "gpow 255 = 1" "Suc 255 = 256" "word_of_nat 255 = (255 :: byte)" by (simp_all add: gpow_values)
  then show ?thesis
    using gf_tables_prefix [of 255] unfolding gf_tables_def rs_tables_def by auto
qed

lemma rs_tables_index:
  assumes "rs_tables idx alp" "a \<noteq> 0"
  shows "idx ! unat a \<noteq> 255" and "gpow (unat (idx ! unat a)) = a"
proof -
  obtain k where k: "k < 255" "a = gpow k" using gpow_surj [OF assms(2)] by blast
  then have *: "idx ! unat a = word_of_nat k" using assms(1) by (simp add: rs_tables_def)
  then show "gpow (unat (idx ! unat a)) = a" using k by (simp add: unat_of_nat)
  have "unat (word_of_nat k :: byte) = k" using k(1) by (simp add: unat_of_nat)
  then show "idx ! unat a \<noteq> 255" using * k(1) by auto
qed

lemma rs_tables_mul:
  assumes "rs_tables idx alp" "a \<noteq> 0"
  shows "alp ! modnn 8 255 (unat (idx ! unat a) + r) = gmul a (gpow r)"
proof -
  have "alp ! ((unat (idx ! unat a) + r) mod 255) = gpow ((unat (idx ! unat a) + r) mod 255)"
    using assms(1) by (simp add: rs_tables_def)
  also have "\<dots> = gmul (gpow (unat (idx ! unat a))) (gpow r)"
    by (simp add: gpow_mod gpow_values gmul_gpow_gpow)
  finally show ?thesis using rs_tables_index(2) [OF assms] by (simp add: modnn_8)
qed

section \<open>The generator polynomial\<close>

text \<open>\<open>gen_poly ks\<close> is the product of \<open>x + alpha^k\<close> over \<open>ks\<close>, highest coefficient first.\<close>

definition gen_poly :: "nat list \<Rightarrow> byte list" where
  "gen_poly ks = fold gf.mul_root (map gpow ks) [1]"

lemma length_gen_poly [simp]: "length (gen_poly ks) = Suc (length ks)"
  by (simp add: gen_poly_def gf.length_fold_mul_root)

lemma gen_poly_snoc: "gen_poly (ks @ [k]) = gf.mul_root (gpow k) (gen_poly ks)"
  by (simp add: gen_poly_def)

lemma hd_gen_poly: "hd (gen_poly ks) = 1"
  by (simp add: gen_poly_def gf.hd_fold_mul_root)

lemma gen_poly_root: "k \<in> set ks \<Longrightarrow> gf.peval (gpow k) (gen_poly ks) = 0"
  by (simp add: gen_poly_def gf.peval_fold_mul_root_zero)

lemma rev_mul_root:
  "rev (gf.mul_root c g) = map2 (XOR) (0 # rev g) (map (gmul c) (rev g) @ [0])"
proof -
  have "rev (gf.mul_root c g) = map2 (XOR) (rev (g @ [0])) (rev (0 # map (gmul c) g))"
    unfolding gf.mul_root_def by (subst zip_rev) (simp_all only: rev_map length_append length_Cons length_map list.size)
  then show ?thesis by (simp add: rev_map)
qed

lemma nth_descending_update:
  assumes "i < length g"
  shows "fold (\<lambda>j g. g[j := F (g ! (j - 1)) (g ! j)]) (rev [1..<Suc i]) g ! k
       = (if 1 \<le> k \<and> k \<le> i then F (g ! (k - 1)) (g ! k) else g ! k)"
    and "length (fold (\<lambda>j g. g[j := F (g ! (j - 1)) (g ! j)]) (rev [1..<Suc i]) g) = length g"
  using assms
proof (induction i arbitrary: g)
  case (Suc i)
  {
    case 1
    then show ?case using Suc(1) [of "g[Suc i := F (g ! i) (g ! Suc i)]"]
      by (auto simp: nth_list_update le_Suc_eq)
  next
    case 2
    then show ?case using Suc(2) [of "g[Suc i := F (g ! i) (g ! Suc i)]"] by simp
  }
qed auto

lemma genpoly_round_eq:
  assumes "rs_tables idx alp" "Suc i < length g" "g ! 0 \<noteq> 0" "g ! i = 1"
  shows "take (Suc (Suc i)) (genpoly_round 8 255 alp idx root i g)
       = map2 (XOR) (0 # take (Suc i) g) (map (gmul (gpow root)) (take (Suc i) g) @ [0])"
    and "length (genpoly_round 8 255 alp idx root i g) = length g"
proof -
  let ?F = "\<lambda>a b. if b \<noteq> 0 then a XOR alp ! modnn 8 255 (unat (idx ! unat b) + root) else a"
  have F: "?F a b = a XOR gmul (gpow root) b" for a b
    using rs_tables_mul [OF assms(1)] by (simp add: gmul_comm)
  define g1 where "g1 = g[Suc i := 1]"
  define g2 where "g2 = fold (\<lambda>j g. g[j := ?F (g ! (j - 1)) (g ! j)]) (rev [1..<Suc i]) g1"
  have g2: "g2 ! k = (if 1 \<le> k \<and> k \<le> i then g1 ! (k - 1) XOR gmul (gpow root) (g1 ! k) else g1 ! k)" for k
    using assms(2) nth_descending_update(1) [of i g1 ?F k] unfolding g2_def F by (simp add: g1_def)
  have len: "length g2 = length g"
    using assms(2) nth_descending_update(2) [of i g1 ?F] by (simp add: g2_def g1_def)
  have "genpoly_round 8 255 alp idx root i g
      = g2[0 := alp ! modnn 8 255 (unat (idx ! unat (g2 ! 0)) + root)]"
    unfolding genpoly_round_def Let_def g2_def g1_def by (rule refl)
  moreover have "g2 ! 0 = g ! 0" by (simp add: g2 g1_def)
  ultimately have r: "genpoly_round 8 255 alp idx root i g = g2[0 := gmul (gpow root) (g ! 0)]"
    using rs_tables_mul [OF assms(1,3)] by (simp add: gmul_comm)
  have len0: "0 < length g2" using assms(2) len by linarith
  show "length (genpoly_round 8 255 alp idx root i g) = length g" by (simp add: r len)
  show "take (Suc (Suc i)) (genpoly_round 8 255 alp idx root i g)
       = map2 (XOR) (0 # take (Suc i) g) (map (gmul (gpow root)) (take (Suc i) g) @ [0])"
  proof (rule nth_equalityI)
    fix k assume "k < length (take (Suc (Suc i)) (genpoly_round 8 255 alp idx root i g))"
    then have "k < Suc (Suc i)" by simp
    then consider "k = 0" | "1 \<le> k" "k \<le> i" | "k = Suc i" by linarith
    then show "take (Suc (Suc i)) (genpoly_round 8 255 alp idx root i g) ! k
       = map2 (XOR) (0 # take (Suc i) g) (map (gmul (gpow root)) (take (Suc i) g) @ [0]) ! k"
      using assms(2,4) len0 by cases (auto simp: r g2 g1_def nth_append nth_Cons' len)
  qed (use assms(2) len in \<open>simp add: r\<close>)
qed

lemma last_mul_root: "g \<noteq> [] \<Longrightarrow> last (gf.mul_root c g) = gmul c (last g)"
proof -
  assume "g \<noteq> []"
  then obtain y ys where "rev g = y # ys" "last g = y"
    by (metis hd_rev list.exhaust_sel rev_is_Nil_conv)
  then have "hd (rev (gf.mul_root c g)) = gmul c (last g)"
    unfolding rev_mul_root by simp
  then show ?thesis by (simp only: hd_rev)
qed

lemma last_gen_poly: "last (gen_poly ks) \<noteq> 0"
proof (induction ks rule: rev_induct)
  case (snoc k ks)
  have "gen_poly ks \<noteq> []" by (metis length_gen_poly list.size(3) nat.simps(3))
  with snoc show ?case by (auto simp: gen_poly_snoc last_mul_root dest: gmul_eq_0)
qed (simp add: gen_poly_def)

lemma genpoly_coeffs_prefix:
  assumes "rs_tables idx alp" "k \<le> nroots"
  shows "take (Suc k) (fold (\<lambda>i. genpoly_round 8 255 alp idx (f + i * p) i) [0..<k]
           ((replicate (Suc nroots) 0)[0 := 1])) = rev (gen_poly (map (\<lambda>i. f + i * p) [0..<k]))
     \<and> length (fold (\<lambda>i. genpoly_round 8 255 alp idx (f + i * p) i) [0..<k]
           ((replicate (Suc nroots) 0)[0 := 1])) = Suc nroots"
  using assms(2)
proof (induction k)
  case 0
  show ?case by (simp add: gen_poly_def)
next
  case (Suc k)
  define g where "g = fold (\<lambda>i. genpoly_round 8 255 alp idx (f + i * p) i) [0..<k]
    ((replicate (Suc nroots) 0)[0 := 1])"
  define q where "q = gen_poly (map (\<lambda>i. f + i * p) [0..<k])"
  have IH: "take (Suc k) g = rev q" "length g = Suc nroots"
    unfolding g_def q_def using Suc by simp_all
  have q: "length q = Suc k" "hd q = 1" "last q \<noteq> 0"
    by (simp_all add: q_def hd_gen_poly last_gen_poly)
  have g: "g ! j = rev q ! j" if "j < Suc k" for j
    using that by (simp flip: IH(1))
  have "q \<noteq> []" using q(1) by auto
  then have g0: "g ! 0 \<noteq> 0" and gk: "g ! k = 1"
    using g [of 0] g [of k] q by (simp_all add: rev_nth last_conv_nth hd_conv_nth)
  have "take (Suc (Suc k)) (genpoly_round 8 255 alp idx (f + k * p) k g)
      = rev (gf.mul_root (gpow (f + k * p)) q)"
    using genpoly_round_eq(1) [OF assms(1) _ g0 gk] Suc.prems IH by (simp add: rev_mul_root)
  then show ?case
    using genpoly_round_eq(2) [OF assms(1) _ g0 gk] Suc.prems IH(2)
    by (simp add: gen_poly_snoc g_def q_def)
qed

lemma genpoly_coeffs_eq:
  assumes "rs_tables idx alp"
  shows "genpoly_coeffs 8 255 alp idx fcr prim nroots
       = rev (gen_poly (map (\<lambda>i. fcr * prim + i * prim) [0..<nroots]))"
  using genpoly_coeffs_prefix [OF assms order_refl, of nroots "fcr * prim" prim]
  by (metis genpoly_coeffs_def order_refl take_all)

text \<open>No coefficient of the generator is zero: its logarithm form is never the code of zero.\<close>

lemma gen_poly_consecutive_root:
  "i < n \<Longrightarrow> gf.peval (gf.pow (gpow 1) i) (gen_poly [0..<n]) = 0"
  unfolding gf_pow_gpow by (rule gen_poly_root) simp

lemma gen_poly_coeff_nonzero:
  assumes "n < 255" "c \<in> set (gen_poly [0..<n])"
  shows "c \<noteq> 0"
proof
  assume "c = 0"
  let ?g = "gen_poly [0..<n]"
  have "length (filter (\<lambda>c. c \<noteq> 0) ?g) < length ?g"
    using assms(2) \<open>c = 0\<close> by (intro length_filter_less) auto
  then have "length (filter (\<lambda>c. c \<noteq> 0) ?g) \<le> n" by simp
  moreover have "inj_on (gf.pow (gpow 1)) {..<length ?g}"
  proof -
    have "gf.pow (gpow 1) = gpow" by (rule ext) (rule gf_pow_gpow)
    moreover have "{..<length ?g} \<subseteq> {..<255}" using assms(1) by auto
    ultimately show ?thesis by (simp only: inj_on_subset [OF inj_on_gpow])
  qed
  ultimately have "\<forall>c \<in> set ?g. c = 0"
    using gf.few_symbols_zero [of n "gpow 1" ?g] gen_poly_consecutive_root by blast
  moreover have "hd ?g \<in> set ?g" by (metis hd_in_set length_gen_poly list.size(3) nat.simps(3))
  ultimately show False using hd_gen_poly [of "[0..<n]"] by auto
qed

section \<open>Control blocks and their cache\<close>

definition rs_ok :: "RS \<Rightarrow> nat \<Rightarrow> nat \<Rightarrow> bool" where
  "rs_ok rs n pad \<longleftrightarrow> rs_mm rs = 8 \<and> rs_nn rs = 255 \<and> rs_tables (rs_index_of rs) (rs_alpha_to rs)
     \<and> rs_genpoly rs = map (\<lambda>c. rs_index_of rs ! unat c) (rev (gen_poly [0..<n]))
     \<and> rs_nroots rs = n \<and> rs_pad rs = pad \<and> rs_fcr rs = 0 \<and> rs_prim rs = 1 \<and> rs_gfpoly rs = 0x11d"

lemma init_rs_char_ok:
  assumes "0 \<le> nroots" "0 \<le> pad" "nroots + pad < 255"
  shows "\<exists>rs. init_rs_char 8 0x11d 0 1 nroots pad = Inr rs \<and> rs_ok rs (nat nroots) (nat pad)"
proof -
  obtain idx alp where t: "gf_tables 8 0x11d 255 = (1, idx, alp)" "rs_tables idx alp"
    using gf_tables_correct by blast
  have "while_option (\<lambda>ip. ip mod 1 \<noteq> (0::nat)) (\<lambda>ip. ip + 255) 1 = Some 1"
    by (subst while_option_unfold) simp
  then show ?thesis
    using assms t genpoly_coeffs_eq [OF t(2), of 0 1 "nat nroots"]
    by (simp add: init_rs_char_def rs_ok_def)
qed

text \<open>The cache holds only blocks that \<open>init_rs_char\<close> built for the parameters they record.\<close>

definition rslist_inv :: "RS list \<Rightarrow> bool" where
  "rslist_inv rslist \<longleftrightarrow> (\<forall>rs \<in> set rslist.
     init_rs_char (int (rs_mm rs)) (rs_gfpoly rs) (int (rs_fcr rs)) (int (rs_prim rs))
       (int (rs_nroots rs)) (int (rs_pad rs)) = Inr rs)"

lemma init_rs_char_params:
  "init_rs_char symsize gfpoly fcr prim nroots pad = Inr rs \<Longrightarrow>
     int (rs_mm rs) = symsize \<and> rs_gfpoly rs = gfpoly \<and> int (rs_fcr rs) = fcr \<and> int (rs_prim rs) = prim
     \<and> int (rs_nroots rs) = nroots \<and> int (rs_pad rs) = pad"
  by (auto simp: init_rs_char_def Let_def split: if_splits prod.splits option.splits)

lemma init_rs_transparent:
  assumes "rslist_inv rslist"
  shows "fst (init_rs rslist symsize gfpoly fcr prim nroots pad) = init_rs_char symsize gfpoly fcr prim nroots pad"
    and "rslist_inv (snd (init_rs rslist symsize gfpoly fcr prim nroots pad))"
proof -
  let ?Q = "\<lambda>rs. int (rs_pad rs) = pad \<and> int (rs_nroots rs) = nroots \<and> int (rs_mm rs) = symsize
    \<and> rs_gfpoly rs = gfpoly \<and> int (rs_fcr rs) = fcr \<and> int (rs_prim rs) = prim"
  let ?c = "init_rs_char symsize gfpoly fcr prim nroots pad"
  have "fst (init_rs rslist symsize gfpoly fcr prim nroots pad) = ?c
    \<and> rslist_inv (snd (init_rs rslist symsize gfpoly fcr prim nroots pad))"
  proof (cases "find ?Q rslist")
    case None
    show ?thesis
    proof (cases ?c)
      case (Inl e)
      with None assms show ?thesis by (simp add: init_rs_def)
    next
      case (Inr rs)
      moreover from this have "init_rs_char (int (rs_mm rs)) (rs_gfpoly rs) (int (rs_fcr rs)) (int (rs_prim rs))
          (int (rs_nroots rs)) (int (rs_pad rs)) = Inr rs"
        using init_rs_char_params [OF Inr] by simp
      ultimately show ?thesis using None assms by (simp add: init_rs_def rslist_inv_def)
    qed
  next
    case (Some rs)
    then have "?Q rs" "rs \<in> set rslist" by (auto simp: find_Some_iff)
    then have "?c = Inr rs" using assms unfolding rslist_inv_def by blast
    with Some assms show ?thesis by (simp add: init_rs_def)
  qed
  then show "fst (init_rs rslist symsize gfpoly fcr prim nroots pad) = ?c"
    and "rslist_inv (snd (init_rs rslist symsize gfpoly fcr prim nroots pad))" by simp_all
qed

section \<open>The encoder divides by the generator\<close>

lemma nth_fold_update:
  assumes "distinct js" "\<forall>j \<in> set js. j < length p"
  shows "fold (\<lambda>j p. p[j := f j (p ! j)]) js p ! k = (if k \<in> set js then f k (p ! k) else p ! k)"
    and "length (fold (\<lambda>j p. p[j := f j (p ! j)]) js p) = length p"
  using assms by (induction js arbitrary: p) (auto simp: nth_list_update)

lemma encode_step_eq:
  assumes "rs_ok rs n pad" "0 < n" "n < 255" "length parity = n"
  shows "encode_step rs d parity = gf.lfsr (tl (gen_poly [0..<n])) d parity"
proof -
  define f where "f = d XOR parity ! 0"
  define gp where "gp = gen_poly [0..<n]"
  define gfk where "gfk k = rs_alpha_to rs ! modnn (rs_mm rs) (rs_nn rs)
    (unat (rs_index_of rs ! unat f) + unat (rs_genpoly rs ! k))" for k
  have gp: "length gp = Suc n" "hd parity = parity ! 0"
    using assms by (auto simp: gp_def hd_conv_nth)
  have tab: "rs_tables (rs_index_of rs) (rs_alpha_to rs)" using assms(1) by (simp add: rs_ok_def)
  have fb: "rs_index_of rs ! unat f \<noteq> word_of_nat (rs_nn rs) \<longleftrightarrow> f \<noteq> 0"
    using rs_tables_index(1) [OF tab, of f] assms(1) by (auto simp: rs_ok_def rs_tables_def)
  have gfk: "gfk (n - k) = gmul f (gp ! k)" if "f \<noteq> 0" "k \<le> n" for k
  proof -
    have "gp ! k \<noteq> 0" using gen_poly_coeff_nonzero [OF assms(3)] that gp(1) by (simp add: gp_def)
    moreover have "rs_genpoly rs ! (n - k) = rs_index_of rs ! unat (gp ! k)"
      using assms(1) that gp(1) by (simp add: rs_ok_def gp_def rev_nth)
    ultimately show ?thesis
      using assms(1) that rs_tables_mul [OF tab that(1)] rs_tables_index(2) [OF tab]
      by (simp add: gfk_def rs_ok_def)
  qed
  define p1 where "p1 = (if f \<noteq> 0 then fold (\<lambda>j p. p[j := p ! j XOR gfk (n - j)]) [1..<n] parity else parity)"
  have p1: "length p1 = n" "\<And>k. 1 \<le> k \<Longrightarrow> k < n \<Longrightarrow> p1 ! k = parity ! k XOR gmul f (gp ! k)"
    using nth_fold_update [of "[1..<n]" parity "\<lambda>j x. x XOR gfk (n - j)"] assms(4) gfk by (auto simp: p1_def)
  have "rs_nroots rs = n" using assms(1) by (simp add: rs_ok_def)
  then have step: "encode_step rs d parity = (take (n - 1) (drop 1 p1) @ drop (n - 1) p1)[n - 1 := if f \<noteq> 0 then gfk 0 else 0]"
    unfolding encode_step_def Let_def f_def [symmetric] fb gfk_def [symmetric] p1_def by simp
  show ?thesis
  proof (rule nth_equalityI)
    fix j assume "j < length (encode_step rs d parity)"
    then have j: "j < n" using p1(1) assms(2) by (simp add: step)
    show "encode_step rs d parity ! j = gf.lfsr (tl (gen_poly [0..<n])) d parity ! j"
    proof (cases "j = n - 1")
      case True
      then show ?thesis using p1(1) assms(2,4) gp gfk [of n]
        by (auto simp: step gf.lfsr_def nth_append nth_tl f_def [symmetric] gp_def [symmetric])
    next
      case False
      then have "j < n - 1" using j by simp
      then show ?thesis using p1 j assms(4) gp
        by (simp add: step gf.lfsr_def nth_append nth_tl f_def [symmetric] gp_def [symmetric])
    qed
  qed (use p1(1) assms(2,4) gp in \<open>simp add: step gf.lfsr_def gp_def [symmetric]\<close>)
qed

lemma encode_rs_char_eq:
  assumes "rs_ok rs n pad" "0 < n" "n < 255" "length data = 255 - n - pad"
  shows "encode_rs_char rs data = fold (gf.lfsr (tl (gen_poly [0..<n]))) data (replicate n 0)"
proof -
  have G: "length (tl (gen_poly [0..<n])) = n" by simp
  have "fold (encode_step rs) ds p = fold (gf.lfsr (tl (gen_poly [0..<n]))) ds p" if "length p = n" for ds p
    using that
  proof (induction ds arbitrary: p)
    case (Cons d ds)
    then have "length (gf.lfsr (tl (gen_poly [0..<n])) d p) = n"
      using assms(2) by (subst gf.length_lfsr) auto
    with Cons show ?case by (simp add: encode_step_eq [OF assms(1-3)])
  qed simp
  then show ?thesis using assms by (simp add: encode_rs_char_def rs_ok_def)
qed

section \<open>Properties\<close>

text \<open>The value of a block, read as a polynomial, at \<open>alpha^i\<close>, by Horner's rule.\<close>

definition rs_syndrome :: "nat \<Rightarrow> byte list \<Rightarrow> byte" where
  "rs_syndrome i w = foldl (\<lambda>acc c. gmul (gpow i) acc XOR c) 0 w"

lemma rs_syndrome_peval: "rs_syndrome i w = gf.peval (gpow i) w"
  unfolding rs_syndrome_def by (induction w rule: rev_induct) (simp_all add: gf.peval_snoc)

lemma encode_rs_char_codeword:
  assumes "rs_ok rs n pad" "0 < n" "n < 255" "length data = 255 - n - pad"
  shows "length (encode_rs_char rs data) = n"
    and "i < n \<Longrightarrow> rs_syndrome i (data @ encode_rs_char rs data) = 0"
proof -
  let ?G = "tl (gen_poly [0..<n])"
  have G: "length ?G = n" "1 # ?G = gen_poly [0..<n]"
    using hd_gen_poly [of "[0..<n]"] length_gen_poly [of "[0..<n]"] by (auto simp: length_Suc_conv simp del: length_gen_poly)
  then have ne: "?G \<noteq> []" using assms(2) by (metis length_0_conv less_not_refl)
  show "length (encode_rs_char rs data) = n"
    unfolding encode_rs_char_eq [OF assms] using gf.length_fold_lfsr [OF ne] G(1) by simp
  show "rs_syndrome i (data @ encode_rs_char rs data) = 0" if "i < n"
    unfolding encode_rs_char_eq [OF assms] rs_syndrome_peval
    using gf.lfsr_codeword [of "gpow i" ?G data] gen_poly_root [of i "[0..<n]"] that ne G by simp
qed

text \<open>
  The caches a run of the library can be in: empty at the start, and after any sequence of
  \<open>init_rs\<close> calls with any parameters, successful or not, and of \<open>free_rs_cache\<close>.
\<close>

inductive rs_cache :: "RS list \<Rightarrow> bool" where
  start: "rs_cache []"
| init: "rs_cache rslist \<Longrightarrow> rs_cache (snd (init_rs rslist symsize gfpoly fcr prim nroots pad))"
| free: "rs_cache rslist \<Longrightarrow> rs_cache (free_rs_cache rslist)"

lemma rs_cache_inv: "rs_cache rslist \<Longrightarrow> rslist_inv rslist"
proof (induction rule: rs_cache.induct)
  case (init rslist symsize gfpoly fcr prim nroots pad)
  then show ?case by (intro init_rs_transparent(2))
qed (simp_all add: rslist_inv_def free_rs_cache_def)

text \<open>
  C3. Reed-Solomon blocks are code words, whatever was cached before. On every cache that
  calls of \<open>init_rs\<close> and \<open>free_rs_cache\<close> can leave behind, and for every number of parity
  symbols and every padding that leave room for data, \<open>init_rs\<close> with the field parameters of
  \<open>RSblock_init\<close> returns the control block \<open>init_rs_char\<close> builds for exactly these
  parameters, and \<open>encode_rs_char\<close> then writes exactly \<open>nroots\<close> parity symbols such that data
  followed by parity vanishes at \<open>alpha^0, ..., alpha^(nroots-1)\<close>.
\<close>

theorem rs_encode_is_codeword:
  assumes "rs_cache rslist" "0 < nroots" "0 \<le> pad" "nroots + pad < 255"
  shows "\<exists>rs rslist'. init_rs rslist 8 0x11d 0 1 nroots pad = (Inr rs, rslist')
     \<and> init_rs_char 8 0x11d 0 1 nroots pad = Inr rs
     \<and> (\<forall>data. int (length data) = 255 - nroots - pad \<longrightarrow>
          length (encode_rs_char rs data) = nat nroots
          \<and> (\<forall>i < nat nroots. rs_syndrome i (data @ encode_rs_char rs data) = 0))"
proof -
  obtain rs where rs: "init_rs_char 8 0x11d 0 1 nroots pad = Inr rs" "rs_ok rs (nat nroots) (nat pad)"
    using init_rs_char_ok [of nroots pad] assms by auto
  have "fst (init_rs rslist 8 0x11d 0 1 nroots pad) = Inr rs"
    using init_rs_transparent(1) [OF rs_cache_inv [OF assms(1)]] rs(1) by simp
  then obtain rslist' where "init_rs rslist 8 0x11d 0 1 nroots pad = (Inr rs, rslist')"
    by (cases "init_rs rslist 8 0x11d 0 1 nroots pad") simp
  moreover have "length data = 255 - nat nroots - nat pad"
    if "int (length data) = 255 - nroots - pad" for data :: "byte list"
    using that assms by linarith
  ultimately show ?thesis
    using rs encode_rs_char_codeword [OF rs(2)] assms by (intro exI [of _ rs] exI [of _ rslist']) auto
qed

theorem rs_encode_is_codeword_witness:
  "\<exists>rs rslist'. init_rs (snd (init_rs [] 8 0x11d 0 1 1 251)) 8 0x11d 0 1 2 251 = (Inr rs, rslist')
     \<and> length (encode_rs_char rs [0x40, 0x18]) = 2
     \<and> rs_syndrome 0 ([0x40, 0x18] @ encode_rs_char rs [0x40, 0x18]) = 0
     \<and> rs_syndrome 1 ([0x40, 0x18] @ encode_rs_char rs [0x40, 0x18]) = 0"
  using rs_encode_is_codeword [OF rs_cache.init [OF rs_cache.start], of 2 251 8 "0x11d" 0 1 1 251] by force

text \<open>
  C4. The code detects errors up to its full strength. Blocks encoded from two different
  data blocks differ in more than \<open>nroots\<close> of their symbols, so that no fewer than
  \<open>nroots + 1\<close> altered symbols turn one valid block into another.
\<close>

theorem rs_encode_distance:
  assumes "0 < nroots" "0 \<le> pad" "nroots + pad < 255"
    and "init_rs_char 8 0x11d 0 1 nroots pad = Inr rs"
    and "int (length d1) = 255 - nroots - pad" "length d2 = length d1" "d1 \<noteq> d2"
  shows "int (length (filter (\<lambda>(x, y). x \<noteq> y)
          (zip (d1 @ encode_rs_char rs d1) (d2 @ encode_rs_char rs d2)))) > nroots"
proof (rule ccontr)
  let ?n = "nat nroots"
  let ?w1 = "d1 @ encode_rs_char rs d1" and ?w2 = "d2 @ encode_rs_char rs d2"
  let ?w = "map2 (XOR) ?w1 ?w2"
  assume few: "\<not> int (length (filter (\<lambda>(x, y). x \<noteq> y) (zip ?w1 ?w2))) > nroots"
  have ok: "rs_ok rs ?n (nat pad)" using init_rs_char_ok [of nroots pad] assms by auto
  have d: "length d1 = 255 - ?n - nat pad" "length d2 = 255 - ?n - nat pad" using assms by linarith+
  have n: "0 < ?n" "?n < 255" "?n + nat pad < 255" using assms by linarith+
  note c1 = encode_rs_char_codeword [OF ok n(1,2) d(1)] and c2 = encode_rs_char_codeword [OF ok n(1,2) d(2)]
  have len: "length ?w1 = length ?w2" "length ?w \<le> 255" using c1(1) c2(1) d n by auto
  have "gf.peval (gf.pow (gpow 1) i) ?w = 0" if "i < ?n" for i
    unfolding gf_pow_gpow using gf.peval_add [OF len(1), of "gpow i"] c1(2) [OF that] c2(2) [OF that]
    by (simp add: rs_syndrome_peval)
  moreover have "length (filter (\<lambda>c. c \<noteq> 0) ?w) = length (filter (\<lambda>(x, y). x \<noteq> y) (zip ?w1 ?w2))"
    unfolding filter_map length_map by (intro arg_cong [where f = length] filter_cong) (auto simp: gf.add_eq_zero_iff)
  then have "length (filter (\<lambda>c. c \<noteq> 0) ?w) \<le> ?n" using few by linarith
  moreover have "inj_on (gf.pow (gpow 1)) {..<length ?w}"
  proof -
    have "gf.pow (gpow 1) = gpow" by (rule ext) (rule gf_pow_gpow)
    moreover have "{..<length ?w} \<subseteq> {..<255}" using len(2) by auto
    ultimately show ?thesis by (simp only: inj_on_subset [OF inj_on_gpow])
  qed
  ultimately have "\<forall>c \<in> set ?w. c = 0"
    using gf.few_symbols_zero [of ?n "gpow 1" ?w] by blast
  then have "?w1 = ?w2"
    using len(1) by (auto simp: list_eq_iff_zip_eq gf.add_eq_zero_iff)
  then show False using assms(6,7) by simp
qed

theorem rs_encode_distance_witness:
  "\<exists>rs. init_rs_char 8 0x11d 0 1 2 251 = Inr rs
     \<and> length (filter (\<lambda>(x, y). x \<noteq> y)
          (zip ([0, 0] @ encode_rs_char rs [0, 0]) ([0, 1] @ encode_rs_char rs [0, 1]))) > 2"
proof -
  obtain rs where rs: "init_rs_char 8 0x11d 0 1 2 251 = Inr rs"
    using init_rs_char_ok [of 2 251] by auto
  show ?thesis
    using rs_encode_distance [OF _ _ _ rs, of "[0, 0]" "[0, 1]"] rs by auto
qed

text \<open>
  The cache of control blocks is invisible. On a cache all of whose blocks were built
  by \<open>init_rs_char\<close> for the parameters they record, \<open>init_rs\<close> returns what \<open>init_rs_char\<close>
  returns, on hits and on misses, errors included, and the cache it leaves has the same property.
\<close>

lemma init_rs_cache_transparent:
  assumes "rslist_inv rslist"
  shows "fst (init_rs rslist symsize gfpoly fcr prim nroots pad) = init_rs_char symsize gfpoly fcr prim nroots pad
     \<and> rslist_inv (snd (init_rs rslist symsize gfpoly fcr prim nroots pad))
     \<and> rslist_inv (free_rs_cache rslist)"
  using init_rs_transparent [OF assms] by (simp add: free_rs_cache_def rslist_inv_def)

text \<open>
  The reduction loop \<open>modnn\<close> ends for every argument, and its shift-and-add steps
  compute the remainder by \<open>nn = 2^mm - 1\<close>, for every symbol size \<open>mm > 0\<close>.
\<close>

lemma modnn_is_mod:
  assumes "0 < m"
  shows "modnn_opt m (2 ^ m - 1) x = Some (x mod (2 ^ m - 1)) \<and> modnn m (2 ^ m - 1) x = x mod (2 ^ m - 1)"
  using modnn_opt_eq [OF refl assms] modnn_eq [OF refl assms] by simp

end
