(* ===== verification/QR_BitStream.thy ===== *)
theory QR_BitStream
  imports QR_Prelude
begin

text \<open>
  \<open>bitstream.c\<close>: a growable array of bits, one bit per byte. The theory models the
  constructors from a number and from bytes, the append operations and the packing into
  bytes, and shows that they are the concatenation and the big-endian encoding of bits.
  \<open>malloc\<close> is taken to succeed.
\<close>

section \<open>State\<close>

record BitStream =
  bs_length :: nat
  bs_data :: "byte list"

definition bs_wf :: "BitStream \<Rightarrow> bool" where
  "bs_wf b \<longleftrightarrow> bs_length b = length (bs_data b) \<and> is_bits (bs_data b)"

definition BitStream_size :: "BitStream \<Rightarrow> nat" where
  "BitStream_size b = bs_length b"

definition BitStream_new :: BitStream where
  "BitStream_new = \<lparr>bs_length = 0, bs_data = []\<rparr>"

text \<open>
  The buffer that \<open>malloc\<close> returns is uninitialised: its content is the argument
  \<open>junk\<close>, and the callers below overwrite all of it.
\<close>

definition BitStream_allocate :: "(nat \<Rightarrow> byte) \<Rightarrow> BitStream \<Rightarrow> nat \<Rightarrow> BitStream" where
  "BitStream_allocate junk b len = b\<lparr>bs_length := len, bs_data := map junk [0..<len]\<rparr>"

section \<open>Construction\<close>

fun newFromNum_loop :: "nat \<Rightarrow> nat \<Rightarrow> uint \<Rightarrow> uint \<Rightarrow> byte list \<Rightarrow> byte list" where
  "newFromNum_loop 0 p msk num d = d"
| "newFromNum_loop (Suc i) p msk num d =
     newFromNum_loop i (Suc p) (drop_bit 1 msk) num
       (d[p := (if num AND msk \<noteq> 0 then 1 else 0)])"

definition BitStream_newFromNum :: "(nat \<Rightarrow> byte) \<Rightarrow> nat \<Rightarrow> uint \<Rightarrow> BitStream" where
  "BitStream_newFromNum junk bits num =
     (let b = BitStream_allocate junk BitStream_new bits
      in b\<lparr>bs_data := newFromNum_loop bits 0 (push_bit (bits - 1) 1) num (bs_data b)\<rparr>)"

fun newFromByte_loop :: "nat \<Rightarrow> nat \<Rightarrow> byte \<Rightarrow> byte \<Rightarrow> byte list \<Rightarrow> byte list" where
  "newFromByte_loop 0 p msk v d = d"
| "newFromByte_loop (Suc j) p msk v d =
     newFromByte_loop j (Suc p) (drop_bit 1 msk) v
       (d[p := (if v AND msk \<noteq> 0 then 1 else 0)])"

fun newFromBytes_loop :: "nat \<Rightarrow> byte list \<Rightarrow> byte list \<Rightarrow> byte list" where
  "newFromBytes_loop p [] d = d"
| "newFromBytes_loop p (v # vs) d =
     newFromBytes_loop (p + 8) vs (newFromByte_loop 8 p 0x80 v d)"

definition BitStream_newFromBytes :: "(nat \<Rightarrow> byte) \<Rightarrow> nat \<Rightarrow> byte list \<Rightarrow> BitStream" where
  "BitStream_newFromBytes junk sz data =
     (let b = BitStream_allocate junk BitStream_new (sz * 8)
      in b\<lparr>bs_data := newFromBytes_loop 0 (take sz data) (bs_data b)\<rparr>)"

section \<open>Appending\<close>

text \<open>\<open>None\<close> is the null pointer \<open>arg\<close>.\<close>

definition BitStream_append :: "BitStream \<Rightarrow> BitStream option \<Rightarrow> BitStream res" where
  "BitStream_append b arg =
     (case arg of
        None \<Rightarrow> Inl ENOERR
      | Some a \<Rightarrow>
          if bs_length a = 0 then Inr b
          else if bs_length b = 0 then
            Inr (b\<lparr>bs_length := bs_length a, bs_data := take (bs_length a) (bs_data a)\<rparr>)
          else Inr (b\<lparr>bs_length := bs_length b + bs_length a,
                      bs_data := take (bs_length b) (bs_data b) @ take (bs_length a) (bs_data a)\<rparr>))"

definition BitStream_appendNum :: "BitStream \<Rightarrow> nat \<Rightarrow> uint \<Rightarrow> BitStream res" where
  "BitStream_appendNum b bits num =
     (if bits = 0 then Inr b
      else BitStream_append b (Some (BitStream_newFromNum (\<lambda>_. 0) bits num)))"

definition BitStream_appendBytes :: "BitStream \<Rightarrow> nat \<Rightarrow> byte list \<Rightarrow> BitStream res" where
  "BitStream_appendBytes b sz data =
     (if sz = 0 then Inr b
      else BitStream_append b (Some (BitStream_newFromBytes (\<lambda>_. 0) sz data)))"

section \<open>Packing into bytes\<close>

text \<open>\<open>pack_bits n v p\<close> is the inner loop: \<open>n\<close> bits from position \<open>p\<close> shifted into \<open>v\<close>.\<close>

fun pack_bits :: "nat \<Rightarrow> byte \<Rightarrow> byte list \<Rightarrow> nat \<Rightarrow> byte" where
  "pack_bits 0 v d p = v"
| "pack_bits (Suc j) v d p = pack_bits j (push_bit 1 v OR d ! p) d (Suc p)"

definition BitStream_toByte :: "BitStream \<Rightarrow> byte list option" where
  "BitStream_toByte b =
     (let sz = BitStream_size b; bytes = sz div 8
      in if sz = 0 then None
         else Some (map (\<lambda>i. pack_bits 8 0 (bs_data b) (8 * i)) [0..<bytes]
                    @ (if sz mod 8 \<noteq> 0
                       then [pack_bits (sz mod 8) 0 (bs_data b) (8 * bytes)] else [])))"

section \<open>Correctness of construction\<close>

lemma newFromNum_loop_eq:
  assumes "n \<le> 32" "length d = p + n" "0 < n \<longrightarrow> msk = push_bit (n - 1) 1"
  shows "newFromNum_loop n p msk num d = take p d @ bits_msb n (unat num)"
  using assms
proof (induction n arbitrary: p msk d)
  case 0
  then show ?case by simp
next
  case (Suc n)
  have m: "msk = push_bit n 1"
    using Suc.prems by simp
  have "0 < n \<longrightarrow> drop_bit 1 msk = push_bit (n - 1) 1"
    using Suc.prems drop_bit_single_bit [of n, where 'a = 32] by (simp add: m)
  then have "newFromNum_loop (Suc n) p msk num d
      = take (Suc p) (d[p := (if num AND msk \<noteq> 0 then 1 else 0)]) @ bits_msb n (unat num)"
    using Suc by simp
  moreover have "num AND msk \<noteq> 0 \<longleftrightarrow> odd (unat num div 2 ^ n)"
    using Suc.prems by (simp add: m and_single_bit_eq_0 bit_word_unat)
  ultimately show ?case using Suc.prems by (simp add: take_Suc_update)
qed

lemma newFromByte_loop_eq:
  assumes "n \<le> 8" "p + n \<le> length d" "0 < n \<longrightarrow> msk = push_bit (n - 1) 1"
  shows "newFromByte_loop n p msk v d = take p d @ bits_msb n (unat v) @ drop (p + n) d"
  using assms
proof (induction n arbitrary: p msk d)
  case 0
  then show ?case by simp
next
  case (Suc n)
  have m: "msk = push_bit n 1"
    using Suc.prems by simp
  have "0 < n \<longrightarrow> drop_bit 1 msk = push_bit (n - 1) 1"
    using Suc.prems drop_bit_single_bit [of n, where 'a = 8] by (simp add: m)
  then have "newFromByte_loop (Suc n) p msk v d
      = take (Suc p) (d[p := (if v AND msk \<noteq> 0 then 1 else 0)]) @ bits_msb n (unat v)
        @ drop (Suc p + n) (d[p := (if v AND msk \<noteq> 0 then 1 else 0)])"
    using Suc by simp
  moreover have "v AND msk \<noteq> 0 \<longleftrightarrow> odd (unat v div 2 ^ n)"
    using Suc.prems by (simp add: m and_single_bit_eq_0 bit_word_unat)
  ultimately show ?case using Suc.prems by (simp add: take_Suc_update)
qed

definition bytes_bits :: "byte list \<Rightarrow> byte list" where
  "bytes_bits vs = concat (map (\<lambda>v. bits_msb 8 (unat v)) vs)"

lemma bytes_bits_simps [simp]:
  "bytes_bits [] = []"
  "bytes_bits (v # vs) = bits_msb 8 (unat v) @ bytes_bits vs"
  "bytes_bits (us @ vs) = bytes_bits us @ bytes_bits vs"
  by (simp_all add: bytes_bits_def)

lemma length_bytes_bits [simp]: "length (bytes_bits vs) = 8 * length vs"
  by (induction vs) auto

lemma is_bits_bytes_bits [simp]: "is_bits (bytes_bits vs)"
  by (induction vs) auto

lemma newFromBytes_loop_eq:
  "length d = p + 8 * length vs \<Longrightarrow> newFromBytes_loop p vs d = take p d @ bytes_bits vs"
proof (induction vs arbitrary: p d)
  case Nil
  then show ?case by simp
next
  case (Cons v vs)
  have "newFromByte_loop 8 p 0x80 v d = take p d @ bits_msb 8 (unat v) @ drop (p + 8) d"
    using Cons.prems by (intro newFromByte_loop_eq) simp_all
  with Cons.prems Cons.IH [of "take p d @ bits_msb 8 (unat v) @ drop (p + 8) d" "p + 8"]
  show ?case by simp
qed

lemma BitStream_newFromNum_eq:
  assumes "0 < bits" "bits \<le> 32"
  shows "BitStream_newFromNum junk bits num = \<lparr>bs_length = bits, bs_data = bits_msb bits (unat num)\<rparr>"
  using assms
  by (simp add: BitStream_newFromNum_def BitStream_allocate_def BitStream_new_def Let_def
      newFromNum_loop_eq)

lemma BitStream_newFromBytes_eq:
  "sz \<le> length data \<Longrightarrow> BitStream_newFromBytes junk sz data
     = \<lparr>bs_length = 8 * sz, bs_data = bytes_bits (take sz data)\<rparr>"
  by (simp add: BitStream_newFromBytes_def BitStream_allocate_def BitStream_new_def Let_def
      newFromBytes_loop_eq)

section \<open>The interface the encoder writes through\<close>

text \<open>
  \<open>qrinput.c\<close> uses bit streams through five operations. Their contract is stated over a
  representation \<open>rep\<close> of bit sequences; the loops of the encoders are treated once, here.
\<close>

locale bit_writer =
  fixes rep :: "byte list \<Rightarrow> 'b"
    and bw_new :: 'b
    and bw_append :: "'b \<Rightarrow> 'b option \<Rightarrow> 'b res"
    and bw_appendNum :: "'b \<Rightarrow> nat \<Rightarrow> uint \<Rightarrow> 'b res"
    and bw_appendBytes :: "'b \<Rightarrow> nat \<Rightarrow> byte list \<Rightarrow> 'b res"
  assumes new_rep: "bw_new = rep []"
    and append_rep: "bw_append (rep xs) (Some (rep ys)) = Inr (rep (xs @ ys))"
    and append_null: "bw_append b None = Inl ENOERR"
    and appendNum_rep: "n \<le> 32 \<Longrightarrow> bw_appendNum (rep xs) n v = Inr (rep (xs @ bits_msb n (unat v)))"
    and appendBytes_rep:
      "n \<le> length d \<Longrightarrow> bw_appendBytes (rep xs) n d = Inr (rep (xs @ bytes_bits (take n d)))"
begin

lemma fold_appendNum:
  assumes "\<forall>x \<in> set ks. n x \<le> 32"
  shows "fold_res (\<lambda>x b. bw_appendNum b (n x) (v x)) ks (rep xs)
       = Inr (rep (xs @ concat (map (\<lambda>x. bits_msb (n x) (unat (v x))) ks)))"
  using assms by (induction ks arbitrary: xs) (auto simp: appendNum_rep)

lemma fold_append:
  "fold_res (\<lambda>ys b. bw_append b (Some (rep ys))) yss (rep xs) = Inr (rep (xs @ concat yss))"
  by (induction yss arbitrary: xs) (auto simp: append_rep)

end

definition bs_of :: "byte list \<Rightarrow> BitStream" where
  "bs_of xs = \<lparr>bs_length = length xs, bs_data = xs\<rparr>"

lemma bs_of_sel [simp]: "bs_length (bs_of xs) = length xs" "bs_data (bs_of xs) = xs"
  "BitStream_size (bs_of xs) = length xs"
  by (simp_all add: bs_of_def BitStream_size_def)

lemma bs_wf_iff: "bs_wf b \<longleftrightarrow> (\<exists>xs. is_bits xs \<and> b = bs_of xs)"
  by (cases b) (auto simp: bs_wf_def bs_of_def)

lemma bs_of_inject [simp]: "bs_of xs = bs_of ys \<longleftrightarrow> xs = ys"
  by (auto simp: bs_of_def)

interpretation bs: bit_writer bs_of BitStream_new BitStream_append BitStream_appendNum BitStream_appendBytes
proof
  show "BitStream_new = bs_of []"
    by (simp add: BitStream_new_def bs_of_def)
next
  fix xs ys :: "byte list"
  show app: "BitStream_append (bs_of xs) (Some (bs_of ys)) = Inr (bs_of (xs @ ys))" for xs ys
    by (auto simp: BitStream_append_def bs_of_def)
  show "BitStream_append b None = Inl ENOERR" for b
    by (simp add: BitStream_append_def)
  show "BitStream_appendNum (bs_of xs) n v = Inr (bs_of (xs @ bits_msb n (unat v)))" if "n \<le> 32" for n v
    using that app [of xs "bits_msb n (unat v)"]
    by (cases "n = 0") (simp_all add: BitStream_appendNum_def BitStream_newFromNum_eq bs_of_def)
  show "BitStream_appendBytes (bs_of xs) n d = Inr (bs_of (xs @ bytes_bits (take n d)))"
    if "n \<le> length d" for n d
    using that app [of xs "bytes_bits (take n d)"]
    by (cases "n = 0") (simp_all add: BitStream_appendBytes_def BitStream_newFromBytes_eq bs_of_def min_absorb2)
qed

section \<open>Packing is the inverse of unpacking\<close>

lemma pack_bits_eq:
  "is_bits d \<Longrightarrow> p + n \<le> length d \<Longrightarrow>
   pack_bits n v d p = v * 2 ^ n + word_of_nat (bits_val (take n (drop p d)))"
proof (induction n arbitrary: v p)
  case 0
  then show ?case by simp
next
  case (Suc n)
  have b: "d ! p = 0 \<or> d ! p = 1"
    using Suc.prems by (auto simp: is_bits_def)
  have "take (Suc n) (drop p d) = d ! p # take n (drop (Suc p) d)"
    using Suc.prems by (simp add: take_Suc_conv_app_nth Cons_nth_drop_Suc [symmetric])
  with Suc b show ?case
    by (simp add: shift_or_bit algebra_simps)
qed

lemma word_of_bits_msb_8: "word_of_nat (bits_val (bits_msb 8 (unat v))) = (v :: byte)"
  using unat_byte_less [of v] by (simp add: bits_val_bits_msb)

lemma bytes_bits_nth_chunk:
  "i < length vs \<Longrightarrow> take 8 (drop (8 * i) (bytes_bits vs)) = bits_msb 8 (unat (vs ! i))"
proof (induction vs arbitrary: i)
  case Nil
  then show ?case by simp
next
  case (Cons v vs)
  then show ?case by (cases i) simp_all
qed

lemma BitStream_toByte_bs_of:
  assumes "is_bits r" "length r < 8" "vs \<noteq> [] \<or> r \<noteq> []"
  shows "BitStream_toByte (bs_of (bytes_bits vs @ r))
       = Some (vs @ (if r = [] then [] else [word_of_nat (bits_val r)]))"
proof -
  let ?d = "bytes_bits vs @ r"
  have "map (\<lambda>i. pack_bits 8 0 ?d (8 * i)) [0..<length vs] = vs"
    using assms(1)
    by (intro nth_equalityI) (simp_all add: pack_bits_eq bytes_bits_nth_chunk word_of_bits_msb_8)
  moreover have "pack_bits (length r) 0 ?d (8 * length vs) = word_of_nat (bits_val r)"
    using assms(1) by (simp add: pack_bits_eq)
  ultimately show ?thesis
    using assms(2,3) by (auto simp: BitStream_toByte_def Let_def)
qed

section \<open>Properties\<close>

text \<open>
  Appending a number to a well-formed stream succeeds, keeps the stream well-formed and
  what it held, and adds exactly \<open>bits\<close> bits that spell the number modulo \<open>2^bits\<close>, most
  significant bit first.
\<close>

lemma BitStream_appendNum_correct:
  assumes "bs_wf b" "bits \<le> 32"
  shows "\<exists>b' t. BitStream_appendNum b bits num = Inr b' \<and> bs_wf b' \<and> bs_data b' = bs_data b @ t
     \<and> length t = bits \<and> bits_val t = unat num mod 2 ^ bits"
proof -
  obtain xs where "is_bits xs" "b = bs_of xs" using assms(1) by (auto simp: bs_wf_iff)
  then show ?thesis
    using assms(2)
    by (intro exI [of _ "bs_of (xs @ bits_msb bits (unat num))"] exI [of _ "bits_msb bits (unat num)"])
      (simp add: bs.appendNum_rep bits_val_bits_msb bs_wf_iff)
qed

text \<open>
  Bytes survive the trip through a bit stream: appending a non-empty byte array to an
  empty stream and packing the stream gives the array back. Bits beyond the last full byte
  end in one more byte whose value they spell.
\<close>

lemma BitStream_bytes_roundtrip:
  assumes "d \<noteq> []" "bits < 8"
  shows "\<exists>b b'. BitStream_appendBytes BitStream_new (length d) d = Inr b \<and> BitStream_toByte b = Some d
     \<and> BitStream_appendNum b bits num = Inr b'
     \<and> BitStream_toByte b' = Some (d @ (if bits = 0 then [] else [word_of_nat (unat num mod 2 ^ bits)]))"
  using assms BitStream_toByte_bs_of [of "[]" d] BitStream_toByte_bs_of [of "bits_msb bits (unat num)" d]
  by (auto simp: bs.new_rep bs.appendBytes_rep bs.appendNum_rep bits_val_bits_msb)

end
