(* ===== verification/QR_Spec.thy ===== *)
theory QR_Spec
  imports QR_Prelude
begin

text \<open>
  \<open>qrspec.c\<close>: the tables of the QR Code standard (capacity, length indicators, error
  correction blocks, alignment positions, version and format information), the lookups on
  them, and the construction and the cache of the initial symbol frames. Indexing a table
  outside its bounds, undefined in C, is unspecified here.
\<close>

section \<open>Modes and levels\<close>

text \<open>
  An error correction level is the value of C's unsigned enumeration, as callers may pass
  values above \<open>QR_ECLEVEL_H\<close>, which the code tests for.
\<close>

type_synonym QRecLevel = nat

abbreviation (input) QR_ECLEVEL_L :: QRecLevel where "QR_ECLEVEL_L \<equiv> 0"
abbreviation (input) QR_ECLEVEL_M :: QRecLevel where "QR_ECLEVEL_M \<equiv> 1"
abbreviation (input) QR_ECLEVEL_Q :: QRecLevel where "QR_ECLEVEL_Q \<equiv> 2"
abbreviation (input) QR_ECLEVEL_H :: QRecLevel where "QR_ECLEVEL_H \<equiv> 3"

datatype QRencodeMode =
    QR_MODE_NUL | QR_MODE_NUM | QR_MODE_AN | QR_MODE_8 | QR_MODE_KANJI
  | QR_MODE_STRUCTURE | QR_MODE_ECI | QR_MODE_FNC1FIRST | QR_MODE_FNC1SECOND

fun mode_val :: "QRencodeMode \<Rightarrow> int" where
  "mode_val QR_MODE_NUL = -1"
| "mode_val QR_MODE_NUM = 0"
| "mode_val QR_MODE_AN = 1"
| "mode_val QR_MODE_8 = 2"
| "mode_val QR_MODE_KANJI = 3"
| "mode_val QR_MODE_STRUCTURE = 4"
| "mode_val QR_MODE_ECI = 5"
| "mode_val QR_MODE_FNC1FIRST = 6"
| "mode_val QR_MODE_FNC1SECOND = 7"

definition QRinput_isSplittableMode :: "QRencodeMode \<Rightarrow> bool" where
  "QRinput_isSplittableMode mode \<longleftrightarrow>
     mode_val mode \<ge> mode_val QR_MODE_NUM \<and> mode_val mode \<le> mode_val QR_MODE_KANJI"

section \<open>Version and capacity\<close>

definition QRSPEC_VERSION_MAX :: nat where
  "QRSPEC_VERSION_MAX = 40"

record QRspec_Capacity =
  cap_width :: nat
  cap_words :: nat
  cap_remainder :: nat
  cap_ec :: "nat list"

definition qrspecCapacity :: "QRspec_Capacity list" where
  "qrspecCapacity =
  [\<lparr>cap_width = 0, cap_words = 0, cap_remainder = 0, cap_ec = [0, 0, 0, 0]\<rparr>,
   \<lparr>cap_width = 21, cap_words = 26, cap_remainder = 0, cap_ec = [7, 10, 13, 17]\<rparr>,
   \<lparr>cap_width = 25, cap_words = 44, cap_remainder = 7, cap_ec = [10, 16, 22, 28]\<rparr>,
   \<lparr>cap_width = 29, cap_words = 70, cap_remainder = 7, cap_ec = [15, 26, 36, 44]\<rparr>,
   \<lparr>cap_width = 33, cap_words = 100, cap_remainder = 7, cap_ec = [20, 36, 52, 64]\<rparr>,
   \<lparr>cap_width = 37, cap_words = 134, cap_remainder = 7, cap_ec = [26, 48, 72, 88]\<rparr>,
   \<lparr>cap_width = 41, cap_words = 172, cap_remainder = 7, cap_ec = [36, 64, 96, 112]\<rparr>,
   \<lparr>cap_width = 45, cap_words = 196, cap_remainder = 0, cap_ec = [40, 72, 108, 130]\<rparr>,
   \<lparr>cap_width = 49, cap_words = 242, cap_remainder = 0, cap_ec = [48, 88, 132, 156]\<rparr>,
   \<lparr>cap_width = 53, cap_words = 292, cap_remainder = 0, cap_ec = [60, 110, 160, 192]\<rparr>,
   \<lparr>cap_width = 57, cap_words = 346, cap_remainder = 0, cap_ec = [72, 130, 192, 224]\<rparr>,
   \<lparr>cap_width = 61, cap_words = 404, cap_remainder = 0, cap_ec = [80, 150, 224, 264]\<rparr>,
   \<lparr>cap_width = 65, cap_words = 466, cap_remainder = 0, cap_ec = [96, 176, 260, 308]\<rparr>,
   \<lparr>cap_width = 69, cap_words = 532, cap_remainder = 0, cap_ec = [104, 198, 288, 352]\<rparr>,
   \<lparr>cap_width = 73, cap_words = 581, cap_remainder = 3, cap_ec = [120, 216, 320, 384]\<rparr>,
   \<lparr>cap_width = 77, cap_words = 655, cap_remainder = 3, cap_ec = [132, 240, 360, 432]\<rparr>,
   \<lparr>cap_width = 81, cap_words = 733, cap_remainder = 3, cap_ec = [144, 280, 408, 480]\<rparr>,
   \<lparr>cap_width = 85, cap_words = 815, cap_remainder = 3, cap_ec = [168, 308, 448, 532]\<rparr>,
   \<lparr>cap_width = 89, cap_words = 901, cap_remainder = 3, cap_ec = [180, 338, 504, 588]\<rparr>,
   \<lparr>cap_width = 93, cap_words = 991, cap_remainder = 3, cap_ec = [196, 364, 546, 650]\<rparr>,
   \<lparr>cap_width = 97, cap_words = 1085, cap_remainder = 3, cap_ec = [224, 416, 600, 700]\<rparr>,
   \<lparr>cap_width = 101, cap_words = 1156, cap_remainder = 4, cap_ec = [224, 442, 644, 750]\<rparr>,
   \<lparr>cap_width = 105, cap_words = 1258, cap_remainder = 4, cap_ec = [252, 476, 690, 816]\<rparr>,
   \<lparr>cap_width = 109, cap_words = 1364, cap_remainder = 4, cap_ec = [270, 504, 750, 900]\<rparr>,
   \<lparr>cap_width = 113, cap_words = 1474, cap_remainder = 4, cap_ec = [300, 560, 810, 960]\<rparr>,
   \<lparr>cap_width = 117, cap_words = 1588, cap_remainder = 4, cap_ec = [312, 588, 870, 1050]\<rparr>,
   \<lparr>cap_width = 121, cap_words = 1706, cap_remainder = 4, cap_ec = [336, 644, 952, 1110]\<rparr>,
   \<lparr>cap_width = 125, cap_words = 1828, cap_remainder = 4, cap_ec = [360, 700, 1020, 1200]\<rparr>,
   \<lparr>cap_width = 129, cap_words = 1921, cap_remainder = 3, cap_ec = [390, 728, 1050, 1260]\<rparr>,
   \<lparr>cap_width = 133, cap_words = 2051, cap_remainder = 3, cap_ec = [420, 784, 1140, 1350]\<rparr>,
   \<lparr>cap_width = 137, cap_words = 2185, cap_remainder = 3, cap_ec = [450, 812, 1200, 1440]\<rparr>,
   \<lparr>cap_width = 141, cap_words = 2323, cap_remainder = 3, cap_ec = [480, 868, 1290, 1530]\<rparr>,
   \<lparr>cap_width = 145, cap_words = 2465, cap_remainder = 3, cap_ec = [510, 924, 1350, 1620]\<rparr>,
   \<lparr>cap_width = 149, cap_words = 2611, cap_remainder = 3, cap_ec = [540, 980, 1440, 1710]\<rparr>,
   \<lparr>cap_width = 153, cap_words = 2761, cap_remainder = 3, cap_ec = [570, 1036, 1530, 1800]\<rparr>,
   \<lparr>cap_width = 157, cap_words = 2876, cap_remainder = 0, cap_ec = [570, 1064, 1590, 1890]\<rparr>,
   \<lparr>cap_width = 161, cap_words = 3034, cap_remainder = 0, cap_ec = [600, 1120, 1680, 1980]\<rparr>,
   \<lparr>cap_width = 165, cap_words = 3196, cap_remainder = 0, cap_ec = [630, 1204, 1770, 2100]\<rparr>,
   \<lparr>cap_width = 169, cap_words = 3362, cap_remainder = 0, cap_ec = [660, 1260, 1860, 2220]\<rparr>,
   \<lparr>cap_width = 173, cap_words = 3532, cap_remainder = 0, cap_ec = [720, 1316, 1950, 2310]\<rparr>,
   \<lparr>cap_width = 177, cap_words = 3706, cap_remainder = 0, cap_ec = [750, 1372, 2040, 2430]\<rparr>]"

definition QRspec_getDataLength :: "nat \<Rightarrow> QRecLevel \<Rightarrow> nat" where
  "QRspec_getDataLength version level =
     cap_words (qrspecCapacity ! version) - cap_ec (qrspecCapacity ! version) ! level"

definition QRspec_getECCLength :: "nat \<Rightarrow> QRecLevel \<Rightarrow> nat" where
  "QRspec_getECCLength version level = cap_ec (qrspecCapacity ! version) ! level"

fun getMinimumVersion_loop :: "nat list \<Rightarrow> nat \<Rightarrow> QRecLevel \<Rightarrow> int" where
  "getMinimumVersion_loop [] sz level = -1"
| "getMinimumVersion_loop (i # is) sz level =
     (if cap_words (qrspecCapacity ! i) - cap_ec (qrspecCapacity ! i) ! level \<ge> sz then int i
      else getMinimumVersion_loop is sz level)"

definition QRspec_getMinimumVersion :: "nat \<Rightarrow> QRecLevel \<Rightarrow> int" where
  "QRspec_getMinimumVersion sz level = getMinimumVersion_loop [1..<Suc QRSPEC_VERSION_MAX] sz level"

definition QRspec_getWidth :: "nat \<Rightarrow> nat" where
  "QRspec_getWidth version = cap_width (qrspecCapacity ! version)"

definition QRspec_getRemainder :: "nat \<Rightarrow> nat" where
  "QRspec_getRemainder version = cap_remainder (qrspecCapacity ! version)"

section \<open>Length indicator\<close>

definition lengthTableBits :: "nat list list" where
  "lengthTableBits = [[10, 12, 14], [9, 11, 13], [8, 16, 16], [8, 10, 12]]"

definition length_class :: "nat \<Rightarrow> nat" where
  "length_class version = (if version \<le> 9 then 0 else if version \<le> 26 then 1 else 2)"

definition QRspec_lengthIndicator :: "QRencodeMode \<Rightarrow> nat \<Rightarrow> nat" where
  "QRspec_lengthIndicator mode version =
     (if \<not> QRinput_isSplittableMode mode then 0
      else lengthTableBits ! nat (mode_val mode) ! length_class version)"

definition QRspec_maximumWords :: "QRencodeMode \<Rightarrow> nat \<Rightarrow> nat" where
  "QRspec_maximumWords mode version =
     (if \<not> QRinput_isSplittableMode mode then 0
      else let bits = lengthTableBits ! nat (mode_val mode) ! length_class version;
               words = 2 ^ bits - 1
           in if mode = QR_MODE_KANJI then words * 2 else words)"

section \<open>Error correction code\<close>

definition eccTable :: "(nat \<times> nat) list list" where
  "eccTable =
  [[(0, 0), (0, 0), (0, 0), (0, 0)],
   [(1, 0), (1, 0), (1, 0), (1, 0)],
   [(1, 0), (1, 0), (1, 0), (1, 0)],
   [(1, 0), (1, 0), (2, 0), (2, 0)],
   [(1, 0), (2, 0), (2, 0), (4, 0)],
   [(1, 0), (2, 0), (2, 2), (2, 2)],
   [(2, 0), (4, 0), (4, 0), (4, 0)],
   [(2, 0), (4, 0), (2, 4), (4, 1)],
   [(2, 0), (2, 2), (4, 2), (4, 2)],
   [(2, 0), (3, 2), (4, 4), (4, 4)],
   [(2, 2), (4, 1), (6, 2), (6, 2)],
   [(4, 0), (1, 4), (4, 4), (3, 8)],
   [(2, 2), (6, 2), (4, 6), (7, 4)],
   [(4, 0), (8, 1), (8, 4), (12, 4)],
   [(3, 1), (4, 5), (11, 5), (11, 5)],
   [(5, 1), (5, 5), (5, 7), (11, 7)],
   [(5, 1), (7, 3), (15, 2), (3, 13)],
   [(1, 5), (10, 1), (1, 15), (2, 17)],
   [(5, 1), (9, 4), (17, 1), (2, 19)],
   [(3, 4), (3, 11), (17, 4), (9, 16)],
   [(3, 5), (3, 13), (15, 5), (15, 10)],
   [(4, 4), (17, 0), (17, 6), (19, 6)],
   [(2, 7), (17, 0), (7, 16), (34, 0)],
   [(4, 5), (4, 14), (11, 14), (16, 14)],
   [(6, 4), (6, 14), (11, 16), (30, 2)],
   [(8, 4), (8, 13), (7, 22), (22, 13)],
   [(10, 2), (19, 4), (28, 6), (33, 4)],
   [(8, 4), (22, 3), (8, 26), (12, 28)],
   [(3, 10), (3, 23), (4, 31), (11, 31)],
   [(7, 7), (21, 7), (1, 37), (19, 26)],
   [(5, 10), (19, 10), (15, 25), (23, 25)],
   [(13, 3), (2, 29), (42, 1), (23, 28)],
   [(17, 0), (10, 23), (10, 35), (19, 35)],
   [(17, 1), (14, 21), (29, 19), (11, 46)],
   [(13, 6), (14, 23), (44, 7), (59, 1)],
   [(12, 7), (12, 26), (39, 14), (22, 41)],
   [(6, 14), (6, 34), (46, 10), (2, 64)],
   [(17, 4), (29, 14), (49, 10), (24, 46)],
   [(4, 18), (13, 32), (48, 14), (42, 32)],
   [(20, 4), (40, 7), (43, 22), (10, 67)],
   [(19, 6), (18, 31), (34, 34), (20, 61)]]"

text \<open>The result is the array \<open>spec[5]\<close>, read through the macros below.\<close>

definition QRspec_getEccSpec :: "nat \<Rightarrow> QRecLevel \<Rightarrow> nat list" where
  "QRspec_getEccSpec version level =
     (let b1 = fst (eccTable ! version ! level);
          b2 = snd (eccTable ! version ! level);
          data = QRspec_getDataLength version level;
          ecc = QRspec_getECCLength version level
      in if b2 = 0 then [b1, data div b1, ecc div b1, 0, 0]
         else [b1, data div (b1 + b2), ecc div (b1 + b2), b2, data div (b1 + b2) + 1])"

definition QRspec_rsBlockNum :: "nat list \<Rightarrow> nat" where
  "QRspec_rsBlockNum spec = spec ! 0 + spec ! 3"

definition QRspec_rsBlockNum1 :: "nat list \<Rightarrow> nat" where
  "QRspec_rsBlockNum1 spec = spec ! 0"

definition QRspec_rsDataCodes1 :: "nat list \<Rightarrow> nat" where
  "QRspec_rsDataCodes1 spec = spec ! 1"

definition QRspec_rsEccCodes1 :: "nat list \<Rightarrow> nat" where
  "QRspec_rsEccCodes1 spec = spec ! 2"

definition QRspec_rsBlockNum2 :: "nat list \<Rightarrow> nat" where
  "QRspec_rsBlockNum2 spec = spec ! 3"

definition QRspec_rsDataCodes2 :: "nat list \<Rightarrow> nat" where
  "QRspec_rsDataCodes2 spec = spec ! 4"

definition QRspec_rsEccCodes2 :: "nat list \<Rightarrow> nat" where
  "QRspec_rsEccCodes2 spec = spec ! 2"

definition QRspec_rsDataLength :: "nat list \<Rightarrow> nat" where
  "QRspec_rsDataLength spec =
     QRspec_rsBlockNum1 spec * QRspec_rsDataCodes1 spec + QRspec_rsBlockNum2 spec * QRspec_rsDataCodes2 spec"

definition QRspec_rsEccLength :: "nat list \<Rightarrow> nat" where
  "QRspec_rsEccLength spec = QRspec_rsBlockNum spec * QRspec_rsEccCodes1 spec"

section \<open>Alignment pattern\<close>

definition alignmentPattern :: "(int \<times> int) list" where
  "alignmentPattern =
  [(0, 0), (0, 0), (18, 0), (22, 0), (26, 0),
   (30, 0), (34, 0), (22, 38), (24, 42), (26, 46),
   (28, 50), (30, 54), (32, 58), (34, 62), (26, 46),
   (26, 48), (26, 50), (30, 54), (30, 56), (30, 58),
   (34, 62), (28, 50), (26, 50), (30, 54), (28, 54),
   (32, 58), (30, 58), (34, 62), (26, 50), (30, 54),
   (26, 52), (30, 56), (34, 60), (30, 58), (34, 62),
   (30, 54), (24, 50), (28, 54), (32, 58), (26, 54),
   (30, 58)]"

text \<open>Copying a block of rows into a frame of the given width, from position \<open>p\<close> on.\<close>

fun put_rows :: "nat \<Rightarrow> nat \<Rightarrow> byte list list \<Rightarrow> byte list \<Rightarrow> byte list" where
  "put_rows width p [] frame = frame"
| "put_rows width p (s # ss) frame = put_rows width (p + width) ss (write_at p s frame)"

definition alignment_finder :: "byte list list" where
  "alignment_finder =
  [[0xa1, 0xa1, 0xa1, 0xa1, 0xa1],
   [0xa1, 0xa0, 0xa0, 0xa0, 0xa1],
   [0xa1, 0xa0, 0xa1, 0xa0, 0xa1],
   [0xa1, 0xa0, 0xa0, 0xa0, 0xa1],
   [0xa1, 0xa1, 0xa1, 0xa1, 0xa1]]"

definition QRspec_putAlignmentMarker :: "nat \<Rightarrow> nat \<Rightarrow> nat \<Rightarrow> byte list \<Rightarrow> byte list" where
  "QRspec_putAlignmentMarker width ox oy frame =
     put_rows width ((oy - 2) * width + ox - 2) alignment_finder frame"

definition QRspec_putAlignmentPattern :: "nat \<Rightarrow> nat \<Rightarrow> byte list \<Rightarrow> byte list" where
  "QRspec_putAlignmentPattern version width frame =
     (if version < 2 then frame
      else let a0 = fst (alignmentPattern ! version);
               a1 = snd (alignmentPattern ! version);
               d = a1 - a0;
               w = (if d < 0 then 2 else (int width - a0) div d + 2)
           in if w * w - 3 = 1 then QRspec_putAlignmentMarker width (nat a0) (nat a0) frame
              else let f1 = snd (fold (\<lambda>x (cx, f). (cx + d,
                              QRspec_putAlignmentMarker width (nat cx) 6
                                (QRspec_putAlignmentMarker width 6 (nat cx) f)))
                            [1..<nat (w - 1)] (a0, frame))
                   in snd (fold (\<lambda>y (cy, f). (cy + d,
                              snd (fold (\<lambda>x (cx, f). (cx + d,
                                    QRspec_putAlignmentMarker width (nat cx) (nat cy) f))
                                  [0..<nat (w - 1)] (a0, f))))
                          [0..<nat (w - 1)] (a0, f1)))"

section \<open>Version and format information\<close>

definition versionPattern :: "uint list" where
  "versionPattern =
  [0x07c94, 0x085bc, 0x09a99, 0x0a4d3, 0x0bbf6, 0x0c762, 0x0d847, 0x0e60d,
   0x0f928, 0x10b78, 0x1145d, 0x12a17, 0x13532, 0x149a6, 0x15683, 0x168c9,
   0x177ec, 0x18ec4, 0x191e1, 0x1afab, 0x1b08e, 0x1cc1a, 0x1d33f, 0x1ed75,
   0x1f250, 0x209d5, 0x216f0, 0x228ba, 0x2379f, 0x24b0b, 0x2542e, 0x26a64,
   0x27541, 0x28c69]"

definition QRspec_getVersionPattern :: "nat \<Rightarrow> uint" where
  "QRspec_getVersionPattern version =
     (if version < 7 \<or> version > QRSPEC_VERSION_MAX then 0 else versionPattern ! (version - 7))"

definition formatInfo :: "uint list list" where
  "formatInfo =
  [[0x77c4, 0x72f3, 0x7daa, 0x789d, 0x662f, 0x6318, 0x6c41, 0x6976],
   [0x5412, 0x5125, 0x5e7c, 0x5b4b, 0x45f9, 0x40ce, 0x4f97, 0x4aa0],
   [0x355f, 0x3068, 0x3f31, 0x3a06, 0x24b4, 0x2183, 0x2eda, 0x2bed],
   [0x1689, 0x13be, 0x1ce7, 0x19d0, 0x0762, 0x0255, 0x0d0c, 0x083b]]"

definition QRspec_getFormatInfo :: "int \<Rightarrow> QRecLevel \<Rightarrow> uint" where
  "QRspec_getFormatInfo msk level =
     (if msk < 0 \<or> msk > 7 then 0 else formatInfo ! level ! nat msk)"

section \<open>Frame\<close>

definition finder_pattern :: "byte list list" where
  "finder_pattern =
  [[0xc1, 0xc1, 0xc1, 0xc1, 0xc1, 0xc1, 0xc1],
   [0xc1, 0xc0, 0xc0, 0xc0, 0xc0, 0xc0, 0xc1],
   [0xc1, 0xc0, 0xc1, 0xc1, 0xc1, 0xc0, 0xc1],
   [0xc1, 0xc0, 0xc1, 0xc1, 0xc1, 0xc0, 0xc1],
   [0xc1, 0xc0, 0xc1, 0xc1, 0xc1, 0xc0, 0xc1],
   [0xc1, 0xc0, 0xc0, 0xc0, 0xc0, 0xc0, 0xc1],
   [0xc1, 0xc1, 0xc1, 0xc1, 0xc1, 0xc1, 0xc1]]"

definition putFinderPattern :: "nat \<Rightarrow> nat \<Rightarrow> nat \<Rightarrow> byte list \<Rightarrow> byte list" where
  "putFinderPattern width ox oy frame = put_rows width (oy * width + ox) finder_pattern frame"

text \<open>The steps of \<open>QRspec_createFrame\<close>, in the order of the code.\<close>

definition frame_finders :: "nat \<Rightarrow> byte list \<Rightarrow> byte list" where
  "frame_finders width frame =
     putFinderPattern width 0 (width - 7)
       (putFinderPattern width (width - 7) 0 (putFinderPattern width 0 0 frame))"

definition frame_separators :: "nat \<Rightarrow> byte list \<Rightarrow> byte list" where
  "frame_separators width frame =
     (let f1 = fold (\<lambda>y f. f[width * y + 7 := 0xc0,
                            width * y + width - 8 := 0xc0,
                            width * (width - 7) + width * y + 7 := 0xc0]) [0..<7] frame
      in write_at (width * (width - 8)) (replicate 8 0xc0)
           (write_at (width * 8 - 8) (replicate 8 0xc0)
             (write_at (width * 7) (replicate 8 0xc0) f1)))"

definition frame_format_area :: "nat \<Rightarrow> byte list \<Rightarrow> byte list" where
  "frame_format_area width frame =
     (let f1 = write_at (width * 9 - 8) (replicate 8 0x84)
                 (write_at (width * 8) (replicate 9 0x84) frame);
          f2 = fold (\<lambda>y f. f[8 + width * y := 0x84]) [0..<8] f1
      in fold (\<lambda>y f. f[width * (width - 7) + 8 + width * y := 0x84]) [0..<7] f2)"

definition frame_timing :: "nat \<Rightarrow> byte list \<Rightarrow> byte list" where
  "frame_timing width frame =
     fold (\<lambda>x f. f[width * 6 + 8 + (x - 1) := 0x90 OR (word_of_nat x AND 1),
                   width * 8 + 6 + width * (x - 1) := 0x90 OR (word_of_nat x AND 1)])
       [1..<width - 15] frame"

definition frame_version_info :: "nat \<Rightarrow> nat \<Rightarrow> byte list \<Rightarrow> byte list" where
  "frame_version_info version width frame =
     (if version \<ge> 7 then
        let verinfo = QRspec_getVersionPattern version;
            f1 = snd (fold (\<lambda>(x, y) (v, f). (drop_bit 1 v,
                      f[width * (width - 11) + (width * y + x) := 0x88 OR (ucast v AND 1)]))
                   (List.product [0..<6] [0..<3]) (verinfo, frame))
        in snd (fold (\<lambda>(y, x) (v, f). (drop_bit 1 v,
                      f[(width - 11) + width * y + x := 0x88 OR (ucast v AND 1)]))
                   (List.product [0..<6] [0..<3]) (verinfo, f1))
      else frame)"

definition QRspec_createFrame :: "nat \<Rightarrow> byte list" where
  "QRspec_createFrame version =
     (let width = cap_width (qrspecCapacity ! version);
          f0 = replicate (width * width) 0;
          f1 = frame_finders width f0;
          f2 = frame_separators width f1;
          f3 = frame_format_area width f2;
          f4 = frame_timing width f3;
          f5 = QRspec_putAlignmentPattern version width f4;
          f6 = frame_version_info version width f5
      in f6[width * (width - 8) + 8 := 0x81])"

text \<open>Bit 7 of a module marks it as part of a function pattern.\<close>

definition is_data :: "byte list \<Rightarrow> nat \<Rightarrow> bool" where
  "is_data frame p \<longleftrightarrow> frame ! p AND 0x80 = 0"

text \<open>\<open>frames\<close> is the static cache: the pointer table indexed by version.\<close>

type_synonym frame_cache = "nat \<Rightarrow> byte list option"

definition QRspec_newFrame :: "frame_cache \<Rightarrow> int \<Rightarrow> byte list res \<times> frame_cache" where
  "QRspec_newFrame frames version =
     (if version < 1 \<or> version > int QRSPEC_VERSION_MAX then (Inl ENOERR, frames)
      else let v = nat version;
               frames' = (case frames v of
                            None \<Rightarrow> frames(v := Some (QRspec_createFrame v))
                          | Some _ \<Rightarrow> frames);
               width = cap_width (qrspecCapacity ! v)
           in (case frames' v of
                 None \<Rightarrow> Inl ENOERR
               | Some f \<Rightarrow> Inr (take (width * width) f), frames'))"

definition QRspec_clearCache :: "frame_cache \<Rightarrow> frame_cache" where
  "QRspec_clearCache frames = fold (\<lambda>i f. f(i := None)) [1..<Suc QRSPEC_VERSION_MAX] frames"

section \<open>The tables\<close>

text \<open>Facts about all forty versions are checked row by row on the tables.\<close>

lemma length_tables [simp]: "length qrspecCapacity = 41" "length eccTable = 41" "length alignmentPattern = 41"
  by (simp_all add: qrspecCapacity_def eccTable_def alignmentPattern_def)

lemma table_rowwise:
  assumes "list_all2 P (tl xs) (tl ys)" "length xs = 41" "length ys = 41" "1 \<le> v" "v \<le> 40"
  shows "P (xs ! v) (ys ! v)"
proof -
  obtain k where "v = Suc k" using assms(4) by (cases v) auto
  then show ?thesis using assms list_all2_nthD [OF assms(1), of k] by (simp add: nth_tl list_all2_lengthD)
qed

definition level_spec :: "QRspec_Capacity \<Rightarrow> (nat \<times> nat) list \<Rightarrow> nat \<Rightarrow> bool" where
  "level_spec c e l \<longleftrightarrow>
     (let ecc = cap_ec c ! l; data = cap_words c - ecc; b1 = fst (e ! l); b2 = snd (e ! l); b = b1 + b2
      in ecc < cap_words c \<and> 0 < b1 \<and> 0 < ecc div b \<and> 0 < data div b
       \<and> b1 * (data div b) + b2 * (data div b + 1) = data \<and> b * (ecc div b) = ecc
       \<and> data div b + 1 + ecc div b < 255)"

lemma level_specs:
  "list_all2 (\<lambda>c e. level_spec c e 0 \<and> level_spec c e 1 \<and> level_spec c e 2 \<and> level_spec c e 3)
     (tl qrspecCapacity) (tl eccTable)"
  by code_simp

lemma level_spec_at:
  assumes "1 \<le> v" "v \<le> 40" "level \<le> QR_ECLEVEL_H"
  shows "level_spec (qrspecCapacity ! v) (eccTable ! v) level"
proof -
  have "level_spec (qrspecCapacity ! v) (eccTable ! v) 0 \<and> level_spec (qrspecCapacity ! v) (eccTable ! v) 1
    \<and> level_spec (qrspecCapacity ! v) (eccTable ! v) 2 \<and> level_spec (qrspecCapacity ! v) (eccTable ! v) 3"
    using table_rowwise [OF level_specs] assms by simp
  moreover have "level = 0 \<or> level = 1 \<or> level = 2 \<or> level = 3" using assms(3) by auto
  ultimately show ?thesis by auto
qed

lemmas ecc_spec_defs = QRspec_getEccSpec_def QRspec_rsBlockNum_def QRspec_rsBlockNum1_def
  QRspec_rsDataCodes1_def QRspec_rsEccCodes1_def QRspec_rsBlockNum2_def QRspec_rsDataCodes2_def
  QRspec_rsEccCodes2_def QRspec_rsDataLength_def QRspec_rsEccLength_def

text \<open>
  For every version and level the block structure of \<open>QRspec_getEccSpec\<close> partitions the
  symbol: the blocks hold exactly the data codewords and exactly the error correction
  codewords of the capacity table, there is at least one block of the first kind, every block
  has data and parity, data and parity of a block fit the codec of 255 symbols, and blocks of
  the second kind, where there are some, are one data codeword longer.
\<close>

lemma ecc_spec_partition:
  assumes "1 \<le> version" "version \<le> QRSPEC_VERSION_MAX" "level \<le> QR_ECLEVEL_H"
  shows "let spec = QRspec_getEccSpec version level
         in QRspec_rsDataLength spec = QRspec_getDataLength version level
          \<and> QRspec_rsEccLength spec = QRspec_getECCLength version level
          \<and> 0 < QRspec_rsBlockNum1 spec \<and> 0 < QRspec_rsDataCodes1 spec \<and> 0 < QRspec_rsEccCodes1 spec
          \<and> QRspec_rsDataCodes1 spec + QRspec_rsEccCodes1 spec < 255
          \<and> (0 < QRspec_rsBlockNum2 spec \<longrightarrow>
               QRspec_rsDataCodes2 spec = QRspec_rsDataCodes1 spec + 1
               \<and> QRspec_rsDataCodes2 spec + QRspec_rsEccCodes2 spec < 255)"
proof -
  have "level_spec (qrspecCapacity ! version) (eccTable ! version) level"
    using assms level_spec_at by (simp add: QRSPEC_VERSION_MAX_def)
  then show ?thesis
    by (auto simp: level_spec_def Let_def ecc_spec_defs QRspec_getDataLength_def QRspec_getECCLength_def)
qed

lemma getMinimumVersion_loop_least:
  "sorted is \<Longrightarrow>
   (case getMinimumVersion_loop is sz level of ver \<Rightarrow>
      (ver = -1 \<and> (\<forall>i \<in> set is. QRspec_getDataLength i level < sz))
      \<or> (\<exists>i \<in> set is. ver = int i \<and> sz \<le> QRspec_getDataLength i level
           \<and> (\<forall>j \<in> set is. j < i \<longrightarrow> QRspec_getDataLength j level < sz)))"
  by (induction "is") (auto simp: QRspec_getDataLength_def)

text \<open>
  \<open>QRspec_getMinimumVersion\<close> returns the least version whose data capacity at the level is
  at least the requested size, and \<open>-1\<close> exactly when not even version 40 can hold it.
\<close>

lemma getMinimumVersion_least:
  "(QRspec_getMinimumVersion sz level = -1
      \<and> (\<forall>i. 1 \<le> i \<and> i \<le> QRSPEC_VERSION_MAX \<longrightarrow> QRspec_getDataLength i level < sz))
   \<or> (\<exists>v. QRspec_getMinimumVersion sz level = int v \<and> 1 \<le> v \<and> v \<le> QRSPEC_VERSION_MAX
        \<and> sz \<le> QRspec_getDataLength v level
        \<and> (\<forall>i. 1 \<le> i \<and> i < v \<longrightarrow> QRspec_getDataLength i level < sz))"
proof -
  have "sorted [1..<Suc QRSPEC_VERSION_MAX]" by (rule sorted_upt)
  from getMinimumVersion_loop_least [OF this, of sz level] show ?thesis
    unfolding QRspec_getMinimumVersion_def by fastforce
qed

section \<open>The BCH codes of the version and format information\<close>

text \<open>
  The standard defines the version information as a codeword of the (18, 6) BCH code with
  generator \<open>0x1f25\<close> and the format information as one of the (15, 5) code with generator
  \<open>0x537\<close>, masked with \<open>0x5412\<close>. The code has only their tables. A codeword is the list of its bits,
  most significant first, and \<open>bch_rem\<close> the remainder of the polynomial division.
\<close>

fun nat_bits :: "nat \<Rightarrow> nat \<Rightarrow> bool list" where
  "nat_bits 0 v = []"
| "nat_bits (Suc n) v = odd (v div 2 ^ n) # nat_bits n v"

fun xor_prefix :: "bool list \<Rightarrow> bool list \<Rightarrow> bool list" where
  "xor_prefix [] bs = bs"
| "xor_prefix as [] = []"
| "xor_prefix (a # as) (b # bs) = (a \<noteq> b) # xor_prefix as bs"

fun bch_rem :: "nat \<Rightarrow> bool list \<Rightarrow> bool list \<Rightarrow> bool list" where
  "bch_rem 0 g as = as"
| "bch_rem (Suc k) g as = bch_rem k g (if hd as then xor_prefix (tl g) (tl as) else tl as)"

fun hamming :: "bool list \<Rightarrow> bool list \<Rightarrow> nat" where
  "hamming (a # as) (b # bs) = (if a = b then 0 else 1) + hamming as bs"
| "hamming as bs = 0"

lemma hamming_commute: "hamming as bs = hamming bs as"
  by (induction as bs rule: hamming.induct) auto

fun pairwise_list :: "('a \<Rightarrow> 'a \<Rightarrow> bool) \<Rightarrow> 'a list \<Rightarrow> bool" where
  "pairwise_list P [] = True"
| "pairwise_list P (x # xs) \<longleftrightarrow> list_all (P x) xs \<and> pairwise_list P xs"

lemma pairwise_list_nth:
  "pairwise_list P xs \<Longrightarrow> i < j \<Longrightarrow> j < length xs \<Longrightarrow> P (xs ! i) (xs ! j)"
proof (induction xs arbitrary: i j)
  case (Cons x xs)
  then show ?case by (cases i; cases j) (auto simp: list_all_length)
qed simp

lemma pairwise_hamming_nth:
  assumes "pairwise_list (\<lambda>p q. d \<le> hamming p q) ws" "i \<noteq> j" "i < length ws" "j < length ws"
  shows "d \<le> hamming (ws ! i) (ws ! j)"
  using assms pairwise_list_nth [OF assms(1), of i j] pairwise_list_nth [OF assms(1), of j i]
  by (cases "i < j") (auto simp: hamming_commute)

definition version_bits :: "nat \<Rightarrow> bool list" where
  "version_bits version = nat_bits 18 (unat (QRspec_getVersionPattern version))"

definition version_nats :: "nat list" where
  "version_nats =
  [0x07c94, 0x085bc, 0x09a99, 0x0a4d3, 0x0bbf6, 0x0c762, 0x0d847, 0x0e60d,
   0x0f928, 0x10b78, 0x1145d, 0x12a17, 0x13532, 0x149a6, 0x15683, 0x168c9,
   0x177ec, 0x18ec4, 0x191e1, 0x1afab, 0x1b08e, 0x1cc1a, 0x1d33f, 0x1ed75,
   0x1f250, 0x209d5, 0x216f0, 0x228ba, 0x2379f, 0x24b0b, 0x2542e, 0x26a64,
   0x27541, 0x28c69]"

lemma version_nats: "map unat versionPattern = version_nats" "length version_nats = 34"
  by (simp_all add: versionPattern_def version_nats_def)

lemma unat_getVersionPattern:
  assumes "7 \<le> v" "v \<le> 40"
  shows "unat (QRspec_getVersionPattern v) = version_nats ! (v - 7)"
proof -
  have "length versionPattern = 34" by (simp add: versionPattern_def)
  then show ?thesis
    using assms by (simp add: QRspec_getVersionPattern_def QRSPEC_VERSION_MAX_def flip: version_nats(1))
qed

lemma version_codewords:
  "list_all (\<lambda>i. version_nats ! i div 2 ^ 12 = i + 7
     \<and> bch_rem 6 (nat_bits 13 0x1f25) (nat_bits 18 (version_nats ! i)) = replicate 12 False) [0..<34]"
  by code_simp

lemma version_distances: "pairwise_list (\<lambda>p q. 8 \<le> hamming p q) (map (nat_bits 18) version_nats)"
  by code_simp

definition format_bits :: "int \<Rightarrow> QRecLevel \<Rightarrow> bool list" where
  "format_bits msk level = nat_bits 15 (unat (QRspec_getFormatInfo msk level))"

definition format_nats :: "nat list" where
  "format_nats =
  [0x77c4, 0x72f3, 0x7daa, 0x789d, 0x662f, 0x6318, 0x6c41, 0x6976,
   0x5412, 0x5125, 0x5e7c, 0x5b4b, 0x45f9, 0x40ce, 0x4f97, 0x4aa0,
   0x355f, 0x3068, 0x3f31, 0x3a06, 0x24b4, 0x2183, 0x2eda, 0x2bed,
   0x1689, 0x13be, 0x1ce7, 0x19d0, 0x0762, 0x0255, 0x0d0c, 0x083b]"

lemma format_nats: "list_all (\<lambda>l. map unat (formatInfo ! l) = take 8 (drop (8 * l) format_nats)) [0..<4]"
  "list_all (\<lambda>l. length (formatInfo ! l) = 8) [0..<4]" "length format_nats = 32"
  by (simp_all add: formatInfo_def format_nats_def upt_rec)

lemma unat_getFormatInfo:
  assumes "0 \<le> msk" "msk \<le> 7" "level \<le> QR_ECLEVEL_H"
  shows "unat (QRspec_getFormatInfo msk level) = format_nats ! (8 * level + nat msk)"
proof -
  have l: "level < 4" "nat msk < 8" using assms by auto
  have "unat (formatInfo ! level ! nat msk) = map unat (formatInfo ! level) ! nat msk"
    using list_all_upt [OF format_nats(2) l(1)] l(2) by simp
  also have "\<dots> = format_nats ! (8 * level + nat msk)"
    using list_all_upt [OF format_nats(1) l(1)] l format_nats(3) by simp
  finally show ?thesis using assms by (simp add: QRspec_getFormatInfo_def)
qed

text \<open>The two bits that stand for the levels L, M, Q, H.\<close>

definition level_bits :: "nat list" where
  "level_bits = [1, 0, 3, 2]"

definition format_codeword :: "nat \<Rightarrow> nat \<Rightarrow> bool" where
  "format_codeword d p \<longleftrightarrow>
     xor_prefix (nat_bits 5 0x15) (nat_bits 5 (p div 2 ^ 10)) = nat_bits 5 d
     \<and> bch_rem 5 (nat_bits 11 0x537) (xor_prefix (nat_bits 15 0x5412) (nat_bits 15 p)) = replicate 10 False"

definition format_data :: "nat list" where
  "format_data =
  [8, 9, 10, 11, 12, 13, 14, 15, 0, 1, 2, 3, 4, 5, 6, 7,
   24, 25, 26, 27, 28, 29, 30, 31, 16, 17, 18, 19, 20, 21, 22, 23]"

lemma format_data:
  "list_all (\<lambda>l. list_all (\<lambda>m. format_data ! (8 * l + m) = level_bits ! l * 8 + m) [0..<8]) [0..<4]"
  "length format_data = 32"
  by (simp_all add: format_data_def level_bits_def upt_rec)

lemma format_codewords: "list_all2 format_codeword format_data format_nats"
  by code_simp

lemma format_distances: "pairwise_list (\<lambda>p q. 5 \<le> hamming p q) (map (nat_bits 15) format_nats)"
  by code_simp

text \<open>
  The version information of versions 7 to 40 is the systematic (18, 6) BCH codeword of
  the version number, and that of two different versions differs in at least eight modules,
  so that three wrong modules can be corrected.
\<close>

lemma version_info_bch:
  assumes "7 \<le> v" "v \<le> QRSPEC_VERSION_MAX"
  shows "unat (QRspec_getVersionPattern v) div 2 ^ 12 = v
     \<and> bch_rem 6 (nat_bits 13 0x1f25) (version_bits v) = replicate 12 False
     \<and> (\<forall>u. 7 \<le> u \<and> u \<le> QRSPEC_VERSION_MAX \<and> u \<noteq> v \<longrightarrow> 8 \<le> hamming (version_bits u) (version_bits v))"
proof -
  have row: "version_nats ! (v - 7) div 2 ^ 12 = v
      \<and> bch_rem 6 (nat_bits 13 0x1f25) (nat_bits 18 (version_nats ! (v - 7))) = replicate 12 False"
    using list_all_upt [OF version_codewords, of "v - 7"] assms by (simp add: QRSPEC_VERSION_MAX_def)
  have "8 \<le> hamming (version_bits u) (version_bits v)"
    if "7 \<le> u" "u \<le> QRSPEC_VERSION_MAX" "u \<noteq> v" for u
    using pairwise_hamming_nth [OF version_distances, of "u - 7" "v - 7"] that assms
    by (simp add: version_bits_def unat_getVersionPattern QRSPEC_VERSION_MAX_def version_nats)
  with row show ?thesis
    using assms by (simp add: version_bits_def unat_getVersionPattern QRSPEC_VERSION_MAX_def)
qed

text \<open>
  The format information of every level and mask, unmasked with \<open>0x5412\<close>, is the
  systematic (15, 5) BCH codeword of the two bits of the level and the three of the mask (whose
  own mask is \<open>0x15\<close>, the top of \<open>0x5412\<close>); different pairs differ in at least five modules. Mask numbers out of range give 0.
\<close>

lemma format_info_bch:
  assumes "0 \<le> msk" "msk \<le> 7" "level \<le> QR_ECLEVEL_H"
  shows "xor_prefix (nat_bits 5 0x15) (nat_bits 5 (unat (QRspec_getFormatInfo msk level) div 2 ^ 10))
           = nat_bits 5 (level_bits ! level * 8 + nat msk)
     \<and> bch_rem 5 (nat_bits 11 0x537) (xor_prefix (nat_bits 15 0x5412) (format_bits msk level))
           = replicate 10 False
     \<and> (\<forall>msk' level'. 0 \<le> msk' \<and> msk' \<le> 7 \<and> level' \<le> QR_ECLEVEL_H \<and> (msk', level') \<noteq> (msk, level)
           \<longrightarrow> 5 \<le> hamming (format_bits msk' level') (format_bits msk level))
     \<and> (\<forall>m. m < 0 \<or> m > 7 \<longrightarrow> QRspec_getFormatInfo m level = 0)"
proof -
  have i: "8 * level + nat msk < 32" "(8 * level + nat msk) div 8 = level" "(8 * level + nat msk) mod 8 = nat msk"
    using assms by auto
  have "format_data ! (8 * level + nat msk) = level_bits ! level * 8 + nat msk"
    using list_all_upt [OF list_all_upt [OF format_data(1)], of level "nat msk"] assms by simp
  with list_all2_nthD [OF format_codewords, of "8 * level + nat msk"] i(1) format_data(2)
  have row: "format_codeword (level_bits ! level * 8 + nat msk) (format_nats ! (8 * level + nat msk))"
    by simp
  have "5 \<le> hamming (format_bits msk' level') (format_bits msk level)"
    if "0 \<le> msk'" "msk' \<le> 7" "level' \<le> QR_ECLEVEL_H" "(msk', level') \<noteq> (msk, level)" for msk' level'
  proof -
    have "8 * level' + nat msk' \<noteq> 8 * level + nat msk"
    proof
      assume e: "8 * level' + nat msk' = 8 * level + nat msk"
      have "(8 * level' + nat msk') div 8 = level'" "(8 * level' + nat msk') mod 8 = nat msk'"
        using that by auto
      with i(2,3) e have "level' = level" "nat msk' = nat msk" by simp_all
      then show False using that assms(1) by (simp add: eq_nat_nat_iff)
    qed
    then show ?thesis
      using pairwise_hamming_nth [OF format_distances, of "8 * level' + nat msk'" "8 * level + nat msk"] that assms
        format_nats(3)
      by (simp add: format_bits_def unat_getFormatInfo del: nat_bits.simps)
  qed
  with row show ?thesis
    using assms
    by (simp add: QRspec_getFormatInfo_def format_bits_def unat_getFormatInfo [symmetric] format_codeword_def Let_def
        del: nat_bits.simps)
qed

section \<open>The cache of frames\<close>

text \<open>Every cached frame is the one \<open>QRspec_createFrame\<close> builds.\<close>

definition frames_inv :: "frame_cache \<Rightarrow> bool" where
  "frames_inv frames \<longleftrightarrow> (\<forall>v f. frames v = Some f \<longrightarrow> f = QRspec_createFrame v)"

lemma length_put_rows [simp]: "length (put_rows width p ss frame) = length frame"
  by (induction ss arbitrary: p frame) auto

lemma length_putAlignmentMarker [simp]:
  "length (QRspec_putAlignmentMarker width ox oy frame) = length frame"
  by (simp add: QRspec_putAlignmentMarker_def)

lemma length_putAlignmentPattern [simp]:
  "length (QRspec_putAlignmentPattern version width frame) = length frame"
  by (auto simp: QRspec_putAlignmentPattern_def Let_def case_prod_unfold length_snd_fold)

lemma length_createFrame [simp]:
  "length (QRspec_createFrame version) = QRspec_getWidth version * QRspec_getWidth version"
  by (auto simp: QRspec_createFrame_def Let_def frame_finders_def putFinderPattern_def frame_separators_def
      frame_format_area_def frame_timing_def frame_version_info_def QRspec_getWidth_def case_prod_unfold
      length_snd_fold length_fold_update)

section \<open>Caches of frames\<close>

text \<open>
  What the two caches of frames promise: versions out of range are refused, a frame that was
  cached is returned, a missing one is created and kept.
\<close>

locale frame_provider =
  fixes new_frame :: "frame_cache \<Rightarrow> int \<Rightarrow> byte list res \<times> frame_cache"
    and create :: "nat \<Rightarrow> byte list"
    and max_version :: nat
  assumes out_of_range: "version < 1 \<or> version > int max_version \<Longrightarrow> new_frame frames version = (Inl ENOERR, frames)"
    and hit: "1 \<le> v \<Longrightarrow> v \<le> max_version \<Longrightarrow> frames v = Some (create v) \<Longrightarrow>
      new_frame frames (int v) = (Inr (create v), frames)"
    and miss: "1 \<le> v \<Longrightarrow> v \<le> max_version \<Longrightarrow> frames v = None \<Longrightarrow>
      new_frame frames (int v) = (Inr (create v), frames(v := Some (create v)))"
begin

lemma transparent:
  assumes inv: "\<And>v f. frames v = Some f \<Longrightarrow> f = create v"
  shows "fst (new_frame frames version)
       = (if 1 \<le> version \<and> version \<le> int max_version then Inr (create (nat version)) else Inl ENOERR)"
    and "snd (new_frame frames version) v = Some f \<Longrightarrow> f = create v"
    and "1 \<le> version \<Longrightarrow> version \<le> int max_version \<Longrightarrow> snd (new_frame frames version) (nat version) \<noteq> None"
    and "\<not> (1 \<le> version \<and> version \<le> int max_version) \<Longrightarrow> snd (new_frame frames version) = frames"
proof -
  have range: "\<exists>r. new_frame frames version = (Inr (create (nat version)), r)
      \<and> (r = frames \<and> frames (nat version) = Some (create (nat version)) \<or> r = frames(nat version := Some (create (nat version))))"
    if "1 \<le> version" "version \<le> int max_version"
  proof -
    have v: "1 \<le> nat version" "nat version \<le> max_version" "int (nat version) = version" using that by simp_all
    show ?thesis using hit [OF v(1,2), of frames] miss [OF v(1,2), of frames] inv [of "nat version"]
      unfolding v(3) by (cases "frames (nat version)") auto
  qed
  show "fst (new_frame frames version)
       = (if 1 \<le> version \<and> version \<le> int max_version then Inr (create (nat version)) else Inl ENOERR)"
    using range out_of_range [of version frames] by auto
  show "f = create v" if "snd (new_frame frames version) v = Some f"
    using that range out_of_range [of version frames] inv [of v f]
    by (cases "1 \<le> version \<and> version \<le> int max_version") (auto split: if_splits)
  show "snd (new_frame frames version) (nat version) \<noteq> None" if "1 \<le> version" "version \<le> int max_version"
    using range [OF that] by auto
  show "snd (new_frame frames version) = frames" if "\<not> (1 \<le> version \<and> version \<le> int max_version)"
    using out_of_range [of version frames] that by auto
qed

end

interpretation qr_frames: frame_provider QRspec_newFrame QRspec_createFrame QRSPEC_VERSION_MAX
proof
  have "take (cap_width (qrspecCapacity ! v) * cap_width (qrspecCapacity ! v)) (QRspec_createFrame v)
      = QRspec_createFrame v" for v
    by (simp add: QRspec_getWidth_def)
  then show "1 \<le> v \<Longrightarrow> v \<le> QRSPEC_VERSION_MAX \<Longrightarrow> frames v = Some (QRspec_createFrame v) \<Longrightarrow>
      QRspec_newFrame frames (int v) = (Inr (QRspec_createFrame v), frames)"
    "1 \<le> v \<Longrightarrow> v \<le> QRSPEC_VERSION_MAX \<Longrightarrow> frames v = None \<Longrightarrow>
      QRspec_newFrame frames (int v) = (Inr (QRspec_createFrame v), frames(v := Some (QRspec_createFrame v)))" for v frames
    by (simp_all add: QRspec_newFrame_def Let_def del: length_createFrame take_all)
qed (simp add: QRspec_newFrame_def)

text \<open>
  The cache of frames is invisible and keeps its invariant: for every version of the
  standard \<open>QRspec_newFrame\<close> returns the frame \<open>QRspec_createFrame\<close> builds, of \<open>width * width\<close>
  modules, whatever the cache held; other versions are refused and leave the cache alone; a
  cleared cache is one of the states of the invariant.
\<close>

lemma newFrame_cache_transparent:
  assumes "frames_inv frames"
  shows "(case QRspec_newFrame frames version of (r, frames') \<Rightarrow>
            frames_inv frames'
          \<and> (if 1 \<le> version \<and> version \<le> int QRSPEC_VERSION_MAX
             then r = Inr (QRspec_createFrame (nat version)) \<and> frames' (nat version) \<noteq> None
             else r = Inl ENOERR \<and> frames' = frames))
       \<and> frames_inv (QRspec_clearCache frames)
       \<and> (\<forall>v. 1 \<le> v \<and> v \<le> QRSPEC_VERSION_MAX \<longrightarrow> QRspec_clearCache frames v = None)"
proof -
  have clear: "fold (\<lambda>i f. f(i := None)) is frames = (\<lambda>v. if v \<in> set is then None else frames v)" for "is"
    by (induction "is" arbitrary: frames) auto
  have inv: "frames v = Some f \<Longrightarrow> f = QRspec_createFrame v" for v f using assms by (simp add: frames_inv_def)
  show ?thesis
    using assms qr_frames.transparent [OF inv, where version = version]
    unfolding QRspec_clearCache_def clear
    by (auto simp: frames_inv_def case_prod_unfold)
qed

end
