(* ===== verification/QR_MSpec.thy ===== *)
theory QR_MSpec
  imports QR_Spec
begin

text \<open>
  \<open>mqrspec.c\<close>: the tables of Micro QR Code, the lookups on them, the initial frames and
  their cache.
\<close>

section \<open>Version and capacity\<close>

definition MQRSPEC_VERSION_MAX :: nat where
  "MQRSPEC_VERSION_MAX = 4"

record MQRspec_Capacity =
  mcap_width :: nat
  mcap_ec :: "nat list"

definition mqrspecCapacity :: "MQRspec_Capacity list" where
  "mqrspecCapacity =
  [\<lparr>mcap_width = 0, mcap_ec = [0, 0, 0, 0]\<rparr>,
   \<lparr>mcap_width = 11, mcap_ec = [2, 0, 0, 0]\<rparr>,
   \<lparr>mcap_width = 13, mcap_ec = [5, 6, 0, 0]\<rparr>,
   \<lparr>mcap_width = 15, mcap_ec = [6, 8, 0, 0]\<rparr>,
   \<lparr>mcap_width = 17, mcap_ec = [8, 10, 14, 0]\<rparr>]"

definition MQRspec_getDataLengthBit :: "nat \<Rightarrow> QRecLevel \<Rightarrow> nat" where
  "MQRspec_getDataLengthBit version level =
     (let w = mcap_width (mqrspecCapacity ! version) - 1;
          ecc = mcap_ec (mqrspecCapacity ! version) ! level
      in if ecc = 0 then 0 else w * w - 64 - ecc * 8)"

definition MQRspec_getDataLength :: "nat \<Rightarrow> QRecLevel \<Rightarrow> nat" where
  "MQRspec_getDataLength version level = (MQRspec_getDataLengthBit version level + 4) div 8"

definition MQRspec_getECCLength :: "nat \<Rightarrow> QRecLevel \<Rightarrow> nat" where
  "MQRspec_getECCLength version level = mcap_ec (mqrspecCapacity ! version) ! level"

definition MQRspec_getWidth :: "nat \<Rightarrow> nat" where
  "MQRspec_getWidth version = mcap_width (mqrspecCapacity ! version)"

section \<open>Length indicator\<close>

definition mqr_lengthTableBits :: "nat list list" where
  "mqr_lengthTableBits = [[3, 4, 5, 6], [0, 3, 4, 5], [0, 0, 4, 5], [0, 0, 3, 4]]"

definition MQRspec_lengthIndicator :: "QRencodeMode \<Rightarrow> nat \<Rightarrow> nat" where
  "MQRspec_lengthIndicator mode version = mqr_lengthTableBits ! nat (mode_val mode) ! (version - 1)"

definition MQRspec_maximumWords :: "QRencodeMode \<Rightarrow> nat \<Rightarrow> nat" where
  "MQRspec_maximumWords mode version =
     (let bits = mqr_lengthTableBits ! nat (mode_val mode) ! (version - 1);
          words = 2 ^ bits - 1
      in if mode = QR_MODE_KANJI then words * 2 else words)"

section \<open>Format information\<close>

definition mqr_formatInfo :: "uint list list" where
  "mqr_formatInfo =
  [[0x4445, 0x55ae, 0x6793, 0x7678, 0x06de, 0x1735, 0x2508, 0x34e3],
   [0x4172, 0x5099, 0x62a4, 0x734f, 0x03e9, 0x1202, 0x203f, 0x31d4],
   [0x4e2b, 0x5fc0, 0x6dfd, 0x7c16, 0x0cb0, 0x1d5b, 0x2f66, 0x3e8d],
   [0x4b1c, 0x5af7, 0x68ca, 0x7921, 0x0987, 0x186c, 0x2a51, 0x3bba]]"

definition typeTable :: "int list list" where
  "typeTable = [[-1, -1, -1], [0, -1, -1], [1, 2, -1], [3, 4, -1], [5, 6, 7]]"

definition MQRspec_getFormatInfo :: "int \<Rightarrow> nat \<Rightarrow> QRecLevel \<Rightarrow> uint" where
  "MQRspec_getFormatInfo msk version level =
     (if msk < 0 \<or> msk > 3 then 0
      else if version \<le> 0 \<or> version > MQRSPEC_VERSION_MAX then 0
      else if level = QR_ECLEVEL_H then 0
      else let type = typeTable ! version ! level
           in if type < 0 then 0 else mqr_formatInfo ! nat msk ! nat type)"

section \<open>Frame\<close>

text \<open>The finder pattern is that of \<open>qrspec.c\<close>, of which the file has a copy.\<close>

definition mqr_putFinderPattern :: "nat \<Rightarrow> nat \<Rightarrow> nat \<Rightarrow> byte list \<Rightarrow> byte list" where
  "mqr_putFinderPattern width ox oy frame = put_rows width (oy * width + ox) finder_pattern frame"

definition MQRspec_createFrame :: "nat \<Rightarrow> byte list" where
  "MQRspec_createFrame version =
     (let width = mcap_width (mqrspecCapacity ! version);
          f0 = replicate (width * width) 0;
          f1 = mqr_putFinderPattern width 0 0 f0;
          f2 = fold (\<lambda>y f. f[width * y + 7 := 0xc0]) [0..<7] f1;
          f3 = write_at (width * 7) (replicate 8 0xc0) f2;
          f4 = write_at (width * 8 + 1) (replicate 8 0x84) f3;
          f5 = fold (\<lambda>y f. f[width + 8 + width * y := 0x84]) [0..<7] f4
      in fold (\<lambda>x f. f[8 + (x - 1) := 0x90 OR (word_of_nat x AND 1),
                      width * 8 + width * (x - 1) := 0x90 OR (word_of_nat x AND 1)])
           [1..<width - 7] f5)"

definition MQRspec_newFrame :: "frame_cache \<Rightarrow> int \<Rightarrow> byte list res \<times> frame_cache" where
  "MQRspec_newFrame frames version =
     (if version < 1 \<or> version > int MQRSPEC_VERSION_MAX then (Inl ENOERR, frames)
      else let v = nat version;
               frames' = (case frames v of
                            None \<Rightarrow> frames(v := Some (MQRspec_createFrame v))
                          | Some _ \<Rightarrow> frames);
               width = mcap_width (mqrspecCapacity ! v)
           in (case frames' v of
                 None \<Rightarrow> Inl ENOERR
               | Some f \<Rightarrow> Inr (take (width * width) f), frames'))"

definition MQRspec_clearCache :: "frame_cache \<Rightarrow> frame_cache" where
  "MQRspec_clearCache frames = fold (\<lambda>i f. f(i := None)) [1..<Suc MQRSPEC_VERSION_MAX] frames"

section \<open>Caches of frames\<close>

lemma length_MQRcreateFrame [simp]:
  "length (MQRspec_createFrame version) = MQRspec_getWidth version * MQRspec_getWidth version"
  by (auto simp: MQRspec_createFrame_def Let_def mqr_putFinderPattern_def MQRspec_getWidth_def length_fold_update)

interpretation mqr_frames: frame_provider MQRspec_newFrame MQRspec_createFrame MQRSPEC_VERSION_MAX
proof
  have "take (mcap_width (mqrspecCapacity ! v) * mcap_width (mqrspecCapacity ! v)) (MQRspec_createFrame v)
      = MQRspec_createFrame v" for v
    by (simp add: MQRspec_getWidth_def)
  then show "1 \<le> v \<Longrightarrow> v \<le> MQRSPEC_VERSION_MAX \<Longrightarrow> frames v = Some (MQRspec_createFrame v) \<Longrightarrow>
      MQRspec_newFrame frames (int v) = (Inr (MQRspec_createFrame v), frames)"
    "1 \<le> v \<Longrightarrow> v \<le> MQRSPEC_VERSION_MAX \<Longrightarrow> frames v = None \<Longrightarrow>
      MQRspec_newFrame frames (int v) = (Inr (MQRspec_createFrame v), frames(v := Some (MQRspec_createFrame v)))" for v frames
    by (simp_all add: MQRspec_newFrame_def Let_def del: length_MQRcreateFrame take_all)
qed (simp add: MQRspec_newFrame_def)

end
