(* ===== verification/QR_Entry.thy ===== *)
theory QR_Entry
  imports QR_BitStream QR_MSpec "HOL-Library.Signed_Division"
begin

text \<open>
  The entries of \<open>qrinput.c\<close>: a chunk of data with its encoding mode. The theory models the
  validation of a chunk, the estimate of its encoded length, and the encoders that turn it
  into a bit stream. A byte array handed over by a caller is the list of the bytes it points
  to; an array access beyond that list, undefined in C, gives the error \<open>EFAULT\<close> where the
  validation does not rule it out.
\<close>

section \<open>Constants and data\<close>

abbreviation (input) QRSPEC_MODEID_ECI :: uint where "QRSPEC_MODEID_ECI \<equiv> 7"
abbreviation (input) QRSPEC_MODEID_NUM :: uint where "QRSPEC_MODEID_NUM \<equiv> 1"
abbreviation (input) QRSPEC_MODEID_AN :: uint where "QRSPEC_MODEID_AN \<equiv> 2"
abbreviation (input) QRSPEC_MODEID_8 :: uint where "QRSPEC_MODEID_8 \<equiv> 4"
abbreviation (input) QRSPEC_MODEID_KANJI :: uint where "QRSPEC_MODEID_KANJI \<equiv> 8"
abbreviation (input) QRSPEC_MODEID_FNC1SECOND :: uint where "QRSPEC_MODEID_FNC1SECOND \<equiv> 9"
abbreviation (input) QRSPEC_MODEID_STRUCTURE :: uint where "QRSPEC_MODEID_STRUCTURE \<equiv> 3"
abbreviation (input) MQRSPEC_MODEID_NUM :: uint where "MQRSPEC_MODEID_NUM \<equiv> 0"
abbreviation (input) MQRSPEC_MODEID_AN :: uint where "MQRSPEC_MODEID_AN \<equiv> 1"
abbreviation (input) MQRSPEC_MODEID_8 :: uint where "MQRSPEC_MODEID_8 \<equiv> 2"
abbreviation (input) MQRSPEC_MODEID_KANJI :: uint where "MQRSPEC_MODEID_KANJI \<equiv> 3"

definition MODE_INDICATOR_SIZE :: nat where "MODE_INDICATOR_SIZE = 4"
definition STRUCTURE_HEADER_SIZE :: nat where "STRUCTURE_HEADER_SIZE = 20"

text \<open>The pointer \<open>next\<close> is the order of the lists the entries stand in.\<close>

record QRinput_List =
  le_mode :: QRencodeMode
  le_size :: nat
  le_data :: "byte list"
  le_bstream :: "BitStream option"

section \<open>Validation\<close>

text \<open>The data is compared as \<open>char\<close>, which is signed.\<close>

definition QRinput_checkModeNum :: "nat \<Rightarrow> byte list \<Rightarrow> bool" where
  "QRinput_checkModeNum sz data = list_all (\<lambda>i. \<not> (sint (data ! i) < 48 \<or> sint (data ! i) > 57)) [0..<sz]"

definition QRinput_anTable :: "int list" where
  "QRinput_anTable =
  [-1, -1, -1, -1, -1, -1, -1, -1, -1, -1, -1, -1, -1, -1, -1, -1,
   -1, -1, -1, -1, -1, -1, -1, -1, -1, -1, -1, -1, -1, -1, -1, -1,
   36, -1, -1, -1, 37, 38, -1, -1, -1, -1, 39, 40, -1, 41, 42, 43,
    0,  1,  2,  3,  4,  5,  6,  7,  8,  9, 44, -1, -1, -1, -1, -1,
   -1, 10, 11, 12, 13, 14, 15, 16, 17, 18, 19, 20, 21, 22, 23, 24,
   25, 26, 27, 28, 29, 30, 31, 32, 33, 34, 35, -1, -1, -1, -1, -1,
   -1, -1, -1, -1, -1, -1, -1, -1, -1, -1, -1, -1, -1, -1, -1, -1,
   -1, -1, -1, -1, -1, -1, -1, -1, -1, -1, -1, -1, -1, -1, -1, -1]"

definition QRinput_lookAnTable :: "byte \<Rightarrow> int" where
  "QRinput_lookAnTable c = (if c AND 0x80 \<noteq> 0 then -1 else QRinput_anTable ! unat c)"

definition QRinput_checkModeAn :: "nat \<Rightarrow> byte list \<Rightarrow> bool" where
  "QRinput_checkModeAn sz data = list_all (\<lambda>i. \<not> QRinput_lookAnTable (data ! i) < 0) [0..<sz]"

text \<open>The two-byte character at position \<open>i\<close>.\<close>

definition kanji_at :: "byte list \<Rightarrow> nat \<Rightarrow> uint" where
  "kanji_at data i = push_bit 8 (ucast (data ! i)) OR ucast (data ! (i + 1))"

definition kanji_char_ok :: "uint \<Rightarrow> bool" where
  "kanji_char_ok val \<longleftrightarrow> \<not> (val < 0x8140 \<or> (val > 0x9ffc \<and> val < 0xe040) \<or> val > 0xebbf)"

definition QRinput_checkModeKanji :: "nat \<Rightarrow> byte list \<Rightarrow> bool" where
  "QRinput_checkModeKanji sz data \<longleftrightarrow>
     even sz \<and> list_all (\<lambda>k. kanji_char_ok (kanji_at data (2 * k))) [0..<sz div 2]"

definition QRinput_checkModeFNC1Second :: "nat \<Rightarrow> byte list \<Rightarrow> bool" where
  "QRinput_checkModeFNC1Second sz data \<longleftrightarrow> sz = 1"

text \<open>\<open>True\<close> is the return value 0. The size is an \<open>int\<close> of the caller.\<close>

definition QRinput_check :: "QRencodeMode \<Rightarrow> int \<Rightarrow> byte list \<Rightarrow> bool" where
  "QRinput_check mode sz data =
     (if (mode = QR_MODE_FNC1FIRST \<and> sz < 0) \<or> sz \<le> 0 then False
      else case mode of
        QR_MODE_NUM \<Rightarrow> QRinput_checkModeNum (nat sz) data
      | QR_MODE_AN \<Rightarrow> QRinput_checkModeAn (nat sz) data
      | QR_MODE_KANJI \<Rightarrow> QRinput_checkModeKanji (nat sz) data
      | QR_MODE_8 \<Rightarrow> True
      | QR_MODE_STRUCTURE \<Rightarrow> True
      | QR_MODE_ECI \<Rightarrow> True
      | QR_MODE_FNC1FIRST \<Rightarrow> True
      | QR_MODE_FNC1SECOND \<Rightarrow> QRinput_checkModeFNC1Second (nat sz) data
      | QR_MODE_NUL \<Rightarrow> False)"

section \<open>Creating entries\<close>

definition QRinput_List_newEntry :: "QRencodeMode \<Rightarrow> int \<Rightarrow> byte list \<Rightarrow> QRinput_List res" where
  "QRinput_List_newEntry mode sz data =
     (if \<not> QRinput_check mode sz data then Inl EINVAL
      else Inr \<lparr>le_mode = mode, le_size = nat sz, le_data = take (nat sz) data, le_bstream = None\<rparr>)"

definition QRinput_List_dup :: "QRinput_List \<Rightarrow> QRinput_List" where
  "QRinput_List_dup entry =
     \<lparr>le_mode = le_mode entry, le_size = le_size entry,
      le_data = take (le_size entry) (le_data entry), le_bstream = None\<rparr>"

definition QRinput_List_shrinkEntry :: "QRinput_List \<Rightarrow> nat \<Rightarrow> QRinput_List" where
  "QRinput_List_shrinkEntry entry bytes =
     entry\<lparr>le_data := take bytes (le_data entry), le_size := bytes\<rparr>"

text \<open>The entry and the one linked after it.\<close>

definition QRinput_splitEntry :: "QRinput_List \<Rightarrow> nat \<Rightarrow> (QRinput_List \<times> QRinput_List) res" where
  "QRinput_splitEntry entry bytes =
     res_bind (QRinput_List_newEntry (le_mode entry) (int (le_size entry) - int bytes) (drop bytes (le_data entry)))
       (\<lambda>e. Inr (QRinput_List_shrinkEntry entry bytes, e))"

section \<open>Estimates\<close>

definition QRinput_estimateBitsModeNum :: "nat \<Rightarrow> nat" where
  "QRinput_estimateBitsModeNum sz =
     (let w = sz div 3; bits = w * 10
      in if sz - w * 3 = 1 then bits + 4 else if sz - w * 3 = 2 then bits + 7 else bits)"

definition QRinput_estimateBitsModeAn :: "nat \<Rightarrow> nat" where
  "QRinput_estimateBitsModeAn sz =
     (let w = sz div 2; bits = w * 11 in if sz AND 1 \<noteq> 0 then bits + 6 else bits)"

definition QRinput_estimateBitsMode8 :: "nat \<Rightarrow> nat" where
  "QRinput_estimateBitsMode8 sz = sz * 8"

definition QRinput_estimateBitsModeKanji :: "nat \<Rightarrow> nat" where
  "QRinput_estimateBitsModeKanji sz = (sz div 2) * 13"

definition QRinput_decodeECIfromByteArray :: "byte list \<Rightarrow> uint" where
  "QRinput_decodeECIfromByteArray data =
     fold (\<lambda>i ecinum. push_bit 8 ecinum OR ucast (data ! (3 - i))) [0..<4] 0"

definition QRinput_estimateBitsModeECI :: "byte list \<Rightarrow> nat" where
  "QRinput_estimateBitsModeECI data =
     (let ecinum = QRinput_decodeECIfromByteArray data
      in if ecinum < 128 then MODE_INDICATOR_SIZE + 8
         else if ecinum < 16384 then MODE_INDICATOR_SIZE + 16
         else MODE_INDICATOR_SIZE + 24)"

definition entry_overhead :: "QRencodeMode \<Rightarrow> nat \<Rightarrow> nat \<Rightarrow> bool \<Rightarrow> nat" where
  "entry_overhead mode sz version mqr =
     (let l = QRspec_lengthIndicator mode version
      in if mqr then l + (version - 1)
         else let m = 2 ^ l; num = (sz + m - 1) div m in num * (MODE_INDICATOR_SIZE + l))"

definition QRinput_estimateBitStreamSizeOfEntry :: "QRinput_List \<Rightarrow> nat \<Rightarrow> bool \<Rightarrow> nat" where
  "QRinput_estimateBitStreamSizeOfEntry entry ver mqr =
     (let version = (if ver = 0 then 1 else ver);
          sz = le_size entry;
          ovh = entry_overhead (le_mode entry) sz version mqr
      in case le_mode entry of
           QR_MODE_NUM \<Rightarrow> QRinput_estimateBitsModeNum sz + ovh
         | QR_MODE_AN \<Rightarrow> QRinput_estimateBitsModeAn sz + ovh
         | QR_MODE_8 \<Rightarrow> QRinput_estimateBitsMode8 sz + ovh
         | QR_MODE_KANJI \<Rightarrow> QRinput_estimateBitsModeKanji sz + ovh
         | QR_MODE_STRUCTURE \<Rightarrow> STRUCTURE_HEADER_SIZE
         | QR_MODE_ECI \<Rightarrow> QRinput_estimateBitsModeECI (le_data entry) + ovh
         | QR_MODE_FNC1FIRST \<Rightarrow> MODE_INDICATOR_SIZE
         | QR_MODE_FNC1SECOND \<Rightarrow> MODE_INDICATOR_SIZE + 8
         | QR_MODE_NUL \<Rightarrow> 0)"

text \<open>Division of C truncates towards zero: \<open>sdiv\<close>.\<close>

definition QRinput_lengthOfCode :: "QRencodeMode \<Rightarrow> nat \<Rightarrow> int \<Rightarrow> nat" where
  "QRinput_lengthOfCode mode version bits =
     (let payload = bits - 4 - int (QRspec_lengthIndicator mode version);
          sz = (case mode of
              QR_MODE_NUM \<Rightarrow>
                (let chunks = payload sdiv 10; remain = payload - chunks * 10
                 in if remain \<ge> 7 then chunks * 3 + 2
                    else if remain \<ge> 4 then chunks * 3 + 1 else chunks * 3)
            | QR_MODE_AN \<Rightarrow>
                (let chunks = payload sdiv 11; remain = payload - chunks * 11
                 in if remain \<ge> 6 then chunks * 2 + 1 else chunks * 2)
            | QR_MODE_8 \<Rightarrow> payload sdiv 8
            | QR_MODE_KANJI \<Rightarrow> (payload sdiv 13) * 2
            | QR_MODE_STRUCTURE \<Rightarrow> payload sdiv 8
            | _ \<Rightarrow> 0);
          maxsize = int (QRspec_maximumWords mode version);
          sz' = (if sz < 0 then 0 else sz)
      in nat (if maxsize > 0 \<and> sz' > maxsize then maxsize else sz'))"

section \<open>Encoders\<close>

text \<open>
  An encoder creates the stream of an entry by a sequence of \<open>BitStream_appendNum\<close> calls,
  leaving on the first that fails. Its result is the stream stored in the entry; when it
  fails the entry has none.
\<close>

definition append_nums :: "(nat \<times> uint) list \<Rightarrow> BitStream \<Rightarrow> BitStream res" where
  "append_nums nums b = fold_res (\<lambda>(n, v) b. BitStream_appendNum b n v) nums b"

definition num_digit :: "byte \<Rightarrow> int" where
  "num_digit c = uint c - 48"

definition QRinput_encodeModeNum :: "QRinput_List \<Rightarrow> nat \<Rightarrow> bool \<Rightarrow> BitStream res" where
  "QRinput_encodeModeNum entry version mqr =
     (let sz = le_size entry; data = le_data entry; words = sz div 3;
          hdr = (if mqr then
                   (if version > 1 then [(version - 1, MQRSPEC_MODEID_NUM)] else [])
                   @ [(MQRspec_lengthIndicator QR_MODE_NUM version, word_of_nat sz)]
                 else [(4, QRSPEC_MODEID_NUM), (QRspec_lengthIndicator QR_MODE_NUM version, word_of_nat sz)]);
          triple = (\<lambda>i. word_of_int (num_digit (data ! (i * 3)) * 100)
                       + word_of_int (num_digit (data ! (i * 3 + 1)) * 10)
                       + word_of_int (num_digit (data ! (i * 3 + 2))))
      in res_bind (append_nums (hdr @ map (\<lambda>i. (10, triple i)) [0..<words]) BitStream_new)
        (\<lambda>b. if sz - words * 3 = 1 then
               BitStream_appendNum b 4 (word_of_int (num_digit (data ! (words * 3))))
             else if sz - words * 3 = 2 then
               (case BitStream_appendNum b 7 (word_of_int (num_digit (data ! (words * 3)) * 10)
                       + word_of_int (num_digit (data ! (words * 3 + 1)))) of
                  Inl e \<Rightarrow> Inr b
                | Inr b' \<Rightarrow> Inr b')
             else Inr b))"

definition an_value :: "byte \<Rightarrow> uint" where
  "an_value c = word_of_int (QRinput_lookAnTable c)"

definition QRinput_encodeModeAn :: "QRinput_List \<Rightarrow> nat \<Rightarrow> bool \<Rightarrow> BitStream res" where
  "QRinput_encodeModeAn entry version mqr =
     (let sz = le_size entry; data = le_data entry; words = sz div 2;
          hdr = (if mqr then [(version - 1, MQRSPEC_MODEID_AN),
                              (MQRspec_lengthIndicator QR_MODE_AN version, word_of_nat sz)]
                 else [(4, QRSPEC_MODEID_AN), (QRspec_lengthIndicator QR_MODE_AN version, word_of_nat sz)]);
          pair = (\<lambda>i. an_value (data ! (i * 2)) * 45 + an_value (data ! (i * 2 + 1)));
          rest = (if sz AND 1 \<noteq> 0 then [(6, an_value (data ! (words * 2)))] else [])
      in if mqr \<and> version < 2 then Inl EINVAL
         else append_nums (hdr @ map (\<lambda>i. (11, pair i)) [0..<words] @ rest) BitStream_new)"

definition QRinput_encodeMode8 :: "QRinput_List \<Rightarrow> nat \<Rightarrow> bool \<Rightarrow> BitStream res" where
  "QRinput_encodeMode8 entry version mqr =
     (let sz = le_size entry;
          hdr = (if mqr then [(version - 1, MQRSPEC_MODEID_8),
                              (MQRspec_lengthIndicator QR_MODE_8 version, word_of_nat sz)]
                 else [(4, QRSPEC_MODEID_8), (QRspec_lengthIndicator QR_MODE_8 version, word_of_nat sz)])
      in if mqr \<and> version < 3 then Inl EINVAL
         else res_bind (append_nums hdr BitStream_new) (\<lambda>b. BitStream_appendBytes b sz (le_data entry)))"

definition kanji_code :: "uint \<Rightarrow> uint" where
  "kanji_code val =
     (let v = (if val \<le> 0x9ffc then val - 0x8140 else val - 0xc140);
          h = drop_bit 8 v * 0xc0
      in (v AND 0xff) + h)"

definition QRinput_encodeModeKanji :: "QRinput_List \<Rightarrow> nat \<Rightarrow> bool \<Rightarrow> BitStream res" where
  "QRinput_encodeModeKanji entry version mqr =
     (let sz = le_size entry; data = le_data entry;
          hdr = (if mqr then [(version - 1, MQRSPEC_MODEID_KANJI),
                              (MQRspec_lengthIndicator QR_MODE_KANJI version, word_of_nat (sz div 2))]
                 else [(4, QRSPEC_MODEID_KANJI),
                       (QRspec_lengthIndicator QR_MODE_KANJI version, word_of_nat (sz div 2))])
      in if mqr \<and> version < 2 then Inl EINVAL
         else append_nums (hdr @ map (\<lambda>k. (13, kanji_code (kanji_at data (2 * k)))) [0..<(sz + 1) div 2])
                BitStream_new)"

definition QRinput_encodeModeStructure :: "QRinput_List \<Rightarrow> bool \<Rightarrow> BitStream res" where
  "QRinput_encodeModeStructure entry mqr =
     (let data = le_data entry
      in if mqr then Inl EINVAL
         else if length data < 3 then Inl EFAULT
         else append_nums [(4, QRSPEC_MODEID_STRUCTURE), (4, ucast (data ! 1) - 1),
                           (4, ucast (data ! 0) - 1), (8, ucast (data ! 2))] BitStream_new)"

definition QRinput_encodeModeFNC1Second :: "QRinput_List \<Rightarrow> nat \<Rightarrow> BitStream res" where
  "QRinput_encodeModeFNC1Second entry version =
     res_bind (append_nums [(4, QRSPEC_MODEID_FNC1SECOND)] BitStream_new)
       (\<lambda>b. BitStream_appendBytes b 1 (le_data entry))"

definition QRinput_encodeModeECI :: "QRinput_List \<Rightarrow> nat \<Rightarrow> BitStream res" where
  "QRinput_encodeModeECI entry version =
     (if length (le_data entry) < 4 then Inl EFAULT
      else let ecinum = QRinput_decodeECIfromByteArray (le_data entry);
               (words, code) = (if ecinum < 128 then (1, ecinum)
                                else if ecinum < 16384 then (2, 0x8000 + ecinum)
                                else (3, 0xc0000 + ecinum))
           in append_nums [(4, QRSPEC_MODEID_ECI), (words * 8, code)] BitStream_new)"

text \<open>
  \<open>encode_mode\<close> is the \<open>switch\<close> of \<open>QRinput_encodeBitStream\<close>. For a mode it does not name the
  stream stays \<open>NULL\<close>, whose length is then read: \<open>EFAULT\<close>.
\<close>

definition encode_mode :: "QRinput_List \<Rightarrow> nat \<Rightarrow> bool \<Rightarrow> BitStream res" where
  "encode_mode entry version mqr =
     (case le_mode entry of
        QR_MODE_NUM \<Rightarrow> QRinput_encodeModeNum entry version mqr
      | QR_MODE_AN \<Rightarrow> QRinput_encodeModeAn entry version mqr
      | QR_MODE_8 \<Rightarrow> QRinput_encodeMode8 entry version mqr
      | QR_MODE_KANJI \<Rightarrow> QRinput_encodeModeKanji entry version mqr
      | QR_MODE_STRUCTURE \<Rightarrow> QRinput_encodeModeStructure entry mqr
      | QR_MODE_ECI \<Rightarrow> QRinput_encodeModeECI entry version
      | QR_MODE_FNC1SECOND \<Rightarrow> QRinput_encodeModeFNC1Second entry version
      | _ \<Rightarrow> Inl EFAULT)"

lemma newEntry_size: "QRinput_List_newEntry m s d = Inr e \<Longrightarrow> le_size e = nat s \<and> le_mode e = m"
  by (auto simp: QRinput_List_newEntry_def split: if_splits)

text \<open>An entry too long for its length field is split, and the two streams are joined.\<close>

function QRinput_encodeBitStream :: "QRinput_List \<Rightarrow> nat \<Rightarrow> bool \<Rightarrow> QRinput_List res" where
  "QRinput_encodeBitStream entry version mqr =
     (let words = QRspec_maximumWords (le_mode entry) version
      in if words \<noteq> 0 \<and> le_size entry > words then
           res_bind (QRinput_List_newEntry (le_mode entry) (int words) (le_data entry)) (\<lambda>st1.
           res_bind (QRinput_List_newEntry (le_mode entry) (int (le_size entry) - int words)
                       (drop words (le_data entry))) (\<lambda>st2.
           res_bind (QRinput_encodeBitStream st1 version mqr) (\<lambda>st1'.
           res_bind (QRinput_encodeBitStream st2 version mqr) (\<lambda>st2'.
           res_bind (BitStream_append BitStream_new (le_bstream st1')) (\<lambda>b1.
           res_bind (BitStream_append b1 (le_bstream st2')) (\<lambda>b2.
           Inr (entry\<lparr>le_bstream := Some b2\<rparr>)))))))
         else res_bind (encode_mode entry version mqr) (\<lambda>b. Inr (entry\<lparr>le_bstream := Some b\<rparr>)))"
  by pat_completeness auto
termination
  by (relation "measure (\<lambda>(e, v, m). le_size e)") (auto dest: newEntry_size)

declare QRinput_encodeBitStream.simps [simp del]

end
