(* ===== verification/QR_Input.thy ===== *)
theory QR_Input
  imports QR_Entry
begin

text \<open>
  The input object of \<open>qrinput.c\<close>: a list of entries with a version, an error correction
  level and the flags of Micro QR Code and FNC1; its setters, the choice of a sufficient
  version, the conversion of the entries to one bit stream, and its padding to the capacity
  of the symbol. Operations that change the object and may fail return the result together
  with the object as they leave it.
\<close>

section \<open>State\<close>

text \<open>
  The chain of entries from \<open>head\<close> is a list. \<open>tail\<close>, through which entries are appended,
  is \<open>NULL\<close>, the last entry of that chain, or an entry of another object's chain
  (\<open>QRinput_splitQRinputToStruct\<close> can leave it there).
\<close>

datatype tail_ptr = TailNull | TailLast | TailForeign

record QRinput =
  inp_version :: nat
  inp_level :: QRecLevel
  inp_entries :: "QRinput_List list"
  inp_tail :: tail_ptr
  inp_mqr :: bool
  inp_fnc1 :: nat
  inp_appid :: byte

text \<open>\<open>appid\<close> is not initialised by the constructor; it is read only after it was set.\<close>

definition QRinput_new2 :: "int \<Rightarrow> QRecLevel \<Rightarrow> QRinput res" where
  "QRinput_new2 version level =
     (if version < 0 \<or> version > int QRSPEC_VERSION_MAX \<or> level > QR_ECLEVEL_H then Inl EINVAL
      else Inr \<lparr>inp_version = nat version, inp_level = level, inp_entries = [], inp_tail = TailNull,
                inp_mqr = False, inp_fnc1 = 0, inp_appid = 0\<rparr>)"

definition QRinput_new :: "QRinput res" where
  "QRinput_new = QRinput_new2 0 QR_ECLEVEL_L"

definition QRinput_newMQR :: "int \<Rightarrow> QRecLevel \<Rightarrow> QRinput res" where
  "QRinput_newMQR version level =
     (if version \<le> 0 \<or> version > int MQRSPEC_VERSION_MAX then Inl EINVAL
      else if MQRspec_getECCLength (nat version) level = 0 then Inl EINVAL
      else res_bind (QRinput_new2 version level) (\<lambda>input. Inr (input\<lparr>inp_mqr := True\<rparr>)))"

definition QRinput_getVersion :: "QRinput \<Rightarrow> nat" where
  "QRinput_getVersion input = inp_version input"

definition QRinput_setVersion :: "QRinput \<Rightarrow> int \<Rightarrow> QRinput res" where
  "QRinput_setVersion input version =
     (if inp_mqr input \<or> version < 0 \<or> version > int QRSPEC_VERSION_MAX then Inl EINVAL
      else Inr (input\<lparr>inp_version := nat version\<rparr>))"

definition QRinput_getErrorCorrectionLevel :: "QRinput \<Rightarrow> QRecLevel" where
  "QRinput_getErrorCorrectionLevel input = inp_level input"

definition QRinput_setErrorCorrectionLevel :: "QRinput \<Rightarrow> QRecLevel \<Rightarrow> QRinput res" where
  "QRinput_setErrorCorrectionLevel input level =
     (if inp_mqr input \<or> level > QR_ECLEVEL_H then Inl EINVAL
      else Inr (input\<lparr>inp_level := level\<rparr>))"

definition QRinput_setVersionAndErrorCorrectionLevel :: "QRinput \<Rightarrow> int \<Rightarrow> QRecLevel \<Rightarrow> QRinput res" where
  "QRinput_setVersionAndErrorCorrectionLevel input version level =
     (if (if inp_mqr input then
            version \<le> 0 \<or> version > int MQRSPEC_VERSION_MAX
            \<or> MQRspec_getECCLength (nat version) level = 0
          else version < 0 \<or> version > int QRSPEC_VERSION_MAX \<or> level > QR_ECLEVEL_H)
      then Inl EINVAL
      else Inr (input\<lparr>inp_version := nat version, inp_level := level\<rparr>))"

section \<open>Adding entries\<close>

text \<open>Appending behind an entry of another object's chain is not modelled: \<open>EFAULT\<close>.\<close>

definition QRinput_appendEntry :: "QRinput \<Rightarrow> QRinput_List \<Rightarrow> QRinput res" where
  "QRinput_appendEntry input entry =
     (case inp_tail input of
        TailNull \<Rightarrow> Inr (input\<lparr>inp_entries := [entry], inp_tail := TailLast\<rparr>)
      | TailLast \<Rightarrow> Inr (input\<lparr>inp_entries := inp_entries input @ [entry]\<rparr>)
      | TailForeign \<Rightarrow> Inl EFAULT)"

definition QRinput_append :: "QRinput \<Rightarrow> QRencodeMode \<Rightarrow> int \<Rightarrow> byte list \<Rightarrow> QRinput res" where
  "QRinput_append input mode sz data =
     res_bind (QRinput_List_newEntry mode sz data) (QRinput_appendEntry input)"

definition MAX_STRUCTURED_SYMBOLS :: nat where "MAX_STRUCTURED_SYMBOLS = 16"

definition QRinput_insertStructuredAppendHeader :: "QRinput \<Rightarrow> nat \<Rightarrow> nat \<Rightarrow> byte \<Rightarrow> QRinput res" where
  "QRinput_insertStructuredAppendHeader input sz number parity =
     (if sz > MAX_STRUCTURED_SYMBOLS then Inl EINVAL
      else if number = 0 \<or> number > sz then Inl EINVAL
      else res_bind (QRinput_List_newEntry QR_MODE_STRUCTURE 3 [word_of_nat sz, word_of_nat number, parity])
             (\<lambda>entry. Inr (input\<lparr>inp_entries := entry # inp_entries input\<rparr>)))"

definition QRinput_appendECIheader :: "QRinput \<Rightarrow> uint \<Rightarrow> QRinput res" where
  "QRinput_appendECIheader input ecinum =
     (if ecinum > 999999 then Inl EINVAL
      else QRinput_append input QR_MODE_ECI 4
             [ucast (ecinum AND 0xff), ucast (drop_bit 8 ecinum AND 0xff),
              ucast (drop_bit 16 ecinum AND 0xff), ucast (drop_bit 24 ecinum AND 0xff)])"

definition QRinput_calcParity :: "QRinput \<Rightarrow> byte" where
  "QRinput_calcParity input =
     fold (\<lambda>e parity. if le_mode e \<noteq> QR_MODE_STRUCTURE
             then fold (\<lambda>i parity. parity XOR le_data e ! i) (rev [0..<le_size e]) parity
             else parity) (inp_entries input) 0"

text \<open>The flags of FNC1 are not copied.\<close>

definition QRinput_dup :: "QRinput \<Rightarrow> QRinput res" where
  "QRinput_dup input =
     res_bind (if inp_mqr input then QRinput_newMQR (int (inp_version input)) (inp_level input)
               else QRinput_new2 (int (inp_version input)) (inp_level input))
       (fold_res (\<lambda>e n. QRinput_appendEntry n (QRinput_List_dup e)) (inp_entries input))"

definition QRinput_setFNC1First :: "QRinput \<Rightarrow> QRinput res" where
  "QRinput_setFNC1First input =
     (if inp_mqr input then Inl EINVAL else Inr (input\<lparr>inp_fnc1 := 1\<rparr>))"

definition QRinput_setFNC1Second :: "QRinput \<Rightarrow> byte \<Rightarrow> QRinput res" where
  "QRinput_setFNC1Second input appid =
     (if inp_mqr input then Inl EINVAL else Inr (input\<lparr>inp_fnc1 := 2, inp_appid := appid\<rparr>))"

section \<open>Estimating the version\<close>

definition QRinput_estimateBitStreamSize :: "QRinput \<Rightarrow> nat \<Rightarrow> nat" where
  "QRinput_estimateBitStreamSize input version =
     fold (\<lambda>e bits. bits + QRinput_estimateBitStreamSizeOfEntry e version (inp_mqr input))
       (inp_entries input) 0"

lemma getMinimumVersion_loop_range:
  "getMinimumVersion_loop is sz level = -1 \<or> (\<exists>i \<in> set is. getMinimumVersion_loop is sz level = int i)"
  by (induction "is") auto

lemma getMinimumVersion_range:
  "QRspec_getMinimumVersion sz level = -1
   \<or> 1 \<le> QRspec_getMinimumVersion sz level \<and> QRspec_getMinimumVersion sz level \<le> 40"
  using getMinimumVersion_loop_range [of "[1..<Suc QRSPEC_VERSION_MAX]" sz level]
  by (auto simp: QRspec_getMinimumVersion_def QRSPEC_VERSION_MAX_def)

text \<open>The \<open>do\<close>-\<open>while\<close> loop, entered with \<open>prev\<close> the version found so far.\<close>

function estimateVersion_loop :: "QRinput \<Rightarrow> nat \<Rightarrow> int" where
  "estimateVersion_loop input prev =
     (let bits = QRinput_estimateBitStreamSize input prev;
          version = QRspec_getMinimumVersion ((bits + 7) div 8) (inp_level input)
      in if version < 0 then -1
         else if version > int prev then estimateVersion_loop input (nat version)
         else version)"
  by pat_completeness auto
termination
proof (relation "measure (\<lambda>(i, prev). 41 - prev)")
  fix input prev bits version
  assume "version = QRspec_getMinimumVersion ((bits + 7) div 8) (inp_level input)"
    "\<not> version < 0" "version > int prev"
  then show "((input, nat version), (input, prev)) \<in> measure (\<lambda>(i, prev). 41 - prev)"
    using getMinimumVersion_range [of "(bits + 7) div 8" "inp_level input"] by auto
qed simp

declare estimateVersion_loop.simps [simp del]

definition QRinput_estimateVersion :: "QRinput \<Rightarrow> int" where
  "QRinput_estimateVersion input = estimateVersion_loop input 0"

section \<open>Conversion to a bit stream\<close>

text \<open>
  The entries are converted in order; after a failure the entries before the failing one
  have their streams, that one has none, and the others are as they were.
\<close>

fun createBitStream_loop :: "QRinput_List list \<Rightarrow> nat \<Rightarrow> bool \<Rightarrow> nat \<Rightarrow> nat res \<times> QRinput_List list" where
  "createBitStream_loop [] version mqr tot = (Inr tot, [])"
| "createBitStream_loop (e # es) version mqr tot =
     (case QRinput_encodeBitStream e version mqr of
        Inl err \<Rightarrow> (Inl err, e\<lparr>le_bstream := None\<rparr> # es)
      | Inr e' \<Rightarrow>
          let bits = (case le_bstream e' of Some b \<Rightarrow> BitStream_size b | None \<Rightarrow> 0);
              (r, es') = createBitStream_loop es version mqr (tot + bits)
          in (r, e' # es'))"

definition QRinput_createBitStream :: "QRinput \<Rightarrow> nat res \<times> QRinput" where
  "QRinput_createBitStream input =
     (let (r, es) = createBitStream_loop (inp_entries input) (inp_version input) (inp_mqr input) 0
      in (r, input\<lparr>inp_entries := es\<rparr>))"

text \<open>A failing \<open>QRinput_setVersion\<close>, whose result the code ignores, changes nothing.\<close>

definition set_version_ignored :: "QRinput \<Rightarrow> int \<Rightarrow> QRinput" where
  "set_version_ignored input ver =
     (case QRinput_setVersion input ver of Inl e \<Rightarrow> input | Inr input' \<Rightarrow> input')"

text \<open>The loop without bound of \<open>QRinput_convertData\<close>; \<open>None\<close> is a loop that does not end.\<close>

partial_function (option) convertData_loop :: "QRinput \<Rightarrow> (unit res \<times> QRinput) option" where
  "convertData_loop input =
     (case QRinput_createBitStream input of
        (Inl e, input') \<Rightarrow> Some (Inl e, input')
      | (Inr bits, input') \<Rightarrow>
          (let ver = QRspec_getMinimumVersion ((bits + 7) div 8) (inp_level input')
           in if ver < 0 then Some (Inl ERANGE, input')
              else if ver > int (QRinput_getVersion input')
              then convertData_loop (set_version_ignored input' ver)
              else Some (Inr (), input')))"

declare convertData_loop.simps [code]

definition QRinput_convertData :: "QRinput \<Rightarrow> unit res \<times> QRinput" where
  "QRinput_convertData input =
     (let ver = QRinput_estimateVersion input;
          input' = (if ver > int (QRinput_getVersion input) then set_version_ignored input ver else input)
      in case convertData_loop input' of
           None \<Rightarrow> (Inl EHANG, input')
         | Some r \<Rightarrow> r)"

section \<open>Padding\<close>

definition pad_bytes :: "nat \<Rightarrow> byte list" where
  "pad_bytes padlen = map (\<lambda>i. if i AND 1 \<noteq> 0 then 0x11 else 0xec) [0..<padlen]"

definition QRinput_appendPaddingBit :: "BitStream \<Rightarrow> QRinput \<Rightarrow> BitStream res" where
  "QRinput_appendPaddingBit bstream input =
     (let bits = BitStream_size bstream;
          maxwords = QRspec_getDataLength (inp_version input) (inp_level input);
          maxbits = maxwords * 8
      in if maxbits < bits then Inl ERANGE
         else if maxbits = bits then Inr bstream
         else if maxbits - bits \<le> 4 then BitStream_appendNum bstream (maxbits - bits) 0
         else
           let words = (bits + 4 + 7) div 8
           in res_bind (BitStream_appendNum BitStream_new (words * 8 - bits) 0) (\<lambda>padding.
              res_bind (if maxwords > words
                        then BitStream_appendBytes padding (maxwords - words) (pad_bytes (maxwords - words))
                        else Inr padding) (\<lambda>padding.
              BitStream_append bstream (Some padding))))"

definition QRinput_appendPaddingBitMQR :: "BitStream \<Rightarrow> QRinput \<Rightarrow> BitStream res" where
  "QRinput_appendPaddingBitMQR bstream input =
     (let bits0 = BitStream_size bstream;
          maxbits = MQRspec_getDataLengthBit (inp_version input) (inp_level input);
          maxwords = maxbits div 8
      in if maxbits < bits0 then Inl ERANGE
         else if maxbits = bits0 then Inr bstream
         else
           let termbits0 = inp_version input * 2 + 1
           in if maxbits - bits0 \<le> termbits0 then BitStream_appendNum bstream (maxbits - bits0) 0
              else
                let bits = bits0 + termbits0;
                    words = (bits + 7) div 8;
                    termbits = (if maxbits > words * 8
                                then termbits0 + (words * 8 - bits)
                                     + (if words = maxwords then maxbits - words * 8 else 0)
                                else termbits0 + (words * 8 - bits))
                in res_bind (BitStream_appendNum BitStream_new termbits 0) (\<lambda>padding.
                   res_bind (if maxwords > words
                             then res_bind (BitStream_appendBytes padding (maxwords - words)
                                              (pad_bytes (maxwords - words))) (\<lambda>padding.
                                  if maxbits - maxwords * 8 > 0
                                  then BitStream_appendNum padding (maxbits - maxwords * 8) 0
                                  else Inr padding)
                             else Inr padding) (\<lambda>padding.
                   BitStream_append bstream (Some padding))))"

section \<open>The streams of an input\<close>

text \<open>With no entry the code reads \<open>head->mode\<close> through a null pointer.\<close>

definition QRinput_insertFNC1Header :: "QRinput \<Rightarrow> unit res \<times> QRinput" where
  "QRinput_insertFNC1Header input =
     (let entry = (if inp_fnc1 input = 1 then QRinput_List_newEntry QR_MODE_FNC1FIRST 0 []
                   else if inp_fnc1 input = 2 then
                     QRinput_List_newEntry QR_MODE_FNC1SECOND 1 [inp_appid input]
                   else Inl ENOERR)
      in case entry of
           Inl e \<Rightarrow> (Inl e, input)
         | Inr e \<Rightarrow>
             (case inp_entries input of
                [] \<Rightarrow> (Inl EFAULT, input)
              | h # t \<Rightarrow>
                  if le_mode h \<noteq> QR_MODE_STRUCTURE \<or> le_mode h \<noteq> QR_MODE_ECI
                  then (Inr (), input\<lparr>inp_entries := e # h # t\<rparr>)
                  else (Inr (), input\<lparr>inp_entries := h # e # t\<rparr>)))"

definition merge_streams :: "QRinput_List list \<Rightarrow> BitStream res" where
  "merge_streams es = fold_res (\<lambda>e b. BitStream_append b (le_bstream e)) es BitStream_new"

definition QRinput_mergeBitStream :: "QRinput \<Rightarrow> BitStream res \<times> QRinput" where
  "QRinput_mergeBitStream input =
     (let (r, input') =
            (if inp_mqr input then
               (case QRinput_createBitStream input of (r, i) \<Rightarrow> (res_bind r (\<lambda>_. Inr ()), i))
             else
               (case (if inp_fnc1 input \<noteq> 0 then QRinput_insertFNC1Header input else (Inr (), input)) of
                  (Inl e, i) \<Rightarrow> (Inl e, i)
                | (Inr _, i) \<Rightarrow> QRinput_convertData i))
      in (res_bind r (\<lambda>_. merge_streams (inp_entries input')), input'))"

definition QRinput_getBitStream :: "QRinput \<Rightarrow> BitStream res \<times> QRinput" where
  "QRinput_getBitStream input =
     (case QRinput_mergeBitStream input of
        (r, input') \<Rightarrow>
          (res_bind r (\<lambda>b. if inp_mqr input' then QRinput_appendPaddingBitMQR b input'
                           else QRinput_appendPaddingBit b input'), input'))"

definition QRinput_getByteStream :: "QRinput \<Rightarrow> byte list res \<times> QRinput" where
  "QRinput_getByteStream input =
     (case QRinput_getBitStream input of
        (r, input') \<Rightarrow>
          (res_bind r (\<lambda>b. case BitStream_toByte b of None \<Rightarrow> Inl ENOERR | Some d \<Rightarrow> Inr d), input'))"

section \<open>The invariant of inputs\<close>

definition entry_wf :: "QRinput_List \<Rightarrow> bool" where
  "entry_wf e \<longleftrightarrow> le_size e = length (le_data e) \<and> QRinput_check (le_mode e) (int (le_size e)) (le_data e)"

definition input_inv :: "QRinput \<Rightarrow> bool" where
  "input_inv i \<longleftrightarrow> inp_level i \<le> QR_ECLEVEL_H
     \<and> (if inp_mqr i then 1 \<le> inp_version i \<and> inp_version i \<le> MQRSPEC_VERSION_MAX
          \<and> MQRspec_getECCLength (inp_version i) (inp_level i) \<noteq> 0 \<and> inp_fnc1 i = 0
        else inp_version i \<le> QRSPEC_VERSION_MAX)
     \<and> inp_fnc1 i \<le> 2
     \<and> list_all entry_wf (inp_entries i)
     \<and> (inp_tail i = TailLast \<longrightarrow> inp_entries i \<noteq> []) \<and> inp_tail i \<noteq> TailForeign"

lemma entry_wf_bstream [simp]: "entry_wf (e\<lparr>le_bstream := b\<rparr>) = entry_wf e"
  by (simp add: entry_wf_def)

lemma check_take:
  assumes "nat sz \<le> length data"
  shows "QRinput_check mode sz (take (nat sz) data) = QRinput_check mode sz data"
proof -
  have k: "kanji_at (take n data) (2 * k) = kanji_at data (2 * k)" if "k < n div 2" for n k
  proof -
    have "2 * k < n" "2 * k + 1 < n" using that by auto
    then show ?thesis by (simp add: kanji_at_def)
  qed
  show ?thesis
    by (cases mode) (auto simp: QRinput_check_def QRinput_checkModeNum_def QRinput_checkModeAn_def QRinput_checkModeKanji_def
        QRinput_checkModeFNC1Second_def list_all_iff k)
qed

lemma newEntry_wf:
  assumes "QRinput_List_newEntry mode sz data = Inr e" "nat sz \<le> length data"
  shows "entry_wf e"
proof -
  have c: "QRinput_check mode sz data"
    and e: "e = \<lparr>le_mode = mode, le_size = nat sz, le_data = take (nat sz) data, le_bstream = None\<rparr>"
    using assms(1) by (auto simp: QRinput_List_newEntry_def split: if_splits)
  have "0 < sz" using c by (auto simp: QRinput_check_def split: if_splits)
  then show ?thesis using c check_take [OF assms(2), of mode] assms(2) by (simp add: e entry_wf_def)
qed

lemma appendEntry_inv:
  "input_inv i \<Longrightarrow> entry_wf e \<Longrightarrow> QRinput_appendEntry i e = Inr i' \<Longrightarrow> input_inv i'"
  by (auto simp: QRinput_appendEntry_def input_inv_def split: tail_ptr.splits)

lemma fold_appendEntry_inv:
  "fold_res (\<lambda>e n. QRinput_appendEntry n (QRinput_List_dup e)) es i = Inr i' \<Longrightarrow> input_inv i \<Longrightarrow> list_all entry_wf es \<Longrightarrow> input_inv i'"
proof (induction es arbitrary: i)
  case (Cons e es)
  have "entry_wf (QRinput_List_dup e)" using Cons.prems(3) by (auto simp: entry_wf_def QRinput_List_dup_def)
  then show ?case using Cons appendEntry_inv by (auto simp: res_simps)
qed simp

lemma new2_inv: "QRinput_new2 version level = Inr i \<Longrightarrow> input_inv i"
  by (auto simp: QRinput_new2_def input_inv_def QRSPEC_VERSION_MAX_def split: if_splits)

lemma newMQR_inv: "QRinput_newMQR version level = Inr i \<Longrightarrow> input_inv i"
  by (auto simp: QRinput_newMQR_def QRinput_new2_def input_inv_def res_simps MQRSPEC_VERSION_MAX_def split: if_splits)

text \<open>Conversion changes streams and, for QR Code, the version.\<close>

lemma createBitStream_loop_wf:
  "list_all entry_wf es \<Longrightarrow> list_all entry_wf (snd (createBitStream_loop es v mqr n))
     \<and> (snd (createBitStream_loop es v mqr n) = [] \<longleftrightarrow> es = [])"
proof (induction es arbitrary: n)
  case (Cons e es)
  have enc: "e' = e\<lparr>le_bstream := le_bstream e'\<rparr>" if "QRinput_encodeBitStream e v mqr = Inr e'" for e'
    using that by (subst (asm) QRinput_encodeBitStream.simps) (auto simp: Let_def res_simps split: if_splits)
  show ?case
  proof (cases "QRinput_encodeBitStream e v mqr")
    case (Inr e')
    have "entry_wf e'" using Cons.prems enc [OF Inr] entry_wf_bstream by (metis list.pred_inject(2))
    then show ?thesis using Cons Inr by (simp add: Let_def case_prod_unfold)
  qed (use Cons in simp)
qed simp

lemma createBitStream_inv: "input_inv i \<Longrightarrow> input_inv (snd (QRinput_createBitStream i))"
  using createBitStream_loop_wf [of "inp_entries i" "inp_version i" "inp_mqr i" 0]
  by (auto simp: QRinput_createBitStream_def case_prod_unfold Let_def input_inv_def)

lemma set_version_ignored_inv: "input_inv i \<Longrightarrow> input_inv (set_version_ignored i v)"
  by (auto simp: set_version_ignored_def QRinput_setVersion_def input_inv_def split: sum.splits if_splits)

lemma convertData_loop_inv:
  assumes "convertData_loop i = Some r"
  shows "input_inv i \<longrightarrow> input_inv (snd r)"
proof (rule convertData_loop.raw_induct [where P = "\<lambda>i r. input_inv i \<longrightarrow> input_inv (snd r)", OF _ assms])
  fix loop i r
  assume IH: "\<And>i r. loop i = Some r \<Longrightarrow> input_inv i \<longrightarrow> input_inv (snd r)"
    and r: "(case QRinput_createBitStream i of
        (Inl e, input') \<Rightarrow> Some (Inl e, input')
      | (Inr bits, input') \<Rightarrow>
          (let ver = QRspec_getMinimumVersion ((bits + 7) div 8) (inp_level input')
           in if ver < 0 then Some (Inl ERANGE, input')
              else if ver > int (QRinput_getVersion input') then loop (set_version_ignored input' ver)
              else Some (Inr (), input'))) = Some r"
  obtain q i1 where c: "QRinput_createBitStream i = (q, i1)" by (rule prod.exhaust)
  have inv: "input_inv i \<Longrightarrow> input_inv i1" using createBitStream_inv [of i] by (simp add: c)
  show "input_inv i \<longrightarrow> input_inv (snd r)"
    using r IH inv set_version_ignored_inv [of i1] by (auto simp: c Let_def split: sum.splits if_splits)
qed

lemma convertData_inv: "input_inv i \<Longrightarrow> input_inv (snd (QRinput_convertData i))"
  using convertData_loop_inv set_version_ignored_inv
  by (auto simp: QRinput_convertData_def Let_def split: option.splits)

lemma insertFNC1Header_inv: "input_inv i \<Longrightarrow> input_inv (snd (QRinput_insertFNC1Header i))"
  by (auto simp: QRinput_insertFNC1Header_def Let_def input_inv_def split: sum.splits list.splits if_splits
      dest: newEntry_wf)

lemma getByteStream_inv: "input_inv i \<Longrightarrow> input_inv (snd (QRinput_getByteStream i))"
proof -
  assume i: "input_inv i"
  have "input_inv (snd (QRinput_mergeBitStream i))"
    using i createBitStream_inv [OF i] convertData_inv [OF i] insertFNC1Header_inv [OF i] convertData_inv
    by (auto simp: QRinput_mergeBitStream_def Let_def case_prod_unfold split: sum.splits)
  then show ?thesis by (simp add: QRinput_getByteStream_def QRinput_getBitStream_def case_prod_unfold)
qed

lemma setters_inv:
  assumes "input_inv i" "inp_mqr i \<longrightarrow> level \<le> QR_ECLEVEL_H"
  shows "QRinput_setVersion i version = Inr i' \<Longrightarrow> input_inv i'"
    "QRinput_setErrorCorrectionLevel i level = Inr i' \<Longrightarrow> input_inv i'"
    "QRinput_setVersionAndErrorCorrectionLevel i version level = Inr i' \<Longrightarrow> input_inv i'"
    "QRinput_setFNC1First i = Inr i' \<Longrightarrow> input_inv i'" "QRinput_setFNC1Second i appid = Inr i' \<Longrightarrow> input_inv i'"
  using assms
  by (auto simp: input_inv_def QRinput_setVersion_def QRinput_setErrorCorrectionLevel_def QRinput_setFNC1First_def
      QRinput_setFNC1Second_def QRinput_setVersionAndErrorCorrectionLevel_def MQRSPEC_VERSION_MAX_def QRSPEC_VERSION_MAX_def
      split: if_splits)

lemma append_inv: "input_inv i \<Longrightarrow> nat sz \<le> length data \<Longrightarrow> QRinput_append i mode sz data = Inr i' \<Longrightarrow> input_inv i'"
  unfolding QRinput_append_def by (auto simp: res_simps intro: appendEntry_inv newEntry_wf)

lemma headers_inv:
  assumes "input_inv i"
  shows "QRinput_insertStructuredAppendHeader i n number parity = Inr i' \<Longrightarrow> input_inv i'"
    "QRinput_appendECIheader i ecinum = Inr i' \<Longrightarrow> input_inv i'"
proof -
  show "QRinput_insertStructuredAppendHeader i n number parity = Inr i' \<Longrightarrow> input_inv i'"
    using assms newEntry_wf [of QR_MODE_STRUCTURE 3]
    by (auto simp: QRinput_insertStructuredAppendHeader_def res_simps input_inv_def split: if_splits)
  show "QRinput_appendECIheader i ecinum = Inr i' \<Longrightarrow> input_inv i'"
    unfolding QRinput_appendECIheader_def
    by (cases "ecinum > 999999") (simp, simp only: if_False, erule append_inv [OF assms, rotated], simp)
qed

lemma dup_inv: "input_inv i \<Longrightarrow> QRinput_dup i = Inr i' \<Longrightarrow> input_inv i'"
  unfolding QRinput_dup_def
  by (auto simp: res_simps input_inv_def [of i] split: if_splits intro: fold_appendEntry_inv new2_inv newMQR_inv)

text \<open>
  C18. The invariant of inputs (version, level and symbol type fit together, every entry passed
  \<open>QRinput_check\<close> for the bytes it holds, the tail pointer is the last entry of a non-empty
  chain) is established by the constructors and kept by every operation on an input, failed
  conversions included. Levels are arbitrary: the range tests of the constructors and of both
  setters are what keeps them valid. Only for a Micro QR input the caller has to pass a level of the
  enumeration, because \<open>QRinput_setVersionAndErrorCorrectionLevel\<close> indexes the capacity table
  with it before any test. A caller has to hand over as many bytes as he announces.
\<close>

theorem input_operations_invariant:
  assumes "input_inv input" "inp_mqr input \<longrightarrow> level \<le> QR_ECLEVEL_H" "nat sz \<le> length data"
  shows "(\<forall>i. QRinput_new2 version level = Inr i \<or> QRinput_newMQR version level = Inr i
     \<or> QRinput_setVersion input version = Inr i \<or> QRinput_setErrorCorrectionLevel input level = Inr i
     \<or> QRinput_setVersionAndErrorCorrectionLevel input version level = Inr i
     \<or> QRinput_append input mode sz data = Inr i
     \<or> QRinput_insertStructuredAppendHeader input n number parity = Inr i
     \<or> QRinput_appendECIheader input ecinum = Inr i \<or> QRinput_dup input = Inr i
     \<or> QRinput_setFNC1First input = Inr i \<or> QRinput_setFNC1Second input appid = Inr i
     \<longrightarrow> input_inv i) \<and> input_inv (snd (QRinput_getByteStream input))"
  by (intro conjI allI impI getByteStream_inv [OF assms(1)])
    (elim disjE; erule new2_inv newMQR_inv setters_inv [OF assms(1,2)] append_inv [OF assms(1,3)] headers_inv [OF assms(1)]
       dup_inv [OF assms(1)])

theorem input_operations_invariant_witness:
  "\<exists>i. QRinput_append \<lparr>inp_version = 0, inp_level = QR_ECLEVEL_L, inp_entries = [], inp_tail = TailNull, inp_mqr = False,
         inp_fnc1 = 0, inp_appid = 0\<rparr> QR_MODE_8 2 [0x61, 0x62] = Inr i \<and> input_inv i"
proof -
  let ?i = "\<lparr>inp_version = 0, inp_level = QR_ECLEVEL_L, inp_entries = [], inp_tail = TailNull, inp_mqr = False,
         inp_fnc1 = 0, inp_appid = 0\<rparr>"
  have "input_inv ?i" by (simp add: input_inv_def)
  moreover have "\<exists>i. QRinput_append ?i QR_MODE_8 2 [0x61, 0x62] = Inr i"
    by (simp add: QRinput_append_def QRinput_List_newEntry_def QRinput_check_def QRinput_appendEntry_def)
  ultimately show ?thesis using input_operations_invariant [of ?i 4 2 "[0x61, 0x62]"] by auto
qed

end
