(* ===== verification/QR_Raw.thy ===== *)
theory QR_Raw
  imports QR_RScode QR_Input
begin

text \<open>
  The raw codes of \<open>qrencode.c\<close>: the data codewords of an input cut into Reed-Solomon blocks,
  their error correction codewords, and the interleaved order in which the codewords are
  read out. The cache of codecs of \<open>rscode.c\<close> is passed along.
\<close>

section \<open>Blocks\<close>

text \<open>\<open>data\<close> and \<open>ecc\<close> point into the arrays of the raw code; a block holds its part of them.\<close>

record RSblock =
  rb_dataLength :: nat
  rb_data :: "byte list"
  rb_eccLength :: nat
  rb_ecc :: "byte list"

definition RSblock_initBlock :: "nat \<Rightarrow> byte list \<Rightarrow> nat \<Rightarrow> RS \<Rightarrow> RSblock" where
  "RSblock_initBlock dl data el rs =
     \<lparr>rb_dataLength = dl, rb_data = take dl data, rb_eccLength = el, rb_ecc = encode_rs_char rs data\<rparr>"

text \<open>One of the two loops: \<open>n\<close> blocks of \<open>dl\<close> bytes from position \<open>dp\<close> on.\<close>

fun init_blocks :: "nat \<Rightarrow> nat \<Rightarrow> nat \<Rightarrow> RS \<Rightarrow> nat \<Rightarrow> byte list \<Rightarrow> RSblock list" where
  "init_blocks 0 dl el rs dp data = []"
| "init_blocks (Suc n) dl el rs dp data =
     RSblock_initBlock dl (drop dp data) el rs # init_blocks n dl el rs (dp + dl) data"

definition RSblock_init :: "RS list \<Rightarrow> nat list \<Rightarrow> byte list \<Rightarrow> RSblock list res \<times> RS list" where
  "RSblock_init rslist spec data =
     (let dl1 = QRspec_rsDataCodes1 spec; el1 = QRspec_rsEccCodes1 spec
      in case init_rs rslist 8 0x11d 0 1 (int el1) (255 - int dl1 - int el1) of
           (Inl e, rslist1) \<Rightarrow> (Inl e, rslist1)
         | (Inr rs1, rslist1) \<Rightarrow>
             let blocks1 = init_blocks (QRspec_rsBlockNum1 spec) dl1 el1 rs1 0 data
             in if QRspec_rsBlockNum2 spec = 0 then (Inr blocks1, rslist1)
                else let dl2 = QRspec_rsDataCodes2 spec; el2 = QRspec_rsEccCodes2 spec
                     in case init_rs rslist1 8 0x11d 0 1 (int el2) (255 - int dl2 - int el2) of
                          (Inl e, rslist2) \<Rightarrow> (Inl e, rslist2)
                        | (Inr rs2, rslist2) \<Rightarrow>
                            (Inr (blocks1 @ init_blocks (QRspec_rsBlockNum2 spec) dl2 el2 rs2
                                    (QRspec_rsBlockNum1 spec * dl1) data), rslist2))"

section \<open>Raw code of a QR Code symbol\<close>

record QRRawCode =
  raw_version :: nat
  raw_dataLength :: nat
  raw_eccLength :: nat
  raw_datacode :: "byte list"
  raw_ecccode :: "byte list"
  raw_b1 :: nat
  raw_blocks :: nat
  raw_rsblock :: "RSblock list"
  raw_count :: nat

definition QRraw_new :: "RS list \<Rightarrow> QRinput \<Rightarrow> QRRawCode res \<times> QRinput \<times> RS list" where
  "QRraw_new rslist input0 =
     (case QRinput_getByteStream input0 of
        (Inl e, input) \<Rightarrow> (Inl e, input, rslist)
      | (Inr datacode, input) \<Rightarrow>
          let spec = QRspec_getEccSpec (inp_version input) (inp_level input)
          in case RSblock_init rslist spec datacode of
               (Inl e, rslist') \<Rightarrow> (Inl e, input, rslist')
             | (Inr rsblock, rslist') \<Rightarrow>
                 (Inr \<lparr>raw_version = inp_version input, raw_dataLength = QRspec_rsDataLength spec,
                       raw_eccLength = QRspec_rsEccLength spec, raw_datacode = datacode,
                       raw_ecccode = concat (map rb_ecc rsblock),
                       raw_b1 = QRspec_rsBlockNum1 spec, raw_blocks = QRspec_rsBlockNum spec,
                       raw_rsblock = rsblock, raw_count = 0\<rparr>, input, rslist'))"

definition QRraw_getCode :: "QRRawCode \<Rightarrow> byte \<times> QRRawCode" where
  "QRraw_getCode raw =
     (let next = raw\<lparr>raw_count := raw_count raw + 1\<rparr>
      in if raw_count raw < raw_dataLength raw then
           let row0 = raw_count raw mod raw_blocks raw;
               col = raw_count raw div raw_blocks raw;
               row = (if col \<ge> rb_dataLength (raw_rsblock raw ! 0) then row0 + raw_b1 raw else row0)
           in (rb_data (raw_rsblock raw ! row) ! col, next)
         else if raw_count raw < raw_dataLength raw + raw_eccLength raw then
           let row = (raw_count raw - raw_dataLength raw) mod raw_blocks raw;
               col = (raw_count raw - raw_dataLength raw) div raw_blocks raw
           in (rb_ecc (raw_rsblock raw ! row) ! col, next)
         else (0, raw))"

section \<open>Raw code of a Micro QR Code symbol\<close>

record MQRRawCode =
  mraw_version :: nat
  mraw_dataLength :: nat
  mraw_eccLength :: nat
  mraw_datacode :: "byte list"
  mraw_ecccode :: "byte list"
  mraw_rsblock :: RSblock
  mraw_oddbits :: nat
  mraw_count :: nat

definition MQRraw_new :: "RS list \<Rightarrow> QRinput \<Rightarrow> MQRRawCode res \<times> QRinput \<times> RS list" where
  "MQRraw_new rslist input0 =
     (let version = inp_version input0; level = inp_level input0;
          dataLength = MQRspec_getDataLength version level;
          eccLength = MQRspec_getECCLength version level;
          oddbits = dataLength * 8 - MQRspec_getDataLengthBit version level
      in case QRinput_getByteStream input0 of
           (Inl e, input) \<Rightarrow> (Inl e, input, rslist)
         | (Inr datacode, input) \<Rightarrow>
             (case init_rs rslist 8 0x11d 0 1 (int eccLength) (255 - int dataLength - int eccLength) of
                (Inl e, rslist') \<Rightarrow> (Inl e, input, rslist')
              | (Inr rs, rslist') \<Rightarrow>
                  let block = RSblock_initBlock dataLength datacode eccLength rs
                  in (Inr \<lparr>mraw_version = version, mraw_dataLength = dataLength,
                           mraw_eccLength = eccLength, mraw_datacode = datacode,
                           mraw_ecccode = rb_ecc block, mraw_rsblock = block,
                           mraw_oddbits = oddbits, mraw_count = 0\<rparr>, input, rslist')))"

definition MQRraw_getCode :: "MQRRawCode \<Rightarrow> byte \<times> MQRRawCode" where
  "MQRraw_getCode raw =
     (let next = raw\<lparr>mraw_count := mraw_count raw + 1\<rparr>
      in if mraw_count raw < mraw_dataLength raw then (mraw_datacode raw ! mraw_count raw, next)
         else if mraw_count raw < mraw_dataLength raw + mraw_eccLength raw then
           (mraw_ecccode raw ! (mraw_count raw - mraw_dataLength raw), next)
         else (0, raw))"

section \<open>Blocks are codewords\<close>

definition block_ok :: "nat \<Rightarrow> nat \<Rightarrow> RSblock \<Rightarrow> bool" where
  "block_ok dl el b \<longleftrightarrow> rb_dataLength b = dl \<and> length (rb_data b) = dl \<and> rb_eccLength b = el
     \<and> length (rb_ecc b) = el \<and> (\<forall>i < el. rs_syndrome i (rb_data b @ rb_ecc b) = 0)"

lemma block_okD:
  "block_ok dl el b \<Longrightarrow> rb_dataLength b = dl" "block_ok dl el b \<Longrightarrow> length (rb_data b) = dl"
  "block_ok dl el b \<Longrightarrow> length (rb_ecc b) = el"
  by (simp_all add: block_ok_def)

lemma initBlock_ok:
  assumes "rs_ok rs el (255 - dl - el)" "0 < el" "dl + el < 255" "dl \<le> length data"
  shows "block_ok dl el (RSblock_initBlock dl data el rs)"
proof -
  have eq: "255 - el - (255 - dl - el) = dl" using assms(3) by simp
  have "encode_rs_char rs data = encode_rs_char rs (take dl data)"
    using assms(1) eq by (simp add: encode_rs_char_def rs_ok_def)
  then show ?thesis
    using encode_rs_char_codeword [OF assms(1,2), of "take dl data"] assms(3,4) eq
    by (simp add: block_ok_def RSblock_initBlock_def)
qed

lemma init_blocks_ok:
  assumes "rs_ok rs el (255 - dl - el)" "0 < el" "dl + el < 255" "dp + n * dl \<le> length data"
  shows "length (init_blocks n dl el rs dp data) = n \<and> list_all (block_ok dl el) (init_blocks n dl el rs dp data)
     \<and> concat (map rb_data (init_blocks n dl el rs dp data)) = take (n * dl) (drop dp data)"
  using assms(4)
proof (induction n arbitrary: dp)
  case (Suc n)
  have "block_ok dl el (RSblock_initBlock dl (drop dp data) el rs)"
    using Suc.prems by (intro initBlock_ok [OF assms(1-3)]) simp
  moreover have "rb_data (RSblock_initBlock dl (drop dp data) el rs) = take dl (drop dp data)"
    by (simp add: RSblock_initBlock_def)
  ultimately show ?case using Suc.IH [of "dp + dl"] Suc.prems by (simp add: take_add add.commute)
qed simp

lemma init_rs_ok:
  assumes "0 < dl" "dl + el < 255"
  obtains rs where "rs_ok rs el (255 - dl - el)"
    "\<And>rslist. rslist_inv rslist \<Longrightarrow>
       \<exists>rslist'. init_rs rslist 8 0x11d 0 1 (int el) (255 - int dl - int el) = (Inr rs, rslist') \<and> rslist_inv rslist'"
proof -
  have "nat (255 - int dl - int el) = 255 - dl - el" by linarith
  then obtain rs where rs: "init_rs_char 8 0x11d 0 1 (int el) (255 - int dl - int el) = Inr rs" "rs_ok rs el (255 - dl - el)"
    using init_rs_char_ok [of "int el" "255 - int dl - int el"] assms by auto
  have "\<exists>rslist'. init_rs rslist 8 0x11d 0 1 (int el) (255 - int dl - int el) = (Inr rs, rslist') \<and> rslist_inv rslist'"
    if "rslist_inv rslist" for rslist
    using init_rs_transparent [OF that, of 8 "0x11d" 0 1 "int el" "255 - int dl - int el"] rs(1)
    by (cases "init_rs rslist 8 0x11d 0 1 (int el) (255 - int dl - int el)") auto
  with rs(2) show ?thesis by (rule that)
qed

lemma ecc_spec_facts:
  assumes "1 \<le> v" "v \<le> 40" "level \<le> QR_ECLEVEL_H" "spec = QRspec_getEccSpec v level"
  obtains b1 b2 dl el where
    "QRspec_rsBlockNum1 spec = b1" "QRspec_rsBlockNum2 spec = b2" "QRspec_rsBlockNum spec = b1 + b2"
    "QRspec_rsDataCodes1 spec = dl" "QRspec_rsEccCodes1 spec = el" "QRspec_rsEccCodes2 spec = el"
    "0 < b2 \<Longrightarrow> QRspec_rsDataCodes2 spec = dl + 1" "0 < b1" "0 < dl" "0 < el" "dl + 1 + el < 255"
    "QRspec_rsDataLength spec = QRspec_getDataLength v level" "QRspec_rsEccLength spec = QRspec_getECCLength v level"
    "b1 * dl + b2 * (dl + 1) = QRspec_getDataLength v level" "(b1 + b2) * el = QRspec_getECCLength v level"
proof -
  have "level_spec (qrspecCapacity ! v) (eccTable ! v) level" using assms level_spec_at by simp
  then show ?thesis
    by (cases "snd (eccTable ! v ! level) = 0"; intro that [of "QRspec_rsBlockNum1 spec" "QRspec_rsBlockNum2 spec" "QRspec_rsDataCodes1 spec" "QRspec_rsEccCodes1 spec"])
      (auto simp: assms(4) level_spec_def Let_def ecc_spec_defs QRspec_getDataLength_def QRspec_getECCLength_def)
qed

lemma RSblock_init_ok:
  assumes "1 \<le> v" "v \<le> 40" "level \<le> QR_ECLEVEL_H" "spec = QRspec_getEccSpec v level"
    "length data = QRspec_getDataLength v level"
  obtains bs1 bs2 where "concat (map rb_data (bs1 @ bs2)) = data"
    "length bs1 = QRspec_rsBlockNum1 spec" "length bs2 = QRspec_rsBlockNum2 spec"
    "list_all (block_ok (QRspec_rsDataCodes1 spec) (QRspec_rsEccCodes1 spec)) bs1"
    "list_all (block_ok (QRspec_rsDataCodes1 spec + 1) (QRspec_rsEccCodes1 spec)) bs2"
    "\<And>rslist. rslist_inv rslist \<Longrightarrow>
       \<exists>rslist'. RSblock_init rslist spec data = (Inr (bs1 @ bs2), rslist') \<and> rslist_inv rslist'"
proof -
  obtain b1 b2 dl el where s: "QRspec_rsBlockNum1 spec = b1" "QRspec_rsBlockNum2 spec = b2"
    "QRspec_rsDataCodes1 spec = dl" "QRspec_rsEccCodes1 spec = el" "QRspec_rsEccCodes2 spec = el"
    "0 < b2 \<Longrightarrow> QRspec_rsDataCodes2 spec = dl + 1" "0 < dl" "0 < el" "dl + 1 + el < 255"
    "b1 * dl + b2 * (dl + 1) = length data"
    using ecc_spec_facts [OF assms(1-4)] assms(5) by metis
  have "dl + el < 255" using s(9) by simp
  from init_rs_ok [OF s(7) this] obtain rs1 where r1: "rs_ok rs1 el (255 - dl - el)"
    "\<And>rl. rslist_inv rl \<Longrightarrow> \<exists>rl'. init_rs rl 8 0x11d 0 1 (int el) (255 - int dl - int el) = (Inr rs1, rl') \<and> rslist_inv rl'"
    by blast
  have "0 < dl + 1" by simp
  from init_rs_ok [OF this s(9)] obtain rs2 where r2: "rs_ok rs2 el (255 - (dl + 1) - el)"
    "\<And>rl. rslist_inv rl \<Longrightarrow> \<exists>rl'. init_rs rl 8 0x11d 0 1 (int el) (255 - int (dl + 1) - int el) = (Inr rs2, rl') \<and> rslist_inv rl'"
    by blast
  let ?bs1 = "init_blocks b1 dl el rs1 0 data" and ?bs2 = "init_blocks b2 (dl + 1) el rs2 (b1 * dl) data"
  have b1: "length ?bs1 = b1" "list_all (block_ok dl el) ?bs1" "concat (map rb_data ?bs1) = take (b1 * dl) data"
    using init_blocks_ok [OF r1(1) s(8), of 0 b1 data] s(9,10) by simp_all
  have b2: "length ?bs2 = b2" "list_all (block_ok (dl + 1) el) ?bs2"
    "concat (map rb_data ?bs2) = drop (b1 * dl) data"
    using init_blocks_ok [OF r2(1) s(8), of "b1 * dl" b2 data] s(9,10) by simp_all
  have "\<exists>rl'. RSblock_init rl spec data = (Inr (?bs1 @ ?bs2), rl') \<and> rslist_inv rl'" if "rslist_inv rl" for rl
  proof -
    from r1(2) [OF that] obtain rl1 where 1: "init_rs rl 8 0x11d 0 1 (int el) (255 - int dl - int el) = (Inr rs1, rl1)" "rslist_inv rl1"
      by blast
    from r2(2) [OF 1(2)] obtain rl2 where 2: "init_rs rl1 8 0x11d 0 1 (int el) (255 - int (dl + 1) - int el) = (Inr rs2, rl2)" "rslist_inv rl2"
      by blast
    show ?thesis
    proof (cases "b2 = 0")
      case False
      then show ?thesis using s(6) 1 2 unfolding RSblock_init_def Let_def s(1-5) by simp
    qed (use 1 in \<open>simp add: RSblock_init_def Let_def s(1-5)\<close>)
  qed
  then show ?thesis
    by (rule that [of ?bs1 ?bs2, rotated 5]) (simp_all add: s(1-4) b1 b2 [simplified])
qed

section \<open>The order of the codewords\<close>

text \<open>
  The reference order: column by column, skipping the blocks that are too short. Data comes
  first, then error correction.
\<close>

definition interleave :: "byte list list \<Rightarrow> byte list" where
  "interleave bs = concat (map (\<lambda>c. map (\<lambda>b. b ! c) (filter (\<lambda>b. c < length b) bs)) [0..<foldr max (map length bs) 0])"

fun raw_codes :: "nat \<Rightarrow> QRRawCode \<Rightarrow> byte list" where
  "raw_codes 0 raw = []"
| "raw_codes (Suc n) raw = (case QRraw_getCode raw of (code, raw') \<Rightarrow> code # raw_codes n raw')"

lemma concat_grid:
  "concat (map (\<lambda>c. map (\<lambda>b. b ! c) xs) [0..<n]) = map (\<lambda>k. xs ! (k mod length xs) ! (k div length xs)) [0..<n * length xs]"
proof (induction n)
  case (Suc n)
  let ?l = "length xs"
  have "[0..<Suc n * ?l] = [0..<n * ?l] @ map (\<lambda>i. n * ?l + i) [0..<?l]"
    using upt_add_eq_append [of 0 "n * ?l" ?l] by (simp add: add.commute map_add_upt)
  moreover have "map (\<lambda>b. b ! n) xs = map (\<lambda>k. xs ! (k mod ?l) ! (k div ?l)) (map (\<lambda>i. n * ?l + i) [0..<?l])"
  proof (rule nth_equalityI)
    fix i assume "i < length (map (\<lambda>b. b ! n) xs)"
    then have "i < ?l" "xs \<noteq> []" by auto
    then have "i < ?l" "(n * ?l + i) div ?l = n" by (simp_all add: div_mult_self3)
    then show "map (\<lambda>b. b ! n) xs ! i = map (\<lambda>k. xs ! (k mod ?l) ! (k div ?l)) (map (\<lambda>i. n * ?l + i) [0..<?l]) ! i"
      by simp
  qed simp
  ultimately show ?case using Suc by simp
qed simp

lemma interleave_two:
  assumes "A \<noteq> []" "\<forall>b \<in> set A. length b = n" "\<forall>b \<in> set B. length b = n + 1"
  shows "interleave (A @ B) =
     map (\<lambda>k. (A @ B) ! (k mod length (A @ B)) ! (k div length (A @ B))) [0..<n * length (A @ B)] @ map (\<lambda>b. b ! n) B"
proof -
  have m: "foldr max (map length xs) 0 = k" if "xs \<noteq> []" "\<forall>b \<in> set xs. length b = k" for xs :: "byte list list" and k
    using that
  proof (induction xs)
    case (Cons a xs)
    then show ?case by (cases "xs = []") auto
  qed simp
  have max: "foldr max (map length (A @ B)) 0 = (if B = [] then n else n + 1)"
  proof (cases "B = []")
    case False
    have "foldr max (map length A) (n + 1) = n + 1" using assms(2) by (induction A) auto
    then show ?thesis using m [OF False assms(3)] False by simp
  qed (use m [OF assms(1,2)] in simp)
  have all: "filter (\<lambda>b. c < length b) (A @ B) = A @ B" if "c < n" for c
    using assms that by (auto simp: filter_id_conv)
  have lst: "filter (\<lambda>b. n < length b) (A @ B) = B"
    using assms by (auto simp: filter_empty_conv filter_id_conv)
  have grid: "map (\<lambda>c. map (\<lambda>b. b ! c) (filter (\<lambda>b. c < length b) (A @ B))) [0..<n] = map (\<lambda>c. map (\<lambda>b. b ! c) (A @ B)) [0..<n]"
    using all by (intro map_cong) auto
  show ?thesis
  proof (cases "B = []")
    case True
    have "interleave (A @ B) = concat (map (\<lambda>c. map (\<lambda>b. b ! c) (filter (\<lambda>b. c < length b) (A @ B))) [0..<n])"
      unfolding interleave_def max using True by simp
    then show ?thesis unfolding grid concat_grid using True by simp
  next
    case False
    have "interleave (A @ B) = concat (map (\<lambda>c. map (\<lambda>b. b ! c) (filter (\<lambda>b. c < length b) (A @ B))) [0..<n])
        @ map (\<lambda>b. b ! n) (filter (\<lambda>b. n < length b) (A @ B))"
      unfolding interleave_def max using False by simp
    then show ?thesis unfolding grid lst concat_grid .
  qed
qed

definition code_at :: "QRRawCode \<Rightarrow> nat \<Rightarrow> byte" where
  "code_at raw k = fst (QRraw_getCode (raw\<lparr>raw_count := k\<rparr>))"

lemma raw_codes_map:
  "raw_count raw + n \<le> raw_dataLength raw + raw_eccLength raw \<Longrightarrow>
     raw_codes n raw = map (code_at raw) [raw_count raw..<raw_count raw + n]"
proof (induction n arbitrary: raw)
  case (Suc n)
  have g: "QRraw_getCode raw = (code_at raw (raw_count raw), raw\<lparr>raw_count := raw_count raw + 1\<rparr>)"
    using Suc.prems by (auto simp: code_at_def QRraw_getCode_def Let_def)
  have "code_at (raw\<lparr>raw_count := raw_count raw + 1\<rparr>) = code_at raw" by (simp add: code_at_def fun_eq_iff)
  then show ?case using Suc.IH [of "raw\<lparr>raw_count := raw_count raw + 1\<rparr>"] Suc.prems
    by (simp add: g upt_conv_Cons del: upt_Suc)
qed simp

lemma code_at_data:
  assumes "raw_rsblock raw = bs1 @ bs2" "raw_blocks raw = length (bs1 @ bs2)" "raw_b1 raw = length bs1" "bs1 \<noteq> []"
    and "list_all (block_ok dl el) bs1" "list_all (block_ok (dl + 1) el) bs2"
    and "raw_dataLength raw = length bs1 * dl + length bs2 * (dl + 1)"
  shows "map (code_at raw) [0..<raw_dataLength raw] = interleave (map rb_data (bs1 @ bs2))"
proof -
  let ?B = "length (bs1 @ bs2)"
  have D: "raw_dataLength raw = dl * ?B + length bs2" using assms(7) by (simp add: algebra_simps)
  have dl0: "rb_dataLength ((bs1 @ bs2) ! 0) = dl" "0 < ?B"
    using assms(4,5) by (auto simp: neq_Nil_conv block_ok_def)
  have c: "code_at raw k = rb_data ((bs1 @ bs2) ! (if dl \<le> k div ?B then k mod ?B + length bs1 else k mod ?B)) ! (k div ?B)"
    if "k < raw_dataLength raw" for k
    using that dl0(1) assms(2,3) by (simp add: code_at_def QRraw_getCode_def Let_def assms(1))
  have first: "code_at raw k = map rb_data (bs1 @ bs2) ! (k mod ?B) ! (k div ?B)" if "k < dl * ?B" for k
  proof -
    have "k div ?B < dl" "k mod ?B < ?B" using that dl0(2) by (auto simp: less_mult_imp_div_less)
    then show ?thesis using that c [of k] D by (simp del: length_append map_append)
  qed
  have second: "code_at raw (dl * ?B + i) = map (\<lambda>b. b ! dl) (map rb_data bs2) ! i" if "i < length bs2" for i
  proof -
    have "i < ?B" using that by simp
    then have "(dl * ?B + i) div ?B = dl" "(dl * ?B + i) mod ?B = i" using dl0(2) by (simp_all add: div_mult_self3)
    then show ?thesis using that c [of "dl * ?B + i"] D by (simp add: nth_append del: length_append)
  qed
  have m1: "map (code_at raw) [0..<dl * ?B] = map (\<lambda>k. map rb_data (bs1 @ bs2) ! (k mod ?B) ! (k div ?B)) [0..<dl * ?B]"
    using first by (intro map_cong) auto
  have m2: "map (code_at raw) (map (\<lambda>i. dl * ?B + i) [0..<length bs2]) = map (\<lambda>b. b ! dl) (map rb_data bs2)"
    by (rule nth_equalityI) (use second in \<open>simp_all del: length_append\<close>)
  have "[0..<raw_dataLength raw] = [0..<dl * ?B] @ map (\<lambda>i. dl * ?B + i) [0..<length bs2]"
    unfolding D using upt_add_eq_append [of 0 "dl * ?B" "length bs2"] by (simp add: add.commute map_add_upt)
  then have "map (code_at raw) [0..<raw_dataLength raw]
      = map (\<lambda>k. map rb_data (bs1 @ bs2) ! (k mod ?B) ! (k div ?B)) [0..<dl * ?B] @ map (\<lambda>b. b ! dl) (map rb_data bs2)"
    using m1 m2 by (simp only: map_append)
  also have "\<dots> = interleave (map rb_data (bs1 @ bs2))"
    using interleave_two [of "map rb_data bs1" dl "map rb_data bs2"] assms(4-6)
    by (simp add: list_all_iff block_ok_def)
  finally show ?thesis .
qed

lemma code_at_ecc:
  assumes "raw_rsblock raw = bs" "raw_blocks raw = length bs" "bs \<noteq> []" "\<forall>b \<in> set bs. length (rb_ecc b) = el"
    and "raw_eccLength raw = length bs * el"
  shows "map (code_at raw) [raw_dataLength raw..<raw_dataLength raw + raw_eccLength raw] = interleave (map rb_ecc bs)"
proof -
  have "code_at raw (raw_dataLength raw + k) = map rb_ecc bs ! (k mod length bs) ! (k div length bs)"
    if "k < raw_eccLength raw" for k
    using that assms(1-3) by (simp add: code_at_def QRraw_getCode_def Let_def)
  then have "map (code_at raw) [raw_dataLength raw..<raw_dataLength raw + raw_eccLength raw]
      = map (\<lambda>k. map rb_ecc bs ! (k mod length bs) ! (k div length bs)) [0..<el * length bs]"
    by (intro nth_equalityI) (simp_all add: assms(5) mult.commute)
  also have "\<dots> = interleave (map rb_ecc bs)"
    using interleave_two [of "map rb_ecc bs" el "[]"] assms(3,4) by simp
  finally show ?thesis .
qed

end
