(* ===== verification/QR_Filler.thy ===== *)
theory QR_Filler
  imports QR_MSpec
begin

text \<open>
  The frame filler of \<open>qrencode.c\<close>: it walks over a frame in the two-module wide columns of
  the standard, from the lower right corner, and returns the positions of the modules that
  do not belong to a function pattern. The frame the filler points to is part of its state,
  so that a store through a returned pointer changes what it sees.
\<close>

record FrameFiller =
  ff_width :: int
  ff_frame :: "byte list"
  ff_x :: int
  ff_y :: int
  ff_dir :: int
  ff_bit :: int
  ff_mqr :: bool

definition FrameFiller_new :: "nat \<Rightarrow> byte list \<Rightarrow> bool \<Rightarrow> FrameFiller" where
  "FrameFiller_new width frame mqr =
     \<lparr>ff_width = int width, ff_frame = frame, ff_x = int width - 1, ff_y = int width - 1,
      ff_dir = -1, ff_bit = -1, ff_mqr = mqr\<rparr>"

text \<open>
  \<open>filler_move\<close> is the part of \<open>FrameFiller_next\<close> up to the test of the module; the flag is
  \<open>False\<close> when the walk has left the frame, which returns \<open>NULL\<close>. \<open>bit\<close> and \<open>dir\<close> are then already
  updated and \<open>x\<close> and \<open>y\<close> are not.
\<close>

definition filler_move :: "FrameFiller \<Rightarrow> bool \<times> FrameFiller" where
  "filler_move f =
     (let w = ff_width f;
          (x1, y1, bit) = (if ff_bit f = 0 then (ff_x f - 1, ff_y f, ff_bit f + 1)
                           else (ff_x f + 1, ff_y f + ff_dir f, ff_bit f - 1));
          (x2, y2, dir) =
            (if ff_dir f < 0 then
               if y1 < 0 then
                 if \<not> ff_mqr f \<and> x1 - 2 = 6 then (x1 - 3, 9, 1) else (x1 - 2, 0, 1)
               else (x1, y1, ff_dir f)
             else
               if y1 = w then
                 if \<not> ff_mqr f \<and> x1 - 2 = 6 then (x1 - 3, w - 1 - 8, -1) else (x1 - 2, w - 1, -1)
               else (x1, y1, ff_dir f))
      in if x2 < 0 \<or> y2 < 0 then (False, f\<lparr>ff_bit := bit, ff_dir := dir\<rparr>)
         else (True, f\<lparr>ff_bit := bit, ff_dir := dir, ff_x := x2, ff_y := y2\<rparr>))"

definition ff_pos :: "FrameFiller \<Rightarrow> nat" where
  "ff_pos f = nat (ff_y f * ff_width f + ff_x f)"

text \<open>
  The result is the position of the pointer returned, \<open>None\<close> for \<open>NULL\<close>, and the filler;
  the outer \<open>None\<close> is a recursion that does not end.
\<close>

partial_function (option) filler_seek :: "FrameFiller \<Rightarrow> (nat option \<times> FrameFiller) option" where
  "filler_seek f =
     (case filler_move f of
        (inside, f') \<Rightarrow>
          if \<not> inside then Some (None, f')
          else if ff_frame f' ! ff_pos f' AND 0x80 \<noteq> 0 then filler_seek f'
          else Some (Some (ff_pos f'), f'))"

declare filler_seek.simps [code]

definition FrameFiller_next :: "FrameFiller \<Rightarrow> (nat option \<times> FrameFiller) option" where
  "FrameFiller_next f =
     (if ff_bit f = -1 then Some (Some (ff_pos f), f\<lparr>ff_bit := 0\<rparr>) else filler_seek f)"

text \<open>A call of \<open>FrameFiller_next\<close> followed by a store through the pointer, or the exit on \<open>NULL\<close>.\<close>

definition filler_store :: "byte \<Rightarrow> FrameFiller \<Rightarrow> FrameFiller res" where
  "filler_store v f =
     (case FrameFiller_next f of
        None \<Rightarrow> Inl EHANG
      | Some (None, f') \<Rightarrow> Inl ENOERR
      | Some (Some p, f') \<Rightarrow> Inr (f'\<lparr>ff_frame := (ff_frame f')[p := v]\<rparr>))"

section \<open>The self tests\<close>

definition FrameFiller_test :: "frame_cache \<Rightarrow> nat \<Rightarrow> byte list res \<times> frame_cache" where
  "FrameFiller_test frames version =
     (case QRspec_newFrame frames (int version) of
        (Inl e, frames') \<Rightarrow> (Inl e, frames')
      | (Inr frame, frames') \<Rightarrow>
          let len = QRspec_getDataLength version QR_ECLEVEL_L * 8
                    + QRspec_getECCLength version QR_ECLEVEL_L * 8 + QRspec_getRemainder version
          in (res_bind (fold_res (\<lambda>i. filler_store ((word_of_nat i AND 0x7f) OR 0x80)) [0..<len]
                          (FrameFiller_new (QRspec_getWidth version) frame False))
                (\<lambda>f. Inr (ff_frame f)), frames'))"

text \<open>On \<open>NULL\<close> this one returns the frame as filled so far.\<close>

fun testMQR_loop :: "nat list \<Rightarrow> FrameFiller \<Rightarrow> byte list res" where
  "testMQR_loop [] f = Inr (ff_frame f)"
| "testMQR_loop (i # is) f =
     (case FrameFiller_next f of
        None \<Rightarrow> Inl EHANG
      | Some (None, f') \<Rightarrow> Inr (ff_frame f')
      | Some (Some p, f') \<Rightarrow>
          testMQR_loop is (f'\<lparr>ff_frame := (ff_frame f')[p := (word_of_nat i AND 0x7f) OR 0x80]\<rparr>))"

definition FrameFiller_testMQR :: "frame_cache \<Rightarrow> nat \<Rightarrow> byte list res \<times> frame_cache" where
  "FrameFiller_testMQR frames version =
     (case MQRspec_newFrame frames (int version) of
        (Inl e, frames') \<Rightarrow> (Inl e, frames')
      | (Inr frame, frames') \<Rightarrow>
          let len = MQRspec_getDataLengthBit version QR_ECLEVEL_L
                    + MQRspec_getECCLength version QR_ECLEVEL_L * 8
          in (testMQR_loop [0..<len] (FrameFiller_new (MQRspec_getWidth version) frame True), frames'))"

section \<open>The order of the walk\<close>

text \<open>
  A step of the walk: the position, direction and bit of the filler. \<open>up\<close> and \<open>down\<close> are the
  steps in a two-module wide column whose right half is \<open>c\<close>, and \<open>zig\<close> those of a list of
  full columns. The specification of the walk, \<open>qr_walk\<close> and \<open>mqr_walk\<close>, is their concatenation
  in the order of the standard; column 6, the vertical timing pattern, is skipped.
\<close>

type_synonym walk_step = "int \<times> int \<times> int \<times> int"

fun up :: "nat \<Rightarrow> nat \<Rightarrow> walk_step list" where
  "up c 0 = []"
| "up c (Suc y) = (int c, int y, -1, 0) # (int c - 1, int y, -1, 1) # up c y"

fun down :: "nat \<Rightarrow> nat \<Rightarrow> nat \<Rightarrow> walk_step list" where
  "down c y 0 = []"
| "down c y (Suc n) = (int c, int y, 1, 0) # (int c - 1, int y, 1, 1) # down c (Suc y) n"

definition column :: "nat \<Rightarrow> bool \<Rightarrow> nat \<Rightarrow> walk_step list" where
  "column w d c = (if d then up c w else down c 0 w)"

fun zig :: "nat \<Rightarrow> bool \<Rightarrow> nat \<Rightarrow> nat \<Rightarrow> walk_step list" where
  "zig w d c 0 = []"
| "zig w d c (Suc n) = column w d c @ zig w (\<not> d) (c - 2) n"

definition qr_walk :: "nat \<Rightarrow> walk_step list" where
  "qr_walk w = zig w True (w - 1) ((w - 7) div 2) @ down 5 9 (w - 9) @ up 3 w @ down 1 0 w"

definition mqr_walk :: "nat \<Rightarrow> walk_step list" where
  "mqr_walk w = zig w True (w - 1) ((w - 1) div 2)
     @ [(0, if even ((w - 1) div 2) then int w - 1 else 0, if even ((w - 1) div 2) then -1 else 1, 0)]"

definition step_pos :: "nat \<Rightarrow> walk_step \<Rightarrow> nat" where
  "step_pos w = (\<lambda>(x, y, d, b). nat (y * int w + x))"

definition ff_at :: "nat \<Rightarrow> bool \<Rightarrow> byte list \<Rightarrow> walk_step \<Rightarrow> FrameFiller" where
  "ff_at w mqr frame = (\<lambda>(x, y, d, b). \<lparr>ff_width = int w, ff_frame = frame, ff_x = x, ff_y = y,
     ff_dir = d, ff_bit = b, ff_mqr = mqr\<rparr>)"

lemma ff_at_sel [simp]: "ff_frame (ff_at w mqr frame s) = frame" "ff_pos (ff_at w mqr frame s) = step_pos w s"
  by (cases s; simp add: ff_at_def ff_pos_def step_pos_def)+

lemma ff_at_frame_update [simp]:
  "(ff_at w mqr frame s)\<lparr>ff_frame := g\<rparr> = ff_at w mqr g s"
  by (cases s) (simp add: ff_at_def)

text \<open>\<open>walk_next s t\<close>: the filler at \<open>s\<close> moves to \<open>t\<close>; \<open>walk_stop s\<close>: it leaves the frame.\<close>

definition walk_next :: "nat \<Rightarrow> bool \<Rightarrow> walk_step \<Rightarrow> walk_step \<Rightarrow> bool" where
  "walk_next w mqr s t \<longleftrightarrow> (\<forall>frame. filler_move (ff_at w mqr frame s) = (True, ff_at w mqr frame t))"

definition walk_stop :: "nat \<Rightarrow> bool \<Rightarrow> walk_step \<Rightarrow> bool" where
  "walk_stop w mqr s \<longleftrightarrow> (\<forall>frame. fst (filler_move (ff_at w mqr frame s)) = False)"

fun chain :: "nat \<Rightarrow> bool \<Rightarrow> walk_step list \<Rightarrow> bool" where
  "chain w mqr (s # t # ss) \<longleftrightarrow> walk_next w mqr s t \<and> chain w mqr (t # ss)"
| "chain w mqr ss = True"

lemma chain_append:
  "chain w mqr (xs @ ys) \<longleftrightarrow>
     chain w mqr xs \<and> chain w mqr ys \<and> (xs \<noteq> [] \<and> ys \<noteq> [] \<longrightarrow> walk_next w mqr (last xs) (hd ys))"
proof (induction xs)
  case (Cons x xs)
  then show ?case by (cases xs; cases ys) auto
qed simp

lemma walk_next_left: "1 \<le> x \<Longrightarrow> 0 \<le> y \<Longrightarrow> y < int w \<Longrightarrow> walk_next w mqr (x, y, d, 0) (x - 1, y, d, 1)"
  by (auto simp: walk_next_def filler_move_def ff_at_def Let_def)

lemma walk_next_up: "0 \<le> x \<Longrightarrow> 1 \<le> y \<Longrightarrow> walk_next w mqr (x, y, -1, 1) (x + 1, y - 1, -1, 0)"
  by (auto simp: walk_next_def filler_move_def ff_at_def Let_def)

lemma walk_next_down: "0 \<le> x \<Longrightarrow> 0 \<le> y \<Longrightarrow> y + 1 < int w \<Longrightarrow> walk_next w mqr (x, y, 1, 1) (x + 1, y + 1, 1, 0)"
  by (auto simp: walk_next_def filler_move_def ff_at_def Let_def)

lemma walk_next_top:
  "1 \<le> x \<Longrightarrow> mqr \<or> x \<noteq> 7 \<Longrightarrow> walk_next w mqr (x, 0, -1, 1) (x - 1, 0, 1, 0)"
  "walk_next w False (7, 0, -1, 1) (5, 9, 1, 0)"
  by (auto simp: walk_next_def filler_move_def ff_at_def Let_def)

lemma walk_next_bottom:
  "1 \<le> x \<Longrightarrow> mqr \<or> x \<noteq> 7 \<Longrightarrow> 0 < w \<Longrightarrow> walk_next w mqr (x, int w - 1, 1, 1) (x - 1, int w - 1, -1, 0)"
  by (auto simp: walk_next_def filler_move_def ff_at_def Let_def)

lemma walk_stop_bottom: "walk_stop w mqr (0, int w - 1, 1, 1)"
  by (auto simp: walk_stop_def filler_move_def ff_at_def Let_def)

lemma walk_stop_left: "walk_stop w mqr (0, y, d, 0)"
  by (auto simp: walk_stop_def filler_move_def ff_at_def Let_def)

lemma up_ends: "0 < y \<Longrightarrow> hd (up c y) = (int c, int y - 1, -1, 0) \<and> last (up c y) = (int c - 1, 0, -1, 1) \<and> up c y \<noteq> []"
proof (induction y)
  case (Suc y)
  then show ?case by (cases y) auto
qed simp

lemma down_ends:
  "0 < n \<Longrightarrow> hd (down c y n) = (int c, int y, 1, 0)
     \<and> last (down c y n) = (int c - 1, int (y + n) - 1, 1, 1) \<and> down c y n \<noteq> []"
proof (induction n arbitrary: y)
  case (Suc n)
  show ?case using Suc.IH [of "Suc y"] by (cases n) auto
qed simp

lemma chain_up: "1 \<le> c \<Longrightarrow> y \<le> w \<Longrightarrow> chain w mqr (up c y)"
proof (induction y)
  case (Suc y)
  show ?case
  proof (cases y)
    case 0
    then show ?thesis using Suc.prems walk_next_left [of "int c" 0 w mqr "-1"] by simp
  next
    case (Suc z)
    then show ?thesis
      using Suc.IH Suc.prems walk_next_left [of "int c" "int y" w mqr "-1"] walk_next_up [of "int c - 1" "int y" w mqr]
      by simp
  qed
qed simp

lemma chain_down: "1 \<le> c \<Longrightarrow> y + n \<le> w \<Longrightarrow> chain w mqr (down c y n)"
proof (induction n arbitrary: y)
  case (Suc n)
  show ?case
  proof (cases n)
    case 0
    then show ?thesis using Suc.prems walk_next_left [of "int c" "int y" w mqr 1] by simp
  next
    case (Suc z)
    then show ?thesis
      using Suc.IH [of "Suc y"] Suc.prems walk_next_left [of "int c" "int y" w mqr 1]
        walk_next_down [of "int c - 1" "int y" w mqr]
      by (simp add: add.commute)
  qed
qed simp

lemma column_ends:
  assumes "0 < w"
  shows "hd (column w d c) = (int c, if d then int w - 1 else 0, if d then -1 else 1, 0)"
    and "last (column w d c) = (int c - 1, if d then 0 else int w - 1, if d then -1 else 1, 1)"
    and "column w d c \<noteq> []"
  using assms up_ends [of w c] down_ends [of w c 0] by (auto simp: column_def)

lemma chain_column: "1 \<le> c \<Longrightarrow> chain w mqr (column w d c)"
  by (simp add: column_def chain_up chain_down)

lemma walk_next_column:
  assumes "2 \<le> c" "mqr \<or> c \<noteq> 8" "0 < w"
  shows "walk_next w mqr (last (column w d c)) (int c - 2, if d then 0 else int w - 1, if d then 1 else -1, 0)"
  using assms walk_next_top(1) [of "int c - 1" mqr w] walk_next_bottom [of "int c - 1" mqr w]
  by (auto simp: column_ends)

lemma zig_ends:
  assumes "0 < w" "2 * n \<le> Suc c"
  shows "0 < n \<Longrightarrow> hd (zig w d c n) = (int c, if d then int w - 1 else 0, if d then -1 else 1, 0) \<and> zig w d c n \<noteq> []
     \<and> last (zig w d c n) = last (column w (d = odd n) (c - 2 * (n - 1)))"
  using assms(2)
proof (induction n arbitrary: d c)
  case (Suc n)
  show ?case
  proof (cases n)
    case 0
    then show ?thesis using column_ends [OF assms(1)] by simp
  next
    case (Suc m)
    then show ?thesis using Suc.IH [of "c - 2" "\<not> d"] Suc.prems column_ends [OF assms(1)] by auto
  qed
qed simp

lemma chain_zig:
  assumes "0 < w" "2 * n \<le> Suc c" "mqr \<or> 7 + 2 * n \<le> Suc (Suc c)"
  shows "chain w mqr (zig w d c n)"
  using assms(2,3)
proof (induction n arbitrary: d c)
  case (Suc n)
  show ?case
  proof (cases n)
    case 0
    then show ?thesis using Suc.prems by (simp add: chain_column)
  next
    case (Suc m)
    have c: "2 \<le> c" "mqr \<or> c \<noteq> 8" using Suc Suc.prems by auto
    have "chain w mqr (zig w (\<not> d) (c - 2) n)" using Suc Suc.prems by (intro Suc.IH) auto
    moreover have "hd (zig w (\<not> d) (c - 2) n) = (int c - 2, if d then 0 else int w - 1, if d then 1 else -1, 0)"
      using zig_ends [OF assms(1), of n "c - 2" "\<not> d"] Suc Suc.prems c by auto
    ultimately show ?thesis
      using walk_next_column [OF c assms(1)] chain_column [of c w mqr d] c by (simp add: chain_append)
  qed
qed simp


lemma qr_walk_chain:
  assumes "w = 17 + 4 * v"
  shows "chain w False (qr_walk w)" "walk_stop w False (last (qr_walk w))"
    "hd (qr_walk w) = (int w - 1, int w - 1, -1, 0)" "qr_walk w \<noteq> []"
proof -
  let ?n = "(w - 7) div 2"
  have n: "?n = 5 + 2 * v" "0 < ?n" "2 * ?n \<le> Suc (w - 1)" "7 + 2 * ?n \<le> Suc (Suc (w - 1))"
    "w - 1 - 2 * (?n - 1) = 8"
    using assms by auto
  have zig: "chain w False (zig w True (w - 1) ?n)" using chain_zig [OF _ n(3)] n(4) assms by simp
  have "odd ?n" using n(1) by simp
  then have "last (zig w True (w - 1) ?n) = (7, 0, -1, 1)" "zig w True (w - 1) ?n \<noteq> []"
    and hd: "hd (zig w True (w - 1) ?n) = (int w - 1, int w - 1, -1, 0)"
    using zig_ends [OF _ n(3), of w True] n assms column_ends(2) [of w True 8] by auto
  then show "chain w False (qr_walk w)" "walk_stop w False (last (qr_walk w))"
    "hd (qr_walk w) = (int w - 1, int w - 1, -1, 0)" "qr_walk w \<noteq> []"
    using zig hd walk_next_top(2) [of w] chain_down [of 5 9 "w - 9" w False] chain_up [of 3 w w False]
      chain_down [of 1 0 w w False] down_ends [of "w - 9" 5 9] up_ends [of w 3] down_ends [of w 1 0] assms
      walk_next_bottom [of 4 False w] walk_next_top(1) [of 2 False w] walk_stop_bottom [of w False]
    by (auto simp: qr_walk_def chain_append)
qed

lemma mqr_walk_chain:
  assumes "odd w" "3 \<le> w"
  shows "chain w True (mqr_walk w)" "walk_stop w True (last (mqr_walk w))"
    "hd (mqr_walk w) = (int w - 1, int w - 1, -1, 0)" "mqr_walk w \<noteq> []"
proof -
  let ?n = "(w - 1) div 2"
  have n: "0 < ?n" "2 * ?n \<le> Suc (w - 1)" "w - 1 - 2 * (?n - 1) = 2"
    using assms by (auto elim!: oddE)
  have zig: "chain w True (zig w True (w - 1) ?n)" using chain_zig [OF _ n(2)] assms by simp
  have l: "last (zig w True (w - 1) ?n) = last (column w (odd ?n) 2)"
    and hd: "hd (zig w True (w - 1) ?n) = (int w - 1, int w - 1, -1, 0)" and ne: "zig w True (w - 1) ?n \<noteq> []"
    using zig_ends [OF _ n(2), of w True] n assms by auto
  have "walk_next w True (last (zig w True (w - 1) ?n))
      (0, if even ?n then int w - 1 else 0, if even ?n then -1 else 1, 0)"
    using walk_next_column [of 2 True w "odd ?n"] assms l by auto
  then show "chain w True (mqr_walk w)" "walk_stop w True (last (mqr_walk w))"
    "hd (mqr_walk w) = (int w - 1, int w - 1, -1, 0)" "mqr_walk w \<noteq> []"
    using zig hd ne by (auto simp: mqr_walk_def chain_append walk_stop_left simp del: zig.simps)
qed


section \<open>The modules on the walk\<close>

definition step_xy :: "walk_step \<Rightarrow> nat \<times> nat" where
  "step_xy = (\<lambda>(x, y, d, b). (nat x, nat y))"

lemma pair_times_insert: "{a, b} \<times> insert y R = insert (b, y) (insert (a, y) ({a, b} \<times> R))"
  by auto

lemma up_xy: "1 \<le> c \<Longrightarrow> distinct (map step_xy (up c n)) \<and> step_xy ` set (up c n) = {c - 1, c} \<times> {..<n}"
proof (induction n)
  case (Suc n)
  have "step_xy (int c, int n, -1, 0) = (c, n)" "step_xy (int c - 1, int n, -1, 1) = (c - 1, n)"
    using Suc.prems by (simp_all add: step_xy_def nat_diff_distrib')
  moreover have "c \<noteq> c - 1" using Suc.prems by simp
  ultimately show ?case using Suc unfolding lessThan_Suc pair_times_insert by simp
qed simp

lemma down_xy:
  "1 \<le> c \<Longrightarrow> distinct (map step_xy (down c y n)) \<and> step_xy ` set (down c y n) = {c - 1, c} \<times> {y..<y + n}"
proof (induction n arbitrary: y)
  case (Suc n)
  have "step_xy (int c, int y, 1, 0) = (c, y)" "step_xy (int c - 1, int y, 1, 1) = (c - 1, y)"
    using Suc.prems by (simp_all add: step_xy_def nat_diff_distrib')
  moreover have "{y..<y + Suc n} = insert y {Suc y..<Suc y + n}" by auto
  moreover have "c \<noteq> c - 1" using Suc.prems by simp
  ultimately show ?case using Suc.prems Suc.IH [of "Suc y"] by (simp only: pair_times_insert) simp
qed simp

lemma column_xy:
  "1 \<le> c \<Longrightarrow> distinct (map step_xy (column w d c)) \<and> step_xy ` set (column w d c) = {c - 1, c} \<times> {..<w}"
  using up_xy [of c w] down_xy [of c 0 w] by (simp add: column_def lessThan_atLeast0)

lemma zig_xy:
  "2 * n \<le> Suc c \<Longrightarrow> distinct (map step_xy (zig w d c n))
     \<and> step_xy ` set (zig w d c n) = {Suc c - 2 * n..<Suc c} \<times> {..<w}"
proof (induction n arbitrary: d c)
  case (Suc n)
  have c: "1 \<le> c" using Suc.prems by simp
  show ?case
  proof (cases n)
    case 0
    have "{c - 1, c} = {Suc c - 2 * Suc 0..<Suc c}" using c by auto
    then show ?thesis using 0 column_xy [OF c, of w d] by simp
  next
    case (Suc m)
    then have IH: "distinct (map step_xy (zig w (\<not> d) (c - 2) n))"
        "step_xy ` set (zig w (\<not> d) (c - 2) n) = {Suc (c - 2) - 2 * n..<Suc (c - 2)} \<times> {..<w}"
      using Suc.IH [of "c - 2" "\<not> d"] Suc.prems by auto
    have split: "{Suc c - 2 * Suc n..<Suc c} = {c - 1, c} \<union> {Suc (c - 2) - 2 * n..<Suc (c - 2)}"
      using Suc Suc.prems by auto
    have disj: "({c - 1, c} \<times> {..<w}) \<inter> ({Suc (c - 2) - 2 * n..<Suc (c - 2)} \<times> {..<w}) = {}"
      using Suc Suc.prems by auto
    show ?thesis
      using IH column_xy [OF c, of w d] disj unfolding split
      by (simp only: zig.simps map_append distinct_append set_append set_map image_Un Sigma_Un_distrib1)
  qed
qed simp

lemma qr_walk_xy:
  assumes "w = 17 + 4 * v"
  shows "distinct (map step_xy (qr_walk w))"
    and "step_xy ` set (qr_walk w) = ({..<w} \<times> {..<w}) - ({6} \<times> {..<w} \<union> {4, 5} \<times> {..<9})"
proof -
  let ?n = "(w - 7) div 2"
  have n: "2 * ?n \<le> Suc (w - 1)" "w - 2 * ?n = 7" "Suc (w - 1) = w" using assms by auto
  from zig_xy [OF n(1), of w True] have z: "distinct (map step_xy (zig w True (w - 1) ?n))"
    "step_xy ` set (zig w True (w - 1) ?n) = {7..<w} \<times> {..<w}" by (simp_all only: n)
  have d: "distinct (map step_xy (down 5 9 (w - 9)))" "step_xy ` set (down 5 9 (w - 9)) = {4, 5} \<times> {9..<w}"
    "distinct (map step_xy (up 3 w))" "step_xy ` set (up 3 w) = {2, 3} \<times> {..<w}"
    "distinct (map step_xy (down 1 0 w))" "step_xy ` set (down 1 0 w) = {0, 1} \<times> {0..<w}"
    using down_xy [of 5 9 "w - 9"] up_xy [of 3 w] down_xy [of 1 0 w] assms by simp_all
  show "distinct (map step_xy (qr_walk w))"
    using z d by (simp add: qr_walk_def) auto
  have "step_xy ` set (qr_walk w) = {7..<w} \<times> {..<w} \<union> {4, 5} \<times> {9..<w} \<union> {2, 3} \<times> {..<w} \<union> {0, 1} \<times> {0..<w}"
    unfolding qr_walk_def set_append image_Un z d by blast
  also have "\<dots> = ({..<w} \<times> {..<w}) - ({6} \<times> {..<w} \<union> {4, 5} \<times> {..<9})"
    using assms by auto
  finally show "step_xy ` set (qr_walk w) = \<dots>" .
qed

lemma mqr_walk_xy:
  assumes "odd w" "3 \<le> w"
  shows "distinct (map step_xy (mqr_walk w))"
    and "step_xy ` set (mqr_walk w) \<subseteq> {..<w} \<times> {..<w}" "{1..<w} \<times> {..<w} \<subseteq> step_xy ` set (mqr_walk w)"
proof -
  let ?n = "(w - 1) div 2"
  have n: "2 * ?n \<le> Suc (w - 1)" "w - 2 * ?n = 1" "Suc (w - 1) = w"
    using assms by (auto elim!: oddE)
  from zig_xy [OF n(1), of w True] have z: "distinct (map step_xy (zig w True (w - 1) ?n))"
    "step_xy ` set (zig w True (w - 1) ?n) = {1..<w} \<times> {..<w}" by (simp_all only: n)
  then show "distinct (map step_xy (mqr_walk w))"
    "step_xy ` set (mqr_walk w) \<subseteq> {..<w} \<times> {..<w}" "{1..<w} \<times> {..<w} \<subseteq> step_xy ` set (mqr_walk w)"
    using assms by (auto simp: mqr_walk_def image_Un step_xy_def)
qed


section \<open>Filling a frame\<close>

definition store_all :: "nat list \<Rightarrow> byte list \<Rightarrow> byte list \<Rightarrow> byte list" where
  "store_all ps vs frame = fold (\<lambda>(p, v) f. f[p := v]) (zip ps vs) frame"

lemma length_store_all [simp]: "length (store_all ps vs frame) = length frame"
  unfolding store_all_def by (rule length_fold_update) (auto split: prod.splits)

lemma store_all_simps [simp]:
  "store_all ps [] frame = frame" "store_all [] vs frame = frame"
  "store_all (p # ps) (v # vs) frame = store_all ps vs (frame[p := v])"
  by (simp_all add: store_all_def)

lemma filler_seek_chain:
  assumes "chain w mqr (s # ss)" "walk_stop w mqr (last (s # ss))"
  shows "case dropWhile (\<lambda>t. \<not> is_data frame (step_pos w t)) ss of
           [] \<Rightarrow> \<exists>f. filler_seek (ff_at w mqr frame s) = Some (None, f)
         | t # ts \<Rightarrow> filler_seek (ff_at w mqr frame s) = Some (Some (step_pos w t), ff_at w mqr frame t)"
  using assms
proof (induction ss arbitrary: s)
  case Nil
  then have "\<not> fst (filler_move (ff_at w mqr frame s))" by (simp add: walk_stop_def)
  then show ?case
    by (subst filler_seek.simps) (auto split: prod.splits)
next
  case (Cons t ss)
  then have "filler_move (ff_at w mqr frame s) = (True, ff_at w mqr frame t)" by (simp add: walk_next_def)
  then have "filler_seek (ff_at w mqr frame s) =
      (if is_data frame (step_pos w t) then Some (Some (step_pos w t), ff_at w mqr frame t)
       else filler_seek (ff_at w mqr frame t))"
    by (subst filler_seek.simps) (auto simp: is_data_def)
  moreover have "dropWhile (\<lambda>t. \<not> is_data frame (step_pos w t)) (t # ss)
      = (if is_data frame (step_pos w t) then t # ss else dropWhile (\<lambda>t. \<not> is_data frame (step_pos w t)) ss)"
    by simp
  ultimately show ?case
    using Cons.IH [of t] Cons.prems by (simp only: chain.simps last.simps) (simp split del: list.split)
qed

definition on_walk :: "walk_step \<Rightarrow> bool" where
  "on_walk = (\<lambda>(x, y, d, b). b \<noteq> -1 \<and> 0 \<le> x \<and> 0 \<le> y)"

lemma FrameFiller_next_on_walk: "on_walk s \<Longrightarrow> FrameFiller_next (ff_at w mqr frame s) = filler_seek (ff_at w mqr frame s)"
  by (cases s) (simp add: on_walk_def FrameFiller_next_def ff_at_def)

lemma chain_suffix: "chain w mqr (s # pre @ t # rest) \<Longrightarrow> chain w mqr (t # rest)"
  using chain_append [of w mqr "s # pre" "t # rest"] by simp

lemma filler_stores:
  assumes "chain w mqr (s # ss)" "walk_stop w mqr (last (s # ss))" "list_all on_walk (s # ss)"
    and "distinct (map (step_pos w) ss)"
  defines "D \<equiv> \<lambda>ss frame. filter (is_data frame) (map (step_pos w) ss)"
  shows "if length vs \<le> length (D ss frame)
         then \<exists>s'. fold_res filler_store vs (ff_at w mqr frame s) = Inr (ff_at w mqr (store_all (D ss frame) vs frame) s')
         else fold_res filler_store vs (ff_at w mqr frame s) = Inl ENOERR"
  using assms(1-4)
proof (induction vs arbitrary: s ss frame)
  case Nil
  have "fold_res filler_store [] (ff_at w mqr frame s) = Inr (ff_at w mqr (store_all (D ss frame) [] frame) s)"
    by simp
  then show ?case by (simp only: list.size le0 if_True) blast
next
  case (Cons v vs)
  let ?P = "\<lambda>t. \<not> is_data frame (step_pos w t)"
  note seek = filler_seek_chain [OF Cons.prems(1,2), of frame] FrameFiller_next_on_walk [of s w mqr frame]
  show ?case
  proof (cases "dropWhile ?P ss")
    case Nil
    then have "D ss frame = []" by (auto simp: D_def filter_empty_conv dropWhile_eq_Nil_conv)
    moreover obtain f where "filler_seek (ff_at w mqr frame s) = Some (None, f)"
      using seek(1) unfolding Nil by auto
    ultimately show ?thesis using seek(2) Cons.prems(3) by (simp add: filler_store_def)
  next
    case (Cons t rest)
    define pre where "pre = takeWhile ?P ss"
    have ss: "ss = pre @ t # rest" using takeWhile_dropWhile_id [of ?P ss] Cons by (simp add: pre_def)
    have pre: "\<forall>p \<in> set pre. ?P p" unfolding pre_def by (auto dest: set_takeWhileD)
    have t: "is_data frame (step_pos w t)" using Cons hd_dropWhile [of ?P ss] by simp
    let ?f = "frame[step_pos w t := v]"
    have Dss: "D ss frame = step_pos w t # D rest frame"
      using pre t by (simp add: ss D_def filter_empty_conv)
    have Drest: "D rest ?f = D rest frame"
    proof -
      have "step_pos w t \<notin> set (map (step_pos w) rest)" using Cons.prems(4) by (simp add: ss)
      then show ?thesis
        unfolding D_def by (intro filter_cong refl) (metis is_data_def nth_list_update_neq)
    qed
    have "filler_store v (ff_at w mqr frame s) = Inr (ff_at w mqr ?f t)"
      using seek(2) seek(1) [unfolded Cons] Cons.prems(3) by (simp add: filler_store_def)
    moreover note Cons.IH [of t rest ?f, unfolded Drest]
    ultimately show ?thesis
      using Cons.prems Dss chain_suffix [of w mqr s pre t rest]
      by (cases "length vs \<le> length (D rest frame)") (simp_all add: ss del: split_paired_Ex)
  qed
qed


lemma up_on_walk: "1 \<le> c \<Longrightarrow> list_all on_walk (up c n)"
  by (induction n) (auto simp: on_walk_def)

lemma down_on_walk: "1 \<le> c \<Longrightarrow> list_all on_walk (down c y n)"
  by (induction n arbitrary: y) (auto simp: on_walk_def)

lemma zig_on_walk: "2 * n \<le> Suc c \<Longrightarrow> list_all on_walk (zig w d c n)"
proof (induction n arbitrary: c d)
  case (Suc n)
  have "list_all on_walk (zig w (\<not> d) (c - 2) n)"
    using Suc.prems by (cases "n = 0") (auto intro!: Suc.IH)
  then show ?case using Suc.prems by (simp add: column_def up_on_walk down_on_walk)
qed simp

lemma inj_pos: "inj_on (\<lambda>(x, y). y * w + x) ({..<w} \<times> {..<w :: nat})"
proof (rule inj_onI, clarsimp)
  fix x y x' y' assume l: "x < w" "x' < w" and e: "y * w + x = y' * w + x'"
  have "(y * w + x) div w = y" "(y' * w + x') div w = y'" "(y * w + x) mod w = x" "(y' * w + x') mod w = x'"
    using l by auto
  with e show "x = x' \<and> y = y'" by metis
qed


text \<open>The walk specifications satisfy what the lemma on stores asks for.\<close>

definition is_walk :: "nat \<Rightarrow> bool \<Rightarrow> walk_step list \<Rightarrow> bool" where
  "is_walk w mqr ss \<longleftrightarrow> chain w mqr ss \<and> ss \<noteq> [] \<and> hd ss = (int w - 1, int w - 1, -1, 0)
     \<and> walk_stop w mqr (last ss) \<and> list_all on_walk ss \<and> distinct (map (step_pos w) ss)"

lemma walk_positions_xy:
  "list_all on_walk ss \<Longrightarrow> map (step_pos w) ss = map (\<lambda>(x, y). y * w + x) (map step_xy ss)"
  by (induction ss) (auto simp: on_walk_def step_pos_def step_xy_def nat_add_distrib nat_mult_distrib)

lemma distinct_walk_positions:
  assumes "list_all on_walk ss" "distinct (map step_xy ss)" "step_xy ` set ss \<subseteq> {..<w} \<times> {..<w}"
  shows "distinct (map (step_pos w) ss)"
  unfolding walk_positions_xy [OF assms(1)]
  using assms(2,3) inj_on_subset [OF inj_pos, of "step_xy ` set ss" w] by (simp add: distinct_map comp_inj_on)

lemma is_walk_qr:
  assumes "w = 17 + 4 * v"
  shows "is_walk w False (qr_walk w)"
proof -
  have o: "list_all on_walk (qr_walk w)"
    unfolding qr_walk_def using assms by (simp add: zig_on_walk up_on_walk down_on_walk)
  have "step_xy ` set (qr_walk w) \<subseteq> {..<w} \<times> {..<w}" using qr_walk_xy(2) [OF assms] by blast
  with o distinct_walk_positions [OF o qr_walk_xy(1) [OF assms]] show ?thesis
    unfolding is_walk_def using qr_walk_chain [OF assms] by simp
qed

lemma is_walk_mqr:
  assumes "odd w" "3 \<le> w"
  shows "is_walk w True (mqr_walk w)"
proof -
  have "list_all on_walk (zig w True (w - 1) ((w - 1) div 2))" by (rule zig_on_walk) simp
  then have o: "list_all on_walk (mqr_walk w)"
    unfolding mqr_walk_def using assms(2) by (simp add: on_walk_def)
  with distinct_walk_positions [OF o mqr_walk_xy(1,2) [OF assms]] show ?thesis
    unfolding is_walk_def using mqr_walk_chain [OF assms] by simp
qed

text \<open>Filling a frame through a new filler: the first call returns the corner without looking at it.\<close>

definition data_modules :: "nat \<Rightarrow> walk_step list \<Rightarrow> byte list \<Rightarrow> nat list" where
  "data_modules w ss frame = filter (is_data frame) (map (step_pos w) ss)"

lemma filler_fill:
  assumes "is_walk w mqr ss" "is_data frame (w * w - 1)" "0 < w"
  shows "if length vs \<le> length (data_modules w ss frame)
         then \<exists>f. fold_res filler_store vs (FrameFiller_new w frame mqr) = Inr f
                \<and> ff_frame f = store_all (data_modules w ss frame) vs frame
         else fold_res filler_store vs (FrameFiller_new w frame mqr) = Inl ENOERR"
proof -
  obtain s rest where ss: "ss = s # rest" using assms(1) by (cases ss) (auto simp: is_walk_def)
  have s: "s = (int w - 1, int w - 1, -1, 0)" and walk: "chain w mqr (s # rest)" "walk_stop w mqr (last (s # rest))"
    "list_all on_walk (s # rest)" "distinct (map (step_pos w) rest)" "step_pos w s \<notin> set (map (step_pos w) rest)"
    using assms(1) by (auto simp: is_walk_def ss)
  have pos: "step_pos w s = w * w - 1"
  proof -
    have "(int w - 1) * int w + (int w - 1) = int (w * w - 1)"
      using assms(3) by (simp add: algebra_simps of_nat_diff)
    then show ?thesis unfolding s step_pos_def by (simp only: prod.case nat_int)
  qed
  show ?thesis
  proof (cases vs)
    case Nil
    then show ?thesis by (simp add: FrameFiller_new_def)
  next
    case (Cons v vs')
    let ?f = "frame[w * w - 1 := v]"
    have first: "filler_store v (FrameFiller_new w frame mqr) = Inr (ff_at w mqr ?f s)"
      using pos by (simp add: filler_store_def FrameFiller_next_def FrameFiller_new_def ff_at_def s step_pos_def ff_pos_def)
    have rest: "filter (is_data ?f) (map (step_pos w) rest) = filter (is_data frame) (map (step_pos w) rest)"
      using walk(5) unfolding pos by (intro filter_cong refl) (metis is_data_def nth_list_update_neq)
    have D: "data_modules w ss frame = (w * w - 1) # filter (is_data frame) (map (step_pos w) rest)"
      using assms(2) pos by (simp add: data_modules_def ss)
    from filler_stores [OF walk(1-4), of vs' ?f] show ?thesis
      unfolding Cons D rest using first by (auto split: if_splits)
  qed
qed


lemma positions_set:
  assumes "list_all on_walk ss"
  shows "set (map (step_pos w) ss) = (\<lambda>(x, y). y * w + x) ` step_xy ` set ss"
  unfolding walk_positions_xy [OF assms] by (simp add: image_image)

lemma pos_of_xy: "0 < w \<Longrightarrow> (p :: nat) < w * w \<Longrightarrow> p = (p div w) * w + p mod w \<and> p mod w < w \<and> p div w < w"
  by (simp add: less_mult_imp_div_less)

lemma data_modules_set:
  assumes "is_walk w mqr ss" "step_xy ` set ss \<subseteq> {..<w} \<times> {..<w}" "0 < w"
    and "\<And>p. p < w * w \<Longrightarrow> is_data frame p \<Longrightarrow> (p mod w, p div w) \<in> step_xy ` set ss"
  shows "distinct (data_modules w ss frame)" "set (data_modules w ss frame) = {p. p < w * w \<and> is_data frame p}"
proof -
  show "distinct (data_modules w ss frame)"
    using assms(1) by (simp add: is_walk_def data_modules_def)
  have o: "list_all on_walk ss" using assms(1) by (simp add: is_walk_def)
  have lt: "y * w + x < w * w" if "x < w" "y < w" for x y
  proof -
    have "y * w + x < Suc y * w" using that by simp
    also have "\<dots> \<le> w * w" using that by (intro mult_right_mono) simp_all
    finally show ?thesis .
  qed
  have "p \<in> (\<lambda>(x, y). y * w + x) ` step_xy ` set ss" if "p < w * w" "is_data frame p" for p
    using assms(4) [OF that] pos_of_xy [OF assms(3) that(1)]
    by (intro image_eqI [of _ _ "(p mod w, p div w)"]) simp_all
  moreover have "p < w * w" if "p \<in> (\<lambda>(x, y). y * w + x) ` step_xy ` set ss" for p
  proof -
    from that obtain q where "q \<in> step_xy ` set ss" and p: "p = (\<lambda>(x, y). y * w + x) q" by blast
    with assms(2) have "q \<in> {..<w} \<times> {..<w}" by blast
    then show ?thesis using lt by (auto simp: p)
  qed
  ultimately show "set (data_modules w ss frame) = {p. p < w * w \<and> is_data frame p}"
    unfolding data_modules_def set_filter positions_set [OF o] by blast
qed

text \<open>
  C14. On a frame of a QR Code symbol the filler visits every module that is not part of a
  function pattern exactly once: there is an enumeration of them such that storing values
  through the filler puts the k-th value at the k-th of these modules, changes no other module
  and always returns; only a store beyond the last of them fails. The frame has to mark
  column 6 and the modules above row 9 in columns 4 and 5 as function modules and to leave the
  lower right corner free, as the frames of the library do.
\<close>

theorem FrameFiller_visits_all:
  assumes "w = 17 + 4 * v" "is_data frame (w * w - 1)"
    and "\<forall>p < w * w. is_data frame p \<longrightarrow> p mod w \<noteq> 6 \<and> \<not> (p mod w \<in> {4, 5} \<and> p div w < 9)"
  shows "\<exists>ps. distinct ps \<and> set ps = {p. p < w * w \<and> is_data frame p}
     \<and> (\<forall>vs. if length vs \<le> length ps
             then \<exists>f. fold_res filler_store vs (FrameFiller_new w frame False) = Inr f
                    \<and> ff_frame f = store_all ps vs frame
             else fold_res filler_store vs (FrameFiller_new w frame False) = Inl ENOERR)"
proof -
  have w: "0 < w" using assms(1) by simp
  note walk = is_walk_qr [OF assms(1)] and xy = qr_walk_xy(2) [OF assms(1)]
  have cover: "(p mod w, p div w) \<in> step_xy ` set (qr_walk w)" if "p < w * w" "is_data frame p" for p
    using assms(3) [rule_format, OF that] pos_of_xy [OF w that(1)] unfolding xy by simp
  have inside: "step_xy ` set (qr_walk w) \<subseteq> {..<w} \<times> {..<w}" unfolding xy by blast
  show ?thesis
    by (intro exI [of _ "data_modules w (qr_walk w) frame"] conjI allI data_modules_set [OF walk inside w cover]
        filler_fill [OF walk assms(2) w])
qed

theorem FrameFiller_visits_all_witness:
  "\<exists>ps f. distinct ps \<and> set ps = {p. p < 21 * 21 \<and> is_data (map (\<lambda>p. if p mod 21 < 7 then 0x80 else 0) [0..<441]) p}
     \<and> fold_res filler_store [1] (FrameFiller_new 21 (map (\<lambda>p. if p mod 21 < 7 then 0x80 else 0) [0..<441]) False) = Inr f
     \<and> ff_frame f = store_all ps [1] (map (\<lambda>p. if p mod 21 < 7 then 0x80 else 0) [0..<441])"
proof -
  let ?f = "map (\<lambda>p. if p mod 21 < 7 then 0x80 else 0) [0..<441] :: byte list"
  have c: "\<forall>p < 21 * 21. is_data ?f p \<longrightarrow> p mod 21 \<noteq> 6 \<and> \<not> (p mod 21 \<in> {4, 5} \<and> p div 21 < 9)"
    by (auto simp: is_data_def split: if_splits)
  have d: "is_data ?f (21 * 21 - 1)" by (simp add: is_data_def)
  obtain ps where ps: "distinct ps" "set ps = {p. p < 21 * 21 \<and> is_data ?f p}"
    "\<forall>vs. if length vs \<le> length ps then \<exists>f. fold_res filler_store vs (FrameFiller_new 21 ?f False) = Inr f \<and> ff_frame f = store_all ps vs ?f
       else fold_res filler_store vs (FrameFiller_new 21 ?f False) = Inl ENOERR"
    using FrameFiller_visits_all [of 21 1 ?f, OF _ d c] by auto
  from ps(2) d have "440 \<in> set ps" by simp
  then have "length [1 :: byte] \<le> length ps" by (cases ps) auto
  with ps(1,2) ps(3) [rule_format, of "[1]"] show ?thesis by (simp only: if_True) blast
qed

end
