(* ===== verification/QR_Frame.thy ===== *)
theory QR_Frame
  imports QR_Filler
begin

text \<open>
  The geometry of the frames \<open>QRspec_createFrame\<close> builds: which modules are function modules,
  how many are left for data, and that these are as many as the capacity table of the
  standard says, for all forty versions.
\<close>

section \<open>Which modules an operation marks\<close>

text \<open>
  \<open>paints V n S g\<close>: on frames of \<open>n\<close> modules the operation \<open>g\<close> gives the modules of \<open>S\<close> values
  that satisfy \<open>V\<close> and leaves the others as they are. \<open>marks\<close> is the case of function modules.
\<close>

definition paints :: "(byte \<Rightarrow> bool) \<Rightarrow> nat \<Rightarrow> nat set \<Rightarrow> (byte list \<Rightarrow> byte list) \<Rightarrow> bool" where
  "paints V n S g \<longleftrightarrow> (\<forall>f. length f = n \<longrightarrow>
     length (g f) = n \<and> (\<forall>p < n. if p \<in> S then V (g f ! p) else g f ! p = f ! p))"

abbreviation (input) marks :: "nat \<Rightarrow> nat set \<Rightarrow> (byte list \<Rightarrow> byte list) \<Rightarrow> bool" where
  "marks \<equiv> paints (\<lambda>v. bit v 7)"

lemma is_data_bit: "is_data f p \<longleftrightarrow> \<not> bit (f ! p) 7"
  using and_single_bit_eq_0 [of "f ! p" 7] by (simp add: is_data_def)

lemma marks_is_data:
  "marks n S g \<Longrightarrow> length f = n \<Longrightarrow> p < n \<Longrightarrow> is_data (g f) p \<longleftrightarrow> is_data f p \<and> p \<notin> S"
  unfolding paints_def is_data_bit by metis

lemma marks_id: "paints V n {} (\<lambda>f. f)"
  by (simp add: paints_def)

lemma marks_comp: "paints V n S g \<Longrightarrow> paints V n T h \<Longrightarrow> paints V n (S \<union> T) (\<lambda>f. h (g f))"
  unfolding paints_def by (metis UnCI UnE)

lemma nth_update_if: "j < length xs \<Longrightarrow> xs[i := v] ! j = (if i = j then v else xs ! j)"
  by auto

lemma marks_update: "V v \<Longrightarrow> paints V n {p} (\<lambda>f. f[p := v])"
  by (auto simp: paints_def nth_update_if)

lemma marks_write_at:
  assumes "\<forall>v \<in> set vs. V v"
  shows "paints V n {p..<p + length vs} (write_at p vs)"
  using assms by (auto simp: paints_def nth_write_at)

lemma marks_fold: "\<forall>x \<in> set xs. paints V n (S x) (g x) \<Longrightarrow> paints V n (\<Union>x \<in> set xs. S x) (fold g xs)"
proof (induction xs)
  case Nil
  then show ?case using marks_id by (simp add: id_def)
next
  case (Cons x xs)
  then show ?case using marks_comp [of V n "S x" "g x" "\<Union>x \<in> set xs. S x" "fold g xs"] by (simp add: comp_def)
qed

lemma marks_fold_acc:
  assumes "\<And>x a. x \<in> set xs \<Longrightarrow> paints V n (S x) (k x a)"
  shows "paints V n (\<Union>x \<in> set xs. S x) (\<lambda>f. snd (fold (\<lambda>x (a, f). (h x a, k x a f)) xs (acc, f)))"
  using assms
proof (induction xs arbitrary: acc)
  case Nil
  then show ?case using marks_id by simp
next
  case (Cons x xs)
  then show ?case
    using marks_comp [of V n "S x" "k x acc" "\<Union>x \<in> set xs. S x"
        "\<lambda>f. snd (fold (\<lambda>x (a, f). (h x a, k x a f)) xs (h x acc, f))"] by simp
qed

lemma fold_counter:
  "snd (fold (\<lambda>x (c, f). (c + d, k c f)) xs (c0, f)) = fold (\<lambda>i. k (c0 + int i * d)) [0..<length xs] f"
proof (induction xs rule: rev_induct)
  case (snoc x xs)
  have "fst (fold (\<lambda>x (c, f). (c + d, k c f)) xs (c0, f)) = c0 + int (length xs) * d"
    by (induction xs rule: rev_induct) (auto simp: case_prod_unfold algebra_simps)
  with snoc show ?case by (simp add: case_prod_unfold)
qed simp

lemma marks_put_rows:
  assumes "\<forall>s \<in> set ss. length s = k \<and> (\<forall>v \<in> set s. V v)"
  shows "paints V n (\<Union>i < length ss. {p + i * w..<p + i * w + k}) (put_rows w p ss)"
  using assms
proof (induction ss arbitrary: p)
  case Nil
  then show ?case using marks_id by (simp add: fun_eq_iff put_rows.simps(1) [abs_def])
next
  case (Cons s ss)
  have "(\<Union>i < length (s # ss). {p + i * w..<p + i * w + k})
      = {p..<p + k} \<union> (\<Union>i < length ss. {p + w + i * w..<p + w + i * w + k})"
    by (simp add: lessThan_Suc_eq_insert_0 image_image add.assoc del: lessThan_Suc)
  moreover have "paints V n {p..<p + k} (write_at p s)" using Cons.prems marks_write_at [of s V n p] by auto
  moreover have "put_rows w p (s # ss) = (\<lambda>f. put_rows w (p + w) ss (write_at p s f))" by (simp add: fun_eq_iff)
  ultimately show ?case using Cons by (simp add: marks_comp)
qed

section \<open>Areas of a frame\<close>

definition area :: "nat \<Rightarrow> (nat \<times> nat) set \<Rightarrow> nat set" where
  "area w A = (\<lambda>(x, y). y * w + x) ` A"

lemma area_Un: "area w (A \<union> B) = area w A \<union> area w B"
  by (auto simp: area_def)

lemma area_UN: "area w (\<Union>i \<in> I. A i) = (\<Union>i \<in> I. area w (A i))"
  by (auto simp: area_def)

lemma area_single: "area w {(x, y)} = {y * w + x}"
  by (simp add: area_def)

lemma area_row: "area w ({x..<x + k} \<times> {y}) = {y * w + x..<y * w + x + k}"
proof -
  have "area w ({x..<x + k} \<times> {y}) = (\<lambda>z. y * w + z) ` {x..<x + k}"
  proof -
    have "{x..<x + k} \<times> {y} = (\<lambda>z. (z, y)) ` {x..<x + k}" by auto
    then show ?thesis by (simp only: area_def image_image prod.case)
  qed
  also have "\<dots> = {y * w + x..<y * w + x + k}" by (simp add: image_add_atLeastLessThan ac_simps)
  finally show ?thesis .
qed

lemma area_block: "area w ({x..<x + k} \<times> {y..<y + m}) = (\<Union>i < m. {y * w + x + i * w..<y * w + x + i * w + k})"
proof -
  have split: "{x..<x + k} \<times> {y..<y + m} = (\<Union>i < m. {x..<x + k} \<times> {y + i})"
  proof -
    have "{y..<y + m} = (\<lambda>i. y + i) ` {..<m}" by (simp add: lessThan_atLeast0 image_add_atLeastLessThan ac_simps)
    then show ?thesis by auto
  qed
  show ?thesis
    unfolding split area_UN area_row by (simp add: algebra_simps)
qed

abbreviation (input) painted :: "(byte \<Rightarrow> bool) \<Rightarrow> nat \<Rightarrow> (nat \<times> nat) set \<Rightarrow> (byte list \<Rightarrow> byte list) \<Rightarrow> bool" where
  "painted V w A g \<equiv> paints V (w * w) (area w A) g"

abbreviation (input) marked :: "nat \<Rightarrow> (nat \<times> nat) set \<Rightarrow> (byte list \<Rightarrow> byte list) \<Rightarrow> bool" where
  "marked w A g \<equiv> marks (w * w) (area w A) g"

lemma marked_put: "q = y * w + x \<Longrightarrow> V v \<Longrightarrow> painted V w {(x, y)} (\<lambda>f. f[q := v])"
  using marks_update [of V v "w * w" "y * w + x"] by (simp add: area_single)

lemma marked_comp: "painted V w A g \<Longrightarrow> painted V w B h \<Longrightarrow> painted V w (A \<union> B) (\<lambda>f. h (g f))"
  by (simp add: area_Un marks_comp)

lemma marked_fold: "(\<And>x. x \<in> set xs \<Longrightarrow> painted V w (A x) (g x)) \<Longrightarrow> painted V w (\<Union>x \<in> set xs. A x) (fold g xs)"
  by (simp add: area_UN marks_fold)

lemma marked_row:
  "q = y * w + x \<Longrightarrow> V v \<Longrightarrow> painted V w ({x..<x + k} \<times> {y}) (write_at q (replicate k v))"
  using marks_write_at [of "replicate k v" V "w * w" "y * w + x"] by (simp add: area_row)

lemma finder_bits: "\<forall>s \<in> set finder_pattern. length s = 7 \<and> (\<forall>v \<in> set s. bit v 7)"
  "\<forall>s \<in> set alignment_finder. length s = 5 \<and> (\<forall>v \<in> set s. bit v 7)"
  "length finder_pattern = 7" "length alignment_finder = 5"
  by (simp_all add: finder_pattern_def alignment_finder_def)

lemma marked_finder: "marked w ({ox..<ox + 7} \<times> {oy..<oy + 7}) (putFinderPattern w ox oy)"
  using marks_put_rows [OF finder_bits(1), of "w * w" "oy * w + ox" w]
  by (simp add: area_block finder_bits putFinderPattern_def [abs_def])

lemma marked_alignment:
  assumes "2 \<le> ox" "2 \<le> oy"
  shows "marked w ({ox - 2..<ox + 3} \<times> {oy - 2..<oy + 3}) (QRspec_putAlignmentMarker w ox oy)"
proof -
  obtain x y where xy: "ox = x + 2" "oy = y + 2" using assms by (metis add.commute le_iff_add)
  have "(oy - 2) * w + ox - 2 = y * w + x" by (simp add: xy)
  then have m: "QRspec_putAlignmentMarker w ox oy = put_rows w (y * w + x) alignment_finder"
    by (simp add: QRspec_putAlignmentMarker_def fun_eq_iff)
  have e: "{ox - 2..<ox + 3} = {x..<x + 5}" "{oy - 2..<oy + 3} = {y..<y + 5}" by (auto simp: xy)
  show ?thesis
    unfolding m using marks_put_rows [OF finder_bits(2), of "w * w" "y * w + x" w]
    by (simp only: e area_block finder_bits)
qed


section \<open>The steps of the frame construction\<close>

lemma marked_finders:
  "marked w ({0..<7} \<times> {0..<7} \<union> {w - 7..<w - 7 + 7} \<times> {0..<7} \<union> {0..<7} \<times> {w - 7..<w - 7 + 7}) (frame_finders w)"
  using marked_comp [OF marked_comp [OF marked_finder [of w 0 0] marked_finder [of w "w - 7" 0]]
      marked_finder [of w 0 "w - 7"]]
  by (simp add: frame_finders_def [abs_def])

lemma marked_separators:
  assumes "21 \<le> w"
  shows "marked w ((\<Union>y \<in> set [0..<7]. {(7, y)} \<union> {(w - 8, y)} \<union> {(7, w - 7 + y)})
      \<union> {0..<0 + 8} \<times> {7} \<union> {w - 8..<w - 8 + 8} \<times> {7} \<union> {0..<0 + 8} \<times> {w - 8}) (frame_separators w)"
proof -
  obtain u where w: "w = u + 8" using assms by (metis add.commute le_iff_add order.trans numeral_le_iff semiring_norm)
  have "marked w (\<Union>y \<in> set [0..<7]. {(7, y)} \<union> {(w - 8, y)} \<union> {(7, w - 7 + y)})
      (fold (\<lambda>y f. f[w * y + 7 := 0xc0, w * y + w - 8 := 0xc0, w * (w - 7) + w * y + 7 := 0xc0]) [0..<7])"
    by (intro marked_fold marked_comp marked_put) (simp_all add: w algebra_simps)
  moreover have "marked w ({0..<0 + 8} \<times> {7}) (write_at (w * 7) (replicate 8 0xc0))"
    "marked w ({w - 8..<w - 8 + 8} \<times> {7}) (write_at (w * 8 - 8) (replicate 8 0xc0))"
    "marked w ({0..<0 + 8} \<times> {w - 8}) (write_at (w * (w - 8)) (replicate 8 0xc0))"
    by (intro marked_row; simp add: w algebra_simps)+
  ultimately show ?thesis
    unfolding frame_separators_def [abs_def] Let_def by (intro marked_comp)
qed

lemma marked_format_area:
  assumes "21 \<le> w" "V 0x84"
  shows "painted V w ({0..<0 + 9} \<times> {8} \<union> {w - 8..<w - 8 + 8} \<times> {8}
      \<union> (\<Union>y \<in> set [0..<8]. {(8, y)}) \<union> (\<Union>y \<in> set [0..<7]. {(8, w - 7 + y)})) (frame_format_area w)"
proof -
  obtain u where w: "w = u + 8" using assms(1) by (metis add.commute le_iff_add order.trans numeral_le_iff semiring_norm)
  have "painted V w ({0..<0 + 9} \<times> {8}) (write_at (w * 8) (replicate 9 0x84))"
    "painted V w ({w - 8..<w - 8 + 8} \<times> {8}) (write_at (w * 9 - 8) (replicate 8 0x84))"
    by (intro marked_row; simp add: w assms(2) algebra_simps)+
  moreover have "painted V w (\<Union>y \<in> set [0..<8]. {(8, y)}) (fold (\<lambda>y f. f[8 + w * y := 0x84]) [0..<8])"
    "painted V w (\<Union>y \<in> set [0..<7]. {(8, w - 7 + y)}) (fold (\<lambda>y f. f[w * (w - 7) + 8 + w * y := 0x84]) [0..<7])"
    by (intro marked_fold marked_put; simp add: w assms(2) algebra_simps)+
  ultimately show ?thesis
    unfolding frame_format_area_def [abs_def] Let_def by (intro marked_comp)
qed

lemma bit7_or: "bit v 7 \<Longrightarrow> bit (v OR u :: byte) 7"
  by (simp add: bit_or_iff)

lemma marked_timing:
  "marked w (\<Union>x \<in> set [1..<w - 15]. {(7 + x, 6)} \<union> {(6, 7 + x)}) (frame_timing w)"
proof -
  have "marked w ({(7 + x, 6)} \<union> {(6, 7 + x)}) (\<lambda>f. f[w * 6 + 8 + (x - 1) := 0x90 OR (word_of_nat x AND 1),
                   w * 8 + 6 + w * (x - 1) := 0x90 OR (word_of_nat x AND 1)])" if x: "1 \<le> x" for x
  proof -
    obtain z where "x = Suc z" using x by (cases x) auto
    then show ?thesis by (intro marked_comp marked_put bit7_or) (simp_all add: algebra_simps)
  qed
  then show ?thesis unfolding frame_timing_def [abs_def] by (intro marked_fold) simp
qed

lemma marked_version_info:
  assumes "21 \<le> w" "7 \<le> version"
  shows "marked w ((\<Union>(x, y) \<in> {0..<6} \<times> {0..<3}. {(x, w - 11 + y)}) \<union> (\<Union>(y, x) \<in> {0..<6} \<times> {0..<3}. {(w - 11 + x, y)}))
           (frame_version_info version w)"
proof -
  obtain u where w: "w = u + 11" using assms by (metis add.commute le_iff_add order.trans numeral_le_iff semiring_norm)
  have "marked w (case p of (x, y) \<Rightarrow> {(x, w - 11 + y)})
      (\<lambda>f. case p of (x, y) \<Rightarrow> f[w * (w - 11) + (w * y + x) := 0x88 OR (ucast v AND 1)])" for p and v :: uint
    by (cases p) (simp only: prod.case, intro marked_put bit7_or, simp_all add: w algebra_simps)
  note a = marks_fold_acc [where S = "\<lambda>p. area w (case p of (x, y) \<Rightarrow> {(x, w - 11 + y)})" and h = "\<lambda>_. drop_bit 1 :: uint \<Rightarrow> uint", OF this]
  have "marked w (case p of (y, x) \<Rightarrow> {(w - 11 + x, y)})
      (\<lambda>f. case p of (y, x) \<Rightarrow> f[(w - 11) + w * y + x := 0x88 OR (ucast v AND 1)])" for p and v :: uint
    by (cases p) (simp only: prod.case, intro marked_put bit7_or, simp_all add: w algebra_simps)
  note b = marks_fold_acc [where S = "\<lambda>p. area w (case p of (y, x) \<Rightarrow> {(w - 11 + x, y)})" and h = "\<lambda>_. drop_bit 1 :: uint \<Rightarrow> uint", OF this]
  show ?thesis
    using marks_comp [OF a [where xs = "List.product [0..<6] [0..<3]" and acc = "QRspec_getVersionPattern version"]
       b [where xs = "List.product [0..<6] [0..<3]" and acc = "QRspec_getVersionPattern version"]] assms(2)
    by (simp add: frame_version_info_def [abs_def] Let_def area_Un area_UN case_prod_unfold)
qed


section \<open>Alignment patterns\<close>

text \<open>
  The coordinates of the centres: 6 and \<open>a0\<close>, \<open>a0 + d\<close>, ... up to \<open>width - 7\<close>, \<open>n\<close> in all.
  There is a pattern at every pair of them but the three that would hit a finder.
\<close>

definition align_dist :: "nat \<Rightarrow> int" where
  "align_dist version = snd (alignmentPattern ! version) - fst (alignmentPattern ! version)"

definition align_count :: "nat \<Rightarrow> nat \<Rightarrow> nat" where
  "align_count version width = (if align_dist version < 0 then 2
     else nat ((int width - fst (alignmentPattern ! version)) div align_dist version + 2))"

definition align_at :: "nat \<Rightarrow> nat \<Rightarrow> nat" where
  "align_at version i = nat (fst (alignmentPattern ! version) + int i * align_dist version)"

text \<open>The facts about the table of alignment positions that the construction relies on.\<close>

definition align_row :: "QRspec_Capacity \<Rightarrow> int \<times> int \<Rightarrow> bool" where
  "align_row c a \<longleftrightarrow> (let w = int (cap_width c); d = snd a - fst a in
     fst a \<ge> 18 \<and> (if d < 0 then snd a = 0 \<and> fst a = w - 7
       else d \<ge> 16 \<and> (w - fst a) div d \<ge> 1 \<and> fst a + ((w - fst a) div d) * d = w - 7))"

lemma align_rows: "list_all2 align_row (drop 2 qrspecCapacity) (drop 2 alignmentPattern)"
  by code_simp

lemma widths: "list_all (\<lambda>v. cap_width (qrspecCapacity ! v) = 17 + 4 * v) [1..<41]"
  by code_simp


definition sq :: "nat \<Rightarrow> nat \<Rightarrow> (nat \<times> nat) set" where
  "sq cx cy = {cx - 2..<cx + 3} \<times> {cy - 2..<cy + 3}"

definition align_area :: "nat \<Rightarrow> nat \<Rightarrow> (nat \<times> nat) set" where
  "align_area version width = (let n = align_count version width; K = align_at version in
     (\<Union>i \<in> {0..<n - 2}. sq 6 (K i) \<union> sq (K i) 6) \<union> (\<Union>j \<in> {0..<n - 1}. \<Union>i \<in> {0..<n - 1}. sq (K i) (K j)))"

lemma width_eq: "1 \<le> v \<Longrightarrow> v \<le> 40 \<Longrightarrow> QRspec_getWidth v = 17 + 4 * v"
  using widths by (simp add: list_all_iff QRspec_getWidth_def del: upt_rec_numeral)

lemma align_row_at:
  assumes "2 \<le> v" "v \<le> 40"
  shows "align_row (qrspecCapacity ! v) (alignmentPattern ! v)"
proof -
  have "Suc (Suc (v - 2)) = v" "v - 2 < 39" using assms by auto
  then show ?thesis using list_all2_nthD [OF align_rows, of "v - 2"] by simp
qed

text \<open>The centres grow by at least 16 from at least 18 on, and the last is \<open>width - 7\<close>.\<close>

lemma align_facts:
  assumes "2 \<le> v" "v \<le> 40" "w = QRspec_getWidth v"
  shows "2 \<le> align_count v w" "18 \<le> align_at v 0" "align_at v (align_count v w - 2) = w - 7"
    and "\<And>i j. i < j \<Longrightarrow> j < align_count v w - 1 \<Longrightarrow> align_at v i + 16 \<le> align_at v j"
    and "\<And>i. i < align_count v w - 1 \<Longrightarrow> 18 \<le> align_at v i \<and> align_at v i \<le> w - 7"
proof -
  define a where "a = fst (alignmentPattern ! v)"
  define d where "d = snd (alignmentPattern ! v) - fst (alignmentPattern ! v)"
  define n where "n = align_count v w"
  have w: "int w = int (cap_width (qrspecCapacity ! v))" using assms(3) by (simp add: QRspec_getWidth_def)
  have row: "a \<ge> 18" "d < 0 \<Longrightarrow> a = int w - 7"
    "\<not> d < 0 \<Longrightarrow> d \<ge> 16 \<and> (int w - a) div d \<ge> 1 \<and> a + ((int w - a) div d) * d = int w - 7"
    using align_row_at [OF assms(1,2)] by (auto simp: align_row_def Let_def a_def d_def w)
  have n: "n = (if d < 0 then 2 else nat ((int w - a) div d + 2))"
    by (simp add: n_def align_count_def align_dist_def a_def d_def)
  have at: "align_at v i = nat (a + int i * d)" for i by (simp add: align_at_def align_dist_def a_def d_def)
  show n2: "2 \<le> align_count v w" using row(3) n by (auto simp: n_def [symmetric])
  show "18 \<le> align_at v 0" using row(1) by (simp add: at)
  have last: "a + int (n - 2) * d = int w - 7"
    using row(2,3) n by (cases "d < 0") auto
  then show "align_at v (align_count v w - 2) = w - 7" by (simp add: at n_def)
  have mono: "a + int i * d + 16 \<le> a + int j * d" if "i < j" "j < n - 1" for i j
  proof -
    have d: "16 \<le> d" using that n row(3) by (cases "d < 0") auto
    have "int i * d + d \<le> int j * d" using that d mult_right_mono [of "int i + 1" "int j" d] by (simp add: algebra_simps)
    then show ?thesis using d by simp
  qed
  have pos: "a \<le> a + int i * d" if "i < n - 1" for i
    using mono [of 0 i] that by (cases "i = 0") auto
  show "align_at v i + 16 \<le> align_at v j" if "i < j" "j < align_count v w - 1" for i j
    using mono [of i j] that pos [of i] row(1) by (simp add: at n_def)
  show "18 \<le> align_at v i \<and> align_at v i \<le> w - 7" if "i < align_count v w - 1" for i
  proof -
    have "i \<le> n - 2" using that by (simp add: n_def)
    moreover have "a + int i * d + 16 \<le> a + int (n - 2) * d" if "i < n - 2"
      using mono [OF that] n2 by (simp only: n_def)
    ultimately have "a + int i * d \<le> int w - 7" using last by (cases "i = n - 2") fastforce+
    moreover have "18 \<le> a + int i * d" using pos [of i] that row(1) by (simp add: n_def)
    ultimately show ?thesis unfolding at by linarith
  qed
qed

lemma marked_alignments:
  assumes "2 \<le> v" "v \<le> 40" "w = QRspec_getWidth v"
  shows "marked w (align_area v w) (QRspec_putAlignmentPattern v w)"
proof -
  let ?K = "align_at v" and ?n = "align_count v w"
  define a where "a = fst (alignmentPattern ! v)"
  define d where "d = snd (alignmentPattern ! v) - a"
  note facts = align_facts [OF assms]
  have K: "nat (a + int i * d) = ?K i" for i by (simp add: align_at_def align_dist_def a_def d_def)
  have n: "(if d < 0 then 2 else (int w - a) div d + 2) = int ?n"
    using facts(1) by (auto simp: align_count_def align_dist_def a_def d_def split: if_splits)
  have K2: "2 \<le> ?K i" if "i < ?n - 1" for i using facts(5) [OF that] by simp
  have sqs1: "marked w (sq 6 (?K i) \<union> sq (?K i) 6)
      (\<lambda>f. QRspec_putAlignmentMarker w (?K i) 6 (QRspec_putAlignmentMarker w 6 (?K i) f))" if "i < ?n - 1" for i
    unfolding sq_def by (intro marked_comp marked_alignment K2 that) simp_all
  have sqs2: "marked w (sq (?K i) (?K j)) (QRspec_putAlignmentMarker w (?K i) (?K j))"
    if "i < ?n - 1" "j < ?n - 1" for i j
    unfolding sq_def by (intro marked_alignment K2 that)
  have eq: "QRspec_putAlignmentPattern v w f =
      fold (\<lambda>j. fold (\<lambda>i. QRspec_putAlignmentMarker w (?K i) (?K j)) [0..<?n - 1]) [0..<?n - 1]
        (fold (\<lambda>i f. QRspec_putAlignmentMarker w (?K i) 6 (QRspec_putAlignmentMarker w 6 (?K i) f)) [0..<?n - 2] f)" for f
  proof -
    have "QRspec_putAlignmentPattern v w f =
       (if int ?n * int ?n - 3 = 1 then QRspec_putAlignmentMarker w (nat a) (nat a) f
        else snd (fold (\<lambda>y (cy, f). (cy + d, snd (fold (\<lambda>x (cx, f). (cx + d, QRspec_putAlignmentMarker w (nat cx) (nat cy) f))
                                  [0..<nat (int ?n - 1)] (a, f)))) [0..<nat (int ?n - 1)]
              (a, snd (fold (\<lambda>x (cx, f). (cx + d, QRspec_putAlignmentMarker w (nat cx) 6
                                (QRspec_putAlignmentMarker w 6 (nat cx) f))) [1..<nat (int ?n - 1)] (a, f)))))"
      using assms(1) unfolding QRspec_putAlignmentPattern_def Let_def a_def [symmetric] d_def [symmetric] n by simp
    moreover have "int ?n * int ?n - 3 = 1 \<longleftrightarrow> ?n = 2"
    proof
      assume "int ?n * int ?n - 3 = 1"
      then have "int (?n * ?n) = int 4" by simp
      then have "?n * ?n = 2 * 2" by (simp only: of_nat_eq_iff)
      then show "?n = 2" by (metis power2_eq_square power2_eq_iff_nonneg zero_le)
    qed simp
    moreover have "nat (int ?n - 1) = ?n - 1" "nat a = ?K 0" using K [of 0] by auto
    ultimately show ?thesis
      using facts(1) by (cases "?n = 2") (simp_all add: fold_counter [where d = d] K numeral_2_eq_2)
  qed
  have "marked w (\<Union>i \<in> {0..<?n - 2}. sq 6 (?K i) \<union> sq (?K i) 6)
      (fold (\<lambda>i f. QRspec_putAlignmentMarker w (?K i) 6 (QRspec_putAlignmentMarker w 6 (?K i) f)) [0..<?n - 2])"
    using marked_fold [of "[0..<?n - 2]" _ w "\<lambda>i. sq 6 (?K i) \<union> sq (?K i) 6", OF sqs1] by simp
  moreover have "marked w (\<Union>i \<in> {0..<?n - 1}. sq (?K i) (?K j))
      (fold (\<lambda>i. QRspec_putAlignmentMarker w (?K i) (?K j)) [0..<?n - 1])" if "j < ?n - 1" for j
    using marked_fold [of "[0..<?n - 1]" _ w "\<lambda>i. sq (?K i) (?K j)", OF sqs2] that by simp
  then have "marked w (\<Union>j \<in> {0..<?n - 1}. \<Union>i \<in> {0..<?n - 1}. sq (?K i) (?K j))
      (fold (\<lambda>j. fold (\<lambda>i. QRspec_putAlignmentMarker w (?K i) (?K j)) [0..<?n - 1]) [0..<?n - 1])"
    using marked_fold [of "[0..<?n - 1]" _ w "\<lambda>j. \<Union>i \<in> {0..<?n - 1}. sq (?K i) (?K j)"] by simp
  ultimately show ?thesis
    unfolding align_area_def Let_def eq [abs_def] by (rule marked_comp)
qed


section \<open>The function modules of a frame\<close>

definition corner_area :: "nat \<Rightarrow> (nat \<times> nat) set" where
  "corner_area w = {0..<9} \<times> {0..<9} \<union> {w - 8..<w} \<times> {0..<9} \<union> {0..<9} \<times> {w - 8..<w}"

definition timing_area :: "nat \<Rightarrow> (nat \<times> nat) set" where
  "timing_area w = {6} \<times> {9..<w - 8} \<union> {9..<w - 8} \<times> {6}"

definition version_area :: "nat \<Rightarrow> (nat \<times> nat) set" where
  "version_area w = {0..<6} \<times> {w - 11..<w - 8} \<union> {w - 11..<w - 8} \<times> {0..<6}"

definition function_area :: "nat \<Rightarrow> (nat \<times> nat) set" where
  "function_area v = (let w = QRspec_getWidth v in
     corner_area w \<union> timing_area w \<union> (if 2 \<le> v then align_area v w else {})
     \<union> (if 7 \<le> v then version_area w else {}))"

lemma corner_pieces:
  assumes "21 \<le> w"
  shows "{0..<7} \<times> {0..<7} \<union> {7} \<times> {0..<7} \<union> {0..<8} \<times> {7} \<union> {0..<9} \<times> {8} \<union> {8} \<times> {0..<8} = {0..<9 :: nat} \<times> {0..<9 :: nat}"
    and "{w - 7..<w} \<times> {0..<7} \<union> {w - 8} \<times> {0..<7} \<union> {w - 8..<w} \<times> {7} \<union> {w - 8..<w} \<times> {8} = {w - 8..<w} \<times> {0..<9 :: nat}"
    and "{0..<7} \<times> {w - 7..<w} \<union> {7} \<times> {w - 7..<w} \<union> {0..<8} \<times> {w - 8} \<union> {8} \<times> {w - 7..<w} \<union> {(8, w - 8)}
      = {0..<9 :: nat} \<times> {w - 8..<w}"
    and "{8..<w - 8} \<times> {6} \<union> {6} \<times> {8..<w - 8} = timing_area w \<union> {(8, 6), (6, 8)}"
  using assms by (auto simp: timing_area_def)

lemma shift_interval: "(\<lambda>i. a + i) ` {m..<k} = {a + m..<a + k :: nat}"
  by (simp add: image_add_atLeastLessThan add.commute)

lemma separator_pieces:
  assumes "21 \<le> w"
  shows "(\<Union>y \<in> set [0..<7]. {(7, y)} \<union> {(w - 8, y)} \<union> {(7, w - 7 + y)})
      = {7} \<times> {0..<7} \<union> {w - 8} \<times> {0..<7} \<union> {7 :: nat} \<times> {w - 7..<w}"
    and "(\<Union>y \<in> set [0..<8]. {(8 :: nat, y)}) = {8} \<times> {0..<8}"
    and "(\<Union>y \<in> set [0..<7]. {(8 :: nat, w - 7 + y)}) = {8} \<times> {w - 7..<w}"
    and "(\<Union>x \<in> set [1..<w - 15]. {(7 + x, 6 :: nat)} \<union> {(6, 7 + x)}) = {8..<w - 8} \<times> {6} \<union> {6} \<times> {8..<w - 8}"
proof -
  have a: "{w - 7..<w} = (\<lambda>y. w - 7 + y) ` {0..<7}" "{8..<w - 8} = (\<lambda>x. 7 + x) ` {1..<w - 15}"
    using shift_interval [of "w - 7" 0 7] shift_interval [of 7 1 "w - 15"] assms by simp_all
  show "(\<Union>y \<in> set [0..<7]. {(7, y)} \<union> {(w - 8, y)} \<union> {(7, w - 7 + y)})
      = {7} \<times> {0..<7} \<union> {w - 8} \<times> {0..<7} \<union> {7 :: nat} \<times> {w - 7..<w}"
    "(\<Union>y \<in> set [0..<8]. {(8 :: nat, y)}) = {8} \<times> {0..<8}"
    "(\<Union>y \<in> set [0..<7]. {(8 :: nat, w - 7 + y)}) = {8} \<times> {w - 7..<w}"
    "(\<Union>x \<in> set [1..<w - 15]. {(7 + x, 6 :: nat)} \<union> {(6, 7 + x)}) = {8..<w - 8} \<times> {6} \<union> {6} \<times> {8..<w - 8}"
    unfolding a set_upt by blast+
qed

lemma regroup_areas:
  "((((((a1 \<union> a2 \<union> a3) \<union> (b1 \<union> b2 \<union> b3 \<union> b4 \<union> b5 \<union> b6)) \<union> (c1 \<union> c2 \<union> c3 \<union> c4)) \<union> (t1 \<union> t2)) \<union> al) \<union> ve) \<union> dk
   = (a1 \<union> b1 \<union> b4 \<union> c1 \<union> c3) \<union> (a2 \<union> b2 \<union> b5 \<union> c2) \<union> (a3 \<union> b3 \<union> b6 \<union> c4 \<union> dk) \<union> (t1 \<union> t2) \<union> al \<union> ve"
  by blast

lemma marked_align:
  assumes "1 \<le> v" "v \<le> 40"
  defines "w \<equiv> QRspec_getWidth v"
  shows "marked w (if 2 \<le> v then align_area v w else {}) (QRspec_putAlignmentPattern v w)"
proof (cases "2 \<le> v")
  case True
  then show ?thesis using marked_alignments [of v w] assms(2) w_def by simp
next
  case False
  then have "QRspec_putAlignmentPattern v w = (\<lambda>f. f)" by (simp add: QRspec_putAlignmentPattern_def fun_eq_iff)
  then show ?thesis using False marks_id by (simp add: area_def)
qed

lemma marked_version:
  assumes "21 \<le> w"
  shows "marked w (if 7 \<le> v then version_area w else {}) (frame_version_info v w)"
proof (cases "7 \<le> v")
  case True
  have "(\<Union>(x, y) \<in> {0..<6} \<times> {0..<3}. {(x, w - 11 + y)}) \<union> (\<Union>(y, x) \<in> {0..<6} \<times> {0..<3}. {(w - 11 + x, y)}) = version_area w"
  proof -
    have "w - 11 + 3 = w - 8" using assms by simp
    with shift_interval [of "w - 11" 0 3] have "(\<lambda>i. w - 11 + i) ` {0..<3} = {w - 11..<w - 8}"
      by (simp only: add_0_right)
    then have "{w - 11..<w - 8} = (\<lambda>i. w - 11 + i) ` {0..<3}" ..
    then show ?thesis unfolding version_area_def by blast
  qed
  then show ?thesis using marked_version_info [OF assms True] True by simp
next
  case False
  then have "frame_version_info v w = (\<lambda>f. f)" by (simp add: frame_version_info_def fun_eq_iff)
  then show ?thesis using False marks_id by (simp add: area_def)
qed

lemma marks_createFrame:
  assumes "1 \<le> v" "v \<le> 40"
  shows "\<forall>p < QRspec_getWidth v * QRspec_getWidth v.
    is_data (QRspec_createFrame v) p \<longleftrightarrow> p \<notin> area (QRspec_getWidth v) (function_area v)"
proof -
  define w where "w = QRspec_getWidth v"
  have w: "w = 17 + 4 * v" "21 \<le> w" using width_eq [OF assms] assms by (simp_all add: w_def)
  note align = marked_align [OF assms, folded w_def] and version = marked_version [OF w(2), of v]
  have b84: "bit (0x84 :: byte) 7" by simp
  have dark: "marked w {(8, w - 8)} (\<lambda>f. f[w * (w - 8) + 8 := 0x81])"
    by (intro marked_put) (simp_all add: mult.commute)
  note all = marked_comp [OF marked_comp [OF marked_comp [OF marked_comp [OF marked_comp [OF marked_comp
     [OF marked_finders marked_separators [OF w(2)]] marked_format_area [where V = "\<lambda>v. bit v 7", OF w(2) b84]] marked_timing]
     align] version] dark]
  have eq: "QRspec_createFrame v = (\<lambda>f. (frame_version_info v w (QRspec_putAlignmentPattern v w (frame_timing w
      (frame_format_area w (frame_separators w (frame_finders w f))))))[w * (w - 8) + 8 := 0x81]) (replicate (w * w) 0)"
    by (simp add: QRspec_createFrame_def Let_def w_def QRspec_getWidth_def)
  have m: "marked w (function_area v) (\<lambda>f. (frame_version_info v w (QRspec_putAlignmentPattern v w (frame_timing w
      (frame_format_area w (frame_separators w (frame_finders w f))))))[w * (w - 8) + 8 := 0x81])"
  proof -
    have w7: "w - 7 + 7 = w" "w - 8 + 8 = w" using w(2) by simp_all
    have c: "{(8, 6), (6, 8)} \<subseteq> corner_area w" by (simp add: corner_area_def)
    have "corner_area w \<union> (timing_area w \<union> {(8, 6), (6, 8)}) = corner_area w \<union> timing_area w" using c by blast
    then show ?thesis
      using all [unfolded separator_pieces [OF w(2)] w7 add_0 regroup_areas corner_pieces [OF w(2)]]
      unfolding function_area_def w_def [symmetric] Let_def corner_area_def by (simp only:)
  qed
  show ?thesis
    unfolding w_def [symmetric] eq using marks_is_data [OF m, of "replicate (w * w) 0"]
    by (simp add: is_data_bit)
qed

section \<open>Counting the data modules\<close>

definition center :: "nat \<Rightarrow> nat \<Rightarrow> nat" where
  "center v i = (case i of 0 \<Rightarrow> 6 | Suc k \<Rightarrow> align_at v k)"

definition align_pairs :: "nat \<Rightarrow> (nat \<times> nat) set" where
  "align_pairs n = (\<lambda>i. (0, Suc i)) ` {0..<n - 2} \<union> (\<lambda>i. (Suc i, 0)) ` {0..<n - 2}
     \<union> (\<lambda>(i, j). (Suc i, Suc j)) ` ({0..<n - 1} \<times> {0..<n - 1})"

lemma align_area_pairs: "align_area v w = (\<Union>(i, j) \<in> align_pairs (align_count v w). sq (center v i) (center v j))"
proof -
  have c: "center v 0 = 6" "center v (Suc i) = align_at v i" for i by (simp_all add: center_def)
  show ?thesis
    unfolding align_area_def align_pairs_def Let_def UN_Un c [symmetric] by auto
qed

lemma card_align_pairs:
  assumes "2 \<le> n"
  shows "card (align_pairs n) = 2 * (n - 2) + (n - 1) * (n - 1)" "finite (align_pairs n)"
proof -
  let ?A = "(\<lambda>i. (0 :: nat, Suc i)) ` {0..<n - 2}" and ?B = "(\<lambda>i. (Suc i, 0 :: nat)) ` {0..<n - 2}"
    and ?C = "(\<lambda>(i, j). (Suc i, Suc j)) ` ({0..<n - 1} \<times> {0..<n - 1})"
  have "card ?A = n - 2" "card ?B = n - 2" "card ?C = (n - 1) * (n - 1)"
    by (simp_all add: card_image inj_on_def)
  moreover have "?A \<inter> ?B = {}" "(?A \<union> ?B) \<inter> ?C = {}" by auto
  ultimately show "card (align_pairs n) = 2 * (n - 2) + (n - 1) * (n - 1)"
    unfolding align_pairs_def by (simp add: card_Un_disjoint)
  show "finite (align_pairs n)" by (simp add: align_pairs_def)
qed


lemma centers:
  assumes "2 \<le> v" "v \<le> 40" "w = QRspec_getWidth v" "n = align_count v w"
  shows "\<And>i j. i < j \<Longrightarrow> j < n \<Longrightarrow> center v i + 12 \<le> center v j"
    and "\<And>i. i < n \<Longrightarrow> 6 \<le> center v i \<and> center v i \<le> w - 7" "center v (n - 1) = w - 7"
    and "\<And>i. 0 < i \<Longrightarrow> i < n \<Longrightarrow> 18 \<le> center v i" "center v 0 = 6" "2 \<le> n"
proof -
  note f = align_facts [OF assms(1-3)]
  have w: "25 \<le> w" using width_eq assms by simp
  show n: "2 \<le> n" and c0: "center v 0 = 6" using f(1) by (simp_all add: assms(4) center_def)
  show c18: "18 \<le> center v i" if "0 < i" "i < n" for i
    using f(5) [of "i - 1"] that by (cases i) (auto simp: center_def assms(4))
  show "6 \<le> center v i \<and> center v i \<le> w - 7" if "i < n" for i
  proof (cases i)
    case (Suc k)
    then have "k < align_count v w - 1" using that assms(4) by simp
    from f(5) [OF this] show ?thesis by (simp add: Suc center_def)
  qed (use w c0 in simp)
  show "center v (n - 1) = w - 7"
  proof -
    have "n - 1 = Suc (n - 2)" using n by simp
    then show ?thesis using f(3) by (simp add: center_def assms(4))
  qed
  show "center v i + 12 \<le> center v j" if "i < j" "j < n" for i j
  proof (cases i)
    case 0
    then show ?thesis using c18 [of j] that c0 by simp
  next
    case (Suc k)
    obtain m where j: "j = Suc m" using \<open>i < j\<close> by (cases j) auto
    have "k < m" "m < align_count v w - 1" using that j Suc assms(4) by simp_all
    from f(4) [OF this] show ?thesis by (simp add: Suc j center_def)
  qed
qed

lemma sq_disjoint:
  assumes "2 \<le> v" "v \<le> 40" "w = QRspec_getWidth v" "n = align_count v w"
    and "i < n" "j < n" "i' < n" "j' < n" "(i, j) \<noteq> (i', j')"
  shows "sq (center v i) (center v j) \<inter> sq (center v i') (center v j') = {}"
proof -
  have far: "{center v i - 2..<center v i + 3} \<inter> {center v j - 2..<center v j + 3} = {}"
    if "i < n" "j < n" "i \<noteq> j" for i j
    using centers(1) [OF assms(1-4), of i j] centers(1) [OF assms(1-4), of j i] that
    by (cases "i < j") auto
  show ?thesis
    unfolding sq_def Times_Int_Times using far [of i i'] far [of j j'] assms(5-9) by auto
qed

lemma card_sq: "2 \<le> a \<Longrightarrow> 2 \<le> b \<Longrightarrow> card (sq a b) = 25" "finite (sq a b)"
  by (simp_all add: sq_def card_cartesian_product)

lemma align_pairs_less: "2 \<le> n \<Longrightarrow> (i, j) \<in> align_pairs n \<Longrightarrow> i < n \<and> j < n"
  by (auto simp: align_pairs_def)

lemma card_align_area:
  assumes "2 \<le> v" "v \<le> 40" "w = QRspec_getWidth v" "n = align_count v w"
  shows "card (align_area v w) = 25 * (2 * (n - 2) + (n - 1) * (n - 1))" "finite (align_area v w)"
proof -
  note c = centers [OF assms]
  have lt: "fst p < n \<and> snd p < n" if "p \<in> align_pairs n" for p
    using align_pairs_less [OF c(6), of "fst p" "snd p"] that by simp
  have "card (\<Union>p \<in> align_pairs n. sq (center v (fst p)) (center v (snd p)))
      = (\<Sum>p \<in> align_pairs n. card (sq (center v (fst p)) (center v (snd p))))"
    using card_align_pairs(2) [OF c(6)] lt sq_disjoint [OF assms]
    by (intro card_UN_disjoint) (auto simp: card_sq prod_eq_iff)
  also have "\<dots> = (\<Sum>p \<in> align_pairs n. 25)"
  proof (intro sum.cong refl card_sq)
    fix p assume "p \<in> align_pairs n"
    then have "6 \<le> center v (fst p)" "6 \<le> center v (snd p)" using lt c(2) by blast+
    then show "2 \<le> center v (fst p)" "2 \<le> center v (snd p)" by simp_all
  qed
  finally show "card (align_area v w) = 25 * (2 * (n - 2) + (n - 1) * (n - 1))"
    using card_align_pairs [OF c(6)] by (simp add: align_area_pairs assms(4) [symmetric] case_prod_unfold)
  show "finite (align_area v w)"
    using card_align_pairs(2) [OF c(6)] by (auto simp: align_area_pairs assms(4) [symmetric] card_sq)
qed


text \<open>The areas overlap only where alignment patterns lie on the timing patterns.\<close>

lemma corner_disjoint:
  assumes "2 \<le> v" "v \<le> 40" "w = QRspec_getWidth v" "n = align_count v w"
  shows "corner_area w \<inter> align_area v w = {}" "version_area w \<inter> align_area v w = {}"
proof -
  note c = centers [OF assms]
  have w: "25 \<le> w" using width_eq assms by simp
  have P: "(0 < i \<or> 0 < j) \<and> i < n \<and> j < n \<and> (i = 0 \<longrightarrow> Suc j < n) \<and> (j = 0 \<longrightarrow> Suc i < n)"
    if "(i, j) \<in> align_pairs n" for i j
    using that c(6) by (auto simp: align_pairs_def)
  have inner: "center v i + 12 \<le> w - 7" if "Suc i < n" for i
    using c(1) [of i "n - 1"] c(3) that by simp
  have S: "sq (center v i) (center v j) \<inter> (corner_area w \<union> version_area w) = {}"
    if "(i, j) \<in> align_pairs n" for i j
  proof -
    note p = P [OF that]
    have b: "6 \<le> center v i" "center v i \<le> w - 7" "6 \<le> center v j" "center v j \<le> w - 7" using c(2) p by blast+
    have "18 \<le> center v i \<and> 18 \<le> center v j
        \<or> center v i = 6 \<and> 18 \<le> center v j \<and> center v j + 12 \<le> w - 7
        \<or> center v j = 6 \<and> 18 \<le> center v i \<and> center v i + 12 \<le> w - 7"
      using p c(4,5) inner by (cases "i = 0"; cases "j = 0") auto
    then show ?thesis
      using b w unfolding sq_def corner_area_def version_area_def by auto
  qed
  show "corner_area w \<inter> align_area v w = {}" "version_area w \<inter> align_area v w = {}"
    unfolding align_area_pairs assms(4) [symmetric] using S by blast+
qed


definition inner_bands :: "nat \<Rightarrow> nat \<Rightarrow> nat set" where
  "inner_bands v n = (\<Union>k \<in> {0..<n - 2}. {center v (Suc k) - 2..<center v (Suc k) + 3})"

lemma card_timing_align:
  assumes "2 \<le> v" "v \<le> 40" "w = QRspec_getWidth v" "n = align_count v w"
  shows "timing_area w \<inter> align_area v w = {6} \<times> inner_bands v n \<union> inner_bands v n \<times> {6}"
    and "card (timing_area w \<inter> align_area v w) = 10 * (n - 2)"
proof -
  note c = centers [OF assms]
  have w: "25 \<le> w" using width_eq assms by simp
  have k: "18 \<le> center v (Suc k)" "center v (Suc k) + 12 \<le> w - 7" if "k < n - 2" for k
  proof -
    have "Suc k < n - 1" using that by simp
    then show "18 \<le> center v (Suc k)" "center v (Suc k) + 12 \<le> w - 7"
      using c(1) [of "Suc k" "n - 1"] c(4) [of "Suc k"] c(3) by simp_all
  qed
  have all18: "18 \<le> center v (Suc k)" if "k < n - 1" for k using c(4) [of "Suc k"] that by simp
  have band: "timing_area w \<inter> sq 6 (center v (Suc k)) = {6} \<times> {center v (Suc k) - 2..<center v (Suc k) + 3}"
    "timing_area w \<inter> sq (center v (Suc k)) 6 = {center v (Suc k) - 2..<center v (Suc k) + 3} \<times> {6}"
    if "k < n - 2" for k
    using k [OF that] w unfolding timing_area_def sq_def by auto
  have none: "timing_area w \<inter> sq (center v (Suc i)) (center v (Suc j)) = {}" if "i < n - 1" "j < n - 1" for i j
    using all18 [OF that(1)] all18 [OF that(2)] unfolding timing_area_def sq_def by auto
  have "timing_area w \<inter> align_area v w =
      (\<Union>k \<in> {0..<n - 2}. timing_area w \<inter> sq 6 (center v (Suc k))) \<union> (\<Union>k \<in> {0..<n - 2}. timing_area w \<inter> sq (center v (Suc k)) 6)
      \<union> (\<Union>(i, j) \<in> {0..<n - 1} \<times> {0..<n - 1}. timing_area w \<inter> sq (center v (Suc i)) (center v (Suc j)))"
    unfolding align_area_pairs assms(4) [symmetric] align_pairs_def UN_Un by (auto simp: c(5))
  also have "\<dots> = (\<Union>k \<in> {0..<n - 2}. {6} \<times> {center v (Suc k) - 2..<center v (Suc k) + 3})
      \<union> (\<Union>k \<in> {0..<n - 2}. {center v (Suc k) - 2..<center v (Suc k) + 3} \<times> {6}) \<union> {}"
    using band none by (intro arg_cong2 [where f = "(\<union>)"] SUP_cong refl) auto
  also have "\<dots> = {6} \<times> inner_bands v n \<union> inner_bands v n \<times> {6}"
    unfolding inner_bands_def by blast
  finally show eq: "timing_area w \<inter> align_area v w = {6} \<times> inner_bands v n \<union> inner_bands v n \<times> {6}" .
  have "card (inner_bands v n) = (\<Sum>k \<in> {0..<n - 2}. card {center v (Suc k) - 2..<center v (Suc k) + 3})"
    unfolding inner_bands_def
  proof (rule card_UN_disjoint)
    show "\<forall>i \<in> {0..<n - 2}. \<forall>j \<in> {0..<n - 2}. i \<noteq> j \<longrightarrow>
        {center v (Suc i) - 2..<center v (Suc i) + 3} \<inter> {center v (Suc j) - 2..<center v (Suc j) + 3} = {}"
    proof (intro ballI impI)
      fix i j assume "i \<in> {0..<n - 2}" "j \<in> {0..<n - 2}" "i \<noteq> j"
      then have "center v (Suc i) + 12 \<le> center v (Suc j) \<or> center v (Suc j) + 12 \<le> center v (Suc i)"
        using c(1) [of "Suc i" "Suc j"] c(1) [of "Suc j" "Suc i"] by (cases "i < j") simp_all
      then show "{center v (Suc i) - 2..<center v (Suc i) + 3} \<inter> {center v (Suc j) - 2..<center v (Suc j) + 3} = {}"
        by auto
    qed
  qed auto
  also have "\<dots> = (\<Sum>k \<in> {0..<n - 2}. 5)"
  proof (rule sum.cong [OF refl])
    fix i assume "i \<in> {0..<n - 2}"
    then show "card {center v (Suc i) - 2..<center v (Suc i) + 3} = 5" using k(1) [of i] by simp
  qed
  finally have "card (inner_bands v n) = 5 * (n - 2)" by simp
  moreover have "6 \<notin> inner_bands v n" "finite (inner_bands v n)" unfolding inner_bands_def using k(1) by fastforce+
  ultimately show "card (timing_area w \<inter> align_area v w) = 10 * (n - 2)"
    unfolding eq by (subst card_Un_disjoint) (auto simp: card_cartesian_product)
qed


lemma card_fixed_areas:
  assumes "21 \<le> w"
  shows "card (corner_area w) = 225" "card (timing_area w) = 2 * (w - 17)" "card (version_area w) = 36"
    and "finite (corner_area w)" "finite (timing_area w)" "finite (version_area w)"
    and "corner_area w \<inter> timing_area w = {}" "corner_area w \<inter> version_area w = {}" "timing_area w \<inter> version_area w = {}"
proof -
  have c: "({0..<9} \<times> {0..<9}) \<inter> ({w - 8..<w} \<times> {0..<9 :: nat}) = {}"
    "({0..<9} \<times> {0..<9} \<union> {w - 8..<w} \<times> {0..<9}) \<inter> ({0..<9 :: nat} \<times> {w - 8..<w}) = {}"
    using assms by auto
  have "card (corner_area w) = card ({0..<9 :: nat} \<times> {0..<9 :: nat}) + card ({w - 8..<w} \<times> {0..<9 :: nat})
      + card ({0..<9 :: nat} \<times> {w - 8..<w})"
    unfolding corner_area_def by (subst card_Un_disjoint, simp, simp, rule c(2), subst card_Un_disjoint, simp, simp, rule c(1)) simp
  then show "card (corner_area w) = 225" using assms by (simp add: card_cartesian_product)
  have "({6} \<times> {9..<w - 8}) \<inter> ({9..<w - 8} \<times> {6 :: nat}) = {}" by auto
  then have "card (timing_area w) = card ({6 :: nat} \<times> {9..<w - 8}) + card ({9..<w - 8} \<times> {6 :: nat})"
    unfolding timing_area_def by (intro card_Un_disjoint) auto
  then show "card (timing_area w) = 2 * (w - 17)" by (simp add: card_cartesian_product)
  have "({0..<6} \<times> {w - 11..<w - 8}) \<inter> ({w - 11..<w - 8} \<times> {0..<6 :: nat}) = {}" using assms by auto
  then have "card (version_area w) = card ({0..<6 :: nat} \<times> {w - 11..<w - 8}) + card ({w - 11..<w - 8} \<times> {0..<6 :: nat})"
    unfolding version_area_def by (intro card_Un_disjoint) auto
  then show "card (version_area w) = 36" using assms by (simp add: card_cartesian_product)
  show "finite (corner_area w)" "finite (timing_area w)" "finite (version_area w)"
    by (simp_all add: corner_area_def timing_area_def version_area_def)
  show "corner_area w \<inter> timing_area w = {}" "corner_area w \<inter> version_area w = {}" "timing_area w \<inter> version_area w = {}"
    using assms by (auto simp: corner_area_def timing_area_def version_area_def)
qed

lemma card_function_area:
  assumes "1 \<le> v" "v \<le> 40" "w = QRspec_getWidth v" "n = align_count v w"
  shows "card (function_area v) + (if 2 \<le> v then 10 * (n - 2) else 0)
     = 225 + 2 * (w - 17) + (if 2 \<le> v then 25 * (2 * (n - 2) + (n - 1) * (n - 1)) else 0) + (if 7 \<le> v then 36 else 0)"
proof -
  have w: "21 \<le> w" using width_eq [OF assms(1,2)] assms(1,3) by simp
  note f = card_fixed_areas [OF w]
  define A where "A = (if 2 \<le> v then align_area v w else {})"
  define V where "V = (if 7 \<le> v then version_area w else {})"
  have cA: "card A = (if 2 \<le> v then 25 * (2 * (n - 2) + (n - 1) * (n - 1)) else 0)" "finite A"
    and cTA: "card (timing_area w \<inter> A) = (if 2 \<le> v then 10 * (n - 2) else 0)"
    and dA: "corner_area w \<inter> A = {}" "V \<inter> A = {}"
    using card_align_area [OF _ assms(2-4)] card_timing_align(2) [OF _ assms(2-4)] corner_disjoint [OF _ assms(2-4)]
    by (auto simp: A_def V_def)
  have V: "card V = (if 7 \<le> v then 36 else 0)" "finite V" "corner_area w \<inter> V = {}" "timing_area w \<inter> V = {}"
    using f by (auto simp: V_def)
  have "function_area v = corner_area w \<union> (V \<union> (timing_area w \<union> A))"
    by (auto simp: function_area_def A_def V_def assms(3) Let_def)
  then have "card (function_area v) = 225 + (card V + card (timing_area w \<union> A))"
    using f V dA cA(2) by (simp add: card_Un_disjoint Int_Un_distrib Int_commute)
  moreover have "card (timing_area w) + card A = card (timing_area w \<union> A) + card (timing_area w \<inter> A)"
    using f cA(2) by (intro card_Un_Int)
  ultimately show ?thesis using f(2) cA(1) cTA V(1) by simp
qed

text \<open>The count of the standard: the table of capacities agrees with the geometry.\<close>

definition capacity_row :: "nat \<Rightarrow> bool" where
  "capacity_row v = (let w = 17 + 4 * v; n = align_count v w in
     w * w + (if 2 \<le> v then 10 * (n - 2) else 0)
     = 225 + 2 * (w - 17) + (if 2 \<le> v then 25 * (2 * (n - 2) + (n - 1) * (n - 1)) else 0) + (if 7 \<le> v then 36 else 0)
       + (8 * cap_words (qrspecCapacity ! v) + cap_remainder (qrspecCapacity ! v)))"

lemma capacity_rows: "list_all capacity_row [1..<41]"
  by code_simp


lemma function_area_grid:
  assumes "1 \<le> v" "v \<le> 40" "w = QRspec_getWidth v"
  shows "function_area v \<subseteq> {..<w} \<times> {..<w}"
proof -
  have w: "21 \<le> w" using width_eq [OF assms(1,2)] assms(1,3) by simp
  have "align_area v w \<subseteq> {..<w} \<times> {..<w}" if "2 \<le> v"
  proof -
    define n where "n = align_count v w"
    note c = centers [OF that assms(2,3) n_def]
    have "sq (center v i) (center v j) \<subseteq> {..<w} \<times> {..<w}" if "(i, j) \<in> align_pairs n" for i j
      using align_pairs_less [OF c(6) that] c(2) [of i] c(2) [of j] w unfolding sq_def by auto
    then show ?thesis unfolding align_area_pairs n_def by blast
  qed
  then show ?thesis
    using w by (auto simp: function_area_def Let_def assms(3) [symmetric] corner_area_def timing_area_def version_area_def)
qed

lemma data_module_count:
  assumes "1 \<le> v" "v \<le> 40"
  shows "card {p. p < QRspec_getWidth v * QRspec_getWidth v \<and> is_data (QRspec_createFrame v) p}
     = 8 * cap_words (qrspecCapacity ! v) + QRspec_getRemainder v"
proof -
  define w where "w = QRspec_getWidth v"
  define n where "n = align_count v w"
  have weq: "w = 17 + 4 * v" using width_eq [OF assms] by (simp add: w_def)
  have grid: "area w ({..<w} \<times> {..<w}) = {..<w * w}"
  proof -
    have "{..<w} \<times> {..<w} = {0..<0 + w} \<times> {0..<0 + w}" by auto
    then have "area w ({..<w} \<times> {..<w}) = (\<Union>i < w. {i * w..<i * w + w})" using area_block [of w 0 w 0 w] by simp
    also have "\<dots> = {..<w * w}"
    proof (intro equalityI subsetI)
      fix p assume "p \<in> {..<w * w}"
      then have "p div w < w" using pos_of_xy [of w p] weq by simp
      moreover have "0 < w" using weq by simp
      then have "p \<in> {p div w * w..<p div w * w + w}"
        using dividend_less_div_times [of w p] by (simp add: add.commute)
      ultimately show "p \<in> (\<Union>i < w. {i * w..<i * w + w})" by blast
    next
      fix p assume "p \<in> (\<Union>i < w. {i * w..<i * w + w})"
      then obtain i where "i < w" "p < Suc i * w" by auto
      then show "p \<in> {..<w * w}" using mult_right_mono [of "Suc i" w w] by simp
    qed
    finally show ?thesis .
  qed
  have sub: "function_area v \<subseteq> {..<w} \<times> {..<w}" using function_area_grid [OF assms w_def] .
  have "{p. p < w * w \<and> is_data (QRspec_createFrame v) p} = area w ({..<w} \<times> {..<w}) - area w (function_area v)"
    using marks_createFrame [OF assms] unfolding w_def [symmetric] grid by auto
  also have "\<dots> = area w ({..<w} \<times> {..<w} - function_area v)"
    unfolding area_def using inj_on_image_set_diff [OF inj_pos _ sub, of "{..<w} \<times> {..<w}"] by simp
  finally have "card {p. p < w * w \<and> is_data (QRspec_createFrame v) p} = card ({..<w} \<times> {..<w} - function_area v)"
    unfolding area_def by (metis (no_types, lifting) card_image inj_on_diff inj_pos)
  also have "\<dots> = w * w - card (function_area v)"
    using sub finite_subset [OF sub] by (subst card_Diff_subset) (auto simp: card_cartesian_product)
  finally have cnt: "card {p. p < w * w \<and> is_data (QRspec_createFrame v) p} = w * w - card (function_area v)" .
  have "v \<in> set [1..<41]" using assms by auto
  then have row: "capacity_row v" using capacity_rows unfolding list_all_iff by blast
  then show ?thesis
    using card_function_area [OF assms w_def n_def] cnt
    unfolding capacity_row_def Let_def weq [symmetric] n_def [symmetric] w_def [symmetric] QRspec_getRemainder_def
    by linarith
qed


lemma words_split:
  assumes "1 \<le> v" "v \<le> 40" "level \<le> QR_ECLEVEL_H"
  shows "QRspec_getDataLength v level + QRspec_getECCLength v level = cap_words (qrspecCapacity ! v)"
  using level_spec_at [OF assms]
  by (simp add: level_spec_def Let_def QRspec_getDataLength_def QRspec_getECCLength_def)

text \<open>
  C15. The frames leave exactly the room the capacity table promises: for every version and
  level the frame has as many modules that are not part of a function pattern as there are
  bits in the data and error correction codewords, plus the remainder bits.
\<close>

theorem frame_capacity_exact:
  assumes "1 \<le> version" "version \<le> QRSPEC_VERSION_MAX" "level \<le> QR_ECLEVEL_H"
  shows "card {p. p < QRspec_getWidth version * QRspec_getWidth version \<and> is_data (QRspec_createFrame version) p}
     = 8 * (QRspec_getDataLength version level + QRspec_getECCLength version level) + QRspec_getRemainder version"
  using assms data_module_count [of version] words_split [of version level]
  by (simp add: QRSPEC_VERSION_MAX_def)

theorem frame_capacity_exact_witness:
  "card {p. p < 25 * 25 \<and> is_data (QRspec_createFrame 2) p} = 359"
proof -
  have "QRspec_getDataLength 2 0 = 34" "QRspec_getECCLength 2 0 = 10" "QRspec_getRemainder 2 = 7" "QRspec_getWidth 2 = 25"
    by code_simp+
  then show ?thesis using frame_capacity_exact [of 2 0] by (simp add: QRSPEC_VERSION_MAX_def)
qed

lemma function_module_iff:
  assumes "1 \<le> version" "version \<le> 40" "w = QRspec_getWidth version" "x < w" "y < w"
  shows "is_data (QRspec_createFrame version) (y * w + x) \<longleftrightarrow> (x, y) \<notin> function_area version"
proof -
  note v = assms(1,2) and grid = function_area_grid [OF assms(1-3)]
  have lt: "y * w + x < w * w" using assms(4,5) mult_right_mono [of "Suc y" w w] by simp
  have "y * w + x \<in> area w (function_area version) \<longleftrightarrow> (x, y) \<in> function_area version"
  proof
    assume "y * w + x \<in> area w (function_area version)"
    then obtain q where q: "q \<in> function_area version" "(\<lambda>(x, y). y * w + x) q = (\<lambda>(x, y). y * w + x) (x, y)"
      by (auto simp: area_def)
    have "(x, y) = q" using inj_onD [OF inj_pos [of w] q(2)] q(1) grid assms(4,5) by auto
    then show "(x, y) \<in> function_area version" using q(1) by simp
  qed (auto simp: area_def)
  then show ?thesis using marks_createFrame [OF v] lt by (simp add: assms(3))
qed

text \<open>
  C27. The function modules of a frame are exactly the three corner areas with finder
  patterns, separators and format information, the two timing lines, the alignment patterns
  at all pairs of their coordinates but the three in the corners, and from version 7 on the
  two blocks of version information.
\<close>

theorem frame_function_modules:
  assumes "1 \<le> version" "version \<le> QRSPEC_VERSION_MAX" "x < QRspec_getWidth version" "y < QRspec_getWidth version"
  shows "is_data (QRspec_createFrame version) (y * QRspec_getWidth version + x) \<longleftrightarrow> (x, y) \<notin> function_area version"
  using assms function_module_iff [of version "QRspec_getWidth version" x y] by (simp add: QRSPEC_VERSION_MAX_def)

theorem frame_function_modules_witness:
  "is_data (QRspec_createFrame 1) (10 * 21 + 12) \<and> \<not> is_data (QRspec_createFrame 1) (6 * 21 + 12)"
proof -
  have "QRspec_getWidth 1 = 21" by code_simp
  then show ?thesis
    using frame_function_modules [of 1 12 10] frame_function_modules [of 1 12 6]
    by (simp add: QRSPEC_VERSION_MAX_def function_area_def Let_def corner_area_def timing_area_def)
qed

lemma createFrame_walk:
  assumes "1 \<le> v" "v \<le> 40" "w = QRspec_getWidth v"
  shows "is_data (QRspec_createFrame v) (w * w - 1)"
    and "\<forall>p < w * w. is_data (QRspec_createFrame v) p \<longrightarrow> p mod w \<noteq> 6 \<and> \<not> (p mod w \<in> {4, 5} \<and> p div w < 9)"
proof -
  have w: "w = 17 + 4 * v" "21 \<le> w" using width_eq [OF assms(1,2)] assms(1,3) by simp_all
  note iff = function_module_iff [OF assms]
  have "(w - 1, w - 1) \<notin> align_area v w" if "2 \<le> v"
  proof
    define n where "n = align_count v w"
    note c = centers [OF that assms(2,3) n_def]
    assume "(w - 1, w - 1) \<in> align_area v w"
    then obtain i j where "(i, j) \<in> align_pairs n" "(w - 1, w - 1) \<in> sq (center v i) (center v j)"
      by (auto simp: align_area_pairs n_def)
    then show False using align_pairs_less [OF c(6), of i j] c(2) [of i] w(2) by (auto simp: sq_def)
  qed
  then have "(w - 1, w - 1) \<notin> function_area v"
    using w(2) by (auto simp: function_area_def Let_def assms(3) [symmetric] corner_area_def timing_area_def version_area_def)
  moreover have "(w - 1) * w + (w - 1) = w * w - 1" using w(2) by (simp add: algebra_simps)
  ultimately show "is_data (QRspec_createFrame v) (w * w - 1)" using iff [of "w - 1" "w - 1"] w(2) by simp
  show "\<forall>p < w * w. is_data (QRspec_createFrame v) p \<longrightarrow> p mod w \<noteq> 6 \<and> \<not> (p mod w \<in> {4, 5} \<and> p div w < 9)"
  proof (intro allI impI)
    fix p assume "p < w * w" and d: "is_data (QRspec_createFrame v) p"
    then have p: "p = (p div w) * w + p mod w" "p mod w < w" "p div w < w"
      using pos_of_xy [of w p] w(2) by simp_all
    then have "(p mod w, p div w) \<notin> corner_area w \<union> timing_area w"
      using iff [OF p(2,3)] d by (simp add: function_area_def Let_def assms(3) [symmetric])
    then show "p mod w \<noteq> 6 \<and> \<not> (p mod w \<in> {4, 5} \<and> p div w < 9)"
      using p(3) by (auto simp: corner_area_def timing_area_def)
  qed
qed

text \<open>The data modules of a frame in the order of the filler.\<close>

definition frame_slots :: "nat \<Rightarrow> nat list" where
  "frame_slots v = (let w = QRspec_getWidth v in data_modules w (qr_walk w) (QRspec_createFrame v))"

lemma frame_slots:
  assumes "1 \<le> v" "v \<le> 40" "w = QRspec_getWidth v"
  shows "distinct (frame_slots v)" "set (frame_slots v) = {p. p < w * w \<and> is_data (QRspec_createFrame v) p}"
    and "length (frame_slots v) = 8 * cap_words (qrspecCapacity ! v) + QRspec_getRemainder v"
    and "length vs \<le> length (frame_slots v) \<Longrightarrow>
      \<exists>f. fold_res filler_store vs (FrameFiller_new w (QRspec_createFrame v) False) = Inr f
        \<and> ff_frame f = store_all (frame_slots v) vs (QRspec_createFrame v)"
proof -
  have w: "w = 17 + 4 * v" "0 < w" using width_eq [OF assms(1,2)] assms(1,3) by simp_all
  note walk = is_walk_qr [OF w(1)] and xy = qr_walk_xy(2) [OF w(1)]
  note fw = createFrame_walk [OF assms]
  have cover: "(p mod w, p div w) \<in> step_xy ` set (qr_walk w)" if "p < w * w" "is_data (QRspec_createFrame v) p" for p
    using fw(2) [rule_format, OF that] pos_of_xy [OF w(2) that(1)] unfolding xy by simp
  have inside: "step_xy ` set (qr_walk w) \<subseteq> {..<w} \<times> {..<w}" unfolding xy by blast
  have eq: "frame_slots v = data_modules w (qr_walk w) (QRspec_createFrame v)"
    by (simp add: frame_slots_def assms(3) Let_def)
  show d: "distinct (frame_slots v)" and s: "set (frame_slots v) = {p. p < w * w \<and> is_data (QRspec_createFrame v) p}"
    unfolding eq using data_modules_set [OF walk inside w(2) cover] by blast+
  show "length (frame_slots v) = 8 * cap_words (qrspecCapacity ! v) + QRspec_getRemainder v"
    using distinct_card [OF d] data_module_count [OF assms(1,2)] by (simp add: s assms(3))
  show "\<exists>f. fold_res filler_store vs (FrameFiller_new w (QRspec_createFrame v) False) = Inr f
        \<and> ff_frame f = store_all (frame_slots v) vs (QRspec_createFrame v)" if "length vs \<le> length (frame_slots v)"
    using filler_fill [OF walk fw(1) w(2), of vs] that by (simp add: eq)
qed

end
