(* ===== verification/QR_Penalty.thy ===== *)
theory QR_Penalty
  imports QR_Prelude
begin

text \<open>
  Penalty rules 1 and 3 of ISO/IEC 18004 for one line (a row or column of a symbol), stated on its
  modules, independently of how \<open>mask.c\<close> computes them, and the same penalty in terms of the lengths of
  the maximal runs of the line, the form in which the theory of \<open>mask.c\<close> compares it with
  \<open>Mask_calcN1N3\<close>.
\<close>

section \<open>The penalty of a line\<close>

text \<open>
  Rules 1 and 3 of the standard for one row or column, module by module. Modules outside of the
  line count as light: the quiet zone around the symbol.

  Rule 1: five modules of one colour in a row cost 3 points where the stretch begins and
  every further module of that colour one more. A stretch is counted at each position from
  which five modules of one colour follow: 3 points at the first of them, 1 at the others.

  Rule 3: a pattern with the proportions 1:1:3:1:1 of a finder (dark, light, dark, light, dark, the
  outer dark stretches not longer than one unit \<open>f\<close>) with a light stretch of four units on one side of it costs 40 points.
  The pattern is counted at the position \<open>p\<close> where its wide dark stretch begins.
\<close>

definition module_at :: "bool list \<Rightarrow> int \<Rightarrow> bool" where
  "module_at c x = (0 \<le> x \<and> x < int (length c) \<and> c ! nat x)"

definition stretch :: "bool list \<Rightarrow> bool \<Rightarrow> int \<Rightarrow> int \<Rightarrow> bool" where
  "stretch c b s e = (\<forall>x \<in> {s..<e}. module_at c x = b)"

definition run_penalty :: "bool list \<Rightarrow> int \<Rightarrow> int" where
  "run_penalty c p =
     (if p + 5 \<le> int (length c) \<and> stretch c (module_at c p) p (p + 5)
      then if 0 < p \<and> module_at c (p - 1) = module_at c p then 1 else 3
      else 0)"

definition finder_like :: "bool list \<Rightarrow> int \<Rightarrow> int \<Rightarrow> bool" where
  "finder_like c p f =
     (stretch c True (p - 2 * f) (p - f) \<and> stretch c False (p - f) p \<and> stretch c True p (p + 3 * f)
    \<and> stretch c False (p + 3 * f) (p + 4 * f) \<and> stretch c True (p + 4 * f) (p + 5 * f)
    \<and> \<not> module_at c (p - 2 * f - 1) \<and> \<not> module_at c (p + 5 * f)
    \<and> (stretch c False (p - 6 * f) (p - 2 * f) \<or> stretch c False (p + 5 * f) (p + 9 * f)))"

definition line_penalty :: "bool list \<Rightarrow> int" where
  "line_penalty c =
     (\<Sum>p = 0..<int (length c).
        run_penalty c p + (if \<exists>f \<in> {1..int (length c)}. finder_like c p f then 40 else 0))"

section \<open>Runs\<close>

text \<open>Lengths of the maximal runs of equal modules.\<close>

fun runs :: "bool list \<Rightarrow> int list" where
  "runs [] = []"
| "runs [a] = [1]"
| "runs (a # b # xs) = (if a = b then (case runs (b # xs) of [] \<Rightarrow> [] | r # rs \<Rightarrow> (r + 1) # rs)
                        else 1 # runs (b # xs))"

lemma runs_Nil [simp]: "runs xs = [] \<longleftrightarrow> xs = []"
  by (induction xs rule: runs.induct) (auto split: list.splits)

lemma runs_snoc:
  "runs (xs @ [a, b]) = (if a = b then butlast (runs (xs @ [a])) @ [last (runs (xs @ [a])) + 1]
                         else runs (xs @ [a]) @ [1])"
proof (induction xs)
  case (Cons c xs)
  show ?case
  proof (cases xs)
    case Nil
    then show ?thesis by simp
  next
    case (Cons d ys)
    then show ?thesis using Cons.IH by (cases "runs (d # ys @ [a])") (auto simp: Let_def split: list.splits)
  qed
qed simp

lemma runs_bounds: "(\<forall>r \<in> set (runs xs). 1 \<le> r) \<and> (\<Sum>r \<leftarrow> runs xs. r) = int (length xs)"
  by (induction xs rule: runs.induct) (auto split: list.splits)

lemma length_runs: "length (runs xs) \<le> length xs"
  by (induction xs rule: runs.induct) (auto split: list.splits)

text \<open>
  The line as the runs that make it up: \<open>unruns\<close> writes runs of alternating colours out again,
  and the run with index \<open>k\<close> starts at \<open>run_start rs k\<close>.
\<close>

fun unruns :: "bool \<Rightarrow> int list \<Rightarrow> bool list" where
  "unruns b [] = []"
| "unruns b (r # rs) = replicate (nat r) b @ unruns (\<not> b) rs"

definition run_start :: "int list \<Rightarrow> nat \<Rightarrow> int" where
  "run_start rs k = (\<Sum>r \<leftarrow> take k rs. r)"

lemma unruns_runs: "c \<noteq> [] \<Longrightarrow> unruns (hd c) (runs c) = c"
proof (induction c rule: runs.induct)
  case (3 a b xs)
  show ?case
  proof (cases "a = b")
    case True
    obtain r rs where r: "runs (b # xs) = r # rs" by (metis list.exhaust list.simps(3) runs_Nil)
    then have "1 \<le> r" using runs_bounds [of "b # xs"] by simp
    then have "nat (r + 1) = Suc (nat r)" by simp
    with 3 True r show ?thesis by simp
  next
    case False
    then have "(\<not> a) = b" by auto
    with 3 False show ?thesis by simp
  qed
qed simp_all

lemma length_unruns: "\<forall>r \<in> set rs. 1 \<le> r \<Longrightarrow> int (length (unruns b rs)) = run_start rs (length rs)"
  by (induction rs arbitrary: b) (simp_all add: run_start_def)

lemma run_start_Suc: "k < length rs \<Longrightarrow> run_start rs (Suc k) = run_start rs k + rs ! k"
  by (simp add: run_start_def take_Suc_conv_app_nth)

lemma run_start_0 [simp]: "run_start rs 0 = 0"
  by (simp add: run_start_def)

lemma unruns_module:
  assumes "\<forall>r \<in> set rs. 1 \<le> r" "k < length rs" "run_start rs k \<le> x" "x < run_start rs (Suc k)"
  shows "module_at (unruns b rs) x = (b = even k)"
  using assms
proof (induction rs arbitrary: b k x)
  case (Cons r rs)
  have r: "1 \<le> r" using Cons.prems by simp
  have l: "int (length (unruns (\<not> b) rs)) = run_start rs (length rs)" using Cons.prems by (intro length_unruns) simp
  have nn: "0 \<le> run_start rs j" for j
    unfolding run_start_def by (rule sum_list_nonneg) (use Cons.prems(1) in \<open>fastforce dest: in_set_takeD\<close>)
  show ?case
  proof (cases k)
    case 0
    then have "0 \<le> x" "x < r" using Cons.prems by (simp_all add: run_start_def)
    then show ?thesis using 0 r l nn [of "length rs"] by (simp add: module_at_def nth_append nat_less_iff)
  next
    case (Suc j)
    have s: "run_start (r # rs) (Suc i) = r + run_start rs i" for i by (simp add: run_start_def)
    have x: "run_start rs j \<le> x - r" "x - r < run_start rs (Suc j)" using Cons.prems Suc by (simp_all add: s)
    have "module_at (unruns (\<not> b) rs) (x - r) = ((\<not> b) = even j)"
      using Cons.IH [of j "x - r" "\<not> b"] x Cons.prems Suc by simp
    moreover have "0 \<le> x - r" using x(1) nn [of j] by linarith
    then have "module_at (unruns b (r # rs)) x = module_at (unruns (\<not> b) rs) (x - r)"
      using r by (auto simp: module_at_def nth_append nat_diff_distrib nat_less_iff)
    ultimately show ?thesis using Suc by auto
  qed
qed simp

lemma sum_steps:
  fixes s :: "nat \<Rightarrow> int"
  assumes "\<And>k. k < m \<Longrightarrow> s k \<le> s (Suc k)"
  shows "(\<Sum>x = s 0..<s m. g x) = (\<Sum>k < m. \<Sum>x = s k..<s (Suc k). g x) \<and> s 0 \<le> s m"
  using assms
proof (induction m)
  case (Suc m)
  then have IH: "(\<Sum>x = s 0..<s m. g x) = (\<Sum>k < m. \<Sum>x = s k..<s (Suc k). g x)" "s 0 \<le> s m" and le: "s m \<le> s (Suc m)"
    by simp_all
  have "(\<Sum>x = s 0..<s (Suc m). g x) = (\<Sum>x \<in> {s 0..<s m} \<union> {s m..<s (Suc m)}. g x)"
    using IH(2) le by (simp add: ivl_disj_un_two(3))
  also have "\<dots> = (\<Sum>x = s 0..<s m. g x) + (\<Sum>x = s m..<s (Suc m). g x)"
    by (rule sum.union_disjoint) auto
  finally show ?case using IH le by simp
qed simp


lemma run_start_mono:
  assumes "\<forall>r \<in> set rs. 1 \<le> r" "j < k" "k \<le> length rs"
  shows "run_start rs j < run_start rs k"
  using assms(2,3)
proof (induction k)
  case (Suc k)
  moreover have "run_start rs k < run_start rs (Suc k)"
    using Suc.prems assms(1) nth_mem [of k rs] by (fastforce simp: run_start_Suc)
  ultimately show ?case by (cases "j = k") auto
qed simp

lemma module_at_outside: "x < 0 \<or> int (length c) \<le> x \<Longrightarrow> \<not> module_at c x"
  by (auto simp: module_at_def)

lemma stretch_run:
  assumes "\<forall>r \<in> set rs. 1 \<le> r" "k < length rs" "run_start rs k \<le> s" "e \<le> run_start rs (Suc k)"
  shows "stretch (unruns b rs) (b = even k) s e"
  unfolding stretch_def by (intro ballI unruns_module) (use assms in auto)

lemma stretchD: "stretch c v s e \<Longrightarrow> s \<le> x \<Longrightarrow> x < e \<Longrightarrow> module_at c x = v"
  by (simp add: stretch_def)

lemma stretch_forward:
  assumes pos: "\<forall>r \<in> set rs. 1 \<le> r" and k: "k < length rs" "run_start rs k < e"
    and st: "stretch (unruns b rs) (b = even k) (run_start rs k) e" "module_at (unruns b rs) e \<noteq> (b = even k)"
  shows "run_start rs (Suc k) = e \<and> ((b \<noteq> even k) \<longrightarrow> Suc k < length rs)"
proof -
  let ?c = "unruns b rs"
  have n: "int (length ?c) = run_start rs (length rs)" using pos by (rule length_unruns)
  have "\<not> e < run_start rs (Suc k)"
    using unruns_module [OF pos k(1), of e b] k(2) st(2) by auto
  moreover have False if "run_start rs (Suc k) < e"
  proof -
    have d: "module_at ?c (run_start rs (Suc k)) = (b = even k)"
      using stretchD [OF st(1) _ that] run_start_mono [OF pos, of k "Suc k"] k(1) by simp
    show False
    proof (cases "Suc k < length rs")
      case True
      then show False
        using unruns_module [OF pos True, of "run_start rs (Suc k)" b] run_start_mono [OF pos, of "Suc k" "Suc (Suc k)"] d by auto
    next
      case False
      then have "Suc k = length rs" using k(1) by simp
      then show False using d that st(2) n module_at_outside [of "run_start rs (Suc k)" ?c] module_at_outside [of e ?c] by auto
    qed
  qed
  moreover have "Suc k < length rs" if "b \<noteq> even k"
  proof (rule ccontr)
    assume "\<not> Suc k < length rs"
    then have "Suc k = length rs" using k(1) by simp
    then have "int (length ?c) \<le> e" using n \<open>\<not> e < run_start rs (Suc k)\<close> by simp
    then show False using st(2) that module_at_outside [of e ?c] by simp
  qed
  ultimately show ?thesis by force
qed

lemma stretch_backward:
  assumes pos: "\<forall>r \<in> set rs. 1 \<le> r" and k: "k < length rs" "s < run_start rs k"
    and st: "stretch (unruns b rs) (b \<noteq> even k) s (run_start rs k)" "module_at (unruns b rs) (s - 1) = (b = even k)"
  shows "\<exists>j. k = Suc j \<and> run_start rs j = s"
proof -
  let ?c = "unruns b rs"
  have before: "module_at ?c (run_start rs k - 1) = (b \<noteq> even k)"
    using st(1) k(2) by (intro stretchD [OF st(1)]) auto
  show ?thesis
  proof (cases k)
    case 0
    then show ?thesis using before st(2) k(2) module_at_outside [of "-1" ?c] module_at_outside [of "s - 1" ?c] by auto
  next
    case (Suc j)
    have j: "j < length rs" "run_start rs j < run_start rs (Suc j)" using Suc k run_start_mono [OF pos, of j "Suc j"] by auto
    have "\<not> run_start rs j < s"
    proof
      assume "run_start rs j < s"
      then have "module_at ?c (s - 1) = (b = even j)" using unruns_module [OF pos j(1), of "s - 1" b] k Suc by auto
      then show False using st(2) Suc by auto
    qed
    moreover have "\<not> s < run_start rs j"
    proof
      assume s: "s < run_start rs j"
      have d: "module_at ?c (run_start rs j - 1) = (b \<noteq> even k)"
        using stretchD [OF st(1), of "run_start rs j - 1"] s j Suc by simp
      show False
      proof (cases j)
        case 0
        then show False using s d st(2) module_at_outside [of "-1" ?c] module_at_outside [of "s - 1" ?c] by auto
      next
        case (Suc i)
        then have "module_at ?c (run_start rs j - 1) = (b = even i)"
          using unruns_module [OF pos, of i "run_start rs j - 1" b] run_start_mono [OF pos, of i j] j(1) by auto
        then show False using d Suc \<open>k = Suc j\<close> by auto
      qed
    qed
    ultimately show ?thesis using Suc by force
  qed
qed


lemma run_start_le_length:
  assumes "\<forall>r \<in> set rs. 1 \<le> r" "k \<le> length rs"
  shows "0 \<le> run_start rs k" "run_start rs k \<le> int (length (unruns b rs))"
  using run_start_mono [OF assms(1), of 0 k] run_start_mono [OF assms(1), of k "length rs"] length_unruns [OF assms(1), of b] assms(2)
  by (cases "k = 0"; cases "k = length rs"; force)+

lemma run_penalty_module:
  assumes pos: "\<forall>r \<in> set rs. 1 \<le> r" and k: "k < length rs" and x: "run_start rs k \<le> x" "x < run_start rs (Suc k)"
  shows "run_penalty (unruns b rs) x
     = (if x + 5 \<le> run_start rs (Suc k) then if x = run_start rs k then 3 else 1 else 0)"
proof -
  let ?c = "unruns b rs"
  have m: "module_at ?c x = (b = even k)" using unruns_module [OF pos k x] .
  have five: "x + 5 \<le> int (length ?c) \<and> stretch ?c (b = even k) x (x + 5) \<longleftrightarrow> x + 5 \<le> run_start rs (Suc k)"
  proof
    assume a: "x + 5 \<le> int (length ?c) \<and> stretch ?c (b = even k) x (x + 5)"
    show "x + 5 \<le> run_start rs (Suc k)"
    proof (rule ccontr)
      assume less: "\<not> x + 5 \<le> run_start rs (Suc k)"
      then have d: "module_at ?c (run_start rs (Suc k)) = (b = even k)" using a x by (auto simp: stretch_def)
      have "Suc k \<noteq> length rs" using less a length_unruns [OF pos, of b] by auto
      then have "Suc k < length rs" using k by simp
      from unruns_module [OF pos this, of "run_start rs (Suc k)" b] run_start_mono [OF pos, of "Suc k" "Suc (Suc k)"] this d
      show False by auto
    qed
  next
    assume a: "x + 5 \<le> run_start rs (Suc k)"
    then show "x + 5 \<le> int (length ?c) \<and> stretch ?c (b = even k) x (x + 5)"
      using stretch_run [OF pos k x(1) a, of b] run_start_le_length(2) [OF pos, of "Suc k" b] k by auto
  qed
  have prev: "0 < x \<and> module_at ?c (x - 1) = (b = even k) \<longleftrightarrow> x \<noteq> run_start rs k"
  proof (cases "x = run_start rs k")
    case True
    show ?thesis
    proof (cases k)
      case 0
      then show ?thesis using True by simp
    next
      case (Suc j)
      then have "module_at ?c (x - 1) = (b = even j)"
        using unruns_module [OF pos, of j "x - 1" b] run_start_mono [OF pos, of j k] k True by auto
      then show ?thesis using Suc True by auto
    qed
  next
    case False
    then show ?thesis
      using unruns_module [OF pos k, of "x - 1" b] x run_start_le_length(1) [OF pos, of k] k by auto
  qed
  show ?thesis unfolding run_penalty_def m using five prev by auto
qed

lemma run_penalty_sum:
  assumes pos: "\<forall>r \<in> set rs. 1 \<le> r" and k: "k < length rs"
  shows "(\<Sum>x = run_start rs k..<run_start rs (Suc k). run_penalty (unruns b rs) x)
     = (if 5 \<le> rs ! k then 3 + (rs ! k - 5) else 0)"
proof -
  define s e where "s = run_start rs k" and "e = run_start rs (Suc k)"
  have e: "e = s + rs ! k" using k by (simp add: s_def e_def run_start_Suc)
  have "(\<Sum>x = s..<e. run_penalty (unruns b rs) x) = (\<Sum>x = s..<e. if x \<le> e - 5 then if x = s then 3 else 1 else 0)"
    by (intro sum.cong) (auto simp: run_penalty_module [OF pos k] s_def e_def)
  also have "\<dots> = (\<Sum>x \<in> {s..<e} \<inter> {x. x \<le> e - 5}. if x = s then 3 else 1)"
    by (simp add: sum.inter_restrict)
  also have "\<dots> = (if 5 \<le> rs ! k then 3 + (rs ! k - 5) else 0)"
  proof (cases "5 \<le> rs ! k")
    case True
    then have "{s..<e} \<inter> {x. x \<le> e - 5} = insert s {s + 1..e - 5}" using e by auto
    moreover have "(\<Sum>x \<in> {s + 1..e - 5}. if x = s then 3 else 1 :: int) = (\<Sum>x \<in> {s + 1..e - 5}. 1)"
      by (intro sum.cong) auto
    ultimately show ?thesis using True e by simp
  next
    case False
    then have "{s..<e} \<inter> {x. x \<le> e - 5} = {}" using e by auto
    then show ?thesis using False by simp
  qed
  finally show ?thesis by (simp add: s_def e_def)
qed

lemma quiet_before:
  assumes pos: "\<forall>r \<in> set rs. 1 \<le> r" and j: "j < length rs" "b = even j" and d: "0 < d"
  shows "stretch (unruns b rs) False (run_start rs j - d) (run_start rs j) \<longleftrightarrow> j \<le> 1 \<or> d \<le> rs ! (j - 1)"
proof -
  let ?c = "unruns b rs"
  have low: "j = 0 \<Longrightarrow> ?thesis" using module_at_outside [of _ ?c] by (auto simp: stretch_def)
  moreover have ?thesis if i: "j = Suc i" for i
  proof -
    have s: "run_start rs j = run_start rs i + rs ! i" "run_start rs i < run_start rs j"
      using i j(1) run_start_mono [OF pos, of i j] by (simp_all add: run_start_Suc)
    have light: "\<not> module_at ?c x" if "run_start rs i \<le> x" "x < run_start rs j" for x
      using unruns_module [OF pos, of i x b] that i j by auto
    show ?thesis
    proof (cases i)
      case 0
      then have "\<not> module_at ?c x" if "x < run_start rs j" for x
        using that light module_at_outside [of x ?c] by (cases "x < 0") auto
      then show ?thesis using 0 i by (simp add: stretch_def)
    next
      case (Suc h)
      have "module_at ?c (run_start rs i - 1)"
        using unruns_module [OF pos, of h "run_start rs i - 1" b] run_start_mono [OF pos, of h i] Suc i j by auto
      then have "stretch ?c False (run_start rs j - d) (run_start rs j) \<longleftrightarrow> d \<le> rs ! i"
        using light s unfolding stretch_def by (auto dest: bspec [of _ _ "run_start rs i - 1"])
      then show ?thesis using i Suc by simp
    qed
  qed
  ultimately show ?thesis by (cases j) auto
qed

lemma quiet_after:
  assumes pos: "\<forall>r \<in> set rs. 1 \<le> r" and j: "j < length rs" "b = even j" and d: "0 < d"
    and e: "e = run_start rs (Suc j) + d"
  shows "stretch (unruns b rs) False (run_start rs (Suc j)) e \<longleftrightarrow> length rs \<le> j + 2 \<or> d \<le> rs ! Suc j"
proof (cases "Suc j = length rs")
  case True
  then have "\<not> module_at (unruns b rs) x" if "run_start rs (Suc j) \<le> x" for x
    using module_at_outside [of x "unruns b rs"] length_unruns [OF pos, of b] that by auto
  then show ?thesis using True by (auto simp: stretch_def)
next
  case False
  let ?c = "unruns b rs"
  have j': "Suc j < length rs" using False j by simp
  have s: "run_start rs (Suc (Suc j)) = run_start rs (Suc j) + rs ! Suc j" "run_start rs (Suc j) < run_start rs (Suc (Suc j))"
    using j' run_start_mono [OF pos, of "Suc j" "Suc (Suc j)"] by (simp_all add: run_start_Suc)
  have light: "\<not> module_at ?c x" if "run_start rs (Suc j) \<le> x" "x < run_start rs (Suc (Suc j))" for x
    using unruns_module [OF pos j', of x b] that j by auto
  show ?thesis
  proof (cases "Suc (Suc j) = length rs")
    case True
    then have "\<not> module_at ?c x" if "run_start rs (Suc j) \<le> x" for x
      using light that module_at_outside [of x ?c] length_unruns [OF pos, of b] by (cases "x < run_start rs (Suc (Suc j))") auto
    then show ?thesis using True by (auto simp: stretch_def)
  next
    case False
    then have h: "Suc (Suc j) < length rs" using j' by simp
    then have "module_at ?c (run_start rs (Suc (Suc j)))"
      using unruns_module [OF pos h, of "run_start rs (Suc (Suc j))" b] run_start_mono [OF pos, of "Suc (Suc j)" "Suc (Suc (Suc j))"] j
      by auto
    then have "stretch ?c False (run_start rs (Suc j)) e \<longleftrightarrow> d \<le> rs ! Suc j"
      using light s e unfolding stretch_def by (auto dest: bspec [of _ _ "run_start rs (Suc (Suc j))"])
    then show ?thesis using h by simp
  qed
qed


text \<open>The centre run of a finder-like pattern of module size \<open>f\<close>, in terms of run lengths.\<close>

definition finder_runs :: "int list \<Rightarrow> bool \<Rightarrow> nat \<Rightarrow> int \<Rightarrow> bool" where
  "finder_runs rs b j f = (b = even j \<and> j + 4 < length rs
     \<and> rs ! j = f \<and> rs ! (j + 1) = f \<and> rs ! (j + 2) = 3 * f \<and> rs ! (j + 3) = f \<and> rs ! (j + 4) = f
     \<and> (j \<le> 1 \<or> 4 * f \<le> rs ! (j - 1) \<or> length rs \<le> j + 6 \<or> 4 * f \<le> rs ! (j + 5)))"

lemma nat_add_Suc:
  "(j :: nat) + 2 = Suc (Suc j)" "j + 3 = Suc (Suc (Suc j))" "j + 4 = Suc (Suc (Suc (Suc j)))"
  "j + 5 = Suc (Suc (Suc (Suc (Suc j))))" "j + 6 = Suc (Suc (Suc (Suc (Suc (Suc j)))))"
  by simp_all

lemma finder_like_starts:
  assumes pos: "\<forall>r \<in> set rs. 1 \<le> r" and k: "k < length rs" and x: "run_start rs k \<le> x" "x < run_start rs (Suc k)"
    and f: "0 < f" and fl: "finder_like (unruns b rs) x f"
  obtains j where "k = j + 2" "b = even j" "j + 4 < length rs" "run_start rs j = x - 2 * f" "run_start rs (j + 1) = x - f"
    "run_start rs (j + 2) = x" "run_start rs (j + 3) = x + 3 * f" "run_start rs (j + 4) = x + 4 * f" "run_start rs (j + 5) = x + 5 * f"
proof -
  let ?c = "unruns b rs"
  have s: "stretch ?c True (x - 2 * f) (x - f)" "stretch ?c False (x - f) x" "stretch ?c True x (x + 3 * f)"
    "stretch ?c False (x + 3 * f) (x + 4 * f)" "stretch ?c True (x + 4 * f) (x + 5 * f)"
    "\<not> module_at ?c (x - 2 * f - 1)" "\<not> module_at ?c (x + 5 * f)"
    using fl by (simp_all add: finder_like_def)
  have d: "module_at ?c x" "\<not> module_at ?c (x - 1)" "module_at ?c (x - f - 1)" "\<not> module_at ?c (x + 3 * f)" "module_at ?c (x + 4 * f)"
    using f stretchD [OF s(3), of x] stretchD [OF s(2), of "x - 1"] stretchD [OF s(1), of "x - f - 1"]
      stretchD [OF s(4), of "x + 3 * f"] stretchD [OF s(5), of "x + 4 * f"] by auto
  have b: "b = even k" using unruns_module [OF pos k x] d(1) by simp
  have xk: "run_start rs k = x" using unruns_module [OF pos k, of "x - 1" b] d(2) b x by fastforce
  have k1: "run_start rs (Suc k) = x + 3 * f" using stretch_forward [OF pos k, of "x + 3 * f" b] s(3) d(4) b xk f by auto
  have "Suc k \<noteq> length rs" using length_unruns [OF pos, of b] k1 d(5) module_at_outside [of "x + 4 * f" ?c] f by auto
  then have k': "Suc k < length rs" using k by simp
  have k2: "run_start rs (Suc (Suc k)) = x + 4 * f" "Suc (Suc k) < length rs"
    using stretch_forward [OF pos k', of "x + 4 * f" b] s(4) d(5) b k1 f by auto
  have k3: "run_start rs (Suc (Suc (Suc k))) = x + 5 * f"
    using stretch_forward [OF pos k2(2), of "x + 5 * f" b] s(5,7) b k2(1) f by auto
  obtain i where i: "k = Suc i" "run_start rs i = x - f"
    using stretch_backward [OF pos k, of "x - f" b] s(2) d(3) b xk f by auto
  obtain j where j: "i = Suc j" "run_start rs j = x - 2 * f"
    using stretch_backward [OF pos, of i "x - 2 * f" b] s(1,6) b i k f by auto
  show ?thesis
    by (rule that [of j]) (use i j b k2 k3 k1 xk in \<open>simp_all add: nat_add_Suc\<close>)
qed

lemma finder_like_runs:
  assumes pos: "\<forall>r \<in> set rs. 1 \<le> r" and k: "k < length rs" and x: "run_start rs k \<le> x" "x < run_start rs (Suc k)"
    and f: "0 < f"
  shows "finder_like (unruns b rs) x f \<longleftrightarrow> x = run_start rs k \<and> 2 \<le> k \<and> finder_runs rs b (k - 2) f"
proof
  let ?c = "unruns b rs"
  assume fl: "finder_like ?c x f"
  from finder_like_starts [OF assms fl] obtain j where j: "k = j + 2" "b = even j" "j + 4 < length rs"
    and s: "run_start rs j = x - 2 * f" "run_start rs (j + 1) = x - f" "run_start rs (j + 2) = x" "run_start rs (j + 3) = x + 3 * f"
      "run_start rs (j + 4) = x + 4 * f" "run_start rs (j + 5) = x + 5 * f" by blast
  have five: "Suc (j + 4) = j + 5" by simp
  have r: "rs ! i = run_start rs (i + 1) - run_start rs i" if "i \<le> j + 4" for i using run_start_Suc [of i rs] that j(3) by simp
  have "rs ! j = f" "rs ! (j + 1) = f" "rs ! (j + 2) = 3 * f" "rs ! (j + 3) = f" "rs ! (j + 4) = f"
    using r [of j] r [of "j + 1"] r [of "j + 2"] r [of "j + 3"] r [of "j + 4"] s by (simp_all add: nat_add_Suc)
  moreover have "stretch ?c False (x - 6 * f) (x - 2 * f) \<longleftrightarrow> j \<le> 1 \<or> 4 * f \<le> rs ! (j - 1)"
    using quiet_before [OF pos, of j b "4 * f"] j f s(1) by simp
  moreover have "stretch ?c False (x + 5 * f) (x + 9 * f) \<longleftrightarrow> length rs \<le> j + 6 \<or> 4 * f \<le> rs ! (j + 5)"
    using quiet_after [OF pos, of "j + 4" b "4 * f" "x + 9 * f"] j f s(6) five by auto
  ultimately show "x = run_start rs k \<and> 2 \<le> k \<and> finder_runs rs b (k - 2) f"
    using fl j s unfolding finder_like_def finder_runs_def by auto
next
  let ?c = "unruns b rs"
  assume a: "x = run_start rs k \<and> 2 \<le> k \<and> finder_runs rs b (k - 2) f"
  then obtain j where k2: "k = j + 2" by (metis add.commute le_Suc_ex)
  have j: "k = j + 2" "run_start rs (j + 2) = x" "b = even j" "j + 4 < length rs"
    and r: "rs ! j = f" "rs ! (j + 1) = f" "rs ! (j + 2) = 3 * f" "rs ! (j + 3) = f" "rs ! (j + 4) = f"
    and q: "j \<le> 1 \<or> 4 * f \<le> rs ! (j - 1) \<or> length rs \<le> j + 6 \<or> 4 * f \<le> rs ! (j + 5)"
    using a unfolding k2 finder_runs_def by simp_all
  have s: "run_start rs j = x - 2 * f" "run_start rs (j + 1) = x - f" "run_start rs (j + 3) = x + 3 * f"
    "run_start rs (j + 4) = x + 4 * f" "run_start rs (j + 5) = x + 5 * f"
    using run_start_Suc [of j rs] run_start_Suc [of "j + 1" rs] run_start_Suc [of "j + 2" rs] run_start_Suc [of "j + 3" rs]
      run_start_Suc [of "j + 4" rs] j r by (simp_all add: nat_add_Suc)
  have five: "Suc (j + 4) = j + 5" by simp
  have st: "stretch ?c (b = even i) (run_start rs i) (run_start rs (i + 1))" if "i \<le> j + 4" for i
    using stretch_run [OF pos, of i] that j(4) by simp
  have "stretch ?c True (x - 2 * f) (x - f)" "stretch ?c False (x - f) x" "stretch ?c True x (x + 3 * f)"
    "stretch ?c False (x + 3 * f) (x + 4 * f)" "stretch ?c True (x + 4 * f) (x + 5 * f)"
    using st [of j] st [of "j + 1"] st [of "j + 2"] st [of "j + 3"] st [of "j + 4"] s j(2,3)
    by (simp_all add: nat_add_Suc)
  moreover have r1: "1 \<le> rs ! i" if "i < length rs" for i using pos that nth_mem by blast
  have "stretch ?c False (x - 2 * f - 1) (x - 2 * f)"
    using quiet_before [OF pos, of j b 1] r1 [of "j - 1"] j s(1) by (cases "j \<le> 1") simp_all
  then have "\<not> module_at ?c (x - 2 * f - 1)" by (simp add: stretch_def)
  moreover have "stretch ?c False (x + 5 * f) (x + 5 * f + 1)"
    using quiet_after [OF pos, of "j + 4" b 1 "x + 5 * f + 1"] r1 [of "j + 5"] j s(5) unfolding five
    by (cases "j + 5 < length rs") simp_all
  then have "\<not> module_at ?c (x + 5 * f)" by (simp add: stretch_def)
  moreover have "stretch ?c False (x - 6 * f) (x - 2 * f) \<longleftrightarrow> j \<le> 1 \<or> 4 * f \<le> rs ! (j - 1)"
    using quiet_before [OF pos, of j b "4 * f"] j f s(1) by simp
  moreover have "stretch ?c False (x + 5 * f) (x + 9 * f) \<longleftrightarrow> length rs \<le> j + 6 \<or> 4 * f \<le> rs ! (j + 5)"
    using quiet_after [OF pos, of "j + 4" b "4 * f" "x + 9 * f"] j f s(5) five by auto
  ultimately show "finder_like ?c x f" using q by (auto simp: finder_like_def)
qed


lemma finder_like_exists:
  assumes pos: "\<forall>r \<in> set rs. 1 \<le> r" and k: "k < length rs" and x: "run_start rs k \<le> x" "x < run_start rs (Suc k)"
  shows "(\<exists>f \<in> {1..int (length (unruns b rs))}. finder_like (unruns b rs) x f)
     \<longleftrightarrow> x = run_start rs k \<and> 2 \<le> k \<and> rs ! k mod 3 = 0 \<and> finder_runs rs b (k - 2) (rs ! k div 3)"
    (is "?L \<longleftrightarrow> ?R")
proof
  assume ?L
  then obtain f where "1 \<le> f" and fl: "finder_like (unruns b rs) x f" by auto
  then have f: "0 < f" by simp
  then have "x = run_start rs k" "2 \<le> k" "finder_runs rs b (k - 2) f"
    using finder_like_runs [OF assms f] fl by auto
  moreover have "k - 2 + 2 = k" using \<open>2 \<le> k\<close> by simp
  then have "rs ! k = 3 * f" using \<open>finder_runs rs b (k - 2) f\<close> unfolding finder_runs_def by metis
  ultimately show ?R by simp
next
  assume r: ?R
  define f where "f = rs ! k div 3"
  have f: "rs ! k = 3 * f" using r by (auto simp: f_def)
  moreover have "1 \<le> rs ! k" using pos k nth_mem by blast
  ultimately have "0 < f" by simp
  moreover have "f \<le> int (length (unruns b rs))"
    using run_start_le_length(1) [OF pos, of k] run_start_le_length(2) [OF pos, of "Suc k" b] run_start_Suc [OF k] k f \<open>0 < f\<close> by linarith
  moreover have "finder_like (unruns b rs) x f" using finder_like_runs [OF assms \<open>0 < f\<close>] r by (simp add: f_def)
  ultimately show ?L by auto
qed

lemma line_penalty_runs:
  assumes "c \<noteq> []"
  shows "line_penalty c = (\<Sum>k < length (runs c).
      (if 5 \<le> runs c ! k then 3 + (runs c ! k - 5) else 0)
    + (if 2 \<le> k \<and> runs c ! k mod 3 = 0 \<and> finder_runs (runs c) (hd c) (k - 2) (runs c ! k div 3) then 40 else 0))"
proof -
  let ?rs = "runs c" and ?b = "hd c"
  let ?F = "\<lambda>p. if \<exists>f \<in> {1..int (length c)}. finder_like c p f then 40 else 0 :: int"
  have pos: "\<forall>r \<in> set ?rs. 1 \<le> r" using runs_bounds [of c] by simp
  have c: "unruns ?b ?rs = c" using assms by (rule unruns_runs)
  have le: "run_start ?rs k \<le> run_start ?rs (Suc k)" if "k < length ?rs" for k
    using run_start_mono [OF pos, of k "Suc k"] that by simp
  have F: "(\<Sum>x = run_start ?rs k..<run_start ?rs (Suc k). ?F x) =
      (if 2 \<le> k \<and> ?rs ! k mod 3 = 0 \<and> finder_runs ?rs ?b (k - 2) (?rs ! k div 3) then 40 else 0)"
    if k: "k < length ?rs" for k
  proof -
    have "?F x = (if x = run_start ?rs k \<and> 2 \<le> k \<and> ?rs ! k mod 3 = 0 \<and> finder_runs ?rs ?b (k - 2) (?rs ! k div 3) then 40 else 0)"
      if "x \<in> {run_start ?rs k..<run_start ?rs (Suc k)}" for x
      using finder_like_exists [OF pos k, of x ?b] that unfolding c by simp
    then have "(\<Sum>x = run_start ?rs k..<run_start ?rs (Suc k). ?F x) = (\<Sum>x = run_start ?rs k..<run_start ?rs (Suc k).
        if x = run_start ?rs k then if 2 \<le> k \<and> ?rs ! k mod 3 = 0 \<and> finder_runs ?rs ?b (k - 2) (?rs ! k div 3) then 40 else 0 else 0)"
      by (intro sum.cong) auto
    also have "\<dots> = (if 2 \<le> k \<and> ?rs ! k mod 3 = 0 \<and> finder_runs ?rs ?b (k - 2) (?rs ! k div 3) then 40 else 0)"
      using run_start_mono [OF pos, of k "Suc k"] k by (subst sum.delta) auto
    finally show ?thesis .
  qed
  have "line_penalty c = (\<Sum>x = run_start ?rs 0..<run_start ?rs (length ?rs). run_penalty c x + ?F x)"
    using length_unruns [OF pos, of ?b] by (simp add: line_penalty_def c)
  also have "\<dots> = (\<Sum>k < length ?rs. \<Sum>x = run_start ?rs k..<run_start ?rs (Suc k). run_penalty c x + ?F x)"
    using sum_steps [of "length ?rs" "run_start ?rs"] le by blast
  also have "\<dots> = (\<Sum>k < length ?rs. (if 5 \<le> ?rs ! k then 3 + (?rs ! k - 5) else 0)
      + (if 2 \<le> k \<and> ?rs ! k mod 3 = 0 \<and> finder_runs ?rs ?b (k - 2) (?rs ! k div 3) then 40 else 0))"
    by (intro sum.cong refl)
      (simp only: sum.distrib F run_penalty_sum [OF pos, of _ ?b, unfolded c] lessThan_iff)
  finally show ?thesis .
qed

end
