(* ===== verification/QR_Mask.thy ===== *)
theory QR_Mask
  imports QR_Spec QR_Penalty
begin

text \<open>
  \<open>mask.c\<close>: the eight mask patterns, the format information, the four penalty rules and
  the choice of the pattern with the least penalty. A frame is the array of
  \<open>width * width\<close> bytes; bit 7 marks a module that belongs to a function pattern, bit 0 is
  its colour. The penalties computed from run lengths are shown equal to those of the theory
  \<open>QR_Penalty\<close>, which states the rules on the modules.
\<close>

section \<open>Format information\<close>

text \<open>The first loop writes the eight low bits, the second the other seven; \<open>blacks\<close> counts.\<close>

definition format_low :: "nat \<Rightarrow> nat \<Rightarrow> uint \<times> nat \<times> byte list \<Rightarrow> uint \<times> nat \<times> byte list" where
  "format_low width i = (\<lambda>(format, blacks, frame).
     let v = (if format AND 1 \<noteq> 0 then 0x85 else 0x84);
         blacks' = (if format AND 1 \<noteq> 0 then blacks + 2 else blacks);
         f1 = frame[width * 8 + width - 1 - i := v];
         f2 = (if i < 6 then f1[width * i + 8 := v] else f1[width * (i + 1) + 8 := v])
     in (drop_bit 1 format, blacks', f2))"

definition format_high :: "nat \<Rightarrow> nat \<Rightarrow> uint \<times> nat \<times> byte list \<Rightarrow> uint \<times> nat \<times> byte list" where
  "format_high width i = (\<lambda>(format, blacks, frame).
     let v = (if format AND 1 \<noteq> 0 then 0x85 else 0x84);
         blacks' = (if format AND 1 \<noteq> 0 then blacks + 2 else blacks);
         f1 = frame[width * (width - 7 + i) + 8 := v];
         f2 = (if i = 0 then f1[width * 8 + 7 := v] else f1[width * 8 + 6 - i := v])
     in (drop_bit 1 format, blacks', f2))"

definition Mask_writeFormatInformation :: "nat \<Rightarrow> byte list \<Rightarrow> int \<Rightarrow> QRecLevel \<Rightarrow> nat \<times> byte list" where
  "Mask_writeFormatInformation width frame msk level =
     snd (fold (format_high width) [0..<7]
           (fold (format_low width) [0..<8] (QRspec_getFormatInfo msk level, 0, frame)))"

section \<open>Mask patterns\<close>

definition N1 :: int where "N1 = 3"
definition N2 :: int where "N2 = 3"
definition N3 :: int where "N3 = 40"
definition N4 :: int where "N4 = 10"

text \<open>The macro \<open>MASKMAKER\<close>: the masked frame and the number of its dark modules.\<close>

definition MASKMAKER :: "(nat \<Rightarrow> nat \<Rightarrow> nat) \<Rightarrow> nat \<Rightarrow> byte list \<Rightarrow> nat \<times> byte list" where
  "MASKMAKER e width s =
     fold (\<lambda>(y, x) (b, d).
         let c = s ! (y * width + x);
             m = (if c AND 0x80 \<noteq> 0 then c else c XOR (if e x y = 0 then 1 else 0))
         in (b + unat (m AND 1), d @ [m]))
       (List.product [0..<width] [0..<width]) (0, [])"

definition Mask_mask0 :: "nat \<Rightarrow> byte list \<Rightarrow> nat \<times> byte list" where
  "Mask_mask0 = MASKMAKER (\<lambda>x y. (x + y) AND 1)"

definition Mask_mask1 :: "nat \<Rightarrow> byte list \<Rightarrow> nat \<times> byte list" where
  "Mask_mask1 = MASKMAKER (\<lambda>x y. y AND 1)"

definition Mask_mask2 :: "nat \<Rightarrow> byte list \<Rightarrow> nat \<times> byte list" where
  "Mask_mask2 = MASKMAKER (\<lambda>x y. x mod 3)"

definition Mask_mask3 :: "nat \<Rightarrow> byte list \<Rightarrow> nat \<times> byte list" where
  "Mask_mask3 = MASKMAKER (\<lambda>x y. (x + y) mod 3)"

definition Mask_mask4 :: "nat \<Rightarrow> byte list \<Rightarrow> nat \<times> byte list" where
  "Mask_mask4 = MASKMAKER (\<lambda>x y. (y div 2 + x div 3) AND 1)"

definition Mask_mask5 :: "nat \<Rightarrow> byte list \<Rightarrow> nat \<times> byte list" where
  "Mask_mask5 = MASKMAKER (\<lambda>x y. ((x * y) AND 1) + (x * y) mod 3)"

definition Mask_mask6 :: "nat \<Rightarrow> byte list \<Rightarrow> nat \<times> byte list" where
  "Mask_mask6 = MASKMAKER (\<lambda>x y. (((x * y) AND 1) + (x * y) mod 3) AND 1)"

definition Mask_mask7 :: "nat \<Rightarrow> byte list \<Rightarrow> nat \<times> byte list" where
  "Mask_mask7 = MASKMAKER (\<lambda>x y. ((x * y) mod 3 + ((x + y) AND 1)) AND 1)"

definition maskMakers :: "(nat \<Rightarrow> byte list \<Rightarrow> nat \<times> byte list) list" where
  "maskMakers = [Mask_mask0, Mask_mask1, Mask_mask2, Mask_mask3,
                 Mask_mask4, Mask_mask5, Mask_mask6, Mask_mask7]"

definition maskNum :: nat where "maskNum = 8"

definition Mask_makeMaskedFrame :: "nat \<Rightarrow> byte list \<Rightarrow> nat \<Rightarrow> byte list" where
  "Mask_makeMaskedFrame width frame msk = snd ((maskMakers ! msk) width frame)"

definition Mask_makeMask :: "nat \<Rightarrow> byte list \<Rightarrow> int \<Rightarrow> QRecLevel \<Rightarrow> byte list res" where
  "Mask_makeMask width frame msk level =
     (if msk < 0 \<or> msk \<ge> int maskNum then Inl EINVAL
      else Inr (snd (Mask_writeFormatInformation width (snd ((maskMakers ! nat msk) width frame)) msk level)))"

section \<open>Penalties\<close>

definition n1n3_term :: "nat \<Rightarrow> int list \<Rightarrow> nat \<Rightarrow> int" where
  "n1n3_term len runLength i =
     (let r = runLength ! i; fact = r div 3
      in (if r \<ge> 5 then N1 + (r - 5) else 0)
       + (if i AND 1 \<noteq> 0 then
            if i \<ge> 3 \<and> i + 2 < len \<and> r mod 3 = 0 then
              if runLength ! (i - 2) = fact \<and> runLength ! (i - 1) = fact
                 \<and> runLength ! (i + 1) = fact \<and> runLength ! (i + 2) = fact then
                if i = 3 \<or> runLength ! (i - 3) \<ge> 4 * fact then N3
                else if i + 4 \<ge> len \<or> runLength ! (i + 3) \<ge> 4 * fact then N3
                else 0
              else 0
            else 0
          else 0))"

definition Mask_calcN1N3 :: "nat \<Rightarrow> int list \<Rightarrow> int" where
  "Mask_calcN1N3 len runLength = fold (\<lambda>i demerit. demerit + n1n3_term len runLength i) [0..<len] 0"

definition Mask_calcN2 :: "nat \<Rightarrow> byte list \<Rightarrow> int" where
  "Mask_calcN2 width frame =
     fold (\<lambda>(y, x) demerit.
         let p = y * width + x;
             b22 = frame ! p AND frame ! (p - 1) AND frame ! (p - width) AND frame ! (p - width - 1);
             w22 = frame ! p OR frame ! (p - 1) OR frame ! (p - width) OR frame ! (p - width - 1)
         in if (b22 OR (w22 XOR 1)) AND 1 \<noteq> 0 then demerit + N2 else demerit)
       (List.product [1..<width] [1..<width]) 0"

text \<open>\<open>off\<close> is the pointer the caller passes, relative to the frame.\<close>

definition Mask_calcRunLength :: "nat \<Rightarrow> byte list \<Rightarrow> nat \<Rightarrow> nat \<Rightarrow> int list \<Rightarrow> nat \<times> int list" where
  "Mask_calcRunLength width frame off dir runLength =
     (let pitch = (if dir = 0 then 1 else width);
          (head0, rl0) = (if frame ! off AND 1 \<noteq> 0 then (1, runLength[0 := -1]) else (0, runLength));
          (head, rl) = fold (\<lambda>i (head, rl).
              let p = off + i * pitch
              in if (frame ! p XOR frame ! (p - pitch)) AND 1 \<noteq> 0 then (head + 1, rl[head + 1 := 1])
                 else (head, rl[head := rl ! head + 1]))
            [1..<width] (head0, rl0[head0 := 1])
      in (head + 1, rl))"

definition QRSPEC_WIDTH_MAX :: nat where "QRSPEC_WIDTH_MAX = 177"

text \<open>
  \<open>runLength\<close> is an uninitialised array on the stack, the argument \<open>junk\<close>.
\<close>

definition Mask_evaluateSymbol :: "int list \<Rightarrow> nat \<Rightarrow> byte list \<Rightarrow> int" where
  "Mask_evaluateSymbol junk width frame =
     (let d0 = Mask_calcN2 width frame;
          (d1, rl1) = fold (\<lambda>y (demerit, rl).
              let (len, rl') = Mask_calcRunLength width frame (y * width) 0 rl
              in (demerit + Mask_calcN1N3 len rl', rl')) [0..<width] (d0, junk);
          (d2, rl2) = fold (\<lambda>x (demerit, rl).
              let (len, rl') = Mask_calcRunLength width frame x 1 rl
              in (demerit + Mask_calcN1N3 len rl', rl')) [0..<width] (d1, rl1)
      in d2)"

definition INT_MAX :: int where "INT_MAX = 2147483647"

definition Mask_demerit :: "nat \<Rightarrow> byte list \<Rightarrow> QRecLevel \<Rightarrow> nat \<Rightarrow> int \<times> byte list" where
  "Mask_demerit width frame level i =
     (let w2 = int width * int width;
          (blacks1, m1) = (maskMakers ! i) width frame;
          (blacks2, m2) = Mask_writeFormatInformation width m1 (int i) level;
          blacks = int (blacks1 + blacks2);
          bratio = (200 * blacks + w2) div w2 div 2;
          demerit = (\<bar>bratio - 50\<bar> div 5) * N4
      in (demerit + Mask_evaluateSymbol (replicate (QRSPEC_WIDTH_MAX + 1) 0) width m2, m2))"

text \<open>The loop keeps the least demerit so far and its frame; \<open>None\<close> is \<open>bestMask = NULL\<close>.\<close>

definition Mask_mask :: "nat \<Rightarrow> byte list \<Rightarrow> QRecLevel \<Rightarrow> byte list res" where
  "Mask_mask width frame level =
     (case snd (fold (\<lambda>i (minDemerit, bestMask).
              let (demerit, m) = Mask_demerit width frame level i
              in if demerit < minDemerit then (demerit, Some m) else (minDemerit, bestMask))
            [0..<maskNum] (INT_MAX, None)) of
        None \<Rightarrow> Inl ENOERR
      | Some m \<Rightarrow> Inr m)"

section \<open>The masked frame\<close>

definition mask_module :: "(nat \<Rightarrow> nat \<Rightarrow> nat) \<Rightarrow> nat \<Rightarrow> nat \<Rightarrow> byte \<Rightarrow> byte" where
  "mask_module e x y c = (if c AND 0x80 \<noteq> 0 then c else c XOR (if e x y = 0 then 1 else 0))"

lemma product_upt_nth:
  assumes "p < w * w"
  shows "List.product [0..<w] [0..<w] ! p = (p div w, p mod w)"
proof -
  have "p mod w < w" "p div w < w" using assms by (cases "w = 0", simp_all add: less_mult_imp_div_less)
  then show ?thesis using assms by (subst product_nth) simp_all
qed

lemma map_product_upt:
  "map (\<lambda>(y, x). g x y (s ! (y * w + x))) (List.product [0..<w] [0..<w])
     = map (\<lambda>p. g (p mod w) (p div w) (s ! p)) [0..<w * w]"
  by (intro nth_equalityI) (simp_all add: product_upt_nth del: List.product.simps)

lemma MASKMAKER_eq:
  "MASKMAKER e w s =
     (let d = map (\<lambda>p. mask_module e (p mod w) (p div w) (s ! p)) [0..<w * w]
      in (\<Sum>m \<leftarrow> d. unat (m AND 1), d))"
proof -
  have "fold (\<lambda>(y, x) (b, d).
         let c = s ! (y * w + x);
             m = (if c AND 0x80 \<noteq> 0 then c else c XOR (if e x y = 0 then 1 else 0))
         in (b + unat (m AND 1), d @ [m])) ps (b, d)
     = (b + (\<Sum>m \<leftarrow> map (\<lambda>(y, x). mask_module e x y (s ! (y * w + x))) ps. unat (m AND 1)),
        d @ map (\<lambda>(y, x). mask_module e x y (s ! (y * w + x))) ps)" for ps b d
    by (induction ps arbitrary: b d) (auto simp: Let_def mask_module_def)
  from this [of "List.product [0..<w] [0..<w]" 0 "[]"] show ?thesis
    unfolding MASKMAKER_def Let_def map_product_upt by simp
qed

lemma xor_1_data [simp]: "(c XOR 1) AND 0x80 = (0 :: byte) \<longleftrightarrow> c AND 0x80 = 0"
proof -
  have "bit (c XOR 1) 7 = bit c 7" by (simp add: bit_xor_iff bit_1_iff)
  then show ?thesis using and_single_bit_eq_0 [of "c XOR 1" 7] and_single_bit_eq_0 [of c 7] by simp
qed

section \<open>Format information\<close>

definition dark :: "byte list \<Rightarrow> nat \<Rightarrow> bool" where
  "dark frame p = odd (frame ! p)"

lemma and_1_neq_0: "(x :: 'a :: semiring_bit_operations) AND 1 \<noteq> 0 \<longleftrightarrow> odd x"
  by (simp add: and_one_eq odd_iff_mod_2_eq_one)

definition fmt_pos1 :: "nat \<Rightarrow> nat \<Rightarrow> nat" where
  "fmt_pos1 w i = (if i < 8 then 8 * w + (w - 1 - i) else (w - 15 + i) * w + 8)"

definition fmt_pos2 :: "nat \<Rightarrow> nat \<Rightarrow> nat" where
  "fmt_pos2 w i = (if i < 6 then i * w + 8 else if i < 8 then (i + 1) * w + 8
                   else if i = 8 then 8 * w + 7 else 8 * w + (14 - i))"

definition fmt_val :: "uint \<Rightarrow> nat \<Rightarrow> byte" where
  "fmt_val f i = (if bit f i then 0x85 else 0x84)"

definition put_format :: "nat \<Rightarrow> uint \<Rightarrow> nat list \<Rightarrow> byte list \<Rightarrow> byte list" where
  "put_format w f is frame = fold (\<lambda>i fr. fr[fmt_pos1 w i := fmt_val f i, fmt_pos2 w i := fmt_val f i]) is frame"

lemma format_low_step:
  assumes "i < 8" "21 \<le> w"
  shows "format_low w i (drop_bit i f, b, fr) =
           (drop_bit (Suc i) f, b + (if bit f i then 2 else 0),
            fr[fmt_pos1 w i := fmt_val f i, fmt_pos2 w i := fmt_val f i])"
  using assms
  by (auto simp: format_low_def Let_def and_1_neq_0 bit_iff_odd_drop_bit fmt_pos1_def fmt_pos2_def fmt_val_def
      mult.commute)

lemma format_high_step:
  assumes "i < 7" "21 \<le> w"
  shows "format_high w i (drop_bit (8 + i) f, b, fr) =
           (drop_bit (Suc (8 + i)) f, b + (if bit f (8 + i) then 2 else 0),
            fr[fmt_pos1 w (8 + i) := fmt_val f (8 + i), fmt_pos2 w (8 + i) := fmt_val f (8 + i)])"
proof -
  have e: "w * (w - 7 + i) + 8 = (w - 15 + (8 + i)) * w + 8" using assms(2)
    by (simp add: mult.commute)
  show ?thesis using assms
    by (auto simp: format_high_def Let_def and_1_neq_0 bit_iff_odd_drop_bit fmt_pos1_def fmt_pos2_def fmt_val_def
        e mult.commute)
qed

lemma format_low_fold:
  assumes "n \<le> 8" "21 \<le> w"
  shows "fold (format_low w) [0..<n] (f, b, fr) =
           (drop_bit n f, b + (\<Sum>i < n. if bit f i then 2 else 0), put_format w f [0..<n] fr)"
  using assms(1) by (induction n) (simp_all add: put_format_def format_low_step [OF _ assms(2)] add.assoc)

lemma format_high_fold:
  assumes "n \<le> 7" "21 \<le> w"
  shows "fold (format_high w) [0..<n] (drop_bit 8 f, b, fr) =
           (drop_bit (8 + n) f, b + (\<Sum>i = 8..<8 + n. if bit f i then 2 else 0), put_format w f [8..<8 + n] fr)"
proof -
  have u: "[8..<9 + n] = [8..<8 + n] @ [8 + n]" for n using upt_Suc_append [of 8 "8 + n"] by simp
  have s: "sum g {8..<9 + n} = sum g {8..<8 + n} + g (8 + n)" for g :: "nat \<Rightarrow> nat" and n
    using sum.atLeastLessThan_Suc [of 8 "8 + n" g] by simp
  show ?thesis using assms(1)
    by (induction n) (simp_all add: put_format_def format_high_step [OF _ assms(2)] u s add.assoc del: drop_bit_drop_bit)
qed

lemma writeFormatInformation_eq:
  assumes "21 \<le> w"
  shows "Mask_writeFormatInformation w frame msk level =
     (let f = QRspec_getFormatInfo msk level
      in (\<Sum>i < 15. if bit f i then 2 else 0, put_format w f [0..<15] frame))"
proof -
  have "[0..<15] = [0..<8] @ [8..<15]" by (simp add: upt_rec)
  then have "put_format w f [0..<15] frame = put_format w f [8..<15] (put_format w f [0..<8] frame)" for f
    by (simp add: put_format_def)
  moreover have "(\<Sum>i < 15. g i) = (\<Sum>i < 8. g i) + (\<Sum>i = 8..<15. g i)" for g :: "nat \<Rightarrow> nat"
    using sum.atLeastLessThan_concat [of 0 8 15 g] by (simp add: atLeast0LessThan)
  ultimately show ?thesis
    using format_low_fold [of 8 w "QRspec_getFormatInfo msk level" 0 frame] assms
      format_high_fold [of 7 w "QRspec_getFormatInfo msk level"]
    by (simp add: Mask_writeFormatInformation_def Let_def)
qed

lemma grid_eq: "x < w \<Longrightarrow> x' < w \<Longrightarrow> y * w + x = y' * w + x' \<longleftrightarrow> x = x' \<and> y = (y' :: nat)"
  by (metis div_mult_self3 div_less add_0 mod_less mod_mult_self3 add.commute less_zeroE)

lemma fmt_pos_xy:
  "fmt_pos1 w i = (if i < 8 then 8 else w - 15 + i) * w + (if i < 8 then w - 1 - i else 8)"
  "fmt_pos2 w i = (if i < 6 then i else if i < 8 then i + 1 else 8) * w
                + (if i < 8 then 8 else if i = 8 then 7 else 14 - i)"
  by (simp_all add: fmt_pos1_def fmt_pos2_def)

lemma fmt_pos_inj:
  assumes "21 \<le> w" "i < 15" "j < 15"
  shows "fmt_pos1 w i = fmt_pos1 w j \<longleftrightarrow> i = j" "fmt_pos2 w i = fmt_pos2 w j \<longleftrightarrow> i = j" "fmt_pos1 w i \<noteq> fmt_pos2 w j"
  unfolding fmt_pos_xy by (subst grid_eq; use assms in \<open>auto split: if_splits\<close>)+

lemma fmt_pos_less:
  assumes "21 \<le> w" "i < 15"
  shows "fmt_pos1 w i < w * w" "fmt_pos2 w i < w * w"
proof -
  have "y < w \<Longrightarrow> x < w \<Longrightarrow> y * w + x < w * w" for x y :: nat
    by (metis add_less_cancel_left add_mult_distrib less_le_trans mult.commute mult_Suc mult_le_mono1 Suc_leI add.commute)
  from this [of 8 "w - 1 - i"] this [of "w - 15 + i" 8] this [of i 8] this [of "i + 1" 8] this [of 8 7]
    this [of 8 "14 - i"]
  show "fmt_pos1 w i < w * w" "fmt_pos2 w i < w * w"
    using assms by (simp_all add: fmt_pos1_def fmt_pos2_def)
qed

definition fmt_area :: "nat \<Rightarrow> nat set" where
  "fmt_area w = fmt_pos1 w ` {..<15} \<union> fmt_pos2 w ` {..<15}"

lemma length_put_format [simp]: "length (put_format w f is frame) = length frame"
  unfolding put_format_def by (induction "is" arbitrary: frame) simp_all

lemma put_format_nth:
  assumes "21 \<le> w" "length frame = w * w" "n \<le> 15"
  shows "(\<forall>i < n. put_format w f [0..<n] frame ! fmt_pos1 w i = fmt_val f i
               \<and> put_format w f [0..<n] frame ! fmt_pos2 w i = fmt_val f i)
       \<and> (\<forall>p. p \<notin> fmt_pos1 w ` {..<n} \<union> fmt_pos2 w ` {..<n} \<longrightarrow> put_format w f [0..<n] frame ! p = frame ! p)"
  using assms(3)
proof (induction n)
  case (Suc n)
  have put: "put_format w f ([0..<n] @ [n]) frame
      = (put_format w f [0..<n] frame)[fmt_pos1 w n := fmt_val f n, fmt_pos2 w n := fmt_val f n]"
    by (simp add: put_format_def)
  have n: "n < 15" using Suc.prems by simp
  show ?case
  proof (intro conjI allI impI)
    fix i assume "i < Suc n"
    then show "put_format w f [0..<Suc n] frame ! fmt_pos1 w i = fmt_val f i"
        "put_format w f [0..<Suc n] frame ! fmt_pos2 w i = fmt_val f i"
      using Suc n fmt_pos_less [OF assms(1) n] fmt_pos_inj [OF assms(1) n, of i] fmt_pos_inj(3) [OF assms(1) _ n, of i]
      by (auto simp: put nth_list_update assms(2) less_Suc_eq)
  next
    fix p assume "p \<notin> fmt_pos1 w ` {..<Suc n} \<union> fmt_pos2 w ` {..<Suc n}"
    then show "put_format w f [0..<Suc n] frame ! p = frame ! p"
      using Suc by (auto simp: put lessThan_Suc)
  qed
qed (simp add: put_format_def)

definition fmt_read :: "(nat \<Rightarrow> nat) \<Rightarrow> byte list \<Rightarrow> nat" where
  "fmt_read pos frame = (\<Sum>i < 15. of_bool (dark frame (pos i)) * 2 ^ i)"

lemma fmt_val_odd [simp]: "odd (fmt_val f i) \<longleftrightarrow> bit f i"
  by (simp add: fmt_val_def)

lemma nat_bit_sum: "(m :: nat) < 2 ^ n \<Longrightarrow> (\<Sum>i < n. of_bool (bit m i) * 2 ^ i) = m"
  using horner_sum_bit_eq_take_bit [of m n] by (simp add: horner_sum_eq_sum take_bit_nat_eq_self lessThan_atLeast0)

lemma format_less: "level \<le> QR_ECLEVEL_H \<Longrightarrow> unat (QRspec_getFormatInfo msk level) < 2 ^ 15"
proof (cases "0 \<le> msk \<and> msk \<le> 7")
  case True
  assume l: "level \<le> QR_ECLEVEL_H"
  have "list_all (\<lambda>n. n < 2 ^ 15) format_nats" by (simp add: format_nats_def)
  moreover have "8 * level + nat msk < length format_nats" using True l format_nats(3) by auto
  ultimately show ?thesis using True l unat_getFormatInfo [of msk level] by (simp add: list_all_length)
qed (auto simp: QRspec_getFormatInfo_def)

lemma fmt_read_put:
  fixes msk :: int
  assumes "21 \<le> w" "length frame = w * w" "level \<le> QR_ECLEVEL_H"
  defines "f \<equiv> QRspec_getFormatInfo msk level"
  shows "fmt_read (fmt_pos1 w) (put_format w f [0..<15] frame) = unat f"
    "fmt_read (fmt_pos2 w) (put_format w f [0..<15] frame) = unat f"
proof -
  have "(\<Sum>i < 15. of_bool (bit f i) * 2 ^ i) = unat f"
    using nat_bit_sum [OF format_less [OF assms(3), of msk]] by (simp add: bit_unsigned_iff f_def)
  moreover have "fmt_read pos m = (\<Sum>i < 15. of_bool (bit f i) * 2 ^ i)"
    if "\<And>i. i < 15 \<Longrightarrow> m ! pos i = fmt_val f i" for pos m
    unfolding fmt_read_def dark_def by (intro sum.cong) (simp_all add: that)
  ultimately show "fmt_read (fmt_pos1 w) (put_format w f [0..<15] frame) = unat f"
    "fmt_read (fmt_pos2 w) (put_format w f [0..<15] frame) = unat f"
    using put_format_nth [OF assms(1,2), of 15 f] by simp_all
qed

section \<open>Mask patterns\<close>

text \<open>The eight conditions of the standard, for column \<open>x\<close> and row \<open>y\<close>.\<close>

definition iso_mask :: "nat \<Rightarrow> nat \<Rightarrow> nat \<Rightarrow> bool" where
  "iso_mask i x y =
     ([even (x + y), even y, 3 dvd x, 3 dvd (x + y), even (y div 2 + x div 3),
       (x * y) mod 2 + (x * y) mod 3 = 0, even ((x * y) mod 2 + (x * y) mod 3),
       even ((x + y) mod 2 + (x * y) mod 3)] ! i)"

definition apply_mask :: "nat \<Rightarrow> nat \<Rightarrow> byte list \<Rightarrow> nat \<Rightarrow> byte" where
  "apply_mask i w frame p =
     (if is_data frame p \<and> iso_mask i (p mod w) (p div w) then frame ! p XOR 1 else frame ! p)"

definition mask_conds :: "(nat \<Rightarrow> nat \<Rightarrow> nat) list" where
  "mask_conds = [\<lambda>x y. (x + y) AND 1, \<lambda>x y. y AND 1, \<lambda>x y. x mod 3, \<lambda>x y. (x + y) mod 3,
     \<lambda>x y. (y div 2 + x div 3) AND 1, \<lambda>x y. ((x * y) AND 1) + (x * y) mod 3,
     \<lambda>x y. (((x * y) AND 1) + (x * y) mod 3) AND 1, \<lambda>x y. ((x * y) mod 3 + ((x + y) AND 1)) AND 1]"

lemma maskMakers_conds: "maskMakers = map MASKMAKER mask_conds"
  by (simp add: maskMakers_def mask_conds_def Mask_mask0_def Mask_mask1_def Mask_mask2_def Mask_mask3_def
      Mask_mask4_def Mask_mask5_def Mask_mask6_def Mask_mask7_def)

lemma mask_conds_iso:
  assumes "i < maskNum"
  shows "(mask_conds ! i) x y = 0 \<longleftrightarrow> iso_mask i x y"
proof -
  have a1: "(n :: nat) AND 1 = n mod 2" and e: "n mod 2 = 0 \<longleftrightarrow> even n" "n mod 3 = 0 \<longleftrightarrow> 3 dvd n" for n
    by (simp_all add: and_one_eq even_iff_mod_2_eq_zero dvd_eq_mod_eq_0)
  have "i = 0 \<or> i = 1 \<or> i = 2 \<or> i = 3 \<or> i = 4 \<or> i = 5 \<or> i = 6 \<or> i = 7" using assms by (auto simp: maskNum_def)
  then show ?thesis
    by (elim disjE) (simp_all add: mask_conds_def iso_mask_def a1 e add.commute)
qed

lemma maskMakers_eq:
  assumes "i < maskNum"
  shows "(maskMakers ! i) w frame =
     (let d = map (apply_mask i w frame) [0..<w * w] in (\<Sum>m \<leftarrow> d. unat (m AND 1), d))"
proof -
  have "(\<lambda>p. mask_module (mask_conds ! i) (p mod w) (p div w) (frame ! p)) = apply_mask i w frame"
    by (rule ext) (simp add: mask_module_def apply_mask_def mask_conds_iso [OF assms] is_data_def)
  moreover have "i < length mask_conds" using assms by (simp add: mask_conds_def maskNum_def)
  ultimately show ?thesis by (simp add: maskMakers_conds MASKMAKER_eq)
qed

lemma makeMaskedFrame_nth:
  assumes "i < maskNum" "p < w * w"
  shows "Mask_makeMaskedFrame w frame i ! p = apply_mask i w frame p"
  using assms by (simp add: Mask_makeMaskedFrame_def maskMakers_eq Let_def)

lemma length_makeMaskedFrame: "i < maskNum \<Longrightarrow> length (Mask_makeMaskedFrame w frame i) = w * w"
  by (simp add: Mask_makeMaskedFrame_def maskMakers_eq Let_def)

text \<open>
  C22. Masking is undone by masking again: for every pattern, masking the masked frame gives
  the frame back, function modules are never changed by it, and a data module changes its
  colour exactly where the condition of the standard holds.
\<close>

theorem masking_involution:
  assumes "i < maskNum" "length frame = width * width"
  shows "Mask_makeMaskedFrame width (Mask_makeMaskedFrame width frame i) i = frame
     \<and> length (Mask_makeMaskedFrame width frame i) = width * width
     \<and> (\<forall>p < width * width.
          Mask_makeMaskedFrame width frame i ! p
            = (if is_data frame p \<and> iso_mask i (p mod width) (p div width) then frame ! p XOR 1 else frame ! p))"
proof -
  let ?m = "Mask_makeMaskedFrame width frame i"
  have "Mask_makeMaskedFrame width ?m i = frame"
    using assms by (intro nth_equalityI)
      (auto simp: length_makeMaskedFrame makeMaskedFrame_nth apply_mask_def is_data_def xor.assoc)
  then show ?thesis using assms by (simp add: length_makeMaskedFrame makeMaskedFrame_nth apply_mask_def)
qed

theorem masking_involution_witness:
  "Mask_makeMaskedFrame 2 (Mask_makeMaskedFrame 2 [0x84, 1, 0, 0x03] 3) 3 = [0x84, 1, 0, 0x03]"
  using masking_involution [of 3 "[0x84, 1, 0, 0x03]" 2] by (simp add: maskNum_def)

text \<open>
  \<open>Mask_makeMask\<close> refuses a mask number out of range with \<open>EINVAL\<close>. Otherwise the format
  information of level and mask can be read back from each of its two copies in the symbol,
  and every module outside of the copies is that of the masked frame.
\<close>

lemma Mask_makeMask_format:
  assumes "21 \<le> width" "length frame = width * width" "level \<le> QR_ECLEVEL_H"
  shows "if 0 \<le> msk \<and> msk < int maskNum
         then \<exists>m. Mask_makeMask width frame msk level = Inr m \<and> length m = width * width
                \<and> fmt_read (fmt_pos1 width) m = unat (QRspec_getFormatInfo msk level)
                \<and> fmt_read (fmt_pos2 width) m = unat (QRspec_getFormatInfo msk level)
                \<and> (\<forall>p. p < width * width \<and> p \<notin> fmt_area width
                     \<longrightarrow> m ! p = Mask_makeMaskedFrame width frame (nat msk) ! p)
         else Mask_makeMask width frame msk level = Inl EINVAL"
proof (cases "0 \<le> msk \<and> msk < int maskNum")
  case True
  then have i: "nat msk < maskNum" by auto
  show ?thesis
    using True put_format_nth [OF assms(1) length_makeMaskedFrame [OF i], of 15 "QRspec_getFormatInfo msk level"]
      fmt_read_put [OF assms(1) length_makeMaskedFrame [OF i] assms(3), of msk]
    by (simp add: Mask_makeMask_def writeFormatInformation_eq [OF assms(1)] Let_def
        length_makeMaskedFrame [OF i] fmt_area_def flip: Mask_makeMaskedFrame_def)
qed (auto simp: Mask_makeMask_def)

section \<open>Run lengths\<close>

text \<open>The array of the code holds the runs of a line, after \<open>-1\<close> when the first run is dark.\<close>

definition run_list :: "bool list \<Rightarrow> int list" where
  "run_list cells = (if cells \<noteq> [] \<and> hd cells then -1 # runs cells else runs cells)"

lemma run_list_snoc:
  "run_list (xs @ [a, b]) = (if a = b then butlast (run_list (xs @ [a])) @ [last (run_list (xs @ [a])) + 1]
                             else run_list (xs @ [a]) @ [1])"
  unfolding run_list_def by (cases xs) (auto simp: runs_snoc [of "_ # _", simplified] runs_snoc [of "[]", simplified])

lemma length_run_list: "length (run_list xs) \<le> Suc (length xs)"
  using length_runs [of xs] by (simp add: run_list_def)

definition cells :: "byte list \<Rightarrow> nat \<Rightarrow> nat \<Rightarrow> nat \<Rightarrow> bool list" where
  "cells frame off pitch n = map (\<lambda>i. dark frame (off + i * pitch)) [0..<n]"

lemma take_update_last: "i < length xs \<Longrightarrow> take (Suc i) (xs[i := v]) = take i xs @ [v]"
  by (simp add: take_Suc_conv_app_nth)

lemma calcRunLength_fold:
  fixes frame :: "byte list"
  defines "step \<equiv> \<lambda>pitch off i (head, rl).
              let p = off + i * pitch
              in if (frame ! p XOR frame ! (p - pitch)) AND 1 \<noteq> 0 then (head + 1, rl[head + 1 := 1 :: int])
                 else (head, rl[head := rl ! head + 1])"
  assumes "n < length runLength"  "1 \<le> n" "h0 = (if dark frame off then 1 else 0)"
    "rl0 = (if dark frame off then runLength[0 := -1] else runLength)[h0 := 1]"
  shows "case fold (step pitch off) [1..<n] (h0, rl0) of (h, rl) \<Rightarrow>
           length rl = length runLength \<and> Suc h = length (run_list (cells frame off pitch n))
         \<and> take (Suc h) rl = run_list (cells frame off pitch n)"
  using assms(3,2)
proof (induction n rule: nat_induct_at_least)
  case base
  then show ?case using assms(4,5)
    by (cases runLength) (auto simp: cells_def run_list_def take_Suc_conv_app_nth split: nat.splits list.splits)
next
  case (Suc n)
  obtain h rl where f: "fold (step pitch off) [1..<n] (h0, rl0) = (h, rl)" by (rule prod.exhaust)
  let ?c = "cells frame off pitch"
  have IH: "length rl = length runLength" "Suc h = length (run_list (?c n))" "take (Suc h) rl = run_list (?c n)"
    using Suc f by auto
  obtain k where k: "n = Suc k" using Suc.hyps by (cases n) auto
  have h: "Suc h < length rl" using IH(1,2) length_run_list [of "?c n"] Suc.prems by (simp add: cells_def)
  have p: "off + n * pitch - pitch = off + k * pitch" using k by simp
  have c: "?c (Suc n) = ?c k @ [dark frame (off + k * pitch), dark frame (off + n * pitch)]"
    "?c n = ?c k @ [dark frame (off + k * pitch)]"
    using k by (simp_all add: cells_def)
  have rl: "run_list (?c n) = take h rl @ [rl ! h]" using IH(3) h by (simp add: take_Suc_conv_app_nth)
  have snoc: "run_list (?c (Suc n)) =
      (if dark frame (off + k * pitch) = dark frame (off + n * pitch) then take h rl @ [rl ! h + 1]
       else take (Suc h) rl @ [1])"
    using run_list_snoc [of "?c k" "dark frame (off + k * pitch)" "dark frame (off + n * pitch)", folded c]
    unfolding rl IH(3) by simp
  have x: "((a :: byte) XOR b) AND 1 \<noteq> 0 \<longleftrightarrow> odd a \<noteq> odd b" for a b
    by (simp add: and_1_neq_0 even_xor_iff)
  have "fold (step pitch off) [1..<Suc n] (h0, rl0) = step pitch off n (h, rl)" using Suc.hyps f by simp
  also have "\<dots> = (if dark frame (off + k * pitch) = dark frame (off + n * pitch) then (h, rl[h := rl ! h + 1])
       else (Suc h, rl[Suc h := 1]))"
    by (simp add: step_def Let_def x p dark_def)
  finally show ?case using h IH(1) by (auto simp: snoc take_update_last)
qed

lemma calcRunLength_runs:
  fixes frame :: "byte list" and off dir :: nat
  assumes "1 \<le> width" "width < length runLength"
  defines "c \<equiv> cells frame off (if dir = 0 then 1 else width) width"
  shows "case Mask_calcRunLength width frame off dir runLength of (len, rl) \<Rightarrow>
           length rl = length runLength \<and> len = length (run_list c) \<and> take len rl = run_list c"
  using calcRunLength_fold [OF assms(2,1) refl refl, of frame off "if dir = 0 then 1 else width"]
  unfolding Mask_calcRunLength_def Let_def c_def dark_def and_1_neq_0
  by (auto split: prod.splits if_splits)

lemma calcN1N3_take:
  assumes "take len rl = xs" "len = length xs"
  shows "Mask_calcN1N3 len rl = Mask_calcN1N3 (length xs) xs"
proof -
  have "rl ! i = xs ! i" if "i < len" for i using nth_take [OF that, of rl] assms(1) by simp
  then have "n1n3_term len rl i = n1n3_term len xs i" if "i < len" for i
    using that by (simp add: n1n3_term_def Let_def cong: if_cong conj_cong disj_cong)
  then show ?thesis unfolding Mask_calcN1N3_def using assms(2) by (intro fold_cong) auto
qed

lemma calcN1N3_sum: "Mask_calcN1N3 len rl = (\<Sum>i \<leftarrow> [0..<len]. n1n3_term len rl i)"
proof -
  have "fold (\<lambda>i d. d + g i) ns a = a + (\<Sum>i \<leftarrow> ns. g i)" for g :: "nat \<Rightarrow> int" and ns a
    by (induction ns arbitrary: a) auto
  then show ?thesis by (simp add: Mask_calcN1N3_def)
qed

lemma run_list_nth:
  assumes "c \<noteq> []"
  shows "length (run_list c) = length (runs c) + of_bool (hd c)"
    "k < length (runs c) \<Longrightarrow> run_list c ! (k + of_bool (hd c)) = runs c ! k"
  using assms by (auto simp: run_list_def)

text \<open>One round of the loop of \<open>Mask_calcN1N3\<close>, on the array \<open>Mask_calcRunLength\<close> leaves.\<close>

lemma n1n3_term_runs:
  assumes c: "c \<noteq> []" and k: "k < length (runs c)"
  shows "n1n3_term (length (run_list c)) (run_list c) (k + of_bool (hd c)) =
     (if 5 \<le> runs c ! k then 3 + (runs c ! k - 5) else 0)
   + (if 2 \<le> k \<and> runs c ! k mod 3 = 0 \<and> finder_runs (runs c) (hd c) (k - 2) (runs c ! k div 3) then 40 else 0)"
proof -
  let ?b = "hd c" and ?rs = "runs c" and ?xs = "run_list c"
  define i where "i = k + of_bool ?b"
  have len: "length ?xs = length ?rs + of_bool ?b" using run_list_nth(1) [OF c] .
  have nth: "?xs ! (h + of_bool ?b) = ?rs ! h" if "h < length ?rs" for h using run_list_nth(2) [OF c that] .
  have "i AND 1 \<noteq> 0 \<longleftrightarrow> odd i" by (simp add: and_one_eq odd_iff_mod_2_eq_one)
  then have odd: "i AND 1 \<noteq> 0 \<longleftrightarrow> ?b = even k" by (auto simp: i_def)
  have core: "?xs ! i = ?rs ! k" using nth [OF k] by (simp add: i_def)
  have iff: "?b = even k \<and> (i \<ge> 3 \<and> i + 2 < length ?xs \<and> ?rs ! k mod 3 = 0)
      \<and> (?xs ! (i - 2) = fact \<and> ?xs ! (i - 1) = fact \<and> ?xs ! (i + 1) = fact \<and> ?xs ! (i + 2) = fact)
      \<and> ((i = 3 \<or> ?xs ! (i - 3) \<ge> 4 * fact) \<or> (i + 4 \<ge> length ?xs \<or> ?xs ! (i + 3) \<ge> 4 * fact))
    \<longleftrightarrow> 2 \<le> k \<and> ?rs ! k mod 3 = 0 \<and> finder_runs ?rs ?b (k - 2) fact" if "fact = ?rs ! k div 3" for fact
  proof (cases "?b = even k \<and> 2 \<le> k \<and> k + 2 < length ?rs \<and> ?rs ! k mod 3 = 0")
    case True
    then obtain j where j: "k = j + 2" by (metis add.commute le_Suc_ex)
    have bj: "?b \<longleftrightarrow> even j" and jl: "j + 4 < length ?rs" using True j by auto
    have "1 \<le> j + of_bool ?b" using bj by (cases j) auto
    then have i: "3 \<le> i" "i - 2 = j + of_bool ?b" "i - 1 = j + 1 + of_bool ?b" "i + 1 = j + 3 + of_bool ?b"
      "i + 2 = j + 4 + of_bool ?b" "i + 3 = j + 5 + of_bool ?b" "i + 2 < length ?xs"
      "i + 4 \<ge> length ?xs \<longleftrightarrow> length ?rs \<le> j + 6"
      using jl by (auto simp: i_def j len)
    have x: "?xs ! (i - 2) = ?rs ! j" "?xs ! (i - 1) = ?rs ! (j + 1)" "?xs ! (i + 1) = ?rs ! (j + 3)"
      "?xs ! (i + 2) = ?rs ! (j + 4)"
      unfolding i(2-5) by (rule nth, use jl in simp)+
    have r: "?rs ! (j + 2) = 3 * fact" using True that j by auto
    have "i = 3 \<longleftrightarrow> j \<le> 1" using bj unfolding i_def j by (cases ?b; cases "j = 0"; cases "j = 1") simp_all
    moreover have "?xs ! (i - 3) = ?rs ! (j - 1)" if "\<not> j \<le> 1"
    proof -
      have "i - 3 = j - 1 + of_bool ?b" using that by (simp add: i_def j)
      then show ?thesis using nth [of "j - 1"] jl by simp
    qed
    ultimately have q: "i = 3 \<or> ?xs ! (i - 3) \<ge> 4 * fact \<longleftrightarrow> j \<le> 1 \<or> 4 * fact \<le> ?rs ! (j - 1)" by metis
    have q': "i + 4 \<ge> length ?xs \<or> ?xs ! (i + 3) \<ge> 4 * fact \<longleftrightarrow> length ?rs \<le> j + 6 \<or> 4 * fact \<le> ?rs ! (j + 5)"
      unfolding i(6,8) using nth [of "j + 5"] by (cases "length ?rs \<le> j + 6") simp_all
    have "k - 2 = j" using j by simp
    have "?b = even k" "2 \<le> k" "?rs ! k mod 3 = 0" using True by blast+
    note holds = this [THEN eqTrueI] bj [THEN eqTrueI] jl [THEN eqTrueI] i(1,7) [THEN eqTrueI] r [THEN eqTrueI]
    show ?thesis
      by (simp only: finder_runs_def \<open>k - 2 = j\<close> x q q' holds simp_thms conj_assoc disj_assoc)
  next
    case False
    have "2 \<le> k" if "?b = even k" "i \<ge> 3" using that by (cases ?b) (auto simp: i_def le_less)
    then have l: "\<not> (?b = even k \<and> (i \<ge> 3 \<and> i + 2 < length ?xs \<and> ?rs ! k mod 3 = 0))"
      using False by (auto simp: i_def len)
    have r: "\<not> (2 \<le> k \<and> ?rs ! k mod 3 = 0 \<and> finder_runs ?rs ?b (k - 2) fact)"
      using False by (auto simp: finder_runs_def)
    from l r show ?thesis by metis
  qed
  have nest: "(if p then if a then if b then if c then x else if d then x else y else y else y else y)
      = (if p \<and> a \<and> b \<and> (c \<or> d) then x else y)" for p a b c d and x y :: int
    by simp
  show ?thesis
    unfolding n1n3_term_def Let_def i_def [symmetric] odd core N1_def N3_def nest iff [OF refl] ..
qed


lemma calcN1N3_penalty: "Mask_calcN1N3 (length (run_list c)) (run_list c) = line_penalty c"
proof (cases "c = []")
  case True
  then show ?thesis by (simp add: Mask_calcN1N3_def run_list_def line_penalty_def)
next
  case False
  let ?xs = "run_list c"
  have head: "n1n3_term len ?xs 0 = 0" if "hd c" for len
    using that False by (simp add: n1n3_term_def run_list_def)
  have "Mask_calcN1N3 (length ?xs) ?xs = (\<Sum>i < length ?xs. n1n3_term (length ?xs) ?xs i)"
    by (simp add: calcN1N3_sum interv_sum_list_conv_sum_set_nat atLeast0LessThan)
  also have "\<dots> = line_penalty c"
    using line_penalty_runs [OF False] n1n3_term_runs [OF False]
    by (cases "hd c") (simp_all add: run_list_nth(1) [OF False] sum.lessThan_Suc_shift head del: sum.lessThan_Suc)
  finally show ?thesis .
qed

section \<open>The penalty of a symbol\<close>

lemma run_fold:
  assumes "1 \<le> width" "width < length rl"
  shows "case fold (\<lambda>y (demerit, rl).
              let (len, rl') = Mask_calcRunLength width frame (g y) dir rl
              in (demerit + Mask_calcN1N3 len rl', rl')) ys (d, rl) of (d', rl') \<Rightarrow>
           length rl' = length rl
         \<and> d' = d + (\<Sum>y \<leftarrow> ys. line_penalty (cells frame (g y) (if dir = 0 then 1 else width) width))"
  using assms(2)
proof (induction ys arbitrary: d rl)
  case (Cons y ys)
  obtain len rl1 where r: "Mask_calcRunLength width frame (g y) dir rl = (len, rl1)" by (rule prod.exhaust)
  note c = calcRunLength_runs [OF assms(1) Cons.prems, of frame "g y" dir, unfolded r, simplified]
  have "Mask_calcN1N3 len rl1 = line_penalty (cells frame (g y) (if dir = 0 then 1 else width) width)"
    unfolding calcN1N3_penalty [symmetric] using calcN1N3_take [of len rl1] c by auto
  with Cons.IH [of rl1 "d + Mask_calcN1N3 len rl1"] Cons.prems c show ?case
    by (auto simp: r split: prod.splits)
qed simp

text \<open>
  Rules 1 to 3 for a symbol: lines are its rows and columns, blocks are two by two modules of one
  colour, which cost 3 points each.
\<close>

definition one_colour :: "nat \<Rightarrow> byte list \<Rightarrow> nat \<Rightarrow> nat \<Rightarrow> bool" where
  "one_colour w frame x y =
     (dark frame (y * w + x) = dark frame (y * w + (x - 1)) \<and> dark frame (y * w + x) = dark frame ((y - 1) * w + x)
    \<and> dark frame (y * w + x) = dark frame ((y - 1) * w + (x - 1)))"

definition symbol_penalty :: "nat \<Rightarrow> byte list \<Rightarrow> int" where
  "symbol_penalty w frame =
     (\<Sum>(y, x) \<leftarrow> List.product [1..<w] [1..<w]. if one_colour w frame x y then 3 else 0)
   + (\<Sum>y \<leftarrow> [0..<w]. line_penalty (cells frame (y * w) 1 w))
   + (\<Sum>x \<leftarrow> [0..<w]. line_penalty (cells frame x w w))"

lemma calcN2_blocks:
  "Mask_calcN2 w frame
     = (\<Sum>(y, x) \<leftarrow> List.product [1..<w] [1..<w]. if one_colour w frame x y then 3 else 0)"
proof -
  have b: "((a AND b AND c AND d) OR ((a OR b OR c OR d) XOR 1)) AND 1 \<noteq> 0
      \<longleftrightarrow> odd a = odd b \<and> odd a = odd c \<and> odd a = odd d" for a b c d :: byte
    by (auto simp: and_1_neq_0 even_or_iff even_and_iff even_xor_iff)
  have idx: "y * w + x - 1 = y * w + (x - 1)" "y * w + x - w = (y - 1) * w + x"
    "(y - 1) * w + x - 1 = (y - 1) * w + (x - 1)" if "1 \<le> x" "1 \<le> y" for x y
    using that by (cases y; cases x; simp)+
  have step: "(let p = y * w + x;
             b22 = frame ! p AND frame ! (p - 1) AND frame ! (p - w) AND frame ! (p - w - 1);
             w22 = frame ! p OR frame ! (p - 1) OR frame ! (p - w) OR frame ! (p - w - 1)
         in if (b22 OR (w22 XOR 1)) AND 1 \<noteq> 0 then demerit + N2 else demerit)
       = (if one_colour w frame x y then demerit + N2 else demerit)" if "1 \<le> x" "1 \<le> y" for x y demerit
    unfolding Let_def b idx [OF that] one_colour_def dark_def ..
  have "fold (\<lambda>(y, x) demerit. if P x y then demerit + N2 else demerit) ps d
       = d + (\<Sum>(y, x) \<leftarrow> ps. if P x y then N2 else 0)" for P :: "nat \<Rightarrow> nat \<Rightarrow> bool" and ps d
    by (induction ps arbitrary: d) auto
  from this [of "one_colour w frame" "List.product [1..<w] [1..<w]" 0] show ?thesis
    unfolding Mask_calcN2_def N2_def [symmetric] by (subst fold_cong [OF refl refl]) (use step in auto)
qed

lemma evaluateSymbol_penalty:
  assumes "1 \<le> w" "w < length junk"
  shows "Mask_evaluateSymbol junk w frame = symbol_penalty w frame"
proof -
  note f1 = run_fold [OF assms, where frame = frame and g = "\<lambda>y. y * w" and dir = 0 and ys = "[0..<w]" and d = "Mask_calcN2 w frame"]
  obtain d1 rl1 where r1: "fold (\<lambda>y (demerit, rl).
              let (len, rl') = Mask_calcRunLength w frame (y * w) 0 rl
              in (demerit + Mask_calcN1N3 len rl', rl')) [0..<w] (Mask_calcN2 w frame, junk) = (d1, rl1)"
    by (rule prod.exhaust)
  have "w < length rl1" using f1 assms(2) unfolding r1 by simp
  note f2 = run_fold [OF assms(1) this, where frame = frame and g = "\<lambda>x. x" and dir = 1 and ys = "[0..<w]" and d = d1]
  obtain d2 rl2 where r2: "fold (\<lambda>x (demerit, rl).
              let (len, rl') = Mask_calcRunLength w frame x 1 rl
              in (demerit + Mask_calcN1N3 len rl', rl')) [0..<w] (d1, rl1) = (d2, rl2)"
    by (rule prod.exhaust)
  have "Mask_evaluateSymbol junk w frame = d2"
    using r1 r2 by (simp add: Mask_evaluateSymbol_def Let_def)
  then show ?thesis using f1 f2 unfolding r1 r2 by (simp add: symbol_penalty_def calcN2_blocks)
qed

section \<open>Bounds of the penalty\<close>

lemma n1n3_term_bound:
  assumes "i < length xs" "xs ! i = -1 \<or> 1 \<le> xs ! i"
  shows "0 \<le> n1n3_term (length xs) xs i \<and> n1n3_term (length xs) xs i \<le> xs ! i + 41"
proof -
  have "\<exists>b. n1n3_term (length xs) xs i = (if xs ! i \<ge> 5 then N1 + (xs ! i - 5) else 0) + b \<and> (b = 0 \<or> b = N3)"
    unfolding n1n3_term_def Let_def by (intro exI conjI, rule refl, simp)
  then show ?thesis using assms(2) by (elim exE conjE disjE) (simp_all add: N1_def N3_def)
qed

lemma sum_list_bound:
  "(\<And>x. x \<in> set xs \<Longrightarrow> f x \<le> (c :: int)) \<Longrightarrow> (\<Sum>x \<leftarrow> xs. f x) \<le> int (length xs) * c"
proof (induction xs)
  case (Cons a xs)
  have "f a \<le> c" "(\<Sum>x \<leftarrow> xs. f x) \<le> int (length xs) * c" using Cons by simp_all
  then show ?case by (simp add: algebra_simps)
qed simp

lemma line_penalty_bound:
  shows "0 \<le> line_penalty c \<and> line_penalty c \<le> 42 * int (length c) + 41"
proof -
  let ?r = "run_list c"
  have r: "?r ! i = -1 \<or> 1 \<le> ?r ! i" if "i < length ?r" for i
    using that runs_bounds [of c] nth_mem [of "i - 1" "runs c"] by (auto simp: run_list_def nth_Cons' split: if_splits)
  have t: "0 \<le> n1n3_term (length ?r) ?r i \<and> n1n3_term (length ?r) ?r i \<le> ?r ! i + 41" if "i < length ?r" for i
    using n1n3_term_bound [OF that r [OF that]] .
  have "line_penalty c \<le> (\<Sum>i \<leftarrow> [0..<length ?r]. ?r ! i + 41)"
    unfolding calcN1N3_penalty [symmetric] calcN1N3_sum by (rule sum_list_mono) (use t in auto)
  also have "\<dots> = (\<Sum>r \<leftarrow> ?r. r) + 41 * int (length ?r)"
  proof -
    have "(\<Sum>i \<leftarrow> [0..<length ?r]. ?r ! i) = (\<Sum>r \<leftarrow> ?r. r)"
      using arg_cong [OF map_nth [of ?r], of sum_list] by simp
    then show ?thesis by (simp add: sum_list_addf sum_list_triv)
  qed
  also have "(\<Sum>r \<leftarrow> ?r. r) \<le> int (length c)"
    using runs_bounds [of c] by (simp add: run_list_def)
  also have "41 * int (length ?r) \<le> 41 * int (length c) + 41" using length_run_list [of c] by simp
  finally have "line_penalty c \<le> 42 * int (length c) + 41" by simp
  moreover have "0 \<le> line_penalty c"
    unfolding calcN1N3_penalty [symmetric] calcN1N3_sum by (rule sum_list_nonneg) (use t in auto)
  ultimately show ?thesis by simp
qed

lemma length_cells [simp]: "length (cells frame off pitch n) = n"
  by (simp add: cells_def)

lemma symbol_penalty_bound:
  assumes "w \<le> 177"
  shows "symbol_penalty w frame \<le> 3000000"
proof -
  have w: "int w \<le> 177" using assms by simp
  have "(\<Sum>(y, x) \<leftarrow> List.product [1..<w] [1..<w]. if one_colour w frame x y then 3 else 0 :: int)
      \<le> int (length (List.product [1..<w] [1..<w])) * 3"
    by (rule sum_list_bound) auto
  also have "\<dots> \<le> 177 * 177 * 3"
  proof -
    have "(w - 1) * (w - 1) \<le> 177 * 177" using assms by (intro mult_le_mono) auto
    then have "length (List.product [1..<w] [1..<w]) \<le> 31329" by simp
    then show ?thesis by linarith
  qed
  finally have blocks: "(\<Sum>(y, x) \<leftarrow> List.product [1..<w] [1..<w]. if one_colour w frame x y then 3 else 0 :: int) \<le> 177 * 177 * 3" .
  have lines: "(\<Sum>y \<leftarrow> [0..<w]. line_penalty (cells frame (g y) p w)) \<le> 177 * 7475" for g p
  proof -
    have "line_penalty (cells frame (g y) p w) \<le> 7475" for y
      using line_penalty_bound [of "cells frame (g y) p w"] w by simp
    then have "(\<Sum>y \<leftarrow> [0..<w]. line_penalty (cells frame (g y) p w)) \<le> int (length [0..<w]) * 7475"
      by (intro sum_list_bound)
    also have "\<dots> \<le> 177 * 7475" using w by simp
    finally show ?thesis .
  qed
  show ?thesis
    using blocks lines [of "\<lambda>y. y * w" 1] lines [of "\<lambda>x. x" w] unfolding symbol_penalty_def by linarith
qed

definition dark_count :: "byte list \<Rightarrow> nat" where
  "dark_count frame = length (filter odd frame)"

text \<open>
  Rule 4: the percentage of dark modules is rounded to the nearest whole number, halves up, and each
  full step of 5 by which it is away from 50 costs 10 points.
\<close>

definition dark_percentage :: "nat \<Rightarrow> nat \<Rightarrow> int" where
  "dark_percentage w k = (2 * (100 * int k) + int (w * w)) div (2 * int (w * w))"

definition balance_penalty :: "nat \<Rightarrow> nat \<Rightarrow> int" where
  "balance_penalty w k = 10 * (\<bar>dark_percentage w k - 50\<bar> div 5)"

lemma dark_percentage_eq:
  "(200 * int k + int w * int w) div (int w * int w) div 2 = dark_percentage w k"
  by (simp add: dark_percentage_def mult.commute [of 2] flip: zdiv_zmult2_eq)

lemma dark_percentage_nearest:
  assumes "1 \<le> w"
  shows "\<bar>2 * (dark_percentage w k * int (w * w) - 100 * int k)\<bar> \<le> int (w * w)"
proof -
  define n where "n = int (w * w)"
  have n: "0 < n" using assms by (simp add: n_def del: of_nat_mult)
  have "2 * (100 * int k) + n = dark_percentage w k * (2 * n) + (2 * (100 * int k) + n) mod (2 * n)"
    by (simp only: dark_percentage_def n_def div_mult_mod_eq)
  moreover have "0 \<le> (2 * (100 * int k) + n) mod (2 * n)" "(2 * (100 * int k) + n) mod (2 * n) < 2 * n" using n by simp_all
  ultimately show ?thesis unfolding n_def [symmetric] by (simp add: algebra_simps)
qed

definition total_penalty :: "nat \<Rightarrow> byte list \<Rightarrow> int" where
  "total_penalty w frame = balance_penalty w (dark_count frame) + symbol_penalty w frame"

lemma balance_penalty_bound:
  assumes "1 \<le> w" "k \<le> w * w"
  shows "balance_penalty w k \<le> 1000"
proof -
  define a b where "a = int k" and "b = int w * int w"
  have b: "0 < b" "0 \<le> a" "a \<le> b" using assms by (simp_all add: a_def b_def flip: of_nat_mult)
  have "(200 * a + b) div b \<le> 201" "0 \<le> (200 * a + b) div b"
    using b zdiv_mono1 [of "200 * a + b" "201 * b" b] by (simp_all add: pos_imp_zdiv_nonneg_iff)
  then have "\<bar>(200 * a + b) div b div 2 - 50\<bar> \<le> 150" by linarith
  then show ?thesis unfolding balance_penalty_def dark_percentage_eq [symmetric] a_def [symmetric] b_def [symmetric] by linarith
qed

lemma sum_dark: "(\<Sum>m \<leftarrow> frame. unat (m AND 1)) = dark_count frame" for frame :: "byte list"
  by (induction frame) (auto simp: dark_count_def and_one_eq odd_iff_mod_2_eq_one even_iff_mod_2_eq_zero)

lemma dark_count_update:
  assumes "p < length frame" "even (frame ! p)"
  shows "dark_count (frame[p := v]) = dark_count frame + of_bool (odd v)"
proof -
  have "frame = take p frame @ frame ! p # drop (Suc p) frame" using assms(1) by (simp add: id_take_nth_drop)
  then have "dark_count frame = dark_count (take p frame @ frame ! p # drop (Suc p) frame)" by simp
  then show ?thesis using assms by (simp add: dark_count_def upd_conv_take_nth_drop)
qed

lemma dark_count_put_format:
  assumes "21 \<le> w" "length frame = w * w" "\<forall>p \<in> fmt_area w. even (frame ! p)" "n \<le> 15"
  shows "dark_count (put_format w f [0..<n] frame) = dark_count frame + (\<Sum>i < n. if bit f i then 2 else 0)"
  using assms(4)
proof (induction n)
  case (Suc n)
  let ?g = "put_format w f [0..<n] frame"
  have n: "n < 15" using Suc.prems by simp
  have put: "put_format w f ([0..<n] @ [n]) frame = ?g[fmt_pos1 w n := fmt_val f n, fmt_pos2 w n := fmt_val f n]"
    by (simp add: put_format_def)
  have "fmt_pos1 w n \<notin> fmt_pos1 w ` {..<n} \<union> fmt_pos2 w ` {..<n}"
    "fmt_pos2 w n \<notin> fmt_pos1 w ` {..<n} \<union> fmt_pos2 w ` {..<n}"
    using n by (auto simp: fmt_pos_inj [OF assms(1)] dest: fmt_pos_inj(3) [OF assms(1), THEN notE, OF _ _ sym, rotated 2])
  then have "?g ! fmt_pos1 w n = frame ! fmt_pos1 w n" "?g ! fmt_pos2 w n = frame ! fmt_pos2 w n"
    using put_format_nth [OF assms(1,2), of n f] n by auto
  moreover have "fmt_pos1 w n \<in> fmt_area w" "fmt_pos2 w n \<in> fmt_area w" using n by (auto simp: fmt_area_def)
  ultimately have "even (?g ! fmt_pos1 w n)" "even (?g ! fmt_pos2 w n)" using assms(3) by auto
  then have "dark_count (put_format w f [0..<Suc n] frame) = dark_count ?g + (if bit f n then 2 else 0)"
    using fmt_pos_less [OF assms(1) n] fmt_pos_inj(3) [OF assms(1) n n] assms(2)
    by (simp add: put dark_count_update)
  then show ?case using Suc by simp
qed (simp add: put_format_def)

section \<open>The choice of the mask\<close>

interpretation min_demerit: candidate_choice "(<) :: int \<Rightarrow> int \<Rightarrow> bool"
  by unfold_locales auto

definition light_format_area :: "nat \<Rightarrow> byte list \<Rightarrow> bool" where
  "light_format_area w frame = (\<forall>i < 15. \<forall>p \<in> {fmt_pos1 w i, fmt_pos2 w i}. \<not> is_data frame p \<and> even (frame ! p))"

lemma light_format_areaD:
  assumes "light_format_area w frame" "p \<in> fmt_area w"
  shows "\<not> is_data frame p" "even (frame ! p)"
  using assms by (auto simp: light_format_area_def fmt_area_def)

lemma fmt_area_less: "21 \<le> w \<Longrightarrow> p \<in> fmt_area w \<Longrightarrow> p < w * w"
  using fmt_pos_less [of w] by (auto simp: fmt_area_def)

lemma Mask_demerit_total:
  assumes "21 \<le> w" "w \<le> 177" "length frame = w * w" "light_format_area w frame" "i < maskNum"
  obtains m where "Mask_makeMask w frame (int i) level = Inr m" "length m = w * w"
    "Mask_demerit w frame level i = (total_penalty w m, m)"
proof -
  let ?f = "QRspec_getFormatInfo (int i) level"
  let ?d = "Mask_makeMaskedFrame w frame i"
  let ?m = "put_format w ?f [0..<15] ?d"
  have d: "(maskMakers ! i) w frame = (dark_count ?d, ?d)"
    using assms(5) by (simp add: Mask_makeMaskedFrame_def maskMakers_eq Let_def sum_dark)
  have len: "length ?d = w * w" using assms(5) by (rule length_makeMaskedFrame)
  have "even (?d ! p)" if "p \<in> fmt_area w" for p
    using light_format_areaD [OF assms(4) that] fmt_area_less [OF assms(1) that] assms(5)
    by (simp add: makeMaskedFrame_nth apply_mask_def)
  then have k: "dark_count ?m = dark_count ?d + (\<Sum>i < 15. if bit ?f i then 2 else 0)"
    using dark_count_put_format [OF assms(1) len, of 15 ?f] by auto
  have "Mask_evaluateSymbol (replicate (QRSPEC_WIDTH_MAX + 1) 0) w ?m = symbol_penalty w ?m"
    using assms(1,2) by (intro evaluateSymbol_penalty) (simp_all add: QRSPEC_WIDTH_MAX_def)
  then have "Mask_demerit w frame level i = (total_penalty w ?m, ?m)"
    unfolding Mask_demerit_def Let_def d prod.case writeFormatInformation_eq [OF assms(1)]
    by (simp add: total_penalty_def balance_penalty_def k N4_def flip: dark_percentage_eq)
  moreover have "Mask_makeMask w frame (int i) level = Inr ?m"
    using assms(5) by (simp add: Mask_makeMask_def d writeFormatInformation_eq [OF assms(1)] Let_def)
  ultimately show ?thesis using that [of ?m] len by simp
qed

lemma total_penalty_less:
  assumes "1 \<le> w" "w \<le> 177" "length m = w * w"
  shows "total_penalty w m < INT_MAX"
proof -
  have "dark_count m \<le> w * w" using length_filter_le [of odd m] assms(3) by (simp add: dark_count_def)
  then show ?thesis using balance_penalty_bound [OF assms(1)] symbol_penalty_bound [OF assms(2), of m]
    unfolding total_penalty_def INT_MAX_def by (smt (verit))
qed

lemma Mask_mask_ok:
  assumes "21 \<le> width" "width \<le> QRSPEC_WIDTH_MAX" "length frame = width * width"
    and "light_format_area width frame"
  shows "\<exists>i < maskNum. \<exists>m. Mask_mask width frame level = Inr m \<and> Mask_makeMask width frame (int i) level = Inr m
     \<and> (\<forall>j < maskNum. \<exists>m'. Mask_makeMask width frame (int j) level = Inr m'
          \<and> total_penalty width m \<le> total_penalty width m'
          \<and> (j < i \<longrightarrow> total_penalty width m < total_penalty width m'))"
proof -
  have w: "width \<le> 177" using assms(2) by (simp add: QRSPEC_WIDTH_MAX_def)
  let ?D = "Mask_demerit width frame level"
  have D: "\<exists>m. Mask_makeMask width frame (int i) level = Inr m \<and> ?D i = (total_penalty width m, m)
      \<and> total_penalty width m < INT_MAX" if "i < maskNum" for i
    using Mask_demerit_total [OF assms(1) w assms(3,4) that] total_penalty_less [OF _ w] assms(1)
    by (metis dual_order.trans one_le_numeral)
  have "0 < maskNum" "fst (?D 0) < INT_MAX" using D [of 0] by (auto simp: maskNum_def)
  then show ?thesis
  proof (rule min_demerit.keep_best_exists [where cand = ?D])
    fix i assume i: "i < maskNum" "\<And>j. j < maskNum \<Longrightarrow> \<not> fst (?D j) < fst (?D i)"
      "\<And>j. j < i \<Longrightarrow> fst (?D i) < fst (?D j)"
      and f: "fold (\<lambda>i (s, m). let (s', m') = ?D i in if s' < s then (s', Some m') else (s, m)) [0..<maskNum] (INT_MAX, None)
         = (fst (?D i), Some (snd (?D i)))"
    from D [OF i(1)] obtain m where m: "Mask_makeMask width frame (int i) level = Inr m"
      "?D i = (total_penalty width m, m)" by blast
    have "Mask_mask width frame level = Inr m" unfolding Mask_mask_def f by (simp add: m)
    moreover have "\<exists>m'. Mask_makeMask width frame (int j) level = Inr m' \<and> total_penalty width m \<le> total_penalty width m'
        \<and> (j < i \<longrightarrow> total_penalty width m < total_penalty width m')" if "j < maskNum" for j
      using D [OF that] i(2) [OF that] i(3) [of j] by (auto simp: m)
    ultimately show ?thesis using i(1) m by blast
  qed
qed

text \<open>
  C16. \<open>Mask_mask\<close> always returns a symbol, and it is the best one: it is the symbol that
  \<open>Mask_makeMask\<close> builds for some pattern, no other pattern has a smaller penalty and every
  pattern of a smaller number has a greater one. The penalty is that of the four rules of the
  standard, stated on the modules of the finished symbol with its format information:
  stretches of five and more modules of one colour and finder-like patterns with a light
  stretch beside them, in every row and column (\<open>line_penalty\<close>, which does not mention the run
  length arrays of the code), two by two blocks of one colour, and the rounded percentage of dark
  modules. The frame has to keep its format area light, as the frames of the library do.
\<close>

theorem Mask_mask_best:
  assumes "21 \<le> width" "width \<le> QRSPEC_WIDTH_MAX" "length frame = width * width"
    and "light_format_area width frame"
  shows "\<exists>i < maskNum. \<exists>m. Mask_mask width frame level = Inr m \<and> Mask_makeMask width frame (int i) level = Inr m
     \<and> (\<forall>j < maskNum. \<exists>m'. Mask_makeMask width frame (int j) level = Inr m'
          \<and> total_penalty width m \<le> total_penalty width m'
          \<and> (j < i \<longrightarrow> total_penalty width m < total_penalty width m'))"
  by (rule Mask_mask_ok [OF assms])

theorem Mask_mask_best_witness:
  "\<exists>m m'. Mask_mask 21 (replicate (21 * 21) 0x84) QR_ECLEVEL_L = Inr m
     \<and> Mask_makeMask 21 (replicate (21 * 21) 0x84) 7 QR_ECLEVEL_L = Inr m'
     \<and> total_penalty 21 m \<le> total_penalty 21 m'"
proof -
  let ?f = "replicate (21 * 21) 0x84 :: byte list"
  have l: "light_format_area 21 ?f"
    using fmt_pos_less [of 21] by (auto simp: light_format_area_def is_data_def)
  have "21 \<le> QRSPEC_WIDTH_MAX" "7 < maskNum" by (simp_all add: QRSPEC_WIDTH_MAX_def maskNum_def)
  then show ?thesis
    using Mask_mask_best [of 21 ?f QR_ECLEVEL_L, OF _ _ _ l]
    by (metis le_refl length_replicate of_nat_numeral)
qed

end
