(* ===== verification/QR_MMask.thy ===== *)
theory QR_MMask
  imports QR_MSpec
begin

text \<open>
  \<open>mmask.c\<close>: the four mask patterns of Micro QR Code, its format information and the
  choice of the pattern with the highest score.
\<close>

definition MMask_writeFormatInformation :: "nat \<Rightarrow> nat \<Rightarrow> byte list \<Rightarrow> int \<Rightarrow> QRecLevel \<Rightarrow> byte list" where
  "MMask_writeFormatInformation version width frame msk level =
     (let format = MQRspec_getFormatInfo msk version level;
          (format1, f1) = fold (\<lambda>i (format, f).
              (drop_bit 1 format, f[width * (i + 1) + 8 := 0x84 OR (ucast format AND 1)]))
            [0..<8] (format, frame)
      in snd (fold (\<lambda>i (format, f).
              (drop_bit 1 format, f[width * 8 + 7 - i := 0x84 OR (ucast format AND 1)]))
            [0..<7] (format1, f1)))"

definition MMASKMAKER :: "(nat \<Rightarrow> nat \<Rightarrow> nat) \<Rightarrow> nat \<Rightarrow> byte list \<Rightarrow> byte list" where
  "MMASKMAKER e width s =
     map (\<lambda>(y, x).
         let c = s ! (y * width + x)
         in if c AND 0x80 \<noteq> 0 then c else c XOR (if e x y = 0 then 1 else 0))
       (List.product [0..<width] [0..<width])"

definition MMask_mask0 :: "nat \<Rightarrow> byte list \<Rightarrow> byte list" where
  "MMask_mask0 = MMASKMAKER (\<lambda>x y. y AND 1)"

definition MMask_mask1 :: "nat \<Rightarrow> byte list \<Rightarrow> byte list" where
  "MMask_mask1 = MMASKMAKER (\<lambda>x y. (y div 2 + x div 3) AND 1)"

definition MMask_mask2 :: "nat \<Rightarrow> byte list \<Rightarrow> byte list" where
  "MMask_mask2 = MMASKMAKER (\<lambda>x y. (((x * y) AND 1) + (x * y) mod 3) AND 1)"

definition MMask_mask3 :: "nat \<Rightarrow> byte list \<Rightarrow> byte list" where
  "MMask_mask3 = MMASKMAKER (\<lambda>x y. (((x + y) AND 1) + (x * y) mod 3) AND 1)"

definition mqr_maskMakers :: "(nat \<Rightarrow> byte list \<Rightarrow> byte list) list" where
  "mqr_maskMakers = [MMask_mask0, MMask_mask1, MMask_mask2, MMask_mask3]"

definition mqr_maskNum :: nat where "mqr_maskNum = 4"

definition MMask_makeMaskedFrame :: "nat \<Rightarrow> byte list \<Rightarrow> nat \<Rightarrow> byte list" where
  "MMask_makeMaskedFrame width frame msk = (mqr_maskMakers ! msk) width frame"

definition MMask_makeMask :: "nat \<Rightarrow> byte list \<Rightarrow> int \<Rightarrow> QRecLevel \<Rightarrow> byte list res" where
  "MMask_makeMask version frame msk level =
     (if msk < 0 \<or> msk \<ge> int mqr_maskNum then Inl EINVAL
      else let width = MQRspec_getWidth version
           in Inr (MMask_writeFormatInformation version width
                ((mqr_maskMakers ! nat msk) width frame) msk level))"

definition MMask_evaluateSymbol :: "nat \<Rightarrow> byte list \<Rightarrow> nat" where
  "MMask_evaluateSymbol width frame =
     (let sum1 = fold (\<lambda>x s. s + unat (frame ! (width * (width - 1) + x) AND 1)) [1..<width] 0;
          sum2 = fold (\<lambda>y s. s + unat (frame ! (width * 2 - 1 + width * (y - 1)) AND 1)) [1..<width] 0
      in if sum1 \<le> sum2 then sum1 * 16 + sum2 else sum2 * 16 + sum1)"

definition MMask_candidate :: "nat \<Rightarrow> byte list \<Rightarrow> QRecLevel \<Rightarrow> nat \<Rightarrow> byte list" where
  "MMask_candidate version frame level i =
     (let width = MQRspec_getWidth version
      in MMask_writeFormatInformation version width ((mqr_maskMakers ! i) width frame) (int i) level)"

definition MMask_mask :: "nat \<Rightarrow> byte list \<Rightarrow> QRecLevel \<Rightarrow> byte list res" where
  "MMask_mask version frame level =
     (let width = MQRspec_getWidth version
      in case snd (fold (\<lambda>i (maxScore, bestMask).
              let m = MMask_candidate version frame level i;
                  score = MMask_evaluateSymbol width m
              in if score > maxScore then (score, Some m) else (maxScore, bestMask))
            [0..<mqr_maskNum] (0, None)) of
           None \<Rightarrow> Inl ENOERR
         | Some m \<Rightarrow> Inr m)"

end
