(* ===== verification/QR_Symbol.thy ===== *)
theory QR_Symbol
  imports QR_Frame QR_Mask QR_MMask
begin

text \<open>
  Frames, filler and masks together: what a frame filled with codewords and masked shows, and
  that the codewords can be read back from it.
\<close>

section \<open>The format area of a frame\<close>

lemma paints_outside: "paints V n S g \<Longrightarrow> length f = n \<Longrightarrow> p < n \<Longrightarrow> p \<notin> S \<Longrightarrow> g f ! p = f ! p"
  unfolding paints_def by metis

lemma paints_inside: "paints V n S g \<Longrightarrow> length f = n \<Longrightarrow> p < n \<Longrightarrow> p \<in> S \<Longrightarrow> V (g f ! p)"
  unfolding paints_def by metis

lemma paints_length: "paints V n S g \<Longrightarrow> length f = n \<Longrightarrow> length (g f) = n"
  unfolding paints_def by metis

definition fmt_xy :: "nat \<Rightarrow> (nat \<times> nat) set" where
  "fmt_xy w = ({0..<9} - {6}) \<times> {8} \<union> {w - 8..<w} \<times> {8} \<union> {8} \<times> ({0..<8} - {6}) \<union> {8} \<times> {w - 7..<w}"

lemma fmt_area_xy:
  assumes "21 \<le> w" "p \<in> fmt_area w"
  shows "p \<in> area w (fmt_xy w)"
proof -
  have in_area: "y * w + x \<in> area w (fmt_xy w)" if "(x, y) \<in> fmt_xy w" for x y
    unfolding area_def using that by (intro image_eqI [of _ _ "(x, y)"]) simp_all
  have "fmt_pos1 w i \<in> area w (fmt_xy w)" "fmt_pos2 w i \<in> area w (fmt_xy w)" if "i < 15" for i
    unfolding fmt_pos_xy by (rule in_area; use assms(1) that in \<open>auto simp: fmt_xy_def\<close>)+
  then show ?thesis using assms(2) by (auto simp: fmt_area_def)
qed

lemma area_disjoint:
  assumes "A \<subseteq> {..<w} \<times> {..<w}" "B \<subseteq> {..<w} \<times> {..<w}" "A \<inter> B = {}"
  shows "area w A \<inter> area w B = {}"
  unfolding area_def using inj_on_image_Int [OF inj_pos assms(1,2)] assms(3) by simp

lemma fmt_xy_disjoint:
  assumes "1 \<le> v" "v \<le> 40" "w = QRspec_getWidth v"
  shows "fmt_xy w \<inter> ({8..<w - 8} \<times> {6} \<union> {6} \<times> {8..<w - 8}) = {}"
    "fmt_xy w \<inter> (if 2 \<le> v then align_area v w else {}) = {}"
    "fmt_xy w \<inter> (if 7 \<le> v then version_area w else {}) = {}" "fmt_xy w \<inter> {(8, w - 8)} = {}"
proof -
  have w: "21 \<le> w" using width_eq [OF assms(1,2)] assms(1,3) by simp
  have "fmt_xy w \<subseteq> corner_area w" using w by (auto simp: fmt_xy_def corner_area_def)
  then show "fmt_xy w \<inter> (if 2 \<le> v then align_area v w else {}) = {}"
    using corner_disjoint(1) [OF _ assms(2,3) refl] by auto
  show "fmt_xy w \<inter> ({8..<w - 8} \<times> {6} \<union> {6} \<times> {8..<w - 8}) = {}"
    "fmt_xy w \<inter> (if 7 \<le> v then version_area w else {}) = {}" "fmt_xy w \<inter> {(8, w - 8)} = {}"
    using w by (auto simp: fmt_xy_def version_area_def)
qed

lemma createFrame_format:
  assumes "1 \<le> v" "v \<le> 40" "w = QRspec_getWidth v" "p \<in> fmt_area w"
  shows "QRspec_createFrame v ! p = 0x84"
proof -
  have w: "21 \<le> w" using width_eq [OF assms(1,2)] assms(1,3) by simp
  note al = marked_align [OF assms(1,2), folded assms(3)] and ver = marked_version [OF w, of v]
  note ti = marked_timing [of w, unfolded separator_pieces(4) [OF w]]
  note fo = marked_format_area [of w "\<lambda>v. v = 0x84", OF w refl, unfolded separator_pieces [OF w]]
  have dk: "marked w {(8, w - 8)} (\<lambda>f. f[w * (w - 8) + 8 := 0x81])"
    by (intro marked_put) (simp_all add: mult.commute)
  have grid: "fmt_xy w \<subseteq> {..<w} \<times> {..<w}" using w by (auto simp: fmt_xy_def)
  have p: "p \<in> area w (fmt_xy w)" "p < w * w" using fmt_area_xy [OF w assms(4)] fmt_area_less [OF w assms(4)] by auto
  have out: "p \<notin> area w B" if "fmt_xy w \<inter> B = {}" "B \<subseteq> {..<w} \<times> {..<w}" for B
    using area_disjoint [OF grid that(2,1)] p(1) by blast
  have sub: "(if 2 \<le> v then align_area v w else {}) \<subseteq> {..<w} \<times> {..<w}"
    "(if 7 \<le> v then version_area w else {}) \<subseteq> {..<w} \<times> {..<w}"
    using function_area_grid [OF assms(1-3)] by (auto simp: function_area_def Let_def assms(3) [symmetric])
  have sub2: "{8..<w - 8} \<times> {6} \<union> {6} \<times> {8..<w - 8} \<subseteq> {..<w} \<times> {..<w}" "{(8, w - 8)} \<subseteq> {..<w} \<times> {..<w}"
    using w by auto
  note dis = fmt_xy_disjoint [OF assms(1-3)]
  define f3 where "f3 = frame_format_area w (frame_separators w (frame_finders w (replicate (w * w) 0)))"
  have l3: "length f3 = w * w"
    unfolding f3_def by (intro paints_length [OF fo] paints_length [OF marked_separators [OF w]]
        paints_length [OF marked_finders]) simp
  have "fmt_xy w \<subseteq> {0..<0 + 9} \<times> {8} \<union> {w - 8..<w - 8 + 8} \<times> {8} \<union> {8} \<times> {0..<8} \<union> {8} \<times> {w - 7..<w}"
    using w by (auto simp: fmt_xy_def)
  then have "f3 ! p = 0x84" unfolding f3_def using p
    by (intro paints_inside [OF fo] paints_length [OF marked_separators [OF w]] paints_length [OF marked_finders])
      (auto simp: area_def)
  moreover have "QRspec_createFrame v ! p = f3 ! p"
  proof -
    let ?f4 = "frame_timing w f3" let ?f5 = "QRspec_putAlignmentPattern v w ?f4"
    let ?f6 = "frame_version_info v w ?f5"
    have l: "length ?f4 = w * w" "length ?f5 = w * w" "length ?f6 = w * w"
      using paints_length [OF ti l3] paints_length [OF al] paints_length [OF ver] by auto
    have "QRspec_createFrame v = ?f6[w * (w - 8) + 8 := 0x81]"
      by (simp add: QRspec_createFrame_def Let_def f3_def assms(3) QRspec_getWidth_def)
    also have "\<dots> ! p = ?f6 ! p" using paints_outside [OF dk l(3) p(2) out [OF dis(4) sub2(2)]] .
    also have "\<dots> = ?f5 ! p" using paints_outside [OF ver l(2) p(2) out [OF dis(3) sub(2)]] .
    also have "\<dots> = ?f4 ! p" using paints_outside [OF al l(1) p(2) out [OF dis(2) sub(1)]] .
    also have "\<dots> = f3 ! p" using paints_outside [OF ti l3 p(2) out [OF dis(1) sub2(1)]] .
    finally show ?thesis .
  qed
  ultimately show ?thesis by simp
qed

lemma light_createFrame:
  assumes "1 \<le> v" "v \<le> 40" "w = QRspec_getWidth v"
  shows "light_format_area w (QRspec_createFrame v)"
  using createFrame_format [OF assms] by (auto simp: light_format_area_def fmt_area_def is_data_def)

section \<open>Filled frames\<close>

lemma store_all_nth:
  assumes "distinct ps" "\<forall>p \<in> set ps. p < length frame" "length vs \<le> length ps"
  shows "k < length vs \<Longrightarrow> store_all ps vs frame ! (ps ! k) = vs ! k"
    and "p \<notin> set (take (length vs) ps) \<Longrightarrow> store_all ps vs frame ! p = frame ! p"
proof -
  have "(\<forall>k < length vs. store_all ps vs frame ! (ps ! k) = vs ! k)
      \<and> (\<forall>p. p \<notin> set (take (length vs) ps) \<longrightarrow> store_all ps vs frame ! p = frame ! p)"
    using assms
  proof (induction vs arbitrary: ps frame)
    case (Cons v vs)
    then obtain p qs where ps: "ps = p # qs" by (cases ps) auto
    have IH: "(\<forall>k < length vs. store_all qs vs (frame[p := v]) ! (qs ! k) = vs ! k)
      \<and> (\<forall>q. q \<notin> set (take (length vs) qs) \<longrightarrow> store_all qs vs (frame[p := v]) ! q = frame[p := v] ! q)"
      using Cons.prems ps by (intro Cons.IH) auto
    have "p \<notin> set (take (length vs) qs)" using Cons.prems(1) ps by (auto dest: in_set_takeD)
    then show ?case using IH Cons.prems(2) ps by (auto simp: nth_Cons split: nat.splits)
  qed simp
  then show "k < length vs \<Longrightarrow> store_all ps vs frame ! (ps ! k) = vs ! k"
    "p \<notin> set (take (length vs) ps) \<Longrightarrow> store_all ps vs frame ! p = frame ! p" by blast+
qed

text \<open>The colours of the data modules in the order of the filler.\<close>

definition module_bits :: "nat \<Rightarrow> byte list \<Rightarrow> byte list" where
  "module_bits v frame = map (\<lambda>p. frame ! p AND 1) (frame_slots v)"

definition filled_frame :: "nat \<Rightarrow> byte list \<Rightarrow> byte list" where
  "filled_frame v bits = store_all (frame_slots v) (map (\<lambda>b. 0x02 OR b) bits) (QRspec_createFrame v)"

lemma bit_or_2: "b = 0 \<or> b = 1 \<Longrightarrow> (0x02 OR b :: byte) AND 1 = b \<and> (0x02 OR b) AND 0x80 = 0"
  by auto

lemma filled_frame:
  assumes "1 \<le> v" "v \<le> 40" "w = QRspec_getWidth v" "is_bits bits" "length bits = length (frame_slots v)"
  shows "length (filled_frame v bits) = w * w"
    and "p < w * w \<Longrightarrow> is_data (filled_frame v bits) p \<longleftrightarrow> p \<in> set (frame_slots v)"
    and "p \<notin> set (frame_slots v) \<Longrightarrow> filled_frame v bits ! p = QRspec_createFrame v ! p"
    and "module_bits v (filled_frame v bits) = bits"
    and "light_format_area w (filled_frame v bits)"
proof -
  note s = frame_slots [OF assms(1-3)]
  have len: "length (QRspec_createFrame v) = w * w" by (simp add: assms(3))
  show l: "length (filled_frame v bits) = w * w" by (simp add: filled_frame_def assms(3))
  have in_range: "\<forall>p \<in> set (frame_slots v). p < length (QRspec_createFrame v)" using s(2) len by auto
  note st = store_all_nth [OF s(1) in_range, of "map (\<lambda>b. 0x02 OR b) bits"]
  show out: "filled_frame v bits ! p = QRspec_createFrame v ! p" if "p \<notin> set (frame_slots v)" for p
    using st(2) that assms(5) by (simp add: filled_frame_def)
  have bits: "bits ! k = 0 \<or> bits ! k = 1" if "k < length bits" for k
    using assms(4) that by (auto simp: is_bits_def)
  have slot: "filled_frame v bits ! (frame_slots v ! k) = 0x02 OR bits ! k" if "k < length bits" for k
    using st(1) [of k] that assms(5) by (simp add: filled_frame_def)
  show "module_bits v (filled_frame v bits) = bits"
    unfolding module_bits_def
    by (rule nth_equalityI) (use assms(5) slot bit_or_2 [OF bits] in \<open>auto simp del: bit_numeral_rec\<close>)
  show d: "is_data (filled_frame v bits) p \<longleftrightarrow> p \<in> set (frame_slots v)" if "p < w * w" for p
  proof (cases "p \<in> set (frame_slots v)")
    case True
    then obtain k where "k < length bits" "p = frame_slots v ! k" using assms(5) by (metis in_set_conv_nth)
    then show ?thesis using True slot bit_or_2 [OF bits] by (simp add: is_data_def)
  next
    case False
    then show ?thesis using s(2) that by (simp add: is_data_def out)
  qed
  have w: "21 \<le> w" using width_eq [OF assms(1,2)] assms(1,3) by simp
  have "p \<notin> set (frame_slots v) \<and> filled_frame v bits ! p = 0x84" if "p \<in> fmt_area w" for p
    using out createFrame_format [OF assms(1-3) that] s(2) by (auto simp: is_data_def)
  then show "light_format_area w (filled_frame v bits)"
    by (auto simp: light_format_area_def is_data_def fmt_area_def)
qed

section \<open>Reading a masked symbol\<close>

lemma makeMask_readback:
  assumes "1 \<le> v" "v \<le> 40" "w = QRspec_getWidth v" "is_bits bits" "length bits = length (frame_slots v)"
    and "i < maskNum" "Mask_makeMask w (filled_frame v bits) (int i) level = Inr m"
  shows "length m = w * w" "module_bits v (Mask_makeMaskedFrame w m i) = bits"
    and "p < w * w \<Longrightarrow> p \<notin> set (frame_slots v) \<Longrightarrow> p \<notin> fmt_area w \<Longrightarrow> m ! p = QRspec_createFrame v ! p"
proof -
  have w: "21 \<le> w" using width_eq [OF assms(1,2)] assms(1,3) by simp
  let ?f = "filled_frame v bits"
  note ff = filled_frame [OF assms(1-5)]
  have len: "length (Mask_makeMaskedFrame w ?f i) = w * w" by (rule length_makeMaskedFrame [OF assms(6)])
  have m: "m = put_format w (QRspec_getFormatInfo (int i) level) [0..<15] (Mask_makeMaskedFrame w ?f i)"
    using assms(7) by (simp add: Mask_makeMask_def writeFormatInformation_eq [OF w] Let_def
        Mask_makeMaskedFrame_def split: if_splits)
  show lm: "length m = w * w" by (simp add: m len)
  have out: "m ! p = apply_mask i w ?f p" if "p < w * w" "p \<notin> fmt_area w" for p
    using put_format_nth [OF w len, of 15] that makeMaskedFrame_nth [OF assms(6) that(1)]
    by (simp add: m fmt_area_def)
  show "m ! p = QRspec_createFrame v ! p" if "p < w * w" "p \<notin> set (frame_slots v)" "p \<notin> fmt_area w"
    using out [OF that(1,3)] ff(2) [OF that(1)] ff(3) [OF that(2)] that(2) by (simp add: apply_mask_def)
  have "Mask_makeMaskedFrame w m i ! p = ?f ! p" if "p \<in> set (frame_slots v)" for p
  proof -
    have p: "p < w * w" using that frame_slots(2) [OF assms(1-3)] by auto
    have d: "is_data ?f p" using ff(2) [OF p] that by simp
    have "p \<notin> fmt_area w" using light_format_areaD(1) [OF ff(5)] d by blast
    then have "m ! p = apply_mask i w ?f p" by (rule out [OF p])
    then show ?thesis using d makeMaskedFrame_nth [OF assms(6) p, of m]
      by (auto simp: apply_mask_def is_data_def xor.assoc)
  qed
  then show "module_bits v (Mask_makeMaskedFrame w m i) = bits"
    using ff(4) by (simp add: module_bits_def cong: map_cong)
qed

end
