(* ===== verification/QR_Segments.thy ===== *)
theory QR_Segments
  imports QR_Entry
begin

text \<open>
  The bit streams of entries written down directly, and the decoder of the standard that
  reads them back.
\<close>

section \<open>Numeric data\<close>

definition digit :: "byte \<Rightarrow> nat" where
  "digit c = unat c - 48"

definition digit_ok :: "byte \<Rightarrow> bool" where
  "digit_ok c \<longleftrightarrow> 48 \<le> unat c \<and> unat c \<le> 57"

fun num_payload :: "byte list \<Rightarrow> byte list" where
  "num_payload (a # b # c # ds) = bits_msb 10 (digit a * 100 + digit b * 10 + digit c) @ num_payload ds"
| "num_payload [a, b] = bits_msb 7 (digit a * 10 + digit b)"
| "num_payload [a] = bits_msb 4 (digit a)"
| "num_payload [] = []"

lemma sint_digit: "\<not> (sint c < 48 \<or> sint c > 57) \<longleftrightarrow> digit_ok (c :: byte)"
proof -
  have "int (unat c) = sint c mod 256" using uint_sint [of c] by (simp add: take_bit_eq_mod)
  moreover have "- 128 \<le> sint c" "sint c < 128" using sint_ge [of c] sint_lt [of c] by simp_all
  moreover have "sint c mod 256 = (if 0 \<le> sint c then sint c else sint c + 256)"
    if "- 128 \<le> sint c" "sint c < 128"
    using that mod_add_self2 [of "sint c" 256] by (auto simp: mod_pos_pos_trivial simp del: mod_add_self2)
  ultimately have "int (unat c) = (if 0 \<le> sint c then sint c else sint c + 256)" "- 128 \<le> sint c" by metis+
  then show ?thesis unfolding digit_ok_def by presburger
qed

lemma checkModeNum_iff: "QRinput_checkModeNum sz data \<longleftrightarrow> (\<forall>i < sz. digit_ok (data ! i))"
  unfolding QRinput_checkModeNum_def sint_digit by (auto simp: list_all_iff)

lemma num_digit_eq: "digit_ok c \<Longrightarrow> num_digit c = int (digit c)"
  by (simp add: num_digit_def digit_ok_def digit_def of_nat_diff)

lemma digit_less: "digit_ok c \<Longrightarrow> digit c < 10"
  by (auto simp: digit_ok_def digit_def)

lemma unat_word_of_int_nat: "(n :: nat) < 2 ^ 32 \<Longrightarrow> unat (word_of_int (int n) :: uint) = n"
  by (simp add: unat_of_nat take_bit_nat_eq_self)

lemma unat_triple:
  assumes "digit_ok a" "digit_ok b" "digit_ok c"
  shows "unat (word_of_int (num_digit a * 100) + word_of_int (num_digit b * 10) + word_of_int (num_digit c) :: uint)
       = digit a * 100 + digit b * 10 + digit c"
    and "unat (word_of_int (num_digit a * 10) + word_of_int (num_digit b) :: uint) = digit a * 10 + digit b"
    and "unat (word_of_int (num_digit a) :: uint) = digit a"
proof -
  note d = num_digit_eq [OF assms(1)] num_digit_eq [OF assms(2)] num_digit_eq [OF assms(3)]
  note l = digit_less [OF assms(1)] digit_less [OF assms(2)] digit_less [OF assms(3)]
  have "word_of_int (num_digit a * 100) + word_of_int (num_digit b * 10) + word_of_int (num_digit c)
      = (word_of_int (int (digit a * 100 + digit b * 10 + digit c)) :: uint)"
    "word_of_int (num_digit a * 10) + word_of_int (num_digit b) = (word_of_int (int (digit a * 10 + digit b)) :: uint)"
    by (simp_all add: d)
  moreover have "digit a * 100 + digit b * 10 + digit c < 2 ^ 32" "digit a * 10 + digit b < 2 ^ 32" "digit a < 2 ^ 32"
    using l by simp_all
  ultimately show "unat (word_of_int (num_digit a * 100) + word_of_int (num_digit b * 10) + word_of_int (num_digit c) :: uint)
       = digit a * 100 + digit b * 10 + digit c"
    "unat (word_of_int (num_digit a * 10) + word_of_int (num_digit b) :: uint) = digit a * 10 + digit b"
    "unat (word_of_int (num_digit a) :: uint) = digit a"
    by (simp_all only: unat_word_of_int_nat d(1))
qed

text \<open>What the encoder appends for the digits, by position, is the reference payload.\<close>

definition num_rest :: "byte list \<Rightarrow> byte list" where
  "num_rest data = (let w = length data div 3
     in if length data - w * 3 = 1 then bits_msb 4 (unat (word_of_int (num_digit (data ! (w * 3))) :: uint))
        else if length data - w * 3 = 2
        then bits_msb 7 (unat (word_of_int (num_digit (data ! (w * 3)) * 10)
                               + word_of_int (num_digit (data ! (w * 3 + 1))) :: uint))
        else [])"

definition num_triple :: "byte list \<Rightarrow> nat \<Rightarrow> uint" where
  "num_triple data i = word_of_int (num_digit (data ! (i * 3)) * 100) + word_of_int (num_digit (data ! (i * 3 + 1)) * 10)
                     + word_of_int (num_digit (data ! (i * 3 + 2)))"

lemma nth_Cons3: "(a # b # c # ds) ! (n + 3) = ds ! n"
  by (simp add: numeral_3_eq_3)

lemma num_triple_Suc: "num_triple (a # b # c # ds) (Suc i) = num_triple ds i"
proof -
  have "Suc i * 3 = i * 3 + 3" "Suc i * 3 + 1 = i * 3 + 1 + 3" "Suc i * 3 + 2 = i * 3 + 2 + 3" by simp_all
  then show ?thesis unfolding num_triple_def by (simp only: nth_Cons3)
qed

lemma num_rest_Cons3: "num_rest (a # b # c # ds) = num_rest ds"
proof -
  have w: "length (a # b # c # ds) div 3 = Suc (length ds div 3)" by simp
  have l: "length (a # b # c # ds) - Suc n * 3 = length ds - n * 3" for n by simp
  have "Suc n * 3 = n * 3 + 3" "Suc n * 3 + 1 = n * 3 + 1 + 3" for n by simp_all
  then show ?thesis unfolding num_rest_def Let_def w l by (simp only: nth_Cons3)
qed

lemma num_payload_index:
  "\<forall>c \<in> set data. digit_ok c \<Longrightarrow>
     num_payload data = concat (map (\<lambda>i. bits_msb 10 (unat (num_triple data i))) [0..<length data div 3]) @ num_rest data"
proof (induction data rule: num_payload.induct)
  case (1 a b c ds)
  have "[0..<length (a # b # c # ds) div 3] = 0 # map Suc [0..<length ds div 3]"
  proof -
    have "length (a # b # c # ds) div 3 = Suc (length ds div 3)" by simp
    then show ?thesis by (simp only: map_Suc_upt upt_conv_Cons zero_less_Suc)
  qed
  moreover have "unat (num_triple (a # b # c # ds) 0) = digit a * 100 + digit b * 10 + digit c"
    using 1 unat_triple(1) [of a b c] by (simp add: num_triple_def)
  ultimately show ?case using 1 by (simp add: num_rest_Cons3 num_triple_Suc comp_def del: length_Cons)
next
  case (2 a b)
  then show ?case using unat_triple(2) [of a b b] by (simp add: num_rest_def)
next
  case (3 a)
  then show ?case using unat_triple(3) [of a a a] by (simp add: num_rest_def)
qed (simp add: num_rest_def)

section \<open>Alphanumeric data\<close>

definition an_ok :: "byte \<Rightarrow> bool" where
  "an_ok c \<longleftrightarrow> 0 \<le> QRinput_lookAnTable c"

definition anv :: "byte \<Rightarrow> nat" where
  "anv c = nat (QRinput_lookAnTable c)"

definition an_chars :: "nat list" where
  "an_chars = [48, 49, 50, 51, 52, 53, 54, 55, 56, 57, 65, 66, 67, 68, 69, 70, 71, 72, 73, 74, 75, 76, 77, 78, 79,
     80, 81, 82, 83, 84, 85, 86, 87, 88, 89, 90, 32, 36, 37, 42, 43, 45, 46, 47, 58]"

fun all_from :: "(nat \<Rightarrow> 'a \<Rightarrow> bool) \<Rightarrow> nat \<Rightarrow> 'a list \<Rightarrow> bool" where
  "all_from P n [] = True"
| "all_from P n (v # vs) = (P n v \<and> all_from P (n + 1) vs)"

lemma all_from_nth: "all_from P n vs \<Longrightarrow> i < length vs \<Longrightarrow> P (n + i) (vs ! i)"
proof (induction vs arbitrary: n i)
  case (Cons v vs)
  then show ?case using Cons.IH [of "n + 1" "i - 1"] by (cases i) auto
qed simp

lemma anTable: "all_from (\<lambda>i v. v < 0 \<or> v \<le> 44 \<and> an_chars ! nat v = i) 0 QRinput_anTable"
  by (simp add: QRinput_anTable_def an_chars_def)

lemma anTable_at:
  assumes "i < 128" "0 \<le> QRinput_anTable ! i"
  shows "QRinput_anTable ! i \<le> 44" "an_chars ! nat (QRinput_anTable ! i) = i"
proof -
  have "length QRinput_anTable = 128" by (simp add: QRinput_anTable_def)
  with all_from_nth [OF anTable, of i] assms
  show "QRinput_anTable ! i \<le> 44" "an_chars ! nat (QRinput_anTable ! i) = i" by auto
qed

lemma an_value:
  assumes "an_ok c"
  shows "anv c < 45" "an_chars ! anv c = unat c" "unat (an_value c) = anv c"
proof -
  have "c AND 0x80 = 0" "0 \<le> QRinput_anTable ! unat c" "QRinput_lookAnTable c = QRinput_anTable ! unat c"
    using assms by (auto simp: an_ok_def QRinput_lookAnTable_def split: if_splits)
  then have "\<not> bit c 7" using and_single_bit_eq_0 [of c 7] by simp
  then have "even (unat c div 128)" "unat c div 128 < 2"
    using unat_byte_less [of c] by (simp_all add: bit_word_unat less_mult_imp_div_less)
  then have "unat c div 128 = 0" by (auto simp: less_2_cases_iff)
  then have "unat c < 128" by (simp add: div_eq_0_iff)
  from anTable_at [OF this] \<open>0 \<le> QRinput_anTable ! unat c\<close> \<open>QRinput_lookAnTable c = _\<close>
  show l: "anv c < 45" and "an_chars ! anv c = unat c" by (auto simp: anv_def)
  have "QRinput_lookAnTable c = int (anv c)" using assms by (simp add: anv_def an_ok_def)
  then show "unat (an_value c) = anv c" using l unat_word_of_int_nat [of "anv c"] by (simp add: an_value_def)
qed

lemma checkModeAn_iff: "QRinput_checkModeAn sz data \<longleftrightarrow> (\<forall>i < sz. an_ok (data ! i))"
  by (auto simp: QRinput_checkModeAn_def an_ok_def list_all_iff not_less)

fun an_payload :: "byte list \<Rightarrow> byte list" where
  "an_payload (a # b # cs) = bits_msb 11 (anv a * 45 + anv b) @ an_payload cs"
| "an_payload [a] = bits_msb 6 (anv a)"
| "an_payload [] = []"

definition an_pair :: "byte list \<Rightarrow> nat \<Rightarrow> uint" where
  "an_pair data i = an_value (data ! (i * 2)) * 45 + an_value (data ! (i * 2 + 1))"

lemma unat_an_pair:
  assumes "an_ok a" "an_ok b"
  shows "unat (an_value a * 45 + an_value b) = anv a * 45 + anv b"
proof -
  have "an_value a * 45 + an_value b = word_of_int (int (anv a * 45 + anv b))"
    using assms by (simp add: an_value_def anv_def an_ok_def)
  moreover have "anv a * 45 + anv b < 2 ^ 32" using an_value(1) [OF assms(1)] an_value(1) [OF assms(2)] by simp
  ultimately show ?thesis by (simp only: unat_word_of_int_nat)
qed

lemma an_payload_index:
  "\<forall>c \<in> set data. an_ok c \<Longrightarrow>
     an_payload data = concat (map (\<lambda>i. bits_msb 11 (unat (an_pair data i))) [0..<length data div 2])
       @ (if odd (length data) then bits_msb 6 (unat (an_value (data ! (length data div 2 * 2)))) else [])"
proof (induction data rule: an_payload.induct)
  case (1 a b ds)
  have w: "length (a # b # ds) div 2 = Suc (length ds div 2)" by simp
  have u: "[0..<length (a # b # ds) div 2] = 0 # map Suc [0..<length ds div 2]"
    unfolding w by (simp only: map_Suc_upt upt_conv_Cons zero_less_Suc)
  have p: "an_pair (a # b # ds) (Suc i) = an_pair ds i" for i by (simp add: an_pair_def)
  have "unat (an_pair (a # b # ds) 0) = anv a * 45 + anv b" using 1 unat_an_pair [of a b] by (simp add: an_pair_def)
  then show ?case using 1 unfolding u by (simp add: p comp_def w del: length_Cons)
next
  case (2 a)
  then show ?case using an_value(3) [of a] by simp
qed simp

section \<open>Kanji\<close>

definition kcode :: "nat \<Rightarrow> nat" where
  "kcode n = (let v = (if n \<le> 0x9ffc then n - 0x8140 else n - 0xc140) in v div 256 * 0xc0 + v mod 256)"

lemma unat_word_of_nat: "n < 2 ^ 32 \<Longrightarrow> unat (word_of_nat n :: uint) = n"
  by (simp add: unat_of_nat take_bit_nat_eq_self)

lemma ucast_byte: "(ucast (c :: byte) :: uint) = word_of_nat (unat c)"
  by (rule of_nat_unat [symmetric])

lemma unat_ucast_byte: "unat (ucast (c :: byte) :: uint) = unat c"
proof -
  have "unat c < 2 ^ 32" using unat_byte_less [of c] by simp
  then show ?thesis unfolding ucast_byte by (rule unat_word_of_nat)
qed

lemma unat_kanji_at: "unat (kanji_at data i) = unat (data ! i) * 256 + unat (data ! (i + 1))"
proof -
  have zero: "push_bit 8 (ucast a) AND ucast b = (0 :: uint)" for a b :: byte
  proof (rule bit_word_eqI)
    fix n
    have "\<not> (8 \<le> n \<and> bit b n)" using bit_imp_le_length [of b n] by auto
    then show "bit (push_bit 8 (ucast a) AND ucast b :: uint) n = bit (0 :: uint) n"
      by (simp add: bit_and_iff bit_push_bit_iff bit_unsigned_iff)
  qed
  have "push_bit 8 (ucast a) OR ucast b = (push_bit 8 (ucast a) + ucast b :: uint)" for a b :: byte
    using word_plus_and_or [of "push_bit 8 (ucast a)" "ucast b :: uint"] by (simp only: zero add_0)
  moreover have "(push_bit 8 (ucast a) + ucast b :: uint) = word_of_nat (unat a * 256 + unat b)" for a b :: byte
    unfolding ucast_byte push_bit_eq_mult by (simp only: of_nat_add of_nat_mult of_nat_numeral) simp
  moreover have "unat a * 256 + unat b < 2 ^ 32" for a b :: byte
    using unat_byte_less [of a] unat_byte_less [of b] by simp
  ultimately show ?thesis unfolding kanji_at_def by (simp only: unat_word_of_nat)
qed

lemma kanji_char_ok_iff:
  "kanji_char_ok val \<longleftrightarrow> 0x8140 \<le> unat val \<and> unat val \<le> 0x9ffc \<or> 0xe040 \<le> unat val \<and> unat val \<le> 0xebbf"
  unfolding kanji_char_ok_def word_less_nat_alt by simp linarith

lemma unat_kanji_code:
  assumes "kanji_char_ok val"
  shows "unat (kanji_code val) = kcode (unat val)"
proof -
  define n where "n = unat val"
  define v where "v = (if n \<le> 0x9ffc then n - 0x8140 else n - 0xc140)"
  have val: "val = word_of_nat n" by (simp add: n_def)
  have n: "0x8140 \<le> n \<and> n \<le> 0x9ffc \<or> 0xe040 \<le> n \<and> n \<le> 0xebbf" using assms by (simp add: kanji_char_ok_iff n_def)
  then have v: "v < 0x2b00" by (auto simp: v_def)
  have "val \<le> 0x9ffc \<longleftrightarrow> n \<le> 0x9ffc" by (simp add: word_le_nat_alt n_def)
  then have V: "(if val \<le> 0x9ffc then val - 0x8140 else val - 0xc140) = word_of_nat v"
    using n by (auto simp: v_def val of_nat_diff)
  have "drop_bit 8 (word_of_nat v :: uint) = word_of_nat (v div 256)"
    using v by (intro word_unat_eq_iff [THEN iffD2]) (simp add: drop_bit_eq_div unat_div unat_word_of_nat)
  moreover have "(word_of_nat v :: uint) AND 0xff = word_of_nat (v mod 256)"
  proof -
    have "(word_of_nat v :: uint) AND 0xff = take_bit 8 (word_of_nat v)" by (simp add: take_bit_eq_mask mask_numeral)
    also have "unat \<dots> = unat (word_of_nat (v mod 256) :: uint)"
      using v by (simp add: unsigned_take_bit_eq take_bit_eq_mod unat_mod unat_word_of_nat)
    finally show ?thesis by (simp add: word_unat_eq_iff)
  qed
  ultimately have "kanji_code val = word_of_nat (v div 256 * 0xc0 + v mod 256)"
    unfolding kanji_code_def V Let_def by simp
  moreover have "v div 256 * 0xc0 + v mod 256 < 2 ^ 32" using v by simp
  ultimately show ?thesis by (simp only: unat_word_of_nat) (simp add: kcode_def n_def [symmetric] v_def Let_def)
qed

fun kanji_payload :: "byte list \<Rightarrow> byte list" where
  "kanji_payload (a # b # cs) = bits_msb 13 (kcode (unat a * 256 + unat b)) @ kanji_payload cs"
| "kanji_payload _ = []"

lemma kanji_payload_index:
  "even (length data) \<Longrightarrow> \<forall>k < length data div 2. kanji_char_ok (kanji_at data (2 * k)) \<Longrightarrow>
     kanji_payload data = concat (map (\<lambda>k. bits_msb 13 (unat (kanji_code (kanji_at data (2 * k))))) [0..<length data div 2])"
proof (induction data rule: kanji_payload.induct)
  case (1 a b ds)
  have w: "length (a # b # ds) div 2 = Suc (length ds div 2)" by simp
  have u: "[0..<length (a # b # ds) div 2] = 0 # map Suc [0..<length ds div 2]"
    unfolding w by (simp only: map_Suc_upt upt_conv_Cons zero_less_Suc)
  have p: "kanji_at (a # b # ds) (2 * Suc k) = kanji_at ds (2 * k)" for k by (simp add: kanji_at_def)
  have IH: "kanji_payload ds = concat (map (\<lambda>k. bits_msb 13 (unat (kanji_code (kanji_at ds (2 * k))))) [0..<length ds div 2])"
  proof (rule "1.IH")
    show "even (length ds)" using 1 by simp
    show "\<forall>k < length ds div 2. kanji_char_ok (kanji_at ds (2 * k))"
      using "1.prems"(2) unfolding w p [symmetric] by (metis Suc_less_eq)
  qed
  have "kanji_char_ok (kanji_at (a # b # ds) (2 * 0))" using "1.prems"(2) w by (metis zero_less_Suc)
  from unat_kanji_code [OF this] have "unat (kanji_code (kanji_at (a # b # ds) (2 * 0))) = kcode (unat a * 256 + unat b)"
    unfolding unat_kanji_at by simp
  then show ?case unfolding u kanji_payload.simps IH by (simp only: list.map concat.simps map_map comp_def p)
qed auto

section \<open>Segments\<close>

text \<open>Valid data of an entry; structured append and ECI headers have to be complete.\<close>

definition data_ok :: "QRencodeMode \<Rightarrow> byte list \<Rightarrow> bool" where
  "data_ok mode data = (case mode of
       QR_MODE_NUM \<Rightarrow> \<forall>c \<in> set data. digit_ok c
     | QR_MODE_AN \<Rightarrow> \<forall>c \<in> set data. an_ok c
     | QR_MODE_8 \<Rightarrow> True
     | QR_MODE_KANJI \<Rightarrow> even (length data) \<and> (\<forall>k < length data div 2. kanji_char_ok (kanji_at data (2 * k)))
     | QR_MODE_STRUCTURE \<Rightarrow> 3 \<le> length data
     | QR_MODE_ECI \<Rightarrow> 4 \<le> length data
     | QR_MODE_FNC1SECOND \<Rightarrow> length data = 1
     | _ \<Rightarrow> False)"

definition entry_ok :: "QRinput_List \<Rightarrow> bool" where
  "entry_ok e \<longleftrightarrow> le_size e = length (le_data e) \<and> le_data e \<noteq> [] \<and> data_ok (le_mode e) (le_data e)"

lemma check_data_ok:
  assumes "data \<noteq> []" "data_ok mode data" "n = length data" "n \<le> length d" "take n d = data"
  shows "QRinput_check mode (int n) d"
proof -
  have nth: "d ! i = data ! i" if "i < n" for i using assms(5) that by (metis nth_take)
  have k: "kanji_at d (2 * k) = kanji_at data (2 * k)" if "even n" "k < n div 2" for k
  proof -
    have "2 * k < n" "2 * k + 1 < n" using that by auto
    then show ?thesis by (simp add: kanji_at_def nth)
  qed
  show ?thesis using assms(1-3)
    by (cases mode) (auto simp: QRinput_check_def data_ok_def checkModeNum_iff checkModeAn_iff QRinput_checkModeKanji_def
        QRinput_checkModeFNC1Second_def list_all_iff nth k)
qed

lemma newEntry_ok:
  assumes "take n d \<noteq> []" "data_ok mode (take n d)" "n \<le> length d"
  shows "QRinput_List_newEntry mode (int n) d = Inr \<lparr>le_mode = mode, le_size = n, le_data = take n d, le_bstream = None\<rparr>"
  using check_data_ok [OF assms(1,2) _ assms(3) refl] assms(3) by (simp add: QRinput_List_newEntry_def)

definition payload :: "QRencodeMode \<Rightarrow> byte list \<Rightarrow> byte list" where
  "payload mode data = (case mode of
       QR_MODE_NUM \<Rightarrow> num_payload data
     | QR_MODE_AN \<Rightarrow> an_payload data
     | QR_MODE_8 \<Rightarrow> bytes_bits data
     | QR_MODE_KANJI \<Rightarrow> kanji_payload data
     | _ \<Rightarrow> [])"

definition mode_id :: "QRencodeMode \<Rightarrow> nat" where
  "mode_id mode = (case mode of QR_MODE_NUM \<Rightarrow> 1 | QR_MODE_AN \<Rightarrow> 2 | QR_MODE_8 \<Rightarrow> 4 | QR_MODE_KANJI \<Rightarrow> 8
     | QR_MODE_STRUCTURE \<Rightarrow> 3 | QR_MODE_ECI \<Rightarrow> 7 | QR_MODE_FNC1SECOND \<Rightarrow> 9 | _ \<Rightarrow> 0)"

definition char_count :: "QRencodeMode \<Rightarrow> byte list \<Rightarrow> nat" where
  "char_count mode data = (if mode = QR_MODE_KANJI then length data div 2 else length data)"

definition eci_bits :: "byte list \<Rightarrow> byte list" where
  "eci_bits data = (let ecinum = QRinput_decodeECIfromByteArray data
     in if ecinum < 128 then bits_msb 8 (unat ecinum)
        else if ecinum < 16384 then bits_msb 16 (unat (0x8000 + ecinum))
        else bits_msb 24 (unat (0xc0000 + ecinum)))"

definition seg_bits :: "nat \<Rightarrow> QRencodeMode \<Rightarrow> byte list \<Rightarrow> byte list" where
  "seg_bits version mode data = bits_msb 4 (mode_id mode) @ (case mode of
       QR_MODE_STRUCTURE \<Rightarrow> bits_msb 4 (unat (ucast (data ! 1) - 1 :: uint)) @ bits_msb 4 (unat (ucast (data ! 0) - 1 :: uint))
                             @ bits_msb 8 (unat (data ! 2))
     | QR_MODE_ECI \<Rightarrow> eci_bits data
     | QR_MODE_FNC1SECOND \<Rightarrow> bytes_bits data
     | _ \<Rightarrow> bits_msb (QRspec_lengthIndicator mode version) (char_count mode data) @ payload mode data)"

lemma lengthIndicator_le: "QRspec_lengthIndicator mode version \<le> 16"
proof -
  have "length_class version < 3" by (simp add: length_class_def)
  then have "length_class version = 0 \<or> length_class version = 1 \<or> length_class version = 2" by auto
  then show ?thesis
    by (cases mode) (auto simp: QRspec_lengthIndicator_def QRinput_isSplittableMode_def lengthTableBits_def)
qed

lemma append_nums_new:
  "\<forall>(n, v) \<in> set nums. n \<le> 32 \<Longrightarrow>
     append_nums nums BitStream_new = Inr (bs_of (concat (map (\<lambda>(n, v). bits_msb n (unat v)) nums)))"
  using bs.fold_appendNum [of nums fst snd "[]"] unfolding append_nums_def bs.new_rep
  by (auto simp: case_prod_unfold)

lemma bits_msb_count: "n \<le> 16 \<Longrightarrow> bits_msb n (unat (word_of_nat k :: uint)) = bits_msb n k"
  using bits_msb_mod [of n 32 k] by (simp add: unat_of_nat take_bit_eq_mod)

lemma encode_mode_bits:
  assumes "entry_ok e"
  shows "encode_mode e version False = Inr (bs_of (seg_bits version (le_mode e) (le_data e)))"
proof -
  let ?d = "le_data e" and ?l = "QRspec_lengthIndicator (le_mode e) version"
  have sz: "le_size e = length ?d" and ok: "data_ok (le_mode e) ?d" and ne: "?d \<noteq> []" using assms by (auto simp: entry_ok_def)
  have l: "?l \<le> 32" using lengthIndicator_le [of "le_mode e" version] by simp
  note cnt = bits_msb_count [OF lengthIndicator_le]
  show ?thesis
  proof (cases "le_mode e")
    case QR_MODE_NUM
    then have p: "num_payload ?d = concat (map (\<lambda>i. bits_msb 10 (unat (num_triple ?d i))) [0..<length ?d div 3]) @ num_rest ?d"
      using ok by (intro num_payload_index) (simp add: data_ok_def)
    show ?thesis using QR_MODE_NUM l
      by (simp add: encode_mode_def QRinput_encodeModeNum_def Let_def sz append_nums_new seg_bits_def mode_id_def
          char_count_def payload_def p cnt num_rest_def num_triple_def comp_def bs.appendNum_rep)
  next
    case QR_MODE_AN
    then have p: "an_payload ?d = concat (map (\<lambda>i. bits_msb 11 (unat (an_pair ?d i))) [0..<length ?d div 2])
       @ (if odd (length ?d) then bits_msb 6 (unat (an_value (?d ! (length ?d div 2 * 2)))) else [])"
      using ok by (intro an_payload_index) (simp add: data_ok_def)
    have o: "(n :: nat) AND 1 \<noteq> 0 \<longleftrightarrow> odd n" for n by (simp add: and_one_eq odd_iff_mod_2_eq_one)
    show ?thesis using QR_MODE_AN l unfolding encode_mode_def QRinput_encodeModeAn_def Let_def o
      by (simp add: sz append_nums_new seg_bits_def mode_id_def char_count_def payload_def p cnt comp_def an_pair_def)
  next
    case QR_MODE_8
    then show ?thesis using l
      by (simp add: encode_mode_def QRinput_encodeMode8_def Let_def sz append_nums_new seg_bits_def mode_id_def
          char_count_def payload_def cnt bs.appendBytes_rep)
  next
    case QR_MODE_KANJI
    then have e: "even (length ?d)" and p: "kanji_payload ?d
        = concat (map (\<lambda>k. bits_msb 13 (unat (kanji_code (kanji_at ?d (2 * k))))) [0..<length ?d div 2])"
      using ok by (auto simp: data_ok_def intro: kanji_payload_index)
    have "Suc (length ?d) div 2 = length ?d div 2" using e by simp
    then show ?thesis using QR_MODE_KANJI l
      by (simp add: encode_mode_def QRinput_encodeModeKanji_def Let_def sz append_nums_new seg_bits_def mode_id_def
          char_count_def payload_def p cnt comp_def)
  next
    case QR_MODE_STRUCTURE
    then show ?thesis using ok
      by (simp add: encode_mode_def QRinput_encodeModeStructure_def Let_def append_nums_new seg_bits_def mode_id_def data_ok_def
          unat_ucast_byte)
  next
    case QR_MODE_ECI
    then show ?thesis using ok
      by (simp add: encode_mode_def QRinput_encodeModeECI_def Let_def append_nums_new seg_bits_def mode_id_def data_ok_def
          eci_bits_def)
  next
    case QR_MODE_FNC1SECOND
    then show ?thesis using ok
      by (simp add: encode_mode_def QRinput_encodeModeFNC1Second_def append_nums_new seg_bits_def mode_id_def data_ok_def
          bs.appendBytes_rep)
  qed (use ok in \<open>simp_all add: data_ok_def\<close>)
qed

text \<open>
  Long data is cut into segments of the largest size the length field can count; \<open>seg\<close> gives the
  bits of one segment.
\<close>

function split_bits :: "(QRencodeMode \<Rightarrow> byte list \<Rightarrow> byte list) \<Rightarrow> nat \<Rightarrow> QRencodeMode \<Rightarrow> byte list \<Rightarrow> byte list" where
  "split_bits seg version mode data =
     (let words = QRspec_maximumWords mode version
      in if words \<noteq> 0 \<and> length data > words
         then seg mode (take words data) @ split_bits seg version mode (drop words data)
         else seg mode data)"
  by pat_completeness auto
termination by (relation "measure (\<lambda>(s, v, m, d). length d)") auto

declare split_bits.simps [simp del]

definition entry_bits :: "nat \<Rightarrow> QRencodeMode \<Rightarrow> byte list \<Rightarrow> byte list" where
  "entry_bits version = split_bits (seg_bits version) version"

lemma entry_bits_unfold:
  "entry_bits version mode data =
     (let words = QRspec_maximumWords mode version
      in if words \<noteq> 0 \<and> length data > words
         then seg_bits version mode (take words data) @ entry_bits version mode (drop words data)
         else seg_bits version mode data)"
  unfolding entry_bits_def by (rule split_bits.simps)

lemma maximumWords_even: "even (QRspec_maximumWords QR_MODE_KANJI version)"
  by (simp add: QRspec_maximumWords_def Let_def QRinput_isSplittableMode_def)

lemma maximumWords_splittable: "QRspec_maximumWords mode version \<noteq> 0 \<Longrightarrow> QRinput_isSplittableMode mode"
  by (auto simp: QRspec_maximumWords_def split: if_splits)

lemma data_ok_cut:
  assumes "data_ok mode data" "QRinput_isSplittableMode mode" "mode = QR_MODE_KANJI \<Longrightarrow> even n" "n < length data"
  shows "data_ok mode (take n data)" "data_ok mode (drop n data)"
proof -
  note s = assms(2)
  have "data_ok mode (take n data) \<and> data_ok mode (drop n data)"
  proof (cases "mode = QR_MODE_KANJI")
    case True
    obtain m where n: "n = 2 * m" using assms(3) True by (metis evenE)
    have all: "kanji_char_ok (kanji_at data (2 * k))" if "k < length data div 2" for k
      using assms(1) True that by (simp add: data_ok_def)
    have "kanji_char_ok (kanji_at (take n data) (2 * k))" if "k < m" for k
    proof -
      have "kanji_at (take n data) (2 * k) = kanji_at data (2 * k)" using that n by (simp add: kanji_at_def)
      moreover have "k < length data div 2" using that n assms(4) by linarith
      ultimately show ?thesis using all by simp
    qed
    moreover have "kanji_char_ok (kanji_at (drop n data) (2 * k))" if "k < (length data - n) div 2" for k
    proof -
      have "kanji_at (drop n data) (2 * k) = kanji_at data (2 * (m + k))" using n assms(4) by (simp add: kanji_at_def)
      moreover have "m + k < length data div 2" using that n assms(4) by linarith
      ultimately show ?thesis using all [of "m + k"] by simp
    qed
    ultimately show ?thesis using assms(1,4) True n by (auto simp: data_ok_def)
  next
    case False
    then show ?thesis using assms(1) s
      by (cases mode) (auto simp: data_ok_def QRinput_isSplittableMode_def dest: in_set_takeD in_set_dropD)
  qed
  then show "data_ok mode (take n data)" "data_ok mode (drop n data)" by auto
qed

lemma data_ok_split:
  assumes "data_ok mode data" "n = QRspec_maximumWords mode version" "n \<noteq> 0" "n < length data"
  shows "data_ok mode (take n data)" "data_ok mode (drop n data)"
  using data_ok_cut [OF assms(1) _ _ assms(4)] maximumWords_splittable maximumWords_even assms(2,3) by blast+

lemma encodeBitStream_split:
  assumes "\<And>e. entry_ok e \<Longrightarrow> le_mode e = mode \<Longrightarrow> encode_mode e version mqr = Inr (bs_of (seg mode (le_data e)))"
  shows "entry_ok e \<Longrightarrow> le_mode e = mode \<Longrightarrow> QRinput_encodeBitStream e version mqr
     = Inr (e\<lparr>le_bstream := Some (bs_of (split_bits seg version mode (le_data e)))\<rparr>)"
proof (induction "le_size e" arbitrary: e rule: less_induct)
  case less
  let ?d = "le_data e" let ?w = "QRspec_maximumWords mode version"
  have sz: "le_size e = length ?d" and ok: "data_ok mode ?d" and ne: "?d \<noteq> []" using less.prems by (auto simp: entry_ok_def)
  show ?case
  proof (cases "?w \<noteq> 0 \<and> length ?d > ?w")
    case True
    note parts = data_ok_split [OF ok refl, of version]
    let ?e1 = "\<lparr>le_mode = mode, le_size = ?w, le_data = take ?w ?d, le_bstream = None\<rparr>"
    let ?e2 = "\<lparr>le_mode = mode, le_size = length ?d - ?w, le_data = drop ?w ?d, le_bstream = None\<rparr>"
    have "int (length ?d) - int ?w = int (length ?d - ?w)" using True by simp
    then have n: "QRinput_List_newEntry mode (int ?w) ?d = Inr ?e1"
      "QRinput_List_newEntry mode (int (length ?d) - int ?w) (drop ?w ?d) = Inr ?e2"
      using True ne parts newEntry_ok [of ?w ?d mode] newEntry_ok [of "length ?d - ?w" "drop ?w ?d" mode] by auto
    have "split_bits seg version mode (take ?w ?d) = seg mode (take ?w ?d)"
      using True by (subst split_bits.simps) simp
    moreover have "QRinput_encodeBitStream ?e1 version mqr
        = Inr (?e1\<lparr>le_bstream := Some (bs_of (split_bits seg version mode (take ?w ?d)))\<rparr>)"
      "QRinput_encodeBitStream ?e2 version mqr
        = Inr (?e2\<lparr>le_bstream := Some (bs_of (split_bits seg version mode (drop ?w ?d)))\<rparr>)"
      using less.hyps [of ?e1] less.hyps [of ?e2] True parts sz ne by (auto simp: entry_ok_def)
    ultimately show ?thesis using True less.prems(2)
      by (subst QRinput_encodeBitStream.simps, subst split_bits.simps) (simp add: sz n Let_def bs.new_rep bs.append_rep)
  next
    case False
    then show ?thesis using assms [OF less.prems] sz less.prems(2)
      by (subst QRinput_encodeBitStream.simps, subst split_bits.simps) (auto simp: Let_def)
  qed
qed

lemma encodeBitStream_bits:
  "entry_ok e \<Longrightarrow> QRinput_encodeBitStream e version False
     = Inr (e\<lparr>le_bstream := Some (bs_of (entry_bits version (le_mode e) (le_data e)))\<rparr>)"
  unfolding entry_bits_def by (rule encodeBitStream_split) (simp_all add: encode_mode_bits)

section \<open>The decoder\<close>

definition digit_char :: "nat \<Rightarrow> byte" where
  "digit_char k = word_of_nat (48 + k)"

fun dec_num :: "nat \<Rightarrow> byte list \<Rightarrow> byte list \<times> byte list" where
  "dec_num (Suc (Suc (Suc n))) bs =
     (let v = bits_val (take 10 bs); (ds, r) = dec_num n (drop 10 bs)
      in (digit_char (v div 100) # digit_char (v div 10 mod 10) # digit_char (v mod 10) # ds, r))"
| "dec_num (Suc (Suc 0)) bs =
     (let v = bits_val (take 7 bs) in ([digit_char (v div 10), digit_char (v mod 10)], drop 7 bs))"
| "dec_num (Suc 0) bs = ([digit_char (bits_val (take 4 bs))], drop 4 bs)"
| "dec_num 0 bs = ([], bs)"

fun dec_an :: "nat \<Rightarrow> byte list \<Rightarrow> byte list \<times> byte list" where
  "dec_an (Suc (Suc n)) bs =
     (let v = bits_val (take 11 bs); (ds, r) = dec_an n (drop 11 bs)
      in (word_of_nat (an_chars ! (v div 45)) # word_of_nat (an_chars ! (v mod 45)) # ds, r))"
| "dec_an (Suc 0) bs = ([word_of_nat (an_chars ! bits_val (take 6 bs))], drop 6 bs)"
| "dec_an 0 bs = ([], bs)"

fun dec_bytes :: "nat \<Rightarrow> byte list \<Rightarrow> byte list \<times> byte list" where
  "dec_bytes (Suc n) bs = (let (ds, r) = dec_bytes n (drop 8 bs) in (word_of_nat (bits_val (take 8 bs)) # ds, r))"
| "dec_bytes 0 bs = ([], bs)"

definition kanji_of :: "nat \<Rightarrow> nat" where
  "kanji_of c = (let v = c div 0xc0 * 256 + c mod 0xc0 in if v < 0x1f00 then v + 0x8140 else v + 0xc140)"

fun dec_kanji :: "nat \<Rightarrow> byte list \<Rightarrow> byte list \<times> byte list" where
  "dec_kanji (Suc n) bs =
     (let v = kanji_of (bits_val (take 13 bs)); (ds, r) = dec_kanji n (drop 13 bs)
      in (word_of_nat (v div 256) # word_of_nat (v mod 256) # ds, r))"
| "dec_kanji 0 bs = ([], bs)"

lemma radix: "(r :: nat) < m \<Longrightarrow> (q * m + r) div m = q" "r < m \<Longrightarrow> (q * m + r) mod m = r"
  by simp_all

lemma digit_char: "digit_ok c \<Longrightarrow> digit_char (digit c) = c"
  by (simp add: digit_char_def digit_def digit_ok_def word_unat_eq_iff unat_of_nat take_bit_nat_eq_self)

lemma bits_val_front: "v < 2 ^ n \<Longrightarrow> bits_val (take n (bits_msb n v @ rest)) = v" "drop n (bits_msb n v @ rest) = rest"
  by (simp_all add: bits_val_bits_msb)

lemma dec_num_payload: "\<forall>c \<in> set data. digit_ok c \<Longrightarrow> dec_num (length data) (num_payload data @ rest) = (data, rest)"
proof (induction data rule: num_payload.induct)
  case (1 a b c ds)
  then have d: "digit_ok a" "digit_ok b" "digit_ok c" by auto
  note l = digit_less [OF d(1)] digit_less [OF d(2)] digit_less [OF d(3)]
  let ?v = "digit a * 100 + digit b * 10 + digit c"
  have e: "?v = (digit a * 10 + digit b) * 10 + digit c" by simp
  have v: "?v div 100 = digit a" using l by simp
  have v2: "?v div 10 mod 10 = digit b" "?v mod 10 = digit c" unfolding e by (simp_all only: radix l)
  have "?v < 2 ^ 10" using l by simp
  from bits_val_front(1) [OF this] show ?case
    using 1 by (simp add: v v2 digit_char d)
next
  case (2 a b)
  then have d: "digit_ok a" "digit_ok b" by auto
  note l = digit_less [OF d(1)] digit_less [OF d(2)]
  have v: "(digit a * 10 + digit b) div 10 = digit a" "(digit a * 10 + digit b) mod 10 = digit b" using l by simp_all
  have "digit a * 10 + digit b < 2 ^ 7" using l by simp
  from bits_val_front(1) [OF this, of rest] show ?case using l by (simp add: v digit_char d Let_def)
next
  case (3 a)
  then have d: "digit_ok a" by auto
  have "digit a < 2 ^ 4" using digit_less [OF d] by simp
  from bits_val_front(1) [OF this, of rest] show ?case by (simp add: digit_char d)
qed simp

lemma an_char: "an_ok c \<Longrightarrow> word_of_nat (an_chars ! anv c) = c"
  by (simp add: an_value(2))

lemma dec_an_payload: "\<forall>c \<in> set data. an_ok c \<Longrightarrow> dec_an (length data) (an_payload data @ rest) = (data, rest)"
proof (induction data rule: an_payload.induct)
  case (1 a b ds)
  then have d: "an_ok a" "an_ok b" by auto
  note l = an_value(1) [OF d(1)] an_value(1) [OF d(2)]
  have v: "(anv a * 45 + anv b) div 45 = anv a" "(anv a * 45 + anv b) mod 45 = anv b" using l by simp_all
  have "anv a * 45 + anv b < 2 ^ 11" using l by simp
  from bits_val_front(1) [OF this] show ?case using 1 l by (simp add: v an_char d)
next
  case (2 a)
  then have d: "an_ok a" by auto
  have "anv a < 2 ^ 6" using an_value(1) [OF d] by simp
  from bits_val_front(1) [OF this, of rest] show ?case by (simp add: an_char d)
qed simp

lemma dec_bytes_payload: "dec_bytes (length data) (bytes_bits data @ rest) = (data, rest)"
proof (induction data)
  case (Cons c ds)
  have "unat c < 2 ^ 8" using unat_byte_less [of c] by simp
  from bits_val_front(1) [OF this] show ?case using Cons by simp
qed simp

lemma kanji_of_kcode:
  assumes "0x8140 \<le> n \<and> n \<le> 0x9ffc \<or> 0xe040 \<le> n \<and> n \<le> 0xebbf" "0x40 \<le> n mod 256" "n mod 256 \<le> 0xfc"
  shows "kanji_of (kcode n) = n" "kcode n < 2 ^ 13"
proof -
  define h l where "h = n div 256" and "l = n mod 256"
  have n: "n = h * 256 + l" "0x40 \<le> l" "l \<le> 0xfc" using assms by (simp_all add: h_def l_def)
  consider (low) "0x81 \<le> h" "h \<le> 0x9f" "n \<le> 0x9ffc" | (high) "0xe0 \<le> h" "h \<le> 0xeb" "\<not> n \<le> 0x9ffc"
    using assms(1) n by linarith
  then have "kanji_of (kcode n) = n \<and> kcode n < 2 ^ 13"
  proof cases
    case low
    have v: "n - 0x8140 = (h - 0x81) * 256 + (l - 0x40)" using low n by simp
    have k: "kcode n = (h - 0x81) * 0xc0 + (l - 0x40)" 
    proof -
      have "l - 0x40 < 256" using n(3) by simp
      then show ?thesis unfolding kcode_def Let_def using low(3) by (simp only: v radix if_True if_False)
    qed
    have d: "(kcode n) div 0xc0 = h - 0x81" "kcode n mod 0xc0 = l - 0x40" 
      unfolding k by (rule radix; use n(3) in simp)+
    have "(h - 0x81) * 256 + (l - 0x40) < 0x1f00" "(h - 0x81) * 256 + (l - 0x40) + 0x8140 = n" using low n by linarith+
    then have "kanji_of (kcode n) = n" by (simp only: kanji_of_def Let_def d if_True)
    moreover have "(h - 0x81) * 0xc0 + (l - 0x40) < 8192" using low n by linarith
    ultimately show ?thesis using k by simp
  next
    case high
    have v: "n - 0xc140 = (h - 0xc1) * 256 + (l - 0x40)" using high n by simp
    have k: "kcode n = (h - 0xc1) * 0xc0 + (l - 0x40)" 
    proof -
      have "l - 0x40 < 256" using n(3) by simp
      then show ?thesis unfolding kcode_def Let_def using high(3) by (simp only: v radix if_True if_False)
    qed
    have d: "(kcode n) div 0xc0 = h - 0xc1" "kcode n mod 0xc0 = l - 0x40" 
      unfolding k by (rule radix; use n(3) in simp)+
    have "\<not> (h - 0xc1) * 256 + (l - 0x40) < 0x1f00" "(h - 0xc1) * 256 + (l - 0x40) + 0xc140 = n" using high n by linarith+
    then have "kanji_of (kcode n) = n" by (simp only: kanji_of_def Let_def d if_False)
    moreover have "(h - 0xc1) * 0xc0 + (l - 0x40) < 8192"
    proof (cases "h = 0xeb")
      case True
      then show ?thesis using n assms(1) by simp
    next
      case False
      then have "h \<le> 0xea" using high(2) by simp
      then show ?thesis using high(1) n(2,3) by linarith
    qed
    ultimately show ?thesis using k by simp
  qed
  then show "kanji_of (kcode n) = n" "kcode n < 2 ^ 13" by auto
qed

definition sjis_ok :: "byte list \<Rightarrow> bool" where
  "sjis_ok data \<longleftrightarrow> (\<forall>k < length data div 2. 0x40 \<le> unat (data ! (2 * k + 1)) \<and> unat (data ! (2 * k + 1)) \<le> 0xfc)"

lemma kanji_pairs_Cons:
  assumes "\<forall>k < length (a # b # ds) div 2. P (a # b # ds) k"
    and "\<And>k. P (a # b # ds) (Suc k) = P ds k"
  shows "P (a # b # ds) 0" "\<forall>k < length ds div 2. P ds k"
proof -
  have w: "length (a # b # ds) div 2 = Suc (length ds div 2)" by simp
  show "P (a # b # ds) 0" "\<forall>k < length ds div 2. P ds k" using assms unfolding w by (blast, metis Suc_less_eq)
qed

lemma dec_kanji_payload:
  "even (length data) \<Longrightarrow> \<forall>k < length data div 2. kanji_char_ok (kanji_at data (2 * k)) \<Longrightarrow> sjis_ok data \<Longrightarrow>
     dec_kanji (length data div 2) (kanji_payload data @ rest) = (data, rest)"
proof (induction data rule: kanji_payload.induct)
  case (1 a b ds)
  have p: "kanji_at (a # b # ds) (2 * Suc k) = kanji_at ds (2 * k)" for k by (simp add: kanji_at_def)
  note k1 = kanji_pairs_Cons [where P = "\<lambda>d k. kanji_char_ok (kanji_at d (2 * k))", OF "1.prems"(2)]
  let ?n = "unat a * 256 + unat b"
  have ok: "kanji_char_ok (kanji_at (a # b # ds) (2 * 0))" "\<forall>k < length ds div 2. kanji_char_ok (kanji_at ds (2 * k))"
    by (rule k1; simp only: p)+
  note sj = "1.prems"(3) [unfolded sjis_ok_def, rule_format]
  have b: "0x40 \<le> unat b \<and> unat b \<le> 0xfc" using sj [of 0] by simp
  have s: "sjis_ok ds"
    unfolding sjis_ok_def
  proof (intro allI impI)
    fix k assume "k < length ds div 2"
    then have "Suc k < length (a # b # ds) div 2" by simp
    from sj [OF this] show "0x40 \<le> unat (ds ! (2 * k + 1)) \<and> unat (ds ! (2 * k + 1)) \<le> 0xfc" by simp
  qed
  have m: "?n mod 256 = unat b" "?n div 256 = unat a" using b by simp_all
  have r: "0x8140 \<le> ?n \<and> ?n \<le> 0x9ffc \<or> 0xe040 \<le> ?n \<and> ?n \<le> 0xebbf"
    using ok(1) unfolding kanji_char_ok_iff unat_kanji_at by simp
  have k: "kanji_of (kcode ?n) = ?n" "kcode ?n < 2 ^ 13" by (rule kanji_of_kcode [OF r]; use b m in simp)+
  have "dec_kanji (length ds div 2) (kanji_payload ds @ rest) = (ds, rest)"
    using "1.prems"(1) ok(2) s by (intro "1.IH") simp_all
  then show ?case using bits_val_front(1) [OF k(2), of "kanji_payload ds @ rest"] b by (simp add: k(1) m)
qed auto

text \<open>
  One segment of a stream: its mode, its bytes and the rest of the stream. \<open>None\<close> is the end:
  fewer than four bits, the terminator, or a mode indicator that is not decoded here.
\<close>

definition dec_count :: "nat \<Rightarrow> QRencodeMode \<Rightarrow> byte list \<Rightarrow> nat \<times> byte list" where
  "dec_count version mode bs = (let l = QRspec_lengthIndicator mode version in (bits_val (take l bs), drop l bs))"

definition dec_seg :: "nat \<Rightarrow> byte list \<Rightarrow> (QRencodeMode \<times> byte list \<times> byte list) option" where
  "dec_seg version bs =
     (if length bs < 4 then None
      else let mid = bits_val (take 4 bs); r = drop 4 bs;
               data = (\<lambda>mode dec. let (n, r) = dec_count version mode r in Some (mode, dec n r))
           in if mid = 1 then data QR_MODE_NUM dec_num
              else if mid = 2 then data QR_MODE_AN dec_an
              else if mid = 4 then data QR_MODE_8 dec_bytes
              else if mid = 8 then data QR_MODE_KANJI dec_kanji
              else if mid = 3 then
                Some (QR_MODE_STRUCTURE,
                  [word_of_nat (bits_val (take 4 (drop 4 r)) + 1), word_of_nat (bits_val (take 4 r) + 1),
                   word_of_nat (bits_val (take 8 (drop 8 r)))], drop 16 r)
              else if mid = 9 then Some (QR_MODE_FNC1SECOND, dec_bytes 1 r)
              else None)"

text \<open>The bytes of a stream with their modes; the cut into segments is not visible here.\<close>

function dec_stream :: "nat \<Rightarrow> byte list \<Rightarrow> (QRencodeMode \<times> byte) list" where
  "dec_stream version bs =
     (case dec_seg version bs of
        None \<Rightarrow> []
      | Some (mode, data, r) \<Rightarrow>
          if length r < length bs then map (Pair mode) data @ dec_stream version r else [])"
  by pat_completeness auto
termination by (relation "measure (\<lambda>(v, bs). length bs)") auto

declare dec_stream.simps [simp del]

text \<open>Data whose segments the decoder reads back.\<close>

definition readable :: "QRencodeMode \<Rightarrow> byte list \<Rightarrow> bool" where
  "readable mode data = (case mode of
       QR_MODE_KANJI \<Rightarrow> sjis_ok data
     | QR_MODE_STRUCTURE \<Rightarrow> length data = 3 \<and> 1 \<le> unat (data ! 0) \<and> unat (data ! 0) \<le> 16
                             \<and> 1 \<le> unat (data ! 1) \<and> unat (data ! 1) \<le> 16
     | QR_MODE_ECI \<Rightarrow> False
     | _ \<Rightarrow> True)"

lemma maximumWords_count:
  assumes "data_ok mode data" "QRinput_isSplittableMode mode" "length data \<le> QRspec_maximumWords mode version"
  shows "char_count mode data < 2 ^ QRspec_lengthIndicator mode version"
proof -
  define P where "P = (2 :: nat) ^ QRspec_lengthIndicator mode version"
  have P: "1 \<le> P" by (simp add: P_def)
  have "QRspec_maximumWords mode version = (if mode = QR_MODE_KANJI then (P - 1) * 2 else P - 1)"
    using assms(2) by (auto simp: QRspec_maximumWords_def QRspec_lengthIndicator_def P_def Let_def)
  then have "char_count mode data < P" using assms(3) P by (auto simp: char_count_def split: if_splits)
  then show ?thesis by (simp add: P_def)
qed

lemma front4: "length (bits_msb 4 v @ rest) \<ge> 4" "bits_val (take 4 (bits_msb 4 v @ rest)) = v mod 16" "drop 4 (bits_msb 4 v @ rest) = rest"
  by (simp_all add: bits_val_bits_msb)

lemma dec_count_front:
  "n < 2 ^ QRspec_lengthIndicator mode version \<Longrightarrow>
     dec_count version mode (bits_msb (QRspec_lengthIndicator mode version) n @ rest) = (n, rest)"
  by (simp add: dec_count_def Let_def bits_val_bits_msb)

lemma unat_byte_minus_1: "1 \<le> unat (c :: byte) \<Longrightarrow> unat (ucast c - 1 :: uint) = unat c - 1"
proof -
  assume c: "1 \<le> unat c"
  have "(ucast c - 1 :: uint) = word_of_nat (unat c - 1)" using c unfolding ucast_byte by (simp only: of_nat_diff of_nat_1)
  moreover have "unat c - 1 < 2 ^ 32" using unat_byte_less [of c] by simp
  ultimately show ?thesis by (simp only: unat_word_of_nat)
qed

lemma dec_seg_bits:
  assumes "data_ok mode data" "readable mode data"
    and "QRinput_isSplittableMode mode \<Longrightarrow> length data \<le> QRspec_maximumWords mode version"
  shows "dec_seg version (seg_bits version mode data @ rest) = Some (mode, data, rest)"
proof -
  have cnt: "char_count mode data < 2 ^ QRspec_lengthIndicator mode version" if "QRinput_isSplittableMode mode"
    using maximumWords_count assms that by blast
  have s: "QRinput_isSplittableMode QR_MODE_NUM" "QRinput_isSplittableMode QR_MODE_AN" "QRinput_isSplittableMode QR_MODE_8"
    "QRinput_isSplittableMode QR_MODE_KANJI" by (simp_all add: QRinput_isSplittableMode_def)
  show ?thesis
  proof (cases mode)
    case QR_MODE_NUM
    then show ?thesis using assms(1) cnt s dec_num_payload [of data rest]
      by (simp add: seg_bits_def dec_seg_def Let_def front4 bits_val_bits_msb mode_id_def dec_count_front char_count_def payload_def data_ok_def)
  next
    case QR_MODE_AN
    then show ?thesis using assms(1) cnt s dec_an_payload [of data rest]
      by (simp add: seg_bits_def dec_seg_def Let_def front4 bits_val_bits_msb mode_id_def dec_count_front char_count_def payload_def data_ok_def)
  next
    case QR_MODE_8
    then show ?thesis using assms(1) cnt s dec_bytes_payload [of data rest]
      by (simp add: seg_bits_def dec_seg_def Let_def front4 bits_val_bits_msb mode_id_def dec_count_front char_count_def payload_def data_ok_def)
  next
    case QR_MODE_KANJI
    then show ?thesis using assms(1,2) cnt s dec_kanji_payload [of data rest]
      by (simp add: seg_bits_def dec_seg_def Let_def front4 bits_val_bits_msb mode_id_def dec_count_front char_count_def payload_def data_ok_def
          readable_def)
  next
    case QR_MODE_STRUCTURE
    then obtain a b c where d: "data = [a, b, c]" using assms(2) by (auto simp: readable_def length_Suc_conv numeral_3_eq_3)
    have r: "1 \<le> unat a" "unat a \<le> 16" "1 \<le> unat b" "unat b \<le> 16" using assms(2) QR_MODE_STRUCTURE d by (simp_all add: readable_def)
    have m: "(unat a - 1) mod 16 + 1 = unat a" "(unat b - 1) mod 16 + 1 = unat b" using r by simp_all
    have c: "unat c mod 256 = unat c" using unat_byte_less [of c] by simp
    show ?thesis
      using QR_MODE_STRUCTURE d r m c
      by (simp add: seg_bits_def dec_seg_def Let_def front4 mode_id_def bits_val_bits_msb unat_byte_minus_1)
  next
    case QR_MODE_FNC1SECOND
    then show ?thesis using assms(1) dec_bytes_payload [of data rest]
      by (simp add: seg_bits_def dec_seg_def Let_def front4 bits_val_bits_msb mode_id_def data_ok_def)
  qed (use assms in \<open>simp_all add: data_ok_def readable_def\<close>)
qed

lemma readable_cut:
  assumes "readable mode data" "QRinput_isSplittableMode mode" "mode = QR_MODE_KANJI \<Longrightarrow> even n" "n < length data"
  shows "readable mode (take n data)" "readable mode (drop n data)"
proof -
  note s = assms(2)
  have "readable mode (take n data) \<and> readable mode (drop n data)"
  proof (cases "mode = QR_MODE_KANJI")
    case True
    obtain m where n: "n = 2 * m" using assms(3) True by (metis evenE)
    have all: "0x40 \<le> unat (data ! (2 * k + 1)) \<and> unat (data ! (2 * k + 1)) \<le> 0xfc" if "k < length data div 2" for k
      using assms(1) True that by (simp add: readable_def sjis_ok_def)
    have "k < length data div 2" if "k < m" for k using that n assms(4) by linarith
    moreover have "0x40 \<le> unat (drop n data ! (2 * k + 1)) \<and> unat (drop n data ! (2 * k + 1)) \<le> 0xfc"
      if "k < (length data - n) div 2" for k
    proof -
      have "m + k < length data div 2" using that n assms(4) by linarith
      moreover have "drop n data ! (2 * k + 1) = data ! (2 * (m + k) + 1)" using n assms(4) by simp
      ultimately show ?thesis using all [of "m + k"] by simp
    qed
    ultimately show ?thesis using True n all assms(4) by (simp add: readable_def sjis_ok_def)
  next
    case False
    then show ?thesis using assms(1) s by (cases mode) (auto simp: readable_def QRinput_isSplittableMode_def)
  qed
  then show "readable mode (take n data)" "readable mode (drop n data)" by auto
qed

lemma readable_split:
  assumes "readable mode data" "n = QRspec_maximumWords mode version" "n \<noteq> 0" "n < length data"
  shows "readable mode (take n data)" "readable mode (drop n data)"
  using readable_cut [OF assms(1) _ _ assms(4)] maximumWords_splittable maximumWords_even assms(2,3) by blast+

lemma dec_stream_entry:
  "data_ok mode data \<Longrightarrow> readable mode data \<Longrightarrow>
     dec_stream version (entry_bits version mode data @ rest) = map (Pair mode) data @ dec_stream version rest"
proof (induction "length data" arbitrary: data rule: less_induct)
  case less
  let ?w = "QRspec_maximumWords mode version"
  have seg: "dec_stream version (seg_bits version mode d @ r) = map (Pair mode) d @ dec_stream version r"
    if "data_ok mode d" "readable mode d" "QRinput_isSplittableMode mode \<Longrightarrow> length d \<le> ?w" for d r
  proof -
    have "4 \<le> length (seg_bits version mode d)" by (simp add: seg_bits_def)
    then have "seg_bits version mode d \<noteq> []" by auto
    then show ?thesis using dec_seg_bits [OF that] by (subst dec_stream.simps) simp
  qed
  show ?case
  proof (cases "?w \<noteq> 0 \<and> length data > ?w")
    case True
    note p = data_ok_split [OF less.prems(1) refl, of version] readable_split [OF less.prems(2) refl, of version]
    have "dec_stream version (entry_bits version mode (drop ?w data) @ rest)
        = map (Pair mode) (drop ?w data) @ dec_stream version rest"
      using True p by (intro less.hyps) auto
    then have "dec_stream version (seg_bits version mode (take ?w data) @ entry_bits version mode (drop ?w data) @ rest)
        = map (Pair mode) (take ?w data) @ map (Pair mode) (drop ?w data) @ dec_stream version rest"
      using True p seg [of "take ?w data"] by simp
    then show ?thesis using True by (subst entry_bits_unfold) (simp add: Let_def flip: map_append append_assoc)
  next
    case False
    have "length data \<le> ?w" if "QRinput_isSplittableMode mode"
    proof -
      have "?w \<noteq> 0" using that by (cases mode; cases "length_class version = 0 \<or> length_class version = 1")
        (auto simp: QRspec_maximumWords_def QRinput_isSplittableMode_def lengthTableBits_def length_class_def Let_def)
      then show ?thesis using False by simp
    qed
    then show ?thesis using False seg [OF less.prems] by (subst entry_bits_unfold) (auto simp: Let_def)
  qed
qed

lemma is_bits_payload [simp]: "is_bits (payload mode data)"
proof -
  have "is_bits (num_payload data)" by (induction data rule: num_payload.induct) auto
  moreover have "is_bits (an_payload data)" by (induction data rule: an_payload.induct) auto
  moreover have "is_bits (kanji_payload data)" by (induction data rule: kanji_payload.induct) auto
  ultimately show ?thesis by (cases mode) (simp_all add: payload_def)
qed

lemma is_bits_seg_bits [simp]: "is_bits (seg_bits version mode data)"
  by (cases mode) (simp_all add: seg_bits_def eci_bits_def Let_def)

lemma is_bits_entry_bits [simp]: "is_bits (entry_bits version mode data)"
proof (induction "length data" arbitrary: data rule: less_induct)
  case less
  have "is_bits (entry_bits version mode (drop n data))" if "0 < n" "n < length data" for n
    using that by (intro less.hyps) simp
  then show ?case by (subst entry_bits_unfold) (simp add: Let_def)
qed

text \<open>
  C17. What an entry encodes can be read back: for every valid entry of the data modes, of a
  structured append header or of FNC1 in second position, whatever its length,
  \<open>QRinput_encodeBitStream\<close> succeeds, changes nothing but the stream of the entry, and the
  decoder of the standard reads exactly the bytes of the entry, in its mode, from that stream.
  Kanji have to be characters of Shift JIS, whose second byte is at least \<open>0x40\<close>.
\<close>

theorem encodeBitStream_roundtrip:
  assumes "entry_ok e" "readable (le_mode e) (le_data e)"
  shows "\<exists>b. QRinput_encodeBitStream e version False = Inr (e\<lparr>le_bstream := Some b\<rparr>) \<and> bs_wf b
     \<and> dec_stream version (bs_data b) = map (Pair (le_mode e)) (le_data e)"
proof -
  have "dec_stream version [] = []" by (subst dec_stream.simps) (simp add: dec_seg_def)
  then have "dec_stream version (entry_bits version (le_mode e) (le_data e)) = map (Pair (le_mode e)) (le_data e)"
    using dec_stream_entry [of "le_mode e" "le_data e" version "[]"] assms by (simp add: entry_ok_def)
  moreover have "bs_wf (bs_of (entry_bits version (le_mode e) (le_data e)))" by (auto simp: bs_wf_iff)
  ultimately show ?thesis using encodeBitStream_bits [OF assms(1), of version] by auto
qed

theorem encodeBitStream_roundtrip_witness:
  "\<exists>b. QRinput_encodeBitStream \<lparr>le_mode = QR_MODE_NUM, le_size = 4, le_data = [0x31, 0x32, 0x33, 0x34], le_bstream = None\<rparr> 1 False
        = Inr \<lparr>le_mode = QR_MODE_NUM, le_size = 4, le_data = [0x31, 0x32, 0x33, 0x34], le_bstream = Some b\<rparr>
     \<and> dec_stream 1 (bs_data b) = [(QR_MODE_NUM, 0x31), (QR_MODE_NUM, 0x32), (QR_MODE_NUM, 0x33), (QR_MODE_NUM, 0x34)]"
  using encodeBitStream_roundtrip
    [of "\<lparr>le_mode = QR_MODE_NUM, le_size = 4, le_data = [0x31, 0x32, 0x33, 0x34], le_bstream = None\<rparr>" 1]
  by (auto simp: entry_ok_def data_ok_def digit_ok_def readable_def)

section \<open>Lengths and estimates\<close>

lemma length_num_payload: "length (num_payload data) = QRinput_estimateBitsModeNum (length data)"
proof (induction data rule: num_payload.induct)
  case (1 a b c ds)
  have w: "length (a # b # c # ds) div 3 = Suc (length ds div 3)" by simp
  have "length (a # b # c # ds) - Suc n * 3 = length ds - n * 3" for n by simp
  then show ?case using 1 unfolding QRinput_estimateBitsModeNum_def Let_def w by simp
qed (simp_all add: QRinput_estimateBitsModeNum_def)

lemma length_an_payload: "length (an_payload data) = QRinput_estimateBitsModeAn (length data)"
  by (induction data rule: an_payload.induct) (auto simp: QRinput_estimateBitsModeAn_def and_one_eq Let_def)

lemma length_kanji_payload: "length (kanji_payload data) = QRinput_estimateBitsModeKanji (length data)"
  by (induction data rule: kanji_payload.induct) (auto simp: QRinput_estimateBitsModeKanji_def)

lemma overhead_one:
  assumes "0 < sz" "sz \<le> 2 ^ QRspec_lengthIndicator mode version"
  shows "entry_overhead mode sz version False = 4 + QRspec_lengthIndicator mode version"
proof -
  define m where "m = (2 :: nat) ^ QRspec_lengthIndicator mode version"
  have "sz + m - 1 = 1 * m + (sz - 1)" "sz - 1 < m" using assms by (simp_all add: m_def)
  then have "(sz + m - 1) div m = 1" by (simp only: radix)
  then show ?thesis by (simp add: entry_overhead_def Let_def m_def MODE_INDICATOR_SIZE_def)
qed

lemma entry_bits_one:
  "\<not> QRinput_isSplittableMode mode \<or> length data \<le> QRspec_maximumWords mode version \<Longrightarrow>
     entry_bits version mode data = seg_bits version mode data"
  using maximumWords_splittable [of mode version] by (subst entry_bits_unfold) (auto simp: Let_def)

lemma estimate_one_segment:
  assumes "entry_ok e" "le_mode e \<noteq> QR_MODE_ECI" "le_mode e \<noteq> QR_MODE_KANJI"
    and "QRinput_isSplittableMode (le_mode e) \<Longrightarrow> le_size e \<le> QRspec_maximumWords (le_mode e) version" "0 < version"
  shows "QRinput_estimateBitStreamSizeOfEntry e version False = length (entry_bits version (le_mode e) (le_data e))"
proof -
  let ?m = "le_mode e" and ?d = "le_data e"
  have sz: "le_size e = length ?d" "0 < length ?d" "data_ok ?m ?d" using assms(1) by (auto simp: entry_ok_def)
  have one: "entry_bits version ?m ?d = seg_bits version ?m ?d"
    using assms(4) sz by (intro entry_bits_one) auto
  have ov: "entry_overhead ?m (length ?d) version False = 4 + QRspec_lengthIndicator ?m version" if "QRinput_isSplittableMode ?m"
    using maximumWords_count [OF sz(3) that, of version] assms(3) assms(4) [OF that] sz
    by (intro overhead_one) (auto simp: char_count_def)
  have s: "QRinput_isSplittableMode QR_MODE_NUM" "QRinput_isSplittableMode QR_MODE_AN" "QRinput_isSplittableMode QR_MODE_8"
    by (simp_all add: QRinput_isSplittableMode_def)
  show ?thesis unfolding one using assms(2,3,5) sz ov s
    by (cases ?m) (simp_all add: QRinput_estimateBitStreamSizeOfEntry_def Let_def seg_bits_def payload_def length_num_payload
        length_an_payload QRinput_estimateBitsMode8_def data_ok_def STRUCTURE_HEADER_SIZE_def MODE_INDICATOR_SIZE_def)
qed

end
