(* ===== verification/QR_Stream.thy ===== *)
theory QR_Stream
  imports QR_Input QR_Segments
begin

text \<open>
  The streams of whole inputs: the conversion of the entries ends and finds a version that
  holds them, padding fills the symbol exactly, and the data can be read back from the bytes.
\<close>

section \<open>Capacity\<close>

lemma capacity_steps:
  "list_all2 (\<lambda>c d. list_all2 (\<lambda>e f. cap_words c - e \<le> cap_words d - f) (cap_ec c) (cap_ec d))
     (butlast (tl qrspecCapacity)) (tl (tl qrspecCapacity))"
  by code_simp

lemma capacity_ec_length: "list_all (\<lambda>c. length (cap_ec c) = 4) qrspecCapacity"
  by code_simp

lemma dataLength_Suc:
  assumes "1 \<le> v" "v < 40" "level \<le> QR_ECLEVEL_H"
  shows "QRspec_getDataLength v level \<le> QRspec_getDataLength (Suc v) level"
proof -
  obtain k where k: "v = Suc k" using assms(1) by (cases v) auto
  have "list_all2 (\<lambda>e f. cap_words (qrspecCapacity ! v) - e \<le> cap_words (qrspecCapacity ! Suc v) - f)
      (cap_ec (qrspecCapacity ! v)) (cap_ec (qrspecCapacity ! Suc v))"
    using list_all2_nthD [OF capacity_steps, of k] assms k by (simp add: nth_butlast nth_tl)
  moreover have "length (cap_ec (qrspecCapacity ! v)) = 4"
    using capacity_ec_length assms by (simp add: list_all_length)
  ultimately show ?thesis using list_all2_nthD [of _ "cap_ec (qrspecCapacity ! v)" _ level] assms(3)
    by (fastforce simp: QRspec_getDataLength_def)
qed

lemma dataLength_mono:
  assumes "1 \<le> u" "u \<le> v" "v \<le> 40" "level \<le> QR_ECLEVEL_H"
  shows "QRspec_getDataLength u level \<le> QRspec_getDataLength v level"
  using assms(2,3)
proof (induction v rule: nat_induct_at_least)
  case (Suc n)
  then show ?case using dataLength_Suc [of n level] assms(1,4) by simp
qed simp

lemma minimumVersion_cases:
  obtains (none) "QRspec_getMinimumVersion sz level = -1" "QRspec_getDataLength 40 level < sz"
  | (some) v where "QRspec_getMinimumVersion sz level = int v" "1 \<le> v" "v \<le> 40" "sz \<le> QRspec_getDataLength v level"
proof -
  have "sorted [1..<Suc QRSPEC_VERSION_MAX]" by (rule sorted_upt)
  from getMinimumVersion_loop_least [OF this, of sz level]
  consider "QRspec_getMinimumVersion sz level = -1" "\<forall>i \<in> set [1..<Suc QRSPEC_VERSION_MAX]. QRspec_getDataLength i level < sz"
    | v where "v \<in> set [1..<Suc QRSPEC_VERSION_MAX]" "QRspec_getMinimumVersion sz level = int v" "sz \<le> QRspec_getDataLength v level"
    unfolding QRspec_getMinimumVersion_def by (elim disjE conjE bexE) blast+
  then show ?thesis
  proof cases
    case 1
    then show ?thesis by (intro none) (auto simp: QRSPEC_VERSION_MAX_def)
  next
    case (2 v)
    then show ?thesis by (intro some [of v]) (auto simp: QRSPEC_VERSION_MAX_def)
  qed
qed

section \<open>Conversion\<close>

definition with_stream :: "nat \<Rightarrow> QRinput_List \<Rightarrow> QRinput_List" where
  "with_stream version e = e\<lparr>le_bstream := Some (bs_of (entry_bits version (le_mode e) (le_data e)))\<rparr>"

definition all_bits :: "nat \<Rightarrow> QRinput_List list \<Rightarrow> byte list" where
  "all_bits version es = concat (map (\<lambda>e. entry_bits version (le_mode e) (le_data e)) es)"

lemma with_stream_sel [simp]:
  "le_mode (with_stream v e) = le_mode e" "le_size (with_stream v e) = le_size e" "le_data (with_stream v e) = le_data e"
  "le_bstream (with_stream v e) = Some (bs_of (entry_bits v (le_mode e) (le_data e)))"
  by (simp_all add: with_stream_def)

lemma entry_ok_with_stream [simp]: "entry_ok (with_stream v e) = entry_ok e"
  by (simp add: entry_ok_def)

lemma with_stream_twice [simp]: "with_stream v (with_stream u e) = with_stream v e"
  by (simp add: with_stream_def)

lemma createBitStream_loop_ok:
  "list_all entry_ok es \<Longrightarrow>
     createBitStream_loop es v False n = (Inr (n + length (all_bits v es)), map (with_stream v) es)"
  by (induction es arbitrary: n)
    (simp_all add: encodeBitStream_bits Let_def all_bits_def with_stream_def add.assoc)

lemma all_bits_with_stream [simp]: "all_bits v (map (with_stream u) es) = all_bits v es"
  by (simp add: all_bits_def comp_def)

text \<open>Inputs of QR Code symbols whose entries are complete.\<close>

definition qr_input_ok :: "QRinput \<Rightarrow> bool" where
  "qr_input_ok i \<longleftrightarrow> \<not> inp_mqr i \<and> inp_version i \<le> 40 \<and> inp_level i \<le> QR_ECLEVEL_H \<and> list_all entry_ok (inp_entries i)"

definition converted :: "nat \<Rightarrow> QRinput \<Rightarrow> QRinput" where
  "converted v i = i\<lparr>inp_version := v, inp_entries := map (with_stream v) (inp_entries i)\<rparr>"

lemma convertData_loop_ok:
  assumes "qr_input_ok i"
  obtains (ok) v where "convertData_loop i = Some (Inr (), converted v i)" "inp_version i \<le> v" "1 \<le> v" "v \<le> 40"
      "length (all_bits v (inp_entries i)) \<le> 8 * QRspec_getDataLength v (inp_level i)"
  | (range) v i' where "convertData_loop i = Some (Inl ERANGE, i')" "inp_version i \<le> v" "v \<le> 40"
      "8 * QRspec_getDataLength 40 (inp_level i) < length (all_bits v (inp_entries i))"
  using assms
proof (induction "41 - inp_version i" arbitrary: i thesis rule: less_induct)
  case less
  note ok = less.prems(3) [unfolded qr_input_ok_def]
  let ?v = "inp_version i" let ?b = "length (all_bits ?v (inp_entries i))"
  let ?i = "i\<lparr>inp_entries := map (with_stream ?v) (inp_entries i)\<rparr>"
  have cr: "QRinput_createBitStream i = (Inr ?b, ?i)"
    using ok by (simp add: QRinput_createBitStream_def createBitStream_loop_ok)
  show ?case
  proof (cases rule: minimumVersion_cases [of "(?b + 7) div 8" "inp_level i"])
    case none
    then have "convertData_loop i = Some (Inl ERANGE, ?i)" by (subst convertData_loop.simps) (simp add: cr)
    then show ?thesis using less.prems(2) [of ?i ?v] none(2) ok by simp
  next
    case (some u)
    show ?thesis
    proof (cases "int u > int ?v")
      case False
      then have "convertData_loop i = Some (Inr (), ?i)"
        using some by (subst convertData_loop.simps) (simp add: cr QRinput_getVersion_def)
      moreover have "?i = converted ?v i" by (simp add: converted_def)
      moreover have "QRspec_getDataLength u (inp_level i) \<le> QRspec_getDataLength ?v (inp_level i)"
        using False some ok by (intro dataLength_mono) auto
      ultimately show ?thesis using some False ok by (intro less.prems(1) [of ?v]) auto
    next
      case True
      let ?j = "?i\<lparr>inp_version := u\<rparr>"
      have loop: "convertData_loop i = convertData_loop ?j"
        using some True ok by (subst convertData_loop.simps)
          (simp add: cr QRinput_getVersion_def set_version_ignored_def QRinput_setVersion_def QRSPEC_VERSION_MAX_def)
      have j: "qr_input_ok ?j" using ok some by (auto simp: qr_input_ok_def list_all_iff)
      have m: "41 - inp_version ?j < 41 - inp_version i" using True some by simp
      show ?thesis
      proof (rule less.hyps [OF m _ _ j])
        fix v assume "convertData_loop ?j = Some (Inr (), converted v ?j)" "inp_version ?j \<le> v" "1 \<le> v" "v \<le> 40"
          "length (all_bits v (inp_entries ?j)) \<le> 8 * QRspec_getDataLength v (inp_level ?j)"
        then show ?thesis using True by (intro less.prems(1) [of v]) (simp_all add: loop converted_def comp_def)
      next
        fix v i' assume "convertData_loop ?j = Some (Inl ERANGE, i')" "inp_version ?j \<le> v" "v \<le> 40"
          "8 * QRspec_getDataLength 40 (inp_level ?j) < length (all_bits v (inp_entries ?j))"
        then show ?thesis using True by (intro less.prems(2) [of i' v]) (simp_all add: loop)
      qed
    qed
  qed
qed

section \<open>Merging and padding\<close>

lemma convertData_ok:
  assumes "qr_input_ok i"
  obtains (ok) v where "QRinput_convertData i = (Inr (), converted v i)" "inp_version i \<le> v" "1 \<le> v" "v \<le> 40"
      "length (all_bits v (inp_entries i)) \<le> 8 * QRspec_getDataLength v (inp_level i)"
  | (range) v i' where "QRinput_convertData i = (Inl ERANGE, i')" "inp_version i \<le> v" "v \<le> 40"
      "8 * QRspec_getDataLength 40 (inp_level i) < length (all_bits v (inp_entries i))"
proof -
  let ?ver = "QRinput_estimateVersion i"
  let ?i = "if ?ver > int (inp_version i) then set_version_ignored i ?ver else i"
  have cd: "QRinput_convertData i = (case convertData_loop ?i of None \<Rightarrow> (Inl EHANG, ?i) | Some r \<Rightarrow> r)"
    by (simp add: QRinput_convertData_def QRinput_getVersion_def Let_def)
  have "\<exists>u. ?i = i\<lparr>inp_version := u\<rparr> \<and> inp_version i \<le> u \<and> u \<le> 40"
  proof (cases "int (inp_version i) < ?ver \<and> ?ver \<le> 40")
    case True
    then have "?i = i\<lparr>inp_version := nat ?ver\<rparr>" using assms
      by (simp add: set_version_ignored_def QRinput_setVersion_def qr_input_ok_def QRSPEC_VERSION_MAX_def)
    moreover have "inp_version i \<le> nat ?ver" "nat ?ver \<le> 40" using True by linarith+
    ultimately show ?thesis by blast
  next
    case False
    then have "?i = i\<lparr>inp_version := inp_version i\<rparr>" using assms
      by (auto simp: set_version_ignored_def QRinput_setVersion_def qr_input_ok_def QRSPEC_VERSION_MAX_def)
    then show ?thesis using assms by (intro exI [of _ "inp_version i"]) (simp add: qr_input_ok_def)
  qed
  then obtain u where u: "?i = i\<lparr>inp_version := u\<rparr>" "inp_version i \<le> u" "u \<le> 40" by blast
  have "qr_input_ok ?i" using assms u by (simp add: qr_input_ok_def)
  then show ?thesis
  proof (cases rule: convertData_loop_ok)
    case (ok v)
    then show ?thesis using u cd by (intro that(1) [of v]) (auto simp: converted_def)
  next
    case (range v i')
    then show ?thesis using u cd by (intro that(2) [of i' v]) auto
  qed
qed

lemma merge_streams_ok: "merge_streams (map (with_stream v) es) = Inr (bs_of (all_bits v es))"
proof -
  have "fold_res (\<lambda>e b. BitStream_append b (le_bstream e)) (map (with_stream v) es) (bs_of xs)
      = Inr (bs_of (xs @ all_bits v es))" for xs
    by (induction es arbitrary: xs) (simp_all add: bs.append_rep all_bits_def)
  from this [of "[]"] show ?thesis by (simp add: merge_streams_def bs.new_rep)
qed

lemma is_bits_all_bits [simp]: "is_bits (all_bits v es)"
  by (induction es) (simp_all add: all_bits_def)

text \<open>The padding of the standard: a terminator of at most four zeros, zeros up to a byte boundary, pad bytes.\<close>

definition padding_bits :: "nat \<Rightarrow> nat \<Rightarrow> byte list" where
  "padding_bits maxwords bits =
     (if 8 * maxwords - bits \<le> 4 then replicate (8 * maxwords - bits) 0
      else let words = (bits + 11) div 8
           in replicate (8 * words - bits) 0 @ bytes_bits (pad_bytes (maxwords - words)))"

lemma appendPaddingBit_ok:
  assumes "is_bits xs" "length xs \<le> 8 * QRspec_getDataLength (inp_version i) (inp_level i)"
  defines "w \<equiv> QRspec_getDataLength (inp_version i) (inp_level i)"
  shows "QRinput_appendPaddingBit (bs_of xs) i = Inr (bs_of (xs @ padding_bits w (length xs)))"
    and "length (xs @ padding_bits w (length xs)) = 8 * w"
proof -
  let ?n = "length xs" let ?words = "(?n + 11) div 8"
  have words: "?n + 4 \<le> 8 * ?words" "8 * ?words - ?n \<le> 11" by linarith+
  have le: "?words \<le> w" if "\<not> 8 * w - ?n \<le> 4" using that by linarith
  have lp: "length (pad_bytes k) = k" for k by (simp add: pad_bytes_def)
  show "length (xs @ padding_bits w ?n) = 8 * w"
    using assms(2) words le by (auto simp: padding_bits_def Let_def lp w_def [symmetric])
  have eq: "(?n + 4 + 7) div 8 = ?words" by simp
  have b: "?words * 8 - ?n \<le> 32" using words by linarith
  show "QRinput_appendPaddingBit (bs_of xs) i = Inr (bs_of (xs @ padding_bits w ?n))"
  proof (cases "w * 8 = ?n \<or> w * 8 - ?n \<le> 4")
    case True
    then show ?thesis using assms(2)
      unfolding QRinput_appendPaddingBit_def padding_bits_def Let_def w_def [symmetric] bs_of_sel
      by (auto simp: bs.appendNum_rep bits_msb_zero mult.commute)
  next
    case False
    then show ?thesis using assms(2) b le lp
      unfolding QRinput_appendPaddingBit_def padding_bits_def Let_def w_def [symmetric] bs_of_sel eq bs.new_rep
      by (auto simp: bs.appendNum_rep bs.appendBytes_rep bs.append_rep bits_msb_zero mult.commute pad_bytes_def)
  qed
qed

lemma bits_as_bytes: "is_bits xs \<Longrightarrow> length xs = 8 * n \<Longrightarrow> \<exists>vs. length vs = n \<and> xs = bytes_bits vs"
proof (induction n arbitrary: xs)
  case (Suc n)
  have "length (drop 8 xs) = 8 * n" using Suc.prems by simp
  with Suc.IH [OF is_bits_drop [OF Suc.prems(1), of 8]] obtain vs where vs: "length vs = n" "drop 8 xs = bytes_bits vs" by blast
  let ?b = "word_of_nat (bits_val (take 8 xs)) :: byte"
  have l: "length (take 8 xs) = 8" using Suc.prems by simp
  have "bits_val (take 8 xs) < 256" using bits_val_less [OF is_bits_take [OF Suc.prems(1), of 8]] l by simp
  then have "unat ?b = bits_val (take 8 xs)" by (simp add: unat_of_nat take_bit_nat_eq_self)
  then have "bits_msb 8 (unat ?b) = take 8 xs" using bits_msb_bits_val [OF is_bits_take [OF Suc.prems(1), of 8]] l by simp
  then have "xs = bytes_bits (?b # vs)" using vs(2) append_take_drop_id [of 8 xs] by simp
  then show ?case using vs(1) by (intro exI [of _ "?b # vs"]) simp
qed simp

section \<open>The bytes of an input\<close>

lemma dec_stream_all:
  assumes "list_all entry_ok es" "list_all (\<lambda>e. readable (le_mode e) (le_data e)) es"
  shows "dec_stream v (all_bits v es @ rest)
       = concat (map (\<lambda>e. map (Pair (le_mode e)) (le_data e)) es) @ dec_stream v rest"
  using assms by (induction es) (simp_all add: all_bits_def dec_stream_entry entry_ok_def)

lemma dec_stream_padding: "dec_stream v (padding_bits w n) = []"
proof -
  have "dec_seg v (padding_bits w n) = None"
  proof (cases "8 * w - n \<le> 3")
    case True
    then show ?thesis by (simp add: padding_bits_def dec_seg_def)
  next
    case False
    have "4 \<le> 8 * ((n + 11) div 8) - n" by linarith
    then have "take 4 (padding_bits w n) = replicate 4 0" "4 \<le> length (padding_bits w n)"
      using False by (auto simp: padding_bits_def Let_def)
    then show ?thesis by (simp add: dec_seg_def Let_def)
  qed
  then show ?thesis by (subst dec_stream.simps) simp
qed

lemma capacity_positive:
  assumes "1 \<le> v" "v \<le> 40" "level \<le> QR_ECLEVEL_H"
  shows "0 < QRspec_getDataLength v level"
  using level_spec_at [OF assms] by (auto simp: level_spec_def Let_def QRspec_getDataLength_def intro!: Nat.gr0I)

lemma getByteStream_ok:
  assumes "qr_input_ok i" "inp_fnc1 i = 0"
  obtains (ok) v bytes where "QRinput_getByteStream i = (Inr bytes, converted v i)" "inp_version i \<le> v" "1 \<le> v" "v \<le> 40"
      "length bytes = QRspec_getDataLength v (inp_level i)"
      "bytes_bits bytes = all_bits v (inp_entries i)
         @ padding_bits (QRspec_getDataLength v (inp_level i)) (length (all_bits v (inp_entries i)))"
  | (range) v i' where "QRinput_getByteStream i = (Inl ERANGE, i')" "inp_version i \<le> v" "v \<le> 40"
      "8 * QRspec_getDataLength 40 (inp_level i) < length (all_bits v (inp_entries i))"
  using assms(1)
proof (cases rule: convertData_ok)
  case (ok v)
  let ?es = "inp_entries i" let ?w = "QRspec_getDataLength v (inp_level i)"
  let ?xs = "all_bits v ?es @ padding_bits ?w (length (all_bits v ?es))"
  have m: "QRinput_mergeBitStream i = (Inr (bs_of (all_bits v ?es)), converted v i)"
    using assms ok(1) by (simp add: QRinput_mergeBitStream_def qr_input_ok_def converted_def merge_streams_ok)
  have p: "QRinput_appendPaddingBit (bs_of (all_bits v ?es)) (converted v i) = Inr (bs_of ?xs)"
    "length ?xs = 8 * ?w"
    using appendPaddingBit_ok [of "all_bits v ?es" "converted v i"] ok(5) by (simp_all add: converted_def)
  have "is_bits ?xs" by (simp add: padding_bits_def Let_def)
  from bits_as_bytes [OF this p(2)] obtain bytes where b: "length bytes = ?w" "?xs = bytes_bits bytes" by blast
  have "0 < ?w" using capacity_positive ok(3,4) assms(1) by (simp add: qr_input_ok_def)
  then have "bytes \<noteq> []" using b(1) by auto
  then have "BitStream_toByte (bs_of ?xs) = Some bytes"
    using BitStream_toByte_bs_of [of "[]" bytes] b by auto
  then have "QRinput_getByteStream i = (Inr bytes, converted v i)"
    using assms(1) p(1) by (simp add: QRinput_getByteStream_def QRinput_getBitStream_def m converted_def qr_input_ok_def)
  then show ?thesis using ok b by (intro that(1) [of bytes v]) auto
next
  case (range v i')
  then have "QRinput_mergeBitStream i = (Inl ERANGE, i')"
    using assms by (simp add: QRinput_mergeBitStream_def qr_input_ok_def)
  then have "QRinput_getByteStream i = (Inl ERANGE, i')"
    by (simp add: QRinput_getByteStream_def QRinput_getBitStream_def)
  then show ?thesis using range by (intro that(2) [of i' v])
qed

text \<open>
  C13. The conversion of an input always ends: for every input of a QR Code symbol with complete
  entries \<open>QRinput_getByteStream\<close> either fails with \<open>ERANGE\<close>, and then the streams of the
  entries, at some version the loop tried, need more than the largest symbol holds, or returns
  exactly as many bytes as the data capacity of the version it settled on, which is at least
  the requested one. Only version and streams of the input are changed.
\<close>

theorem getByteStream_total:
  assumes "qr_input_ok input" "inp_fnc1 input = 0"
  shows "case QRinput_getByteStream input of
       (Inr bytes, input') \<Rightarrow>
         \<exists>v. inp_version input \<le> v \<and> 1 \<le> v \<and> v \<le> QRSPEC_VERSION_MAX \<and> input' = converted v input
           \<and> length bytes = QRspec_getDataLength v (inp_level input)
     | (Inl e, _) \<Rightarrow>
         e = ERANGE \<and> (\<exists>v \<le> QRSPEC_VERSION_MAX. inp_version input \<le> v
           \<and> 8 * QRspec_getDataLength QRSPEC_VERSION_MAX (inp_level input) < length (all_bits v (inp_entries input)))"
  using assms by (cases rule: getByteStream_ok) (auto simp: QRSPEC_VERSION_MAX_def)

theorem getByteStream_total_witness:
  "\<exists>bytes input'. QRinput_getByteStream \<lparr>inp_version = 0, inp_level = QR_ECLEVEL_Q, inp_entries = [], inp_tail = TailNull,
        inp_mqr = False, inp_fnc1 = 0, inp_appid = 0\<rparr> = (Inr bytes, input') \<and> 1 \<le> inp_version input'"
  using getByteStream_total [of "\<lparr>inp_version = 0, inp_level = QR_ECLEVEL_Q, inp_entries = [], inp_tail = TailNull,
        inp_mqr = False, inp_fnc1 = 0, inp_appid = 0\<rparr>"]
  by (auto simp: qr_input_ok_def all_bits_def converted_def split: prod.splits sum.splits)

text \<open>
  C12. The data survives: from the bytes of an input the decoder of the standard reads the
  bytes of all entries in order, each in the mode of its entry, and then meets the end. The cut
  of long entries into segments, the choice of the version and the padding are invisible.
\<close>

theorem getByteStream_roundtrip:
  assumes "qr_input_ok input" "inp_fnc1 input = 0"
    and "list_all (\<lambda>e. readable (le_mode e) (le_data e)) (inp_entries input)"
    and "QRinput_getByteStream input = (Inr bytes, input')"
  shows "dec_stream (inp_version input') (bytes_bits bytes)
       = concat (map (\<lambda>e. map (Pair (le_mode e)) (le_data e)) (inp_entries input))"
  using assms(1,2)
proof (cases rule: getByteStream_ok)
  case (ok v bs)
  then show ?thesis
    using assms dec_stream_all [of "inp_entries input" v] dec_stream_padding
    by (auto simp: qr_input_ok_def converted_def)
qed (use assms(4) in simp)

definition one_digit :: QRinput where
  "one_digit = \<lparr>inp_version = 0, inp_level = QR_ECLEVEL_Q,
     inp_entries = [\<lparr>le_mode = QR_MODE_NUM, le_size = 1, le_data = [0x37], le_bstream = None\<rparr>], inp_tail = TailLast,
     inp_mqr = False, inp_fnc1 = 0, inp_appid = 0\<rparr>"

lemma one_digit_ok: "qr_input_ok one_digit" "inp_fnc1 one_digit = 0"
  by (simp_all add: one_digit_def qr_input_ok_def entry_ok_def data_ok_def digit_ok_def)

lemma one_digit_stream: "\<exists>bytes v. QRinput_getByteStream one_digit = (Inr bytes, converted v one_digit)"
  using one_digit_ok
proof (cases rule: getByteStream_ok)
  case (range v i')
  have "QRinput_isSplittableMode QR_MODE_NUM" by (simp add: QRinput_isSplittableMode_def)
  moreover have "1 \<le> QRspec_maximumWords QR_MODE_NUM v"
    by (simp add: QRspec_maximumWords_def QRinput_isSplittableMode_def lengthTableBits_def length_class_def)
  ultimately have "length (all_bits v (inp_entries one_digit)) \<le> 24"
    using lengthIndicator_le [of QR_MODE_NUM v]
    by (simp add: all_bits_def one_digit_def entry_bits_one seg_bits_def payload_def)
  moreover have "QRspec_getDataLength 40 QR_ECLEVEL_Q = 1666" by code_simp
  ultimately show ?thesis using range(4) by (simp add: one_digit_def)
qed blast

theorem getByteStream_roundtrip_witness:
  "\<exists>bytes input'. QRinput_getByteStream one_digit = (Inr bytes, input')
     \<and> dec_stream (inp_version input') (bytes_bits bytes) = [(QR_MODE_NUM, 0x37)]"
proof -
  obtain bytes v where "QRinput_getByteStream one_digit = (Inr bytes, converted v one_digit)"
    using one_digit_stream by blast
  with getByteStream_roundtrip [OF one_digit_ok _ this] show ?thesis by (auto simp: one_digit_def readable_def)
qed

section \<open>Headers that go wrong\<close>

text \<open>
  C34. FNC1 in first position cannot be encoded: once \<open>QRinput_setFNC1First\<close> has succeeded on an
  input, \<open>QRinput_getByteStream\<close> fails with \<open>EINVAL\<close>, whatever the entries, because the header
  entry it tries to insert has size 0 and \<open>QRinput_check\<close> refuses every size that is not positive.
\<close>

theorem setFNC1First_never_encodes:
  assumes "QRinput_setFNC1First input = Inr input1"
  shows "QRinput_getByteStream input1 = (Inl EINVAL, input1)"
  using assms
  by (auto simp: QRinput_setFNC1First_def QRinput_getByteStream_def QRinput_getBitStream_def QRinput_mergeBitStream_def
      QRinput_insertFNC1Header_def QRinput_List_newEntry_def QRinput_check_def Let_def split: if_splits)

theorem setFNC1First_never_encodes_witness:
  "QRinput_getByteStream (one_digit\<lparr>inp_fnc1 := 1\<rparr>) = (Inl EINVAL, one_digit\<lparr>inp_fnc1 := 1\<rparr>)"
  using setFNC1First_never_encodes [of one_digit "one_digit\<lparr>inp_fnc1 := 1\<rparr>"]
  by (simp add: QRinput_setFNC1First_def one_digit_def)

text \<open>The number an ECI designator stands for.\<close>

definition eci_designator :: "byte list \<Rightarrow> nat" where
  "eci_designator bs =
     (if take 1 bs = [0] then bits_val (take 7 (drop 1 bs))
      else if take 2 bs = [1, 0] then bits_val (take 14 (drop 2 bs))
      else bits_val (take 21 (drop 3 bs)))"

lemma take_bits_msb: "take k (bits_msb (k + m) v) = bits_msb k (v div 2 ^ m)"
proof (induction k)
  case (Suc k)
  then show ?case by (simp add: div_mult2_eq [symmetric] power_add [symmetric] add.commute)
qed simp

lemma bits_msb_unfold: "bits_msb 8 v = of_bool (odd (v div 128)) # bits_msb 7 v"
  "bits_msb 16 v = of_bool (odd (v div 32768)) # of_bool (odd (v div 16384)) # bits_msb 14 v"
  "bits_msb 24 v = of_bool (odd (v div 8388608)) # bits_msb 23 v"
  using bits_msb.simps(2) [of 7 v] bits_msb.simps(2) [of 15 v] bits_msb.simps(2) [of 14 v] bits_msb.simps(2) [of 23 v]
  by simp_all

lemma eci_designator_bits:
  "n < 128 \<Longrightarrow> eci_designator (bits_msb 8 n) = n"
  "n < 16384 \<Longrightarrow> eci_designator (bits_msb 16 (0x8000 + n)) = n"
  "n < 999999 + 1 \<Longrightarrow> eci_designator (bits_msb 24 (0xc0000 + n)) = 12 + n div 65536"
proof -
  show "n < 128 \<Longrightarrow> eci_designator (bits_msb 8 n) = n"
    by (simp add: eci_designator_def bits_msb_unfold bits_val_bits_msb)
  assume n: "n < 16384"
  have "(0x8000 + n) div 32768 = 1" "(0x8000 + n) div 16384 = 2" "(0x8000 + n) mod 16384 = n"
    using n radix(2) [of n 16384 2] by auto
  then show "eci_designator (bits_msb 16 (0x8000 + n)) = n"
    by (simp add: eci_designator_def bits_msb_unfold bits_val_bits_msb)
next
  assume n: "n < 999999 + 1"
  let ?v = "0xc0000 + n"
  have v: "?v div 8388608 = 0" "?v div 65536 = 12 + n div 65536" "12 + n div 65536 < 128" using n by auto
  have "take 7 (bits_msb 23 ?v) = bits_msb 7 (?v div 65536)" using take_bits_msb [of 7 16 ?v] by simp
  then show "eci_designator (bits_msb 24 ?v) = 12 + n div 65536"
    unfolding eci_designator_def bits_msb_unfold v(1) using v by (simp add: bits_val_bits_msb)
qed

text \<open>
  C35. An ECI header below 16384 is encoded as the designator of its number. From 16384 on
  \<open>QRinput_encodeModeECI\<close> adds \<open>0xc0000\<close> where the standard has \<open>0xc00000\<close>: the 24 bits it
  writes start with a zero and stand for the one-byte designator of another number, followed
  by two stray bytes.
\<close>

theorem encodeModeECI_designator:
  assumes "length (le_data e) = 4" "n = unat (QRinput_decodeECIfromByteArray (le_data e))" "n \<le> 999999"
  shows "\<exists>b. QRinput_encodeModeECI e version = Inr b \<and> bits_val (take 4 (bs_data b)) = 7
     \<and> eci_designator (drop 4 (bs_data b)) = (if n < 16384 then n else 12 + n div 65536)"
proof -
  let ?c = "QRinput_decodeECIfromByteArray (le_data e)"
  have c: "?c < 128 \<longleftrightarrow> n < 128" "?c < 16384 \<longleftrightarrow> n < 16384" by (simp_all add: word_less_nat_alt assms(2))
  have s: "unat (0x8000 + ?c) = 0x8000 + n" "unat (0xc0000 + ?c) = 0xc0000 + n"
    using assms(2,3) by (simp_all add: unat_plus_if')
  have "QRinput_encodeModeECI e version = Inr (bs_of (bits_msb 4 7 @ eci_bits (le_data e)))"
    using assms(1) by (simp add: QRinput_encodeModeECI_def Let_def append_nums_new eci_bits_def)
  then show ?thesis
    using eci_designator_bits [of n] assms(3)
    by (auto simp: eci_bits_def Let_def c s bits_val_bits_msb simp flip: assms(2))
qed

theorem encodeModeECI_designator_witness:
  "\<exists>b. QRinput_encodeModeECI \<lparr>le_mode = QR_MODE_ECI, le_size = 4, le_data = [0, 0x40, 0, 0], le_bstream = None\<rparr> 1 = Inr b
     \<and> eci_designator (drop 4 (bs_data b)) = 12"
proof -
  have "unat (QRinput_decodeECIfromByteArray [0, 0x40, 0, 0]) = 16384"
    by (simp add: QRinput_decodeECIfromByteArray_def upt_rec)
  then show ?thesis
    using encodeModeECI_designator [of "\<lparr>le_mode = QR_MODE_ECI, le_size = 4, le_data = [0, 0x40, 0, 0], le_bstream = None\<rparr>" 16384 1]
    by auto
qed

text \<open>
  The check of kanji looks at the two bytes of a character as one number and accepts second
  bytes that Shift JIS does not have: the entries \<open>0x82 0x00\<close> and \<open>0x82 0x40\<close> are both valid
  and get the same stream, so that a reader cannot tell them apart.
\<close>

lemma kanji_check_ambiguous:
  "\<exists>e1 e2 b. QRinput_List_newEntry QR_MODE_KANJI 2 [0x82, 0x00] = Inr e1
     \<and> QRinput_List_newEntry QR_MODE_KANJI 2 [0x82, 0x40] = Inr e2 \<and> le_data e1 \<noteq> le_data e2
     \<and> QRinput_encodeModeKanji e1 version False = Inr b \<and> QRinput_encodeModeKanji e2 version False = Inr b"
proof -
  have s: "[0..<Suc 0] = [0]" by simp
  show ?thesis
    using lengthIndicator_le [of QR_MODE_KANJI version]
    by (simp add: QRinput_List_newEntry_def QRinput_check_def QRinput_checkModeKanji_def kanji_char_ok_def kanji_at_def
        QRinput_encodeModeKanji_def Let_def append_nums_new s kanji_code_def)
qed

end
