(* ===== verification/QR_Struct.thy ===== *)
theory QR_Struct
  imports QR_Input
begin

text \<open>
  Structured append in \<open>qrinput.c\<close>: a set of inputs with a common parity, the splitting of
  one input into such a set, and the headers that number its symbols.
\<close>

section \<open>State\<close>

text \<open>The count \<open>size\<close> is kept beside the list; \<open>parity\<close> is \<open>-1\<close> until it is set.\<close>

record QRinput_Struct =
  st_size :: nat
  st_parity :: int
  st_inputs :: "QRinput list"

definition QRinput_Struct_new :: QRinput_Struct where
  "QRinput_Struct_new = \<lparr>st_size = 0, st_parity = -1, st_inputs = []\<rparr>"

definition QRinput_Struct_setParity :: "QRinput_Struct \<Rightarrow> byte \<Rightarrow> QRinput_Struct" where
  "QRinput_Struct_setParity s parity = s\<lparr>st_parity := uint parity\<rparr>"

definition QRinput_Struct_appendInput :: "QRinput_Struct \<Rightarrow> QRinput \<Rightarrow> QRinput_Struct res" where
  "QRinput_Struct_appendInput s input =
     (if inp_mqr input then Inl EINVAL
      else Inr (s\<lparr>st_size := st_size s + 1, st_inputs := st_inputs s @ [input]\<rparr>))"

definition QRinput_Struct_calcParity :: "QRinput_Struct \<Rightarrow> byte \<times> QRinput_Struct" where
  "QRinput_Struct_calcParity s =
     (let parity = fold (\<lambda>i parity. parity XOR QRinput_calcParity i) (st_inputs s) 0
      in (parity, QRinput_Struct_setParity s parity))"

section \<open>Headers\<close>

fun insert_headers :: "QRinput list \<Rightarrow> nat \<Rightarrow> nat \<Rightarrow> byte \<Rightarrow> QRinput list res" where
  "insert_headers [] sz i parity = Inr []"
| "insert_headers (x # xs) sz i parity =
     res_bind (QRinput_insertStructuredAppendHeader x sz i parity) (\<lambda>x'.
     res_bind (insert_headers xs sz (i + 1) parity) (\<lambda>xs'. Inr (x' # xs')))"

definition QRinput_Struct_insertStructuredAppendHeaders :: "QRinput_Struct \<Rightarrow> QRinput_Struct res" where
  "QRinput_Struct_insertStructuredAppendHeaders s =
     (if st_size s = 1 then Inr s
      else let s' = (if st_parity s < 0 then snd (QRinput_Struct_calcParity s) else s)
           in res_bind (insert_headers (st_inputs s') (st_size s') 1 (word_of_int (st_parity s')))
                (\<lambda>xs. Inr (s'\<lparr>st_inputs := xs\<rparr>)))"

section \<open>Splitting an input\<close>

text \<open>
  The state of the loop: the structure so far, the current input with the entries before
  \<open>list\<close> (\<open>done\<close>) and from it on (\<open>rest\<close>), and the bits used. \<open>prev\<close> is the last entry of
  \<open>done\<close>; when \<open>done\<close> is empty it is \<open>NULL\<close> or an entry of an earlier input, and moving the
  whole current input to the next one is then \<open>EFAULT\<close>. The first case of the step keeps an
  entry in the current input, the second cuts it in two, the third moves it to the next input.
\<close>

record split_state =
  sp_struct :: QRinput_Struct
  sp_input :: QRinput
  sp_done :: "QRinput_List list"
  sp_rest :: "QRinput_List list"
  sp_bits :: nat

definition split_step :: "nat \<Rightarrow> split_state \<Rightarrow> split_state res" where
  "split_step maxbits st =
     (case sp_rest st of
        [] \<Rightarrow> Inr st
      | e # es \<Rightarrow>
          let input = sp_input st; version = inp_version input; mqr = inp_mqr input
          in if sp_bits st + QRinput_estimateBitStreamSizeOfEntry e version mqr \<le> maxbits then
               res_bind (QRinput_encodeBitStream e version mqr) (\<lambda>e'.
                 Inr (st\<lparr>sp_done := sp_done st @ [e'], sp_rest := es,
                        sp_bits := sp_bits st + (case le_bstream e' of Some b \<Rightarrow> BitStream_size b | None \<Rightarrow> 0)\<rparr>))
             else
               let bytes = QRinput_lengthOfCode (le_mode e) version (int maxbits - int (sp_bits st))
               in res_bind (QRinput_new2 (int version) (inp_level input)) (\<lambda>p.
                  if bytes > 0 then
                    res_bind (QRinput_splitEntry e bytes) (\<lambda>(e1, e2).
                    res_bind (QRinput_Struct_appendInput (sp_struct st)
                                (input\<lparr>inp_entries := sp_done st @ [e1], inp_tail := TailLast\<rparr>)) (\<lambda>s.
                    Inr \<lparr>sp_struct = s,
                         sp_input = p\<lparr>inp_tail := if es = [] then TailForeign else inp_tail input\<rparr>,
                         sp_done = [], sp_rest = e2 # es, sp_bits = 0\<rparr>))
                  else if sp_done st = [] then Inl EFAULT
                  else
                    res_bind (QRinput_Struct_appendInput (sp_struct st)
                                (input\<lparr>inp_entries := sp_done st, inp_tail := TailLast\<rparr>)) (\<lambda>s.
                    Inr \<lparr>sp_struct = s, sp_input = p\<lparr>inp_tail := inp_tail input\<rparr>,
                         sp_done = [], sp_rest = e # es, sp_bits = 0\<rparr>)))"

partial_function (option) split_loop :: "nat \<Rightarrow> split_state \<Rightarrow> split_state res option" where
  "split_loop maxbits st =
     (if sp_rest st = [] then Some (Inr st)
      else case split_step maxbits st of
        Inl e \<Rightarrow> Some (Inl e)
      | Inr st' \<Rightarrow> split_loop maxbits st')"

declare split_loop.simps [code]

definition QRinput_splitQRinputToStruct :: "QRinput \<Rightarrow> QRinput_Struct res" where
  "QRinput_splitQRinputToStruct input0 =
     (if inp_mqr input0 then Inl EINVAL
      else res_bind (QRinput_dup input0) (\<lambda>input.
        let s = QRinput_Struct_setParity QRinput_Struct_new (QRinput_calcParity input);
            maxbits = int (QRspec_getDataLength (inp_version input) (inp_level input) * 8)
                      - int STRUCTURE_HEADER_SIZE
        in if maxbits \<le> 0 then Inl ENOERR
           else case split_loop (nat maxbits) \<lparr>sp_struct = s, sp_input = input, sp_done = [],
                       sp_rest = inp_entries input, sp_bits = 0\<rparr> of
                  None \<Rightarrow> Inl EHANG
                | Some r \<Rightarrow> res_bind r (\<lambda>st.
                    res_bind (QRinput_Struct_appendInput (sp_struct st)
                                ((sp_input st)\<lparr>inp_entries := sp_done st\<rparr>)) (\<lambda>s.
                    if st_size s > MAX_STRUCTURED_SYMBOLS then Inl ERANGE
                    else QRinput_Struct_insertStructuredAppendHeaders s))))"

end
