(* ===== verification/QR_Split.thy ===== *)
theory QR_Split
  imports QR_Input
begin

text \<open>
  \<open>split.c\<close>: the splitting of a string into numeric, alphanumeric, kanji and 8-bit chunks.
  A C string is the list of its characters; reading at its end gives the terminating zero.
  A pointer into the string is the rest of the string from there on.
\<close>

section \<open>Character classes\<close>

definition chr :: "byte list \<Rightarrow> byte" where
  "chr s = (case s of [] \<Rightarrow> 0 | c # _ \<Rightarrow> c)"

definition is_digit :: "byte \<Rightarrow> bool" where
  "is_digit c \<longleftrightarrow> c - 48 < (10 :: byte)"

definition is_alnum :: "byte \<Rightarrow> bool" where
  "is_alnum c \<longleftrightarrow> QRinput_lookAnTable c \<ge> 0"

definition Split_identifyMode :: "byte list \<Rightarrow> QRencodeMode \<Rightarrow> QRencodeMode" where
  "Split_identifyMode s hint =
     (let c = chr s
      in if c = 0 then QR_MODE_NUL
         else if is_digit c then QR_MODE_NUM
         else if is_alnum c then QR_MODE_AN
         else if hint = QR_MODE_KANJI then
           let d = chr (tl s); w = push_bit 8 (ucast c) OR (ucast d :: uint)
           in if d \<noteq> 0 \<and> ((w \<ge> 0x8140 \<and> w \<le> 0x9ffc) \<or> (w \<ge> 0xe040 \<and> w \<le> 0xebbf))
              then QR_MODE_KANJI else QR_MODE_8
         else QR_MODE_8)"

definition digit_run :: "byte list \<Rightarrow> nat" where
  "digit_run s = length (takeWhile is_digit s)"

definition alnum_run :: "byte list \<Rightarrow> nat" where
  "alnum_run s = length (takeWhile is_alnum s)"

lemma digit_run_pos: "is_digit (chr s) \<Longrightarrow> 0 < digit_run s"
  by (cases s) (auto simp: digit_run_def chr_def is_digit_def)

lemma alnum_run_pos: "is_alnum (chr s) \<Longrightarrow> s \<noteq> [] \<Longrightarrow> 0 < alnum_run s"
  by (cases s) (auto simp: alnum_run_def chr_def)

section \<open>Eating a chunk\<close>

text \<open>
  The loops return the distance of the final pointer from the start of the string; \<open>n\<close> is
  the distance so far and \<open>s\<close> the rest of the string.
\<close>

function eat8_loop :: "nat \<Rightarrow> QRencodeMode \<Rightarrow> nat \<Rightarrow> byte list \<Rightarrow> nat" where
  "eat8_loop version hint n s =
     (let la = QRspec_lengthIndicator QR_MODE_AN version;
          ln = QRspec_lengthIndicator QR_MODE_NUM version;
          l8 = QRspec_lengthIndicator QR_MODE_8 version;
          mode = Split_identifyMode s hint;
          swcost = (\<lambda>q. if Split_identifyMode (drop q s) hint = QR_MODE_8 then 4 + l8 else 0)
      in if chr s = 0 then n
         else if mode = QR_MODE_KANJI then n
         else if mode = QR_MODE_NUM then
           let q = digit_run s;
               dif = int (QRinput_estimateBitsMode8 n) + int (QRinput_estimateBitsModeNum q) + 4 + int ln
                     + int (swcost q) - int (QRinput_estimateBitsMode8 (n + q))
           in if dif < 0 then n else eat8_loop version hint (n + q) (drop q s)
         else if mode = QR_MODE_AN then
           let q = alnum_run s;
               dif = int (QRinput_estimateBitsMode8 n) + int (QRinput_estimateBitsModeAn q) + 4 + int la
                     + int (swcost q) - int (QRinput_estimateBitsMode8 (n + q))
           in if dif < 0 then n else eat8_loop version hint (n + q) (drop q s)
         else eat8_loop version hint (n + 1) (drop 1 s))"
  by pat_completeness auto
termination
proof (relation "measure (\<lambda>(v, h, n, s). length s)", goal_cases)
  case (2 version hint n s la ln l8 mode swcost q dif)
  then have "0 < digit_run s" "s \<noteq> []"
    by (auto intro!: digit_run_pos simp: Split_identifyMode_def Let_def chr_def split: if_splits)
  then show ?case using 2 by simp
next
  case (3 version hint n s la ln l8 mode swcost q dif)
  then have "0 < alnum_run s" "s \<noteq> []"
    by (auto intro!: alnum_run_pos simp: Split_identifyMode_def Let_def chr_def split: if_splits)
  then show ?case using 3 by simp
next
  case (4 version hint n s la ln l8 mode swcost)
  then show ?case by (cases s) (auto simp: chr_def)
qed simp_all

declare eat8_loop.simps [simp del]

text \<open>Each of the operations below returns the length it has eaten and the input.\<close>

definition Split_eat8 :: "byte list \<Rightarrow> QRinput \<Rightarrow> QRencodeMode \<Rightarrow> (nat \<times> QRinput) res" where
  "Split_eat8 s input hint =
     (let run = eat8_loop (inp_version input) hint 1 (drop 1 s)
      in res_bind (QRinput_append input QR_MODE_8 (int run) s) (\<lambda>input'. Inr (run, input')))"

function eatAn_loop :: "nat \<Rightarrow> nat \<Rightarrow> byte list \<Rightarrow> nat" where
  "eatAn_loop version n s =
     (let ln = QRspec_lengthIndicator QR_MODE_NUM version
      in if s \<noteq> [] \<and> is_alnum (chr s) then
           if is_digit (chr s) then
             let q = digit_run s;
                 dif = int (QRinput_estimateBitsModeAn n) + int (QRinput_estimateBitsModeNum q) + 4 + int ln
                       + (if is_alnum (chr (drop q s)) then 4 + int ln else 0)
                       - int (QRinput_estimateBitsModeAn (n + q))
             in if dif < 0 then n else eatAn_loop version (n + q) (drop q s)
           else eatAn_loop version (n + 1) (drop 1 s)
         else n)"
  by pat_completeness auto
termination
proof (relation "measure (\<lambda>(v, n, s). length s)", goal_cases)
  case (2 version n s ln q dif)
  then show ?case using digit_run_pos [of s] by simp
qed simp_all

declare eatAn_loop.simps [simp del]

definition Split_eatAn :: "byte list \<Rightarrow> QRinput \<Rightarrow> QRencodeMode \<Rightarrow> (nat \<times> QRinput) res" where
  "Split_eatAn s input hint =
     (let la = QRspec_lengthIndicator QR_MODE_AN (inp_version input);
          run = eatAn_loop (inp_version input) 0 s;
          c = chr (drop run s);
          dif = int (QRinput_estimateBitsModeAn run) + 4 + int la + int (QRinput_estimateBitsMode8 1)
                - int (QRinput_estimateBitsMode8 (run + 1))
      in if c \<noteq> 0 \<and> \<not> is_alnum c \<and> dif > 0 then Split_eat8 s input hint
         else res_bind (QRinput_append input QR_MODE_AN (int run) s) (\<lambda>input'. Inr (run, input')))"

definition Split_eatNum :: "byte list \<Rightarrow> QRinput \<Rightarrow> QRencodeMode \<Rightarrow> (nat \<times> QRinput) res" where
  "Split_eatNum s input hint =
     (let ln = QRspec_lengthIndicator QR_MODE_NUM (inp_version input);
          run = digit_run s;
          mode = Split_identifyMode (drop run s) hint;
          dif8 = int (QRinput_estimateBitsModeNum run) + 4 + int ln + int (QRinput_estimateBitsMode8 1)
                 - int (QRinput_estimateBitsMode8 (run + 1));
          difAn = int (QRinput_estimateBitsModeNum run) + 4 + int ln + int (QRinput_estimateBitsModeAn 1)
                  - int (QRinput_estimateBitsModeAn (run + 1))
      in if mode = QR_MODE_8 \<and> dif8 > 0 then Split_eat8 s input hint
         else if mode = QR_MODE_AN \<and> difAn > 0 then Split_eatAn s input hint
         else res_bind (QRinput_append input QR_MODE_NUM (int run) s) (\<lambda>input'. Inr (run, input')))"

lemma identify_kanji_length: "Split_identifyMode s hint = QR_MODE_KANJI \<Longrightarrow> 2 \<le> length s"
  by (cases s; cases "tl s") (auto simp: Split_identifyMode_def chr_def Let_def split: if_splits)

function eatKanji_loop :: "QRencodeMode \<Rightarrow> nat \<Rightarrow> byte list \<Rightarrow> nat" where
  "eatKanji_loop hint n s =
     (if Split_identifyMode s hint = QR_MODE_KANJI then eatKanji_loop hint (n + 2) (drop 2 s) else n)"
  by pat_completeness auto
termination
  by (relation "measure (\<lambda>(h, n, s). length s)") (auto dest: identify_kanji_length)

declare eatKanji_loop.simps [simp del]

definition Split_eatKanji :: "byte list \<Rightarrow> QRinput \<Rightarrow> QRencodeMode \<Rightarrow> (nat \<times> QRinput) res" where
  "Split_eatKanji s input hint =
     (let run = eatKanji_loop hint 0 s
      in res_bind (QRinput_append input QR_MODE_KANJI (int run) s) (\<lambda>input'. Inr (run, input')))"

section \<open>Splitting a string\<close>

definition eat_chunk :: "byte list \<Rightarrow> QRinput \<Rightarrow> QRencodeMode \<Rightarrow> (nat \<times> QRinput) res" where
  "eat_chunk s input hint =
     (let mode = Split_identifyMode s hint
      in if mode = QR_MODE_NUM then Split_eatNum s input hint
         else if mode = QR_MODE_AN then Split_eatAn s input hint
         else if mode = QR_MODE_KANJI \<and> hint = QR_MODE_KANJI then Split_eatKanji s input hint
         else Split_eat8 s input hint)"

function Split_splitString :: "byte list \<Rightarrow> QRinput \<Rightarrow> QRencodeMode \<Rightarrow> QRinput res" where
  "Split_splitString s input hint =
     (if chr s = 0 then Inr input
      else res_bind (eat_chunk s input hint) (\<lambda>r.
             if fst r = 0 then Inr (snd r)
             else Split_splitString (drop (fst r) s) (snd r) hint))"
  by pat_completeness auto
termination
proof (relation "measure (\<lambda>(s, i, h). length s)", goal_cases)
  case (2 s input hint r)
  then show ?case by (cases s) (auto simp: chr_def)
qed simp

declare Split_splitString.simps [simp del]

function toUpper_loop :: "QRencodeMode \<Rightarrow> byte list \<Rightarrow> byte list" where
  "toUpper_loop hint s =
     (if chr s = 0 then s
      else if Split_identifyMode s hint = QR_MODE_KANJI then take 2 s @ toUpper_loop hint (drop 2 s)
      else (if chr s \<ge> 97 \<and> chr s \<le> 122 then chr s - 32 else chr s) # toUpper_loop hint (drop 1 s))"
  by pat_completeness auto
termination
proof (relation "measure (\<lambda>(h, s). length s)", goal_cases)
  case (2 hint s)
  then show ?case using identify_kanji_length [of s hint] by simp
next
  case (3 hint s)
  then show ?case by (cases s) (auto simp: chr_def)
qed simp

declare toUpper_loop.simps [simp del]

definition dupAndToUpper :: "byte list \<Rightarrow> QRencodeMode \<Rightarrow> byte list" where
  "dupAndToUpper s hint = toUpper_loop hint s"

text \<open>\<open>None\<close> is a null pointer.\<close>

definition Split_splitStringToQRinput ::
    "byte list option \<Rightarrow> QRinput \<Rightarrow> QRencodeMode \<Rightarrow> bool \<Rightarrow> QRinput res" where
  "Split_splitStringToQRinput string input hint casesensitive =
     (case string of
        None \<Rightarrow> Inl EINVAL
      | Some s \<Rightarrow>
          if chr s = 0 then Inl EINVAL
          else if \<not> casesensitive then Split_splitString (dupAndToUpper s hint) input hint
          else Split_splitString s input hint)"

end
