(* ===== verification/QR_Encode.thy ===== *)
theory QR_Encode
  imports QR_Raw QR_Symbol QR_Stream QR_Struct QR_Split
begin

text \<open>
  The top level of \<open>qrencode.c\<close>: placing the codewords of an input in a frame and masking it,
  the entry points for strings and data, and the sets of structured symbols. The static
  variables of the library, three caches, are a record that is passed along.
\<close>

section \<open>State\<close>

record QRcode =
  qr_version :: nat
  qr_width :: nat
  qr_data :: "byte list"

record qr_caches =
  c_frames :: frame_cache
  c_mframes :: frame_cache
  c_rslist :: "RS list"

definition no_caches :: qr_caches where
  "no_caches = \<lparr>c_frames = \<lambda>_. None, c_mframes = \<lambda>_. None, c_rslist = []\<rparr>"

definition QRcode_new :: "nat \<Rightarrow> nat \<Rightarrow> byte list \<Rightarrow> QRcode" where
  "QRcode_new version width data = \<lparr>qr_version = version, qr_width = width, qr_data = data\<rparr>"

definition QRcode_clearCache :: "qr_caches \<Rightarrow> qr_caches" where
  "QRcode_clearCache c =
     \<lparr>c_frames = QRspec_clearCache (c_frames c), c_mframes = MQRspec_clearCache (c_mframes c),
      c_rslist = free_rs_cache (c_rslist c)\<rparr>"

section \<open>Placing the codewords\<close>

text \<open>The inner loops: the bits of \<open>code\<close> selected by \<open>bit\<close>, which is shifted right each time.\<close>

fun put_code_bits :: "nat \<Rightarrow> byte \<Rightarrow> byte \<Rightarrow> FrameFiller \<Rightarrow> FrameFiller res" where
  "put_code_bits 0 bt code f = Inr f"
| "put_code_bits (Suc j) bt code f =
     res_bind (filler_store (0x02 OR (if bt AND code \<noteq> 0 then 1 else 0)) f)
       (put_code_bits j (drop_bit 1 bt) code)"

fun put_codes :: "nat \<Rightarrow> QRRawCode \<Rightarrow> FrameFiller \<Rightarrow> FrameFiller res" where
  "put_codes 0 raw f = Inr f"
| "put_codes (Suc n) raw f =
     (let (code, raw') = QRraw_getCode raw
      in res_bind (put_code_bits 8 0x80 code f) (put_codes n raw'))"

fun put_remainder :: "nat \<Rightarrow> FrameFiller \<Rightarrow> FrameFiller res" where
  "put_remainder 0 f = Inr f"
| "put_remainder (Suc j) f = res_bind (filler_store 0x02 f) (put_remainder j)"

definition QRcode_encodeMask ::
    "qr_caches \<Rightarrow> QRinput \<Rightarrow> int \<Rightarrow> QRcode res \<times> QRinput \<times> qr_caches" where
  "QRcode_encodeMask c input0 msk =
     (if inp_mqr input0 then (Inl EINVAL, input0, c)
      else if inp_version input0 > QRSPEC_VERSION_MAX then (Inl EINVAL, input0, c)
      else if inp_level input0 > QR_ECLEVEL_H then (Inl EINVAL, input0, c)
      else case QRraw_new (c_rslist c) input0 of
        (Inl e, input, rslist) \<Rightarrow> (Inl e, input, c\<lparr>c_rslist := rslist\<rparr>)
      | (Inr raw, input, rslist) \<Rightarrow>
          let version = raw_version raw; width = QRspec_getWidth version
          in case QRspec_newFrame (c_frames c) (int version) of
               (Inl e, frames) \<Rightarrow> (Inl e, input, c\<lparr>c_rslist := rslist, c_frames := frames\<rparr>)
             | (Inr frame0, frames) \<Rightarrow>
                 (res_bind (put_codes (raw_dataLength raw + raw_eccLength raw) raw
                              (FrameFiller_new width frame0 False)) (\<lambda>f1.
                  res_bind (put_remainder (QRspec_getRemainder version) f1) (\<lambda>f2.
                  res_bind (if msk = -2 then Inr (take (width * width) (ff_frame f2))
                            else if msk < 0 then Mask_mask width (ff_frame f2) (inp_level input)
                            else Mask_makeMask width (ff_frame f2) msk (inp_level input)) (\<lambda>masked.
                  Inr (QRcode_new version width masked)))),
                  input, c\<lparr>c_rslist := rslist, c_frames := frames\<rparr>))"

fun put_codes_mqr :: "nat \<Rightarrow> nat \<Rightarrow> MQRRawCode \<Rightarrow> FrameFiller \<Rightarrow> FrameFiller res" where
  "put_codes_mqr 0 i raw f = Inr f"
| "put_codes_mqr (Suc n) i raw f =
     (let (code, raw') = MQRraw_getCode raw
      in res_bind (if mraw_oddbits raw' \<noteq> 0 \<and> int i = int (mraw_dataLength raw') - 1
                   then put_code_bits (mraw_oddbits raw') (push_bit (mraw_oddbits raw' - 1) 1) code f
                   else put_code_bits 8 0x80 code f)
           (put_codes_mqr n (i + 1) raw'))"

definition QRcode_encodeMaskMQR ::
    "qr_caches \<Rightarrow> QRinput \<Rightarrow> int \<Rightarrow> QRcode res \<times> QRinput \<times> qr_caches" where
  "QRcode_encodeMaskMQR c input0 msk =
     (if \<not> inp_mqr input0 then (Inl EINVAL, input0, c)
      else if inp_version input0 = 0 \<or> inp_version input0 > MQRSPEC_VERSION_MAX then (Inl EINVAL, input0, c)
      else if inp_level input0 > QR_ECLEVEL_Q then (Inl EINVAL, input0, c)
      else case MQRraw_new (c_rslist c) input0 of
        (Inl e, input, rslist) \<Rightarrow> (Inl e, input, c\<lparr>c_rslist := rslist\<rparr>)
      | (Inr raw, input, rslist) \<Rightarrow>
          let version = mraw_version raw; width = MQRspec_getWidth version
          in case MQRspec_newFrame (c_mframes c) (int version) of
               (Inl e, frames) \<Rightarrow> (Inl e, input, c\<lparr>c_rslist := rslist, c_mframes := frames\<rparr>)
             | (Inr frame0, frames) \<Rightarrow>
                 (res_bind (put_codes_mqr (mraw_dataLength raw + mraw_eccLength raw) 0 raw
                              (FrameFiller_new width frame0 True)) (\<lambda>f1.
                  res_bind (if msk < 0 then MMask_mask version (ff_frame f1) (inp_level input)
                            else MMask_makeMask version (ff_frame f1) msk (inp_level input)) (\<lambda>masked.
                  Inr (QRcode_new version width masked))),
                  input, c\<lparr>c_rslist := rslist, c_mframes := frames\<rparr>))"

definition QRcode_encodeInput :: "qr_caches \<Rightarrow> QRinput \<Rightarrow> QRcode res \<times> QRinput \<times> qr_caches" where
  "QRcode_encodeInput c input =
     (if inp_mqr input then QRcode_encodeMaskMQR c input (-1) else QRcode_encodeMask c input (-1))"

section \<open>Strings and data\<close>

text \<open>The input these entry points create is freed before they return. \<open>None\<close> is a null pointer.\<close>

definition new_input :: "bool \<Rightarrow> int \<Rightarrow> QRecLevel \<Rightarrow> QRinput res" where
  "new_input mqr version level =
     (if mqr then QRinput_newMQR version level else QRinput_new2 version level)"

definition encode_built :: "qr_caches \<Rightarrow> QRinput res \<Rightarrow> QRcode res \<times> qr_caches" where
  "encode_built c r =
     (case r of
        Inl e \<Rightarrow> (Inl e, c)
      | Inr input \<Rightarrow> (case QRcode_encodeInput c input of (code, input', c') \<Rightarrow> (code, c')))"

definition QRcode_encodeStringReal ::
    "qr_caches \<Rightarrow> byte list option \<Rightarrow> int \<Rightarrow> QRecLevel \<Rightarrow> bool \<Rightarrow> QRencodeMode \<Rightarrow> bool \<Rightarrow> QRcode res \<times> qr_caches"
where
  "QRcode_encodeStringReal c string version level mqr hint casesensitive =
     (if string = None then (Inl EINVAL, c)
      else if hint \<noteq> QR_MODE_8 \<and> hint \<noteq> QR_MODE_KANJI then (Inl EINVAL, c)
      else encode_built c (res_bind (new_input mqr version level)
             (\<lambda>input. Split_splitStringToQRinput string input hint casesensitive)))"

definition QRcode_encodeString ::
    "qr_caches \<Rightarrow> byte list option \<Rightarrow> int \<Rightarrow> QRecLevel \<Rightarrow> QRencodeMode \<Rightarrow> bool \<Rightarrow> QRcode res \<times> qr_caches" where
  "QRcode_encodeString c string version level hint casesensitive =
     QRcode_encodeStringReal c string version level False hint casesensitive"

definition QRcode_encodeStringMQR ::
    "qr_caches \<Rightarrow> byte list option \<Rightarrow> int \<Rightarrow> QRecLevel \<Rightarrow> QRencodeMode \<Rightarrow> bool \<Rightarrow> QRcode res \<times> qr_caches" where
  "QRcode_encodeStringMQR c string version level hint casesensitive =
     QRcode_encodeStringReal c string version level True hint casesensitive"

definition QRcode_encodeDataReal ::
    "qr_caches \<Rightarrow> byte list option \<Rightarrow> int \<Rightarrow> int \<Rightarrow> QRecLevel \<Rightarrow> bool \<Rightarrow> QRcode res \<times> qr_caches" where
  "QRcode_encodeDataReal c data len version level mqr =
     (case data of
        None \<Rightarrow> (Inl EINVAL, c)
      | Some d \<Rightarrow>
          if len = 0 then (Inl EINVAL, c)
          else encode_built c (res_bind (new_input mqr version level)
                 (\<lambda>input. QRinput_append input QR_MODE_8 len d)))"

definition QRcode_encodeData ::
    "qr_caches \<Rightarrow> int \<Rightarrow> byte list option \<Rightarrow> int \<Rightarrow> QRecLevel \<Rightarrow> QRcode res \<times> qr_caches" where
  "QRcode_encodeData c sz data version level = QRcode_encodeDataReal c data sz version level False"

definition QRcode_encodeDataMQR ::
    "qr_caches \<Rightarrow> int \<Rightarrow> byte list option \<Rightarrow> int \<Rightarrow> QRecLevel \<Rightarrow> QRcode res \<times> qr_caches" where
  "QRcode_encodeDataMQR c sz data version level = QRcode_encodeDataReal c data sz version level True"

definition QRcode_encodeString8bit ::
    "qr_caches \<Rightarrow> byte list option \<Rightarrow> int \<Rightarrow> QRecLevel \<Rightarrow> QRcode res \<times> qr_caches" where
  "QRcode_encodeString8bit c string version level =
     (case string of
        None \<Rightarrow> (Inl EINVAL, c)
      | Some s \<Rightarrow> QRcode_encodeDataReal c (Some s) (int (length s)) version level False)"

definition QRcode_encodeString8bitMQR ::
    "qr_caches \<Rightarrow> byte list option \<Rightarrow> int \<Rightarrow> QRecLevel \<Rightarrow> QRcode res \<times> qr_caches" where
  "QRcode_encodeString8bitMQR c string version level =
     (case string of
        None \<Rightarrow> (Inl EINVAL, c)
      | Some s \<Rightarrow> QRcode_encodeDataReal c (Some s) (int (length s)) version level True)"

section \<open>Structured symbols\<close>

text \<open>
  A \<open>QRcode_List\<close> is the list of its codes; the null pointer is the empty list, which is also
  what is returned for a structure with no input.
\<close>

definition QRcode_List_size :: "QRcode list \<Rightarrow> nat" where
  "QRcode_List_size qrlist = fold (\<lambda>_ sz. sz + 1) qrlist 0"

fun encode_inputs :: "qr_caches \<Rightarrow> QRinput list \<Rightarrow> QRcode list res \<times> QRinput list \<times> qr_caches" where
  "encode_inputs c [] = (Inr [], [], c)"
| "encode_inputs c (x # xs) =
     (case QRcode_encodeInput c x of
        (Inl e, x', c') \<Rightarrow> (Inl e, x' # xs, c')
      | (Inr code, x', c') \<Rightarrow>
          (case encode_inputs c' xs of
             (r, xs', c'') \<Rightarrow> (res_bind r (\<lambda>codes. Inr (code # codes)), x' # xs', c'')))"

definition QRcode_encodeInputStructured ::
    "qr_caches \<Rightarrow> QRinput_Struct \<Rightarrow> QRcode list res \<times> QRinput_Struct \<times> qr_caches" where
  "QRcode_encodeInputStructured c s =
     (case encode_inputs c (st_inputs s) of
        (r, inputs, c') \<Rightarrow>
          (res_bind r (\<lambda>codes. if codes = [] then Inl ENOERR else Inr codes),
           s\<lparr>st_inputs := inputs\<rparr>, c'))"

definition QRcode_encodeInputToStructured ::
    "qr_caches \<Rightarrow> QRinput \<Rightarrow> QRcode list res \<times> qr_caches" where
  "QRcode_encodeInputToStructured c input =
     (case QRinput_splitQRinputToStruct input of
        Inl e \<Rightarrow> (Inl e, c)
      | Inr s \<Rightarrow> (case QRcode_encodeInputStructured c s of (codes, s', c') \<Rightarrow> (codes, c')))"

definition QRcode_encodeDataStructuredReal ::
    "qr_caches \<Rightarrow> int \<Rightarrow> byte list option \<Rightarrow> int \<Rightarrow> QRecLevel \<Rightarrow> bool \<Rightarrow> QRencodeMode \<Rightarrow> bool
      \<Rightarrow> QRcode list res \<times> qr_caches" where
  "QRcode_encodeDataStructuredReal c sz data version level eightbit hint casesensitive =
     (if version \<le> 0 then (Inl EINVAL, c)
      else if \<not> eightbit \<and> (hint \<noteq> QR_MODE_8 \<and> hint \<noteq> QR_MODE_KANJI) then (Inl EINVAL, c)
      else case res_bind (QRinput_new2 version level) (\<lambda>input.
                  if eightbit
                  then (case data of
                          Some d \<Rightarrow> QRinput_append input QR_MODE_8 sz d
                        | None \<Rightarrow> if sz \<le> 0 then Inl EINVAL else Inl EFAULT)
                  else Split_splitStringToQRinput data input hint casesensitive) of
             Inl e \<Rightarrow> (Inl e, c)
           | Inr input \<Rightarrow> QRcode_encodeInputToStructured c input)"

definition QRcode_encodeDataStructured ::
    "qr_caches \<Rightarrow> int \<Rightarrow> byte list option \<Rightarrow> int \<Rightarrow> QRecLevel \<Rightarrow> QRcode list res \<times> qr_caches" where
  "QRcode_encodeDataStructured c sz data version level =
     QRcode_encodeDataStructuredReal c sz data version level True QR_MODE_NUL False"

definition QRcode_encodeString8bitStructured ::
    "qr_caches \<Rightarrow> byte list option \<Rightarrow> int \<Rightarrow> QRecLevel \<Rightarrow> QRcode list res \<times> qr_caches" where
  "QRcode_encodeString8bitStructured c string version level =
     (case string of
        None \<Rightarrow> (Inl EINVAL, c)
      | Some s \<Rightarrow> QRcode_encodeDataStructured c (int (length s)) (Some s) version level)"

definition QRcode_encodeStringStructured ::
    "qr_caches \<Rightarrow> byte list option \<Rightarrow> int \<Rightarrow> QRecLevel \<Rightarrow> QRencodeMode \<Rightarrow> bool \<Rightarrow> QRcode list res \<times> qr_caches" where
  "QRcode_encodeStringStructured c string version level hint casesensitive =
     (case string of
        None \<Rightarrow> (Inl EINVAL, c)
      | Some s \<Rightarrow> QRcode_encodeDataStructuredReal c (int (length s)) (Some s) version level False
                    hint casesensitive)"

section \<open>Version of the library\<close>

definition QRcode_APIVersion :: "nat \<times> nat \<times> nat" where
  "QRcode_APIVersion = (3, 4, 4)"

definition QRcode_APIVersionString :: string where
  "QRcode_APIVersionString = ''3.4.4''"

section \<open>Placing codewords fills the frame\<close>

lemma put_code_bits_eq:
  "n \<le> 8 \<Longrightarrow> put_code_bits n (drop_bit (8 - n) 0x80) code f
     = fold_res filler_store (map (\<lambda>b. 0x02 OR b) (bits_msb n (unat code))) f"
proof (induction n arbitrary: f)
  case (Suc n)
  have e: "1 + (8 - Suc n) = 8 - n" using Suc.prems by simp
  have "drop_bit (8 - Suc n) (0x80 :: byte) = 2 ^ n"
  proof -
    have "n = 0 \<or> n = 1 \<or> n = 2 \<or> n = 3 \<or> n = 4 \<or> n = 5 \<or> n = 6 \<or> n = 7" using Suc.prems by auto
    then show ?thesis by (elim disjE) simp_all
  qed
  then have a: "drop_bit (8 - Suc n) 0x80 AND code \<noteq> 0 \<longleftrightarrow> odd (unat code div 2 ^ n)"
    using and_single_bit_eq_0 [of code n] Suc.prems by (simp add: and.commute bit_word_unat)
  have IH: "put_code_bits n (drop_bit (8 - n) 0x80) code = fold_res filler_store (map (\<lambda>b. 0x02 OR b) (bits_msb n (unat code)))"
    using Suc by (intro ext) simp
  have "put_code_bits (Suc n) (drop_bit (8 - Suc n) 0x80) code f
      = res_bind (filler_store (0x02 OR (if odd (unat code div 2 ^ n) then 1 else 0)) f)
          (fold_res filler_store (map (\<lambda>b. 0x02 OR b) (bits_msb n (unat code))))"
    by (simp only: put_code_bits.simps drop_bit_drop_bit e a IH)
  then show ?case by simp
qed simp

lemma put_code_8: "put_code_bits 8 0x80 code f = fold_res filler_store (map (\<lambda>b. 0x02 OR b) (bits_msb 8 (unat code))) f"
  using put_code_bits_eq [of 8 code f] by simp

lemma put_codes_eq:
  "put_codes n raw f = fold_res filler_store (map (\<lambda>b. 0x02 OR b) (bytes_bits (raw_codes n raw))) f"
proof (induction n arbitrary: raw f)
  case (Suc n)
  obtain c r where g: "QRraw_getCode raw = (c, r)" by (rule prod.exhaust)
  have "put_codes n r = fold_res filler_store (map (\<lambda>b. 0x02 OR b) (bytes_bits (raw_codes n r)))"
    by (rule ext) (rule Suc.IH)
  then show ?case by (simp add: g put_code_8 fold_res_append)
qed simp

lemma put_remainder_eq: "put_remainder n f = fold_res filler_store (map (\<lambda>b. 0x02 OR b) (replicate n 0)) f"
proof (induction n arbitrary: f)
  case (Suc n)
  have "put_remainder n = fold_res filler_store (map (\<lambda>b. 0x02 OR b) (replicate n 0))" by (rule ext) (rule Suc.IH)
  then show ?case by simp
qed simp

text \<open>The codewords and remainder bits of a symbol fill its frame exactly.\<close>

lemma place_codes:
  assumes "1 \<le> v" "v \<le> 40" "w = QRspec_getWidth v" "length (raw_codes n raw) = cap_words (qrspecCapacity ! v)"
  defines "bits \<equiv> bytes_bits (raw_codes n raw) @ replicate (QRspec_getRemainder v) 0"
  shows "\<exists>f. res_bind (put_codes n raw (FrameFiller_new w (QRspec_createFrame v) False)) (put_remainder (QRspec_getRemainder v)) = Inr f
       \<and> ff_frame f = filled_frame v bits"
    and "length bits = length (frame_slots v)" "is_bits bits"
proof -
  show l: "length bits = length (frame_slots v)" "is_bits bits"
    using frame_slots(3) [OF assms(1-3)] assms(4) by (simp_all add: bits_def)
  have p: "put_remainder (QRspec_getRemainder v) = fold_res filler_store (map (\<lambda>b. 0x02 OR b) (replicate (QRspec_getRemainder v) 0))"
    by (rule ext) (rule put_remainder_eq)
  have "res_bind (put_codes n raw f) (put_remainder (QRspec_getRemainder v)) = fold_res filler_store (map (\<lambda>b. 0x02 OR b) bits) f" for f
    unfolding put_codes_eq p bits_def map_append fold_res_append ..
  then show "\<exists>f. res_bind (put_codes n raw (FrameFiller_new w (QRspec_createFrame v) False)) (put_remainder (QRspec_getRemainder v)) = Inr f
       \<and> ff_frame f = filled_frame v bits"
    using frame_slots(4) [OF assms(1-3), of "map (\<lambda>b. 0x02 OR b) bits"] l(1) by (simp add: filled_frame_def)
qed

section \<open>Reading a symbol\<close>

text \<open>
  The reader of the standard for a symbol without errors: unmask, collect the codewords, put
  the data codewords of the blocks in order, decode the segments.
\<close>

definition read_data :: "nat \<Rightarrow> QRecLevel \<Rightarrow> byte list \<Rightarrow> byte list" where
  "read_data v level codes =
     (let spec = QRspec_getEccSpec v level; b1 = QRspec_rsBlockNum1 spec; B = QRspec_rsBlockNum spec;
          dl = QRspec_rsDataCodes1 spec
      in concat (map (\<lambda>b. map (\<lambda>j. codes ! (j * B + b)) [0..<dl] @ (if b < b1 then [] else [codes ! (dl * B + (b - b1))]))
           [0..<B]))"

definition codes_of_bits :: "byte list \<Rightarrow> byte list" where
  "codes_of_bits bits = map (\<lambda>k. word_of_nat (bits_val (take 8 (drop (8 * k) bits)))) [0..<length bits div 8]"

definition read_symbol :: "nat \<Rightarrow> QRecLevel \<Rightarrow> nat \<Rightarrow> byte list \<Rightarrow> (QRencodeMode \<times> byte) list" where
  "read_symbol v level i m =
     (let bits = module_bits v (Mask_makeMaskedFrame (QRspec_getWidth v) m i)
      in dec_stream v (bytes_bits (read_data v level (codes_of_bits bits))))"

lemma codes_of_bytes: "length r < 8 \<Longrightarrow> codes_of_bits (bytes_bits codes @ r) = codes"
  by (intro nth_equalityI)
    (simp_all add: codes_of_bits_def bytes_bits_nth_chunk word_of_bits_msb_8)

lemma read_data_interleave:
  assumes "spec = QRspec_getEccSpec v level" "QRspec_rsBlockNum1 spec = length A" "QRspec_rsBlockNum spec = length (A @ B)"
    "QRspec_rsDataCodes1 spec = n" "A \<noteq> []" "\<forall>b \<in> set A. length b = n" "\<forall>b \<in> set B. length b = n + 1"
  shows "read_data v level (interleave (A @ B) @ r) = concat (A @ B)"
proof -
  let ?L = "length (A @ B)"
  let ?c = "interleave (A @ B)"
  have L: "0 < ?L" using assms(5) by simp
  note il = interleave_two [OF assms(5-7)]
  have at: "(?c @ r) ! (j * ?L + b) = (A @ B) ! b ! j" if "j < n" "b < ?L" for j b
  proof -
    have lt: "j * ?L + b < n * ?L"
    proof -
      have "j * ?L + b < Suc j * ?L" using that(2) by simp
      also have "\<dots> \<le> n * ?L" using that(1) by (intro mult_le_mono1) simp
      finally show ?thesis .
    qed
    then have "(?c @ r) ! (j * ?L + b) = map (\<lambda>k. (A @ B) ! (k mod ?L) ! (k div ?L)) [0..<n * ?L] ! (j * ?L + b)"
      unfolding il append_assoc by (subst nth_append) (simp del: length_append)
    also have "\<dots> = (A @ B) ! ((j * ?L + b) mod ?L) ! ((j * ?L + b) div ?L)" using lt by (simp del: length_append)
    also have "\<dots> = (A @ B) ! b ! j" by (simp only: radix [OF that(2)])
    finally show ?thesis .
  qed
  have last: "(?c @ r) ! (n * ?L + k) = B ! k ! n" if "k < length B" for k
    unfolding il append_assoc using that by (simp add: nth_append del: length_append)
  have "(A @ B) ! b = map (\<lambda>j. (?c @ r) ! (j * ?L + b)) [0..<n]
      @ (if b < length A then [] else [(?c @ r) ! (n * ?L + (b - length A))])" if b: "b < ?L" for b
  proof (cases "b < length A")
    case True
    then have "length ((A @ B) ! b) = n" using assms(6) by (simp add: nth_append)
    then show ?thesis using at [OF _ b] True by (intro nth_equalityI) (simp_all del: length_append)
  next
    case False
    then have B: "b - length A < length B" "(A @ B) ! b = B ! (b - length A)" using b by (simp_all add: nth_append)
    let ?X = "(A @ B) ! b"
    have "length ?X = Suc n" using B assms(7) by simp
    then have X: "?X = map ((!) ?X) [0..<n] @ [?X ! n]"
      by (intro nth_equalityI) (auto simp: nth_append less_Suc_eq)
    have "map (\<lambda>j. (?c @ r) ! (j * ?L + b)) [0..<n] = map ((!) ?X) [0..<n]"
      using at [OF _ b] by (intro map_cong) auto
    moreover have "(?c @ r) ! (n * ?L + (b - length A)) = ?X ! n" using last [OF B(1)] B(2) by simp
    ultimately have "map (\<lambda>j. (?c @ r) ! (j * ?L + b)) [0..<n]
        @ (if b < length A then [] else [(?c @ r) ! (n * ?L + (b - length A))]) = map ((!) ?X) [0..<n] @ [?X ! n]"
      using False by (simp only: if_False)
    then show ?thesis using X by (simp only:)
  qed
  then have "map (\<lambda>b. map (\<lambda>j. (?c @ r) ! (j * ?L + b)) [0..<n]
      @ (if b < length A then [] else [(?c @ r) ! (n * ?L + (b - length A))])) [0..<?L] = A @ B"
    by (intro nth_equalityI) (simp_all del: length_append)
  then show ?thesis unfolding read_data_def Let_def assms(1) [symmetric] assms(2-4) by simp
qed

section \<open>Raw codes of inputs\<close>

definition codewords :: "RSblock list \<Rightarrow> byte list" where
  "codewords bs = interleave (map rb_data bs) @ interleave (map rb_ecc bs)"

definition valid_block :: "RSblock \<Rightarrow> bool" where
  "valid_block b \<longleftrightarrow> rb_ecc b \<noteq> [] \<and> (\<forall>i < length (rb_ecc b). rs_syndrome i (rb_data b @ rb_ecc b) = 0)"

lemma QRraw_new_ok:
  assumes "QRinput_getByteStream input0 = (Inr bytes, input)"
    and "v = inp_version input" "level = inp_level input" "1 \<le> v" "v \<le> 40" "level \<le> QR_ECLEVEL_H"
    and "length bytes = QRspec_getDataLength v level"
  obtains bs raw where "concat (map rb_data bs) = bytes" "list_all valid_block bs" "raw_version raw = v"
    "read_data v level (codewords bs) = bytes" "raw_codes (raw_dataLength raw + raw_eccLength raw) raw = codewords bs"
    "length (codewords bs) = cap_words (qrspecCapacity ! v)"
    "\<And>rslist. rslist_inv rslist \<Longrightarrow> \<exists>rslist'. QRraw_new rslist input0 = (Inr raw, input, rslist') \<and> rslist_inv rslist'"
proof -
  let ?spec = "QRspec_getEccSpec v level"
  obtain b1 b2 dl el where s: "QRspec_rsBlockNum1 ?spec = b1" "QRspec_rsBlockNum2 ?spec = b2" "QRspec_rsBlockNum ?spec = b1 + b2"
    "QRspec_rsDataCodes1 ?spec = dl" "QRspec_rsEccCodes1 ?spec = el" "0 < b1" "0 < el"
    "QRspec_rsDataLength ?spec = QRspec_getDataLength v level" "QRspec_rsEccLength ?spec = QRspec_getECCLength v level"
    "b1 * dl + b2 * (dl + 1) = QRspec_getDataLength v level" "(b1 + b2) * el = QRspec_getECCLength v level"
    using ecc_spec_facts [OF assms(4-6) refl] by metis
  obtain bs1 bs2 where bs: "concat (map rb_data (bs1 @ bs2)) = bytes" "length bs1 = b1" "length bs2 = b2"
    "list_all (block_ok dl el) bs1" "list_all (block_ok (dl + 1) el) bs2"
    and init: "\<And>rslist. rslist_inv rslist \<Longrightarrow>
       \<exists>rslist'. RSblock_init rslist ?spec bytes = (Inr (bs1 @ bs2), rslist') \<and> rslist_inv rslist'"
    using RSblock_init_ok [OF assms(4-6) refl assms(7)] unfolding s(1-5) by metis
  let ?bs = "bs1 @ bs2"
  define raw where "raw = \<lparr>raw_version = v, raw_dataLength = QRspec_rsDataLength ?spec,
     raw_eccLength = QRspec_rsEccLength ?spec, raw_datacode = bytes, raw_ecccode = concat (map rb_ecc ?bs),
     raw_b1 = b1, raw_blocks = b1 + b2, raw_rsblock = ?bs, raw_count = 0\<rparr>"
  have ne: "bs1 \<noteq> []" using bs(2) s(6) by auto
  have ecc: "\<forall>b \<in> set ?bs. length (rb_ecc b) = el" using bs(4,5) by (auto simp: list_all_iff block_ok_def)
  have "map (code_at raw) [0..<raw_dataLength raw] = interleave (map rb_data ?bs)"
    using bs s ne by (intro code_at_data [of raw bs1 bs2 dl el]) (simp_all add: raw_def)
  moreover have "map (code_at raw) [raw_dataLength raw..<raw_dataLength raw + raw_eccLength raw] = interleave (map rb_ecc ?bs)"
    using bs s ne ecc by (intro code_at_ecc [of raw ?bs el]) (simp_all add: raw_def)
  moreover have "raw_codes (raw_dataLength raw + raw_eccLength raw) raw
      = map (code_at raw) [0..<raw_dataLength raw + raw_eccLength raw]"
    using raw_codes_map [of raw "raw_dataLength raw + raw_eccLength raw"] by (simp add: raw_def)
  ultimately have codes: "raw_codes (raw_dataLength raw + raw_eccLength raw) raw = codewords ?bs"
    unfolding codewords_def by (metis map_append upt_add_eq_append zero_le)
  have "length (raw_codes (raw_dataLength raw + raw_eccLength raw) raw) = raw_dataLength raw + raw_eccLength raw"
    using raw_codes_map [of raw "raw_dataLength raw + raw_eccLength raw"] by (simp add: raw_def)
  then have len: "length (codewords ?bs) = cap_words (qrspecCapacity ! v)"
    using words_split [OF assms(4-6)] codes by (simp add: raw_def s)
  have valid: "list_all valid_block ?bs"
    using bs(4,5) s(7) by (auto simp: list_all_iff valid_block_def block_ok_def)
  have "\<exists>rslist'. QRraw_new rslist input0 = (Inr raw, input, rslist') \<and> rslist_inv rslist'" if "rslist_inv rslist" for rslist
    using init [OF that] by (auto simp: QRraw_new_def assms(1) Let_def raw_def s simp flip: assms(2,3))
  moreover have "read_data v level (codewords ?bs) = bytes"
  proof -
    have "\<forall>d \<in> set (map rb_data bs1). length d = dl" "\<forall>d \<in> set (map rb_data bs2). length d = dl + 1"
      using bs(4,5) by (auto simp: list_all_iff block_ok_def)
    then show ?thesis
      using read_data_interleave [of ?spec v level "map rb_data bs1" "map rb_data bs2" dl "interleave (map rb_ecc ?bs)"] s bs(1-3) ne
      by (simp add: codewords_def)
  qed
  ultimately show ?thesis using bs(1) valid codes len by (intro that [of ?bs raw]) (simp_all add: raw_def)
qed

section \<open>The symbol of an input\<close>

definition caches_ok :: "qr_caches \<Rightarrow> bool" where
  "caches_ok c \<longleftrightarrow> frames_inv (c_frames c) \<and> (\<forall>v f. c_mframes c v = Some f \<longrightarrow> f = MQRspec_createFrame v)
     \<and> rslist_inv (c_rslist c)"

lemma newFrame_ok:
  assumes "frames_inv frames" "1 \<le> v" "v \<le> 40"
  shows "\<exists>frames'. QRspec_newFrame frames (int v) = (Inr (QRspec_createFrame v), frames') \<and> frames_inv frames'"
proof -
  have inv: "frames u = Some f \<Longrightarrow> f = QRspec_createFrame u" for u f using assms(1) by (simp add: frames_inv_def)
  have "fst (QRspec_newFrame frames (int v)) = Inr (QRspec_createFrame v)"
    using qr_frames.transparent(1) [OF inv, where version = "int v"] assms by (simp add: QRSPEC_VERSION_MAX_def)
  moreover have "frames_inv (snd (QRspec_newFrame frames (int v)))"
    using qr_frames.transparent(2) [OF inv, where version = "int v"] by (simp add: frames_inv_def)
  ultimately show ?thesis by (metis prod.collapse)
qed

lemma no_caches_ok: "caches_ok no_caches"
  by (simp add: caches_ok_def no_caches_def frames_inv_def rslist_inv_def)

lemma remainder_less: "v \<le> 40 \<Longrightarrow> QRspec_getRemainder v < 8"
proof -
  have "list_all (\<lambda>c. cap_remainder c < 8) qrspecCapacity" by code_simp
  moreover have "length qrspecCapacity = 41" by code_simp
  ultimately show "v \<le> 40 \<Longrightarrow> QRspec_getRemainder v < 8" by (simp add: list_all_length QRspec_getRemainder_def)
qed

text \<open>A finished symbol: masked with pattern \<open>i\<close>, it shows the format information and the bits of \<open>codes\<close>.\<close>

definition shows_codes :: "nat \<Rightarrow> QRecLevel \<Rightarrow> nat \<Rightarrow> byte list \<Rightarrow> byte list \<Rightarrow> bool" where
  "shows_codes v level i codes m \<longleftrightarrow>
     (let w = QRspec_getWidth v
      in length m = w * w
       \<and> fmt_read (fmt_pos1 w) m = unat (QRspec_getFormatInfo (int i) level)
       \<and> fmt_read (fmt_pos2 w) m = unat (QRspec_getFormatInfo (int i) level)
       \<and> module_bits v (Mask_makeMaskedFrame w m i) = bytes_bits codes @ replicate (QRspec_getRemainder v) 0
       \<and> (\<forall>p < w * w. \<not> is_data (QRspec_createFrame v) p \<and> p \<notin> fmt_area w \<longrightarrow> m ! p = QRspec_createFrame v ! p))"

lemma makeMask_shows:
  assumes "1 \<le> v" "v \<le> 40" "level \<le> QR_ECLEVEL_H" "i < maskNum"
    and "is_bits bits" "length bits = length (frame_slots v)" "bits = bytes_bits codes @ replicate (QRspec_getRemainder v) 0"
    and "Mask_makeMask (QRspec_getWidth v) (filled_frame v bits) (int i) level = Inr m"
  shows "shows_codes v level i codes m"
proof -
  let ?w = "QRspec_getWidth v"
  have w: "21 \<le> ?w" using width_eq [OF assms(1,2)] assms(1) by simp
  note rb = makeMask_readback [OF assms(1,2) refl assms(5,6,4,8)]
  have m: "m = put_format ?w (QRspec_getFormatInfo (int i) level) [0..<15] (Mask_makeMaskedFrame ?w (filled_frame v bits) i)"
    using assms(8) by (simp add: Mask_makeMask_def writeFormatInformation_eq [OF w] Let_def Mask_makeMaskedFrame_def split: if_splits)
  note fr = fmt_read_put [OF w length_makeMaskedFrame [OF assms(4)] assms(3), of "int i"]
  have "m ! p = QRspec_createFrame v ! p" if "p < ?w * ?w" "\<not> is_data (QRspec_createFrame v) p" "p \<notin> fmt_area ?w" for p
    using rb(3) [OF that(1) _ that(3)] frame_slots(2) [OF assms(1,2) refl] that(2) by auto
  then show ?thesis
    unfolding shows_codes_def Let_def using rb(1,2) fr m assms(7) by auto
qed

lemma encodeMask_ok:
  assumes "qr_input_ok input" "caches_ok c" "-1 \<le> msk" "msk < int maskNum"
    and "QRinput_getByteStream input = (Inr bytes, input')" "v = inp_version input'"
    and "1 \<le> v" "v \<le> 40" "inp_level input' = inp_level input" "length bytes = QRspec_getDataLength v (inp_level input)"
  obtains m i bs c' where "QRcode_encodeMask c input msk = (Inr \<lparr>qr_version = v, qr_width = QRspec_getWidth v, qr_data = m\<rparr>, input', c')"
    "caches_ok c'" "i < maskNum" "0 \<le> msk \<Longrightarrow> int i = msk" "shows_codes v (inp_level input) i (codewords bs) m"
    "concat (map rb_data bs) = bytes" "list_all valid_block bs" "read_data v (inp_level input) (codewords bs) = bytes"
    "msk = -1 \<Longrightarrow> \<forall>j < maskNum. \<exists>m'. shows_codes v (inp_level input) j (codewords bs) m'
        \<and> total_penalty (QRspec_getWidth v) m \<le> total_penalty (QRspec_getWidth v) m'"
proof -
  let ?l = "inp_level input" and ?w = "QRspec_getWidth v"
  have l: "?l \<le> QR_ECLEVEL_H" using assms(1) by (simp add: qr_input_ok_def)
  obtain bs raw where r: "concat (map rb_data bs) = bytes" "list_all valid_block bs" "raw_version raw = v"
    and rd: "read_data v ?l (codewords bs) = bytes"
    and r4: "raw_codes (raw_dataLength raw + raw_eccLength raw) raw = codewords bs"
    "length (codewords bs) = cap_words (qrspecCapacity ! v)"
    and raw: "\<And>rslist. rslist_inv rslist \<Longrightarrow> \<exists>rslist'. QRraw_new rslist input = (Inr raw, input', rslist') \<and> rslist_inv rslist'"
    using QRraw_new_ok [OF assms(5,6) refl assms(7,8)] assms(9,10) l by metis
  let ?bits = "bytes_bits (codewords bs) @ replicate (QRspec_getRemainder v) 0"
  let ?F = "filled_frame v ?bits"
  note pl = place_codes [OF assms(7,8) refl, of "raw_dataLength raw + raw_eccLength raw" raw, unfolded r4(1), OF r4(2)]
  from pl(1) obtain f where f: "res_bind (put_codes (raw_dataLength raw + raw_eccLength raw) raw
      (FrameFiller_new ?w (QRspec_createFrame v) False)) (put_remainder (QRspec_getRemainder v)) = Inr f" "ff_frame f = ?F" by blast
  obtain rl where rl: "QRraw_new (c_rslist c) input = (Inr raw, input', rl)" "rslist_inv rl"
    using raw [of "c_rslist c"] assms(2) by (auto simp: caches_ok_def)
  obtain fr where fr: "QRspec_newFrame (c_frames c) (int v) = (Inr (QRspec_createFrame v), fr)" "frames_inv fr"
    using newFrame_ok [OF _ assms(7,8), of "c_frames c"] assms(2) by (auto simp: caches_ok_def)
  let ?c = "c\<lparr>c_rslist := rl, c_frames := fr\<rparr>"
  have c: "caches_ok ?c" using assms(2) rl fr by (simp add: caches_ok_def)
  have enc: "QRcode_encodeMask c input msk = (res_bind (if msk < 0 then Mask_mask ?w ?F ?l else Mask_makeMask ?w ?F msk ?l)
      (\<lambda>m. Inr \<lparr>qr_version = v, qr_width = ?w, qr_data = m\<rparr>), input', ?c)"
  proof -
    have b: "res_bind A (\<lambda>f1. res_bind (B f1) C) = res_bind (res_bind A B) C" for A :: "'a res" and B :: "'a \<Rightarrow> 'b res" and C :: "'b \<Rightarrow> 'c res"
      by (simp add: res_bind_assoc)
    have "\<not> inp_mqr input" "inp_version input \<le> QRSPEC_VERSION_MAX" using assms(1) by (simp_all add: qr_input_ok_def QRSPEC_VERSION_MAX_def)
    moreover have "msk \<noteq> -2" using assms(3) by simp
    ultimately show ?thesis
      unfolding QRcode_encodeMask_def Let_def b using l f
      by (simp add: rl fr r(3) assms(9) QRcode_new_def)
  qed
  note sh = makeMask_shows [OF assms(7,8) l _ pl(3,2) refl]
  show ?thesis
  proof (cases "msk < 0")
    case False
    then obtain m where m: "Mask_makeMask ?w ?F msk ?l = Inr m" using assms(4) by (simp add: Mask_makeMask_def)
    have i: "nat msk < maskNum" "int (nat msk) = msk" using False assms(4) by simp_all
    have "shows_codes v ?l (nat msk) (codewords bs) m" using sh [OF i(1), of m] m i(2) by simp
    then show ?thesis using that [of m ?c "nat msk" bs] enc False m i c r rd by simp
  next
    case True
    have w: "21 \<le> ?w" "?w \<le> QRSPEC_WIDTH_MAX" using width_eq [OF assms(7,8)] assms(7,8) by (simp_all add: QRSPEC_WIDTH_MAX_def)
    note ff = filled_frame [OF assms(7,8) refl pl(3,2)]
    from Mask_mask_ok [OF w ff(1,5), of ?l]
    obtain i m where i: "i < maskNum" "Mask_mask ?w ?F ?l = Inr m" "Mask_makeMask ?w ?F (int i) ?l = Inr m"
      and best: "\<forall>j < maskNum. \<exists>m'. Mask_makeMask ?w ?F (int j) ?l = Inr m' \<and> total_penalty ?w m \<le> total_penalty ?w m'" by blast
    have "\<forall>j < maskNum. \<exists>m'. shows_codes v ?l j (codewords bs) m' \<and> total_penalty ?w m \<le> total_penalty ?w m'"
      using best sh by blast
    then show ?thesis using that [of m ?c i bs] enc True i sh c r rd by simp
  qed
qed

lemma one_digit_symbol:
  assumes "-1 \<le> msk" "msk < int maskNum"
  shows "\<exists>code input' c'. QRcode_encodeMask no_caches one_digit msk = (Inr code, input', c')"
  using one_digit_ok
proof (cases rule: getByteStream_ok)
  case (ok v bytes)
  show ?thesis
    by (rule encodeMask_ok [OF one_digit_ok(1) no_caches_ok assms ok(1) _ ok(3,4) _ ok(5)]) (auto simp: converted_def)
qed (use one_digit_stream in auto)

text \<open>
  C2. What \<open>QRcode_encodeMask\<close> returns is the symbol of the input. For every input of a QR Code
  symbol with complete entries and every mask argument up to 7 (\<open>-1\<close> lets the library choose)
  it fails only when the conversion fails with \<open>ERANGE\<close>. Otherwise the symbol has the version
  the conversion settled on, its two copies of the format information name level and mask,
  its function modules are those of the frame, and the unmasked data modules, in the order of
  the filler, spell the interleaved codewords of Reed-Solomon blocks whose data parts are the
  bytes of the input and whose syndromes vanish, followed by zero remainder bits. Caches that
  were consistent stay consistent.
\<close>

theorem QRcode_encodeMask_symbol:
  assumes "qr_input_ok input" "inp_fnc1 input = 0" "caches_ok c" "-1 \<le> msk" "msk < int maskNum"
  shows "case QRcode_encodeMask c input msk of
     (Inr code, input', c') \<Rightarrow> caches_ok c' \<and> (\<exists>bytes bs i. QRinput_getByteStream input = (Inr bytes, input')
          \<and> concat (map rb_data bs) = bytes \<and> list_all valid_block bs
          \<and> qr_version code = inp_version input' \<and> qr_width code = QRspec_getWidth (inp_version input')
          \<and> i < maskNum \<and> (0 \<le> msk \<longrightarrow> int i = msk)
          \<and> shows_codes (inp_version input') (inp_level input) i (codewords bs) (qr_data code))
   | (Inl e, input', c') \<Rightarrow> e = ERANGE \<and> QRinput_getByteStream input = (Inl ERANGE, input') \<and> caches_ok c'"
  using assms(1,2)
proof (cases rule: getByteStream_ok)
  case (ok v bytes)
  have v: "v = inp_version (converted v input)" "inp_level (converted v input) = inp_level input" by (simp_all add: converted_def)
  show ?thesis
  proof (rule encodeMask_ok [OF assms(1,3-5) ok(1) v(1) ok(3,4) v(2) ok(5)])
    fix m i bs c'
    assume "QRcode_encodeMask c input msk = (Inr \<lparr>qr_version = v, qr_width = QRspec_getWidth v, qr_data = m\<rparr>, converted v input, c')"
      "caches_ok c'" "i < maskNum" "0 \<le> msk \<Longrightarrow> int i = msk" "shows_codes v (inp_level input) i (codewords bs) m"
      "concat (map rb_data bs) = bytes" "list_all valid_block bs"
    then show ?thesis using ok(1) v(1)
      by (simp del: map_map) (intro exI [of _ bs] conjI exI [of _ i]; simp)
  qed
next
  case (range v i')
  then have "QRraw_new (c_rslist c) input = (Inl ERANGE, i', c_rslist c)" by (simp add: QRraw_new_def)
  then show ?thesis using assms range by (simp add: QRcode_encodeMask_def qr_input_ok_def QRSPEC_VERSION_MAX_def)
qed

theorem QRcode_encodeMask_symbol_witness:
  "\<exists>code input' c'. QRcode_encodeMask no_caches one_digit (-1) = (Inr code, input', c')
     \<and> qr_width code = QRspec_getWidth (inp_version input')"
proof -
  from QRcode_encodeMask_symbol [OF one_digit_ok no_caches_ok, of "-1"] one_digit_stream show ?thesis
    by (auto simp: maskNum_def split: prod.splits sum.splits)
qed

definition reads_back :: "QRcode \<Rightarrow> QRecLevel \<Rightarrow> (QRencodeMode \<times> byte) list \<Rightarrow> bool" where
  "reads_back code level cs \<longleftrightarrow> 1 \<le> qr_version code \<and> qr_version code \<le> QRSPEC_VERSION_MAX
     \<and> qr_width code = QRspec_getWidth (qr_version code) \<and> length (qr_data code) = qr_width code * qr_width code
     \<and> (\<exists>i < maskNum. fmt_read (fmt_pos1 (qr_width code)) (qr_data code) = unat (QRspec_getFormatInfo (int i) level)
       \<and> fmt_read (fmt_pos2 (qr_width code)) (qr_data code) = unat (QRspec_getFormatInfo (int i) level)
       \<and> read_symbol (qr_version code) level i (qr_data code) = cs)"

lemma encodeMask_reads:
  assumes "qr_input_ok input" "inp_fnc1 input = 0" "caches_ok c" "-1 \<le> msk" "msk < int maskNum"
    and "list_all (\<lambda>e. readable (le_mode e) (le_data e)) (inp_entries input)"
  obtains (ok) code input' c' where "QRcode_encodeMask c input msk = (Inr code, input', c')"
      "reads_back code (inp_level input) (concat (map (\<lambda>e. map (Pair (le_mode e)) (le_data e)) (inp_entries input)))" "caches_ok c'"
  | (range) input' c' where "QRcode_encodeMask c input msk = (Inl ERANGE, input', c')" "QRinput_getByteStream input = (Inl ERANGE, input')"
  using assms(1,2)
proof (cases rule: getByteStream_ok)
  case (ok v bytes)
  have v: "v = inp_version (converted v input)" "inp_level (converted v input) = inp_level input" by (simp_all add: converted_def)
  have dec: "dec_stream v (bytes_bits bytes) = concat (map (\<lambda>e. map (Pair (le_mode e)) (le_data e)) (inp_entries input))"
    using ok(6) dec_stream_all [of "inp_entries input" v] dec_stream_padding assms(1,6) by (simp add: qr_input_ok_def)
  show ?thesis
  proof (rule encodeMask_ok [OF assms(1,3-5) ok(1) v(1) ok(3,4) v(2) ok(5)])
    fix m i bs c2
    assume *: "QRcode_encodeMask c input msk = (Inr \<lparr>qr_version = v, qr_width = QRspec_getWidth v, qr_data = m\<rparr>, converted v input, c2)"
      "i < maskNum" "shows_codes v (inp_level input) i (codewords bs) m" "read_data v (inp_level input) (codewords bs) = bytes" "caches_ok c2"
    have "QRspec_getRemainder v < 8" using remainder_less [OF ok(4)] .
    then have "read_symbol v (inp_level input) i m = dec_stream v (bytes_bits bytes)"
      using *(3,4) by (simp add: shows_codes_def read_symbol_def Let_def codes_of_bytes)
    then show ?thesis using * dec ok(3,4)
      by (intro that(1) [OF *(1)]) (auto simp: reads_back_def shows_codes_def Let_def QRSPEC_VERSION_MAX_def)
  qed
next
  case (range v i')
  then have "QRraw_new (c_rslist c) input = (Inl ERANGE, i', c_rslist c)" by (simp add: QRraw_new_def)
  then have "QRcode_encodeMask c input msk = (Inl ERANGE, i', c\<lparr>c_rslist := c_rslist c\<rparr>)"
    using assms(1) by (simp add: QRcode_encodeMask_def qr_input_ok_def QRSPEC_VERSION_MAX_def)
  then show ?thesis using range(1) by (rule that(2))
qed

text \<open>
  C1. The whole encoder is undone by the reader of the standard: whenever \<open>QRcode_encodeMask\<close>
  returns a symbol for an input whose characters are all valid, some mask pattern, the one both
  copies of the format information name, reads back from the modules the bytes of all entries
  in order, each with its mode. Segmentation, version selection, padding, block splitting,
  interleaving, placement and masking together lose nothing.
\<close>

theorem symbol_roundtrip:
  assumes "qr_input_ok input" "inp_fnc1 input = 0" "caches_ok c" "-1 \<le> msk" "msk < int maskNum"
    and "list_all (\<lambda>e. readable (le_mode e) (le_data e)) (inp_entries input)"
    and "QRcode_encodeMask c input msk = (Inr code, input', c')"
  shows "\<exists>i < maskNum. fmt_read (fmt_pos1 (qr_width code)) (qr_data code) = unat (QRspec_getFormatInfo (int i) (inp_level input))
     \<and> fmt_read (fmt_pos2 (qr_width code)) (qr_data code) = unat (QRspec_getFormatInfo (int i) (inp_level input))
     \<and> read_symbol (qr_version code) (inp_level input) i (qr_data code)
         = concat (map (\<lambda>e. map (Pair (le_mode e)) (le_data e)) (inp_entries input))"
  by (rule encodeMask_reads [OF assms(1-6)]) (use assms(7) in \<open>auto simp: reads_back_def\<close>)

theorem symbol_roundtrip_witness:
  "\<exists>code input' c' i. QRcode_encodeMask no_caches one_digit 3 = (Inr code, input', c')
     \<and> read_symbol (qr_version code) QR_ECLEVEL_Q i (qr_data code) = [(QR_MODE_NUM, 0x37)]"
proof -
  obtain code input' c' where e: "QRcode_encodeMask no_caches one_digit 3 = (Inr code, input', c')"
    using one_digit_symbol [of 3] by (auto simp: maskNum_def)
  have "list_all (\<lambda>e. readable (le_mode e) (le_data e)) (inp_entries one_digit)"
    "inp_level one_digit = QR_ECLEVEL_Q"
    "concat (map (\<lambda>e. map (Pair (le_mode e)) (le_data e)) (inp_entries one_digit)) = [(QR_MODE_NUM, 0x37)]"
    by (simp_all add: one_digit_def readable_def)
  with symbol_roundtrip [OF one_digit_ok no_caches_ok _ _ _ e] e show ?thesis by (auto simp: maskNum_def)
qed

end
