(* ===== verification/QR_Library.thy ===== *)
theory QR_Library
  imports QR_Encode
begin

text \<open>
  The library as a whole: the entry points as calls on its static state, the caches, and the
  independence of calls.
\<close>

section \<open>Operations over a hidden cache\<close>

primrec run_calls :: "('c \<Rightarrow> 'a \<Rightarrow> 'r \<times> 'c) \<Rightarrow> 'c \<Rightarrow> 'a list \<Rightarrow> 'r list \<times> 'c" where
  "run_calls call c [] = ([], c)"
| "run_calls call c (a # as) = (let (r, c1) = call c a; (rs, c2) = run_calls call c1 as in (r # rs, c2))"

locale hidden_cache =
  fixes call :: "'c \<Rightarrow> 'a \<Rightarrow> 'r \<times> 'c"
    and inv :: "'c \<Rightarrow> bool"
    and init :: 'c
  assumes inv_init: "inv init"
    and inv_call: "inv c \<Longrightarrow> inv (snd (call c a))"
    and same: "inv c \<Longrightarrow> inv d \<Longrightarrow> fst (call c a) = fst (call d a)"
begin

lemma fresh: "inv c \<Longrightarrow> fst (call c a) = fst (call init a)"
  by (rule same [OF _ inv_init])

lemma run_fresh:
  "inv c \<Longrightarrow> fst (run_calls call c as) = map (\<lambda>a. fst (call init a)) as \<and> inv (snd (run_calls call c as))"
proof (induction as arbitrary: c)
  case (Cons a as)
  obtain r c1 where r: "call c a = (r, c1)" by (rule prod.exhaust)
  have "r = fst (call init a)" "inv c1" using fresh [OF Cons.prems, of a] inv_call [OF Cons.prems, of a] r by simp_all
  with Cons.IH [of c1] show ?case by (simp add: r case_prod_unfold)
qed simp

end

lemma RSblock_init_hidden:
  assumes "rslist_inv r" "rslist_inv r'"
  shows "fst (RSblock_init r spec data) = fst (RSblock_init r' spec data)"
    and "rslist_inv (snd (RSblock_init r spec data))"
proof -
  note t = init_rs_transparent
  have s: "\<exists>x. init_rs r a b d e f g = (init_rs_char a b d e f g, x) \<and> rslist_inv x" if "rslist_inv r" for r a b d e f g
    using t [OF that] by (metis prod.collapse)
  let ?s = "spec"
  let ?i = "\<lambda>r. init_rs r 8 0x11d 0 1 (int (QRspec_rsEccCodes1 spec)) (255 - int (QRspec_rsDataCodes1 spec) - int (QRspec_rsEccCodes1 spec))"
  let ?j = "\<lambda>r. init_rs r 8 0x11d 0 1 (int (QRspec_rsEccCodes2 spec)) (255 - int (QRspec_rsDataCodes2 spec) - int (QRspec_rsEccCodes2 spec))"
  obtain c1 c2 where c: "\<And>r. rslist_inv r \<Longrightarrow> \<exists>x. ?i r = (c1, x) \<and> rslist_inv x" "\<And>r. rslist_inv r \<Longrightarrow> \<exists>x. ?j r = (c2, x) \<and> rslist_inv x"
    using s by metis
  obtain x x' where x: "?i r = (c1, x)" "rslist_inv x" "?i r' = (c1, x')" "rslist_inv x'" using c(1) [OF assms(1)] c(1) [OF assms(2)] by blast
  obtain y y' where y: "?j x = (c2, y)" "rslist_inv y" "?j x' = (c2, y')" using c(2) [OF x(2)] c(2) [OF x(4)] by blast
  show "fst (RSblock_init r spec data) = fst (RSblock_init r' spec data)" "rslist_inv (snd (RSblock_init r spec data))"
    by (cases c1; cases c2; simp add: RSblock_init_def Let_def x y)+
qed

lemma QRraw_new_hidden:
  assumes "rslist_inv r" "rslist_inv r'"
  shows "\<exists>a b x x'. QRraw_new r i = (a, b, x) \<and> QRraw_new r' i = (a, b, x') \<and> rslist_inv x \<and> rslist_inv x'"
proof -
  obtain a b where s: "QRinput_getByteStream i = (a, b)" by (rule prod.exhaust)
  show ?thesis
  proof (cases a)
    case (Inr d)
    let ?spec = "QRspec_getEccSpec (inp_version b) (inp_level b)"
    obtain k x x' where "RSblock_init r ?spec d = (k, x)" "RSblock_init r' ?spec d = (k, x')" "rslist_inv x" "rslist_inv x'"
      using RSblock_init_hidden [OF assms, of ?spec d] RSblock_init_hidden(2) [OF assms(2,1), of ?spec d] by (metis prod.collapse)
    then show ?thesis by (cases k) (simp_all add: QRraw_new_def s Inr Let_def)
  qed (use assms in \<open>simp add: QRraw_new_def s\<close>)
qed

lemma MQRraw_new_hidden:
  assumes "rslist_inv r" "rslist_inv r'"
  shows "\<exists>a b x x'. MQRraw_new r i = (a, b, x) \<and> MQRraw_new r' i = (a, b, x') \<and> rslist_inv x \<and> rslist_inv x'"
proof -
  obtain a b where s: "QRinput_getByteStream i = (a, b)" by (rule prod.exhaust)
  let ?d = "int (MQRspec_getDataLength (inp_version i) (inp_level i))"
  let ?e = "int (MQRspec_getECCLength (inp_version i) (inp_level i))"
  obtain k x x' where "init_rs r 8 0x11d 0 1 ?e (255 - ?d - ?e) = (k, x)" "init_rs r' 8 0x11d 0 1 ?e (255 - ?d - ?e) = (k, x')"
    "rslist_inv x" "rslist_inv x'"
    using init_rs_transparent [OF assms(1)] init_rs_transparent [OF assms(2)] by (metis prod.collapse)
  then show ?thesis by (cases a; cases k) (use assms in \<open>simp_all add: MQRraw_new_def s Let_def\<close>)
qed

lemma newFrame_hidden:
  assumes "frames_inv g" "frames_inv g'"
  shows "\<exists>a x x'. QRspec_newFrame g v = (a, x) \<and> QRspec_newFrame g' v = (a, x') \<and> frames_inv x \<and> frames_inv x'"
proof -
  have i: "g u = Some f \<Longrightarrow> f = QRspec_createFrame u" "g' u = Some f \<Longrightarrow> f = QRspec_createFrame u" for u f
    using assms by (simp_all add: frames_inv_def)
  note t = qr_frames.transparent [OF i(1), where version = v] and t' = qr_frames.transparent [OF i(2), where version = v]
  have "frames_inv (snd (QRspec_newFrame g v))" "frames_inv (snd (QRspec_newFrame g' v))"
    using t(2) t'(2) by (simp_all add: frames_inv_def)
  then show ?thesis using t(1) t'(1) by (metis prod.collapse)
qed

definition mframes_inv :: "frame_cache \<Rightarrow> bool" where
  "mframes_inv frames \<longleftrightarrow> (\<forall>v f. frames v = Some f \<longrightarrow> f = MQRspec_createFrame v)"

lemma MQR_newFrame_hidden:
  assumes "mframes_inv g" "mframes_inv g'"
  shows "\<exists>a x x'. MQRspec_newFrame g v = (a, x) \<and> MQRspec_newFrame g' v = (a, x') \<and> mframes_inv x \<and> mframes_inv x'"
proof -
  have i: "g u = Some f \<Longrightarrow> f = MQRspec_createFrame u" "g' u = Some f \<Longrightarrow> f = MQRspec_createFrame u" for u f
    using assms by (simp_all add: mframes_inv_def)
  note t = mqr_frames.transparent [OF i(1), where version = v] and t' = mqr_frames.transparent [OF i(2), where version = v]
  have "mframes_inv (snd (MQRspec_newFrame g v))" "mframes_inv (snd (MQRspec_newFrame g' v))"
    using t(2) t'(2) by (simp_all add: mframes_inv_def)
  then show ?thesis using t(1) t'(1) by (metis prod.collapse)
qed

lemma caches_okD:
  "caches_ok c \<Longrightarrow> frames_inv (c_frames c)" "caches_ok c \<Longrightarrow> mframes_inv (c_mframes c)" "caches_ok c \<Longrightarrow> rslist_inv (c_rslist c)"
  by (simp_all add: caches_ok_def mframes_inv_def)

lemma caches_ok_iff: "caches_ok c \<longleftrightarrow> frames_inv (c_frames c) \<and> mframes_inv (c_mframes c) \<and> rslist_inv (c_rslist c)"
  by (simp add: caches_ok_def mframes_inv_def)

text \<open>Two runs agree: same result, same object, caches that stay consistent.\<close>

definition agree :: "'r \<times> 'i \<times> qr_caches \<Rightarrow> 'r \<times> 'i \<times> qr_caches \<Rightarrow> bool" where
  "agree p q \<longleftrightarrow> fst p = fst q \<and> fst (snd p) = fst (snd q) \<and> caches_ok (snd (snd p)) \<and> caches_ok (snd (snd q))"

lemma agree_pair [simp]: "agree (r, i, c) (s, j, d) \<longleftrightarrow> r = s \<and> i = j \<and> caches_ok c \<and> caches_ok d"
  by (simp add: agree_def)

lemma encodeMask_agree:
  assumes "caches_ok c" "caches_ok d"
  shows "agree (QRcode_encodeMask c input msk) (QRcode_encodeMask d input msk)"
proof -
  note ok = caches_okD [OF assms(1)] caches_okD [OF assms(2)]
  obtain a b x x' where r: "QRraw_new (c_rslist c) input = (a, b, x)" "QRraw_new (c_rslist d) input = (a, b, x')" "rslist_inv x" "rslist_inv x'"
    using QRraw_new_hidden [OF ok(3,6)] by blast
  show ?thesis
  proof (cases a)
    case (Inl e)
    then show ?thesis using assms r by (simp add: QRcode_encodeMask_def caches_ok_iff)
  next
    case (Inr raw)
    obtain k y y' where "QRspec_newFrame (c_frames c) (int (raw_version raw)) = (k, y)" "QRspec_newFrame (c_frames d) (int (raw_version raw)) = (k, y')"
      "frames_inv y" "frames_inv y'"
      using newFrame_hidden [OF ok(1,4)] by blast
    then show ?thesis using assms r Inr by (cases k) (simp_all add: QRcode_encodeMask_def Let_def caches_ok_iff)
  qed
qed

lemma encodeMaskMQR_agree:
  assumes "caches_ok c" "caches_ok d"
  shows "agree (QRcode_encodeMaskMQR c input msk) (QRcode_encodeMaskMQR d input msk)"
proof -
  note ok = caches_okD [OF assms(1)] caches_okD [OF assms(2)]
  obtain a b x x' where r: "MQRraw_new (c_rslist c) input = (a, b, x)" "MQRraw_new (c_rslist d) input = (a, b, x')" "rslist_inv x" "rslist_inv x'"
    using MQRraw_new_hidden [OF ok(3,6)] by blast
  show ?thesis
  proof (cases a)
    case (Inl e)
    then show ?thesis using assms r by (simp add: QRcode_encodeMaskMQR_def caches_ok_iff)
  next
    case (Inr raw)
    obtain k y y' where "MQRspec_newFrame (c_mframes c) (int (mraw_version raw)) = (k, y)" "MQRspec_newFrame (c_mframes d) (int (mraw_version raw)) = (k, y')"
      "mframes_inv y" "mframes_inv y'"
      using MQR_newFrame_hidden [OF ok(2,5)] by blast
    then show ?thesis using assms r Inr by (cases k) (simp_all add: QRcode_encodeMaskMQR_def Let_def caches_ok_iff)
  qed
qed

lemma encodeInput_agree:
  "caches_ok c \<Longrightarrow> caches_ok d \<Longrightarrow> agree (QRcode_encodeInput c input) (QRcode_encodeInput d input)"
  by (simp add: QRcode_encodeInput_def encodeMask_agree encodeMaskMQR_agree)

lemma encode_inputs_agree:
  "caches_ok c \<Longrightarrow> caches_ok d \<Longrightarrow> agree (encode_inputs c xs) (encode_inputs d xs)"
proof (induction xs arbitrary: c d)
  case (Cons x xs)
  obtain r i c1 d1 where e: "QRcode_encodeInput c x = (r, i, c1)" "QRcode_encodeInput d x = (r, i, d1)" "caches_ok c1" "caches_ok d1"
    using encodeInput_agree [OF Cons.prems, of x] by (cases "QRcode_encodeInput c x"; cases "QRcode_encodeInput d x") auto
  show ?case
    using Cons.IH [OF e(3,4)] e by (cases r; cases "encode_inputs c1 xs"; cases "encode_inputs d1 xs") auto
qed simp

lemma encodeInputStructured_agree:
  assumes "caches_ok c" "caches_ok d"
  shows "agree (QRcode_encodeInputStructured c s) (QRcode_encodeInputStructured d s)"
  using encode_inputs_agree [OF assms, of "st_inputs s"]
  by (cases "encode_inputs c (st_inputs s)"; cases "encode_inputs d (st_inputs s)") (simp add: QRcode_encodeInputStructured_def)

section \<open>The library as a state machine\<close>

text \<open>The calls of the interface that read or change the static state of the library.\<close>

datatype api_call =
  EncodeInput QRinput
| EncodeString "byte list option" int QRecLevel QRencodeMode bool
| EncodeStringMQR "byte list option" int QRecLevel QRencodeMode bool
| EncodeString8bit "byte list option" int QRecLevel
| EncodeString8bitMQR "byte list option" int QRecLevel
| EncodeData int "byte list option" int QRecLevel
| EncodeDataMQR int "byte list option" int QRecLevel
| EncodeInputStructured QRinput_Struct
| EncodeDataStructured int "byte list option" int QRecLevel
| EncodeString8bitStructured "byte list option" int QRecLevel
| EncodeStringStructured "byte list option" int QRecLevel QRencodeMode bool
| ClearCache

datatype api_result =
  InputResult "QRcode res" QRinput
| CodeResult "QRcode res"
| StructResult "QRcode list res" QRinput_Struct
| ListResult "QRcode list res"
| Done

fun api :: "qr_caches \<Rightarrow> api_call \<Rightarrow> api_result \<times> qr_caches" where
  "api c (EncodeInput input) = (case QRcode_encodeInput c input of (r, i, c') \<Rightarrow> (InputResult r i, c'))"
| "api c (EncodeString s v l h cs) = (case QRcode_encodeString c s v l h cs of (r, c') \<Rightarrow> (CodeResult r, c'))"
| "api c (EncodeStringMQR s v l h cs) = (case QRcode_encodeStringMQR c s v l h cs of (r, c') \<Rightarrow> (CodeResult r, c'))"
| "api c (EncodeString8bit s v l) = (case QRcode_encodeString8bit c s v l of (r, c') \<Rightarrow> (CodeResult r, c'))"
| "api c (EncodeString8bitMQR s v l) = (case QRcode_encodeString8bitMQR c s v l of (r, c') \<Rightarrow> (CodeResult r, c'))"
| "api c (EncodeData n d v l) = (case QRcode_encodeData c n d v l of (r, c') \<Rightarrow> (CodeResult r, c'))"
| "api c (EncodeDataMQR n d v l) = (case QRcode_encodeDataMQR c n d v l of (r, c') \<Rightarrow> (CodeResult r, c'))"
| "api c (EncodeInputStructured s) = (case QRcode_encodeInputStructured c s of (r, s', c') \<Rightarrow> (StructResult r s', c'))"
| "api c (EncodeDataStructured n d v l) = (case QRcode_encodeDataStructured c n d v l of (r, c') \<Rightarrow> (ListResult r, c'))"
| "api c (EncodeString8bitStructured s v l) = (case QRcode_encodeString8bitStructured c s v l of (r, c') \<Rightarrow> (ListResult r, c'))"
| "api c (EncodeStringStructured s v l h cs) = (case QRcode_encodeStringStructured c s v l h cs of (r, c') \<Rightarrow> (ListResult r, c'))"
| "api c ClearCache = (Done, QRcode_clearCache c)"

lemma fold_clear: "fold (\<lambda>i f. f(i := None)) xs m u = (if u \<in> set xs then None else m u)"
  by (induction xs arbitrary: m) auto

lemma clearCache_ok: "caches_ok c \<Longrightarrow> caches_ok (QRcode_clearCache c)"
  by (simp add: QRcode_clearCache_def caches_ok_def QRspec_clearCache_def MQRspec_clearCache_def free_rs_cache_def
      frames_inv_def rslist_inv_def fold_clear del: upt_Suc)

definition agree2 :: "'r \<times> qr_caches \<Rightarrow> 'r \<times> qr_caches \<Rightarrow> bool" where
  "agree2 p q \<longleftrightarrow> fst p = fst q \<and> caches_ok (snd p) \<and> caches_ok (snd q)"

lemma agree2_drop: "agree p q \<Longrightarrow> agree2 (case p of (r, i, c) \<Rightarrow> (f r i, c)) (case q of (r, i, c) \<Rightarrow> (f r i, c))"
  by (auto simp: agree_def agree2_def split: prod.splits)

lemma agree2_map: "agree2 p q \<Longrightarrow> agree2 (case p of (r, c) \<Rightarrow> (f r, c)) (case q of (r, c) \<Rightarrow> (f r, c))"
  by (auto simp: agree2_def split: prod.splits)

lemma agree2_pair: "agree2 (r, c) (r, d) \<longleftrightarrow> caches_ok c \<and> caches_ok d"
  by (simp add: agree2_def)

lemma encode_built_agree:
  "caches_ok c \<Longrightarrow> caches_ok d \<Longrightarrow> agree2 (encode_built c r) (encode_built d r)"
  using agree2_drop [OF encodeInput_agree] by (auto simp: encode_built_def agree2_pair split: sum.splits)

lemma encodeInputToStructured_agree:
  "caches_ok c \<Longrightarrow> caches_ok d \<Longrightarrow> agree2 (QRcode_encodeInputToStructured c i) (QRcode_encodeInputToStructured d i)"
  using agree2_drop [OF encodeInputStructured_agree] by (auto simp: QRcode_encodeInputToStructured_def agree2_pair split: sum.splits)

lemma data_entry_points_agree:
  assumes "caches_ok c" "caches_ok d"
  shows "agree2 (QRcode_encodeStringReal c s v l m h cs) (QRcode_encodeStringReal d s v l m h cs)"
    and "agree2 (QRcode_encodeDataReal c s n v l m) (QRcode_encodeDataReal d s n v l m)"
    and "agree2 (QRcode_encodeDataStructuredReal c n s v l m h cs) (QRcode_encodeDataStructuredReal d n s v l m h cs)"
  using assms
  by (auto simp: QRcode_encodeStringReal_def QRcode_encodeDataReal_def QRcode_encodeDataStructuredReal_def agree2_pair
      intro!: encode_built_agree encodeInputToStructured_agree split: option.splits sum.splits)

lemma api_agree:
  assumes "caches_ok c" "caches_ok d"
  shows "agree2 (api c a) (api d a)"
  using data_entry_points_agree [OF assms] agree2_drop [OF encodeInput_agree [OF assms]]
    agree2_drop [OF encodeInputStructured_agree [OF assms]] assms
  by (cases a)
    (auto simp: QRcode_encodeString_def QRcode_encodeStringMQR_def QRcode_encodeString8bit_def QRcode_encodeString8bitMQR_def
      QRcode_encodeData_def QRcode_encodeDataMQR_def QRcode_encodeDataStructured_def QRcode_encodeString8bitStructured_def
      QRcode_encodeStringStructured_def clearCache_ok agree2_pair intro!: agree2_map split: option.splits)

interpretation lib: hidden_cache api caches_ok no_caches
proof
  show "caches_ok no_caches" by (rule no_caches_ok)
  show "caches_ok c \<Longrightarrow> caches_ok (snd (api c a))" for c a
    using api_agree [of c c a] by (simp add: agree2_def)
  show "caches_ok c \<Longrightarrow> caches_ok d \<Longrightarrow> fst (api c a) = fst (api d a)" for c d a
    using api_agree [of c d a] by (simp add: agree2_def)
qed

text \<open>The states of the library: those a sequence of calls reaches from its start.\<close>

inductive reachable :: "qr_caches \<Rightarrow> bool" where
  start: "reachable no_caches"
| after_call: "reachable c \<Longrightarrow> reachable (snd (api c a))"

lemma reachable_ok: "reachable c \<Longrightarrow> caches_ok c"
  by (induction rule: reachable.induct) (simp_all add: lib.inv_init lib.inv_call)

text \<open>
  C5. Calls of the library do not influence each other: in every state that a sequence of calls
  reaches, each later sequence of calls gives the results the calls have on a library just
  loaded, although frames and codecs are cached between them, and the caches hold only what
  building afresh would give.
\<close>

theorem library_calls_independent:
  assumes "reachable c"
  shows "fst (run_calls api c calls) = map (\<lambda>a. fst (api no_caches a)) calls \<and> caches_ok (snd (run_calls api c calls))"
  using lib.run_fresh [OF reachable_ok [OF assms]] .

theorem library_calls_independent_witness:
  "fst (run_calls api (snd (api no_caches (EncodeInput one_digit))) [ClearCache, EncodeInput one_digit])
     = [Done, fst (api no_caches (EncodeInput one_digit))]"
  using library_calls_independent [OF reachable.after_call [OF reachable.start], of "EncodeInput one_digit" "[ClearCache, EncodeInput one_digit]"]
  by simp

end
