(* ===== verification/QR_Tool.thy ===== *)
theory QR_Tool
  imports QR_Encode
begin

text \<open>
  The command line tool \<open>qrenc.c\<close>: options, the writers of the image formats, and the main
  program. Files and standard output are collected in a list of what is written; messages on
  standard error are left out.
\<close>

section \<open>State\<close>

datatype imageType =
    PNG_TYPE | EPS_TYPE | SVG_TYPE | ANSI_TYPE | ANSI256_TYPE | ASCII_TYPE | ASCIIi_TYPE | UTF8_TYPE | ANSIUTF8_TYPE

text \<open>The static variables. Colours are red, green, blue and alpha.\<close>

record tool =
  t_casesensitive :: bool
  t_eightbit :: bool
  t_version :: int
  t_size :: int
  t_margin :: int
  t_dpi :: int
  t_structured :: bool
  t_rle :: bool
  t_micro :: bool
  t_level :: QRecLevel
  t_hint :: QRencodeMode
  t_fg_color :: "uint list"
  t_bg_color :: "uint list"
  t_verbose :: bool
  t_image_type :: imageType

definition tool_init :: tool where
  "tool_init =
     \<lparr>t_casesensitive = True, t_eightbit = False, t_version = 0, t_size = 3, t_margin = -1, t_dpi = 72,
      t_structured = False, t_rle = False, t_micro = False, t_level = QR_ECLEVEL_L, t_hint = QR_MODE_8,
      t_fg_color = [0, 0, 0, 255], t_bg_color = [255, 255, 255, 255], t_verbose = False,
      t_image_type = PNG_TYPE\<rparr>"

section \<open>Numbers and strings\<close>

definition digit_of :: "nat \<Rightarrow> char" where
  "digit_of d = ''0123456789abcdef'' ! d"

fun fmt_base :: "nat \<Rightarrow> nat \<Rightarrow> string" where
  "fmt_base b n = (if n < b \<or> b < 2 then [digit_of n] else fmt_base b (n div b) @ [digit_of (n mod b)])"

declare fmt_base.simps [simp del]

text \<open>The conversions \<open>%d\<close>, \<open>%02d\<close> and \<open>%02x\<close> of \<open>printf\<close>.\<close>

definition fmt_d :: "int \<Rightarrow> string" where
  "fmt_d i = (if i < 0 then CHR ''-'' # fmt_base 10 (nat (- i)) else fmt_base 10 (nat i))"

definition fmt_02d :: "nat \<Rightarrow> string" where
  "fmt_02d n = (if n < 10 then CHR ''0'' # fmt_base 10 n else fmt_base 10 n)"

definition fmt_02x :: "uint \<Rightarrow> string" where
  "fmt_02x u = (if u < 16 then CHR ''0'' # fmt_base 16 (unat u) else fmt_base 16 (unat u))"

definition isspace :: "char \<Rightarrow> bool" where
  "isspace c \<longleftrightarrow> c = CHR '' '' \<or> (9 \<le> (of_char c :: nat) \<and> (of_char c :: nat) \<le> 13)"

definition hex_digit :: "char \<Rightarrow> nat option" where
  "hex_digit c = (let n = of_char c :: nat
     in if 48 \<le> n \<and> n \<le> 57 then Some (n - 48)
        else if 97 \<le> n \<and> n \<le> 102 then Some (n - 87)
        else if 65 \<le> n \<and> n \<le> 70 then Some (n - 55) else None)"

text \<open>
  The conversion \<open>%02x\<close> of \<open>sscanf\<close>: white space is skipped, then at most two characters are
  taken: a sign and a digit, or one or two digits. The value and the characters consumed.
\<close>

fun scan_field :: "string \<Rightarrow> (uint \<times> nat) option" where
  "scan_field [] = None"
| "scan_field (c # s) =
     (if c = CHR ''+'' \<or> c = CHR ''-'' then
        (case s of
           [] \<Rightarrow> None
         | d # _ \<Rightarrow> (case hex_digit d of
               None \<Rightarrow> None
             | Some v \<Rightarrow> Some (if c = CHR ''-'' then - word_of_nat v else word_of_nat v, 2)))
      else case hex_digit c of
        None \<Rightarrow> None
      | Some v \<Rightarrow>
          (case s of
             [] \<Rightarrow> Some (word_of_nat v, 1)
           | d # _ \<Rightarrow>
               if c = CHR ''0'' \<and> (d = CHR ''x'' \<or> d = CHR ''X'') then None
               else case hex_digit d of
                 None \<Rightarrow> Some (word_of_nat v, 1)
               | Some u \<Rightarrow> Some (word_of_nat (16 * v + u), 2)))"

definition scan_02x :: "string \<Rightarrow> (uint \<times> nat) option" where
  "scan_02x s = (let k = length (takeWhile isspace s)
     in case scan_field (drop k s) of None \<Rightarrow> None | Some (v, n) \<Rightarrow> Some (v, k + n))"

text \<open>A sequence of these conversions: the values and the position \<open>%n\<close> stores.\<close>

fun scan_colors :: "nat \<Rightarrow> string \<Rightarrow> (uint list \<times> nat) option" where
  "scan_colors 0 s = Some ([], 0)"
| "scan_colors (Suc n) s =
     (case scan_02x s of
        None \<Rightarrow> None
      | Some (v, k) \<Rightarrow>
          (case scan_colors n (drop k s) of None \<Rightarrow> None | Some (vs, m) \<Rightarrow> Some (v # vs, k + m)))"

text \<open>\<open>None\<close> is the return value -1, after which the program exits.\<close>

definition color_set :: "string \<Rightarrow> uint list option" where
  "color_set value =
     (if length value = 6 then
        (case scan_colors 3 value of
           None \<Rightarrow> None
         | Some (vs, len) \<Rightarrow> if len \<noteq> 6 then None else Some (vs @ [255]))
      else if length value = 8 then
        (case scan_colors 4 value of
           None \<Rightarrow> None
         | Some (vs, len) \<Rightarrow> if len \<noteq> 8 then None else Some vs)
      else None)"

definition tolower :: "char \<Rightarrow> char" where
  "tolower c = (let n = of_char c :: nat in if 65 \<le> n \<and> n \<le> 90 then char_of (n + 32) else c)"

definition strcasecmp_eq :: "string \<Rightarrow> string \<Rightarrow> bool" where
  "strcasecmp_eq s t \<longleftrightarrow> map tolower s = map tolower t"

text \<open>\<open>atoi\<close>, undefined when the number is not an \<open>int\<close>.\<close>

definition dec_digit :: "char \<Rightarrow> nat option" where
  "dec_digit c = (let n = of_char c :: nat in if 48 \<le> n \<and> n \<le> 57 then Some (n - 48) else None)"

definition atoi :: "string \<Rightarrow> int exit" where
  "atoi s =
     (let t = dropWhile isspace s;
          neg = (t \<noteq> [] \<and> hd t = CHR ''-'');
          u = (if t \<noteq> [] \<and> (hd t = CHR ''-'' \<or> hd t = CHR ''+'') then tl t else t);
          ds = takeWhile (\<lambda>c. dec_digit c \<noteq> None) u;
          n = fold (\<lambda>c n. n * 10 + int (the (dec_digit c))) ds 0
      in int_value (if neg then - n else n))"

section \<open>Writers of text\<close>

text \<open>
  The module in column \<open>x\<close> and row \<open>y\<close>. Characters outside the basic set are written as the
  bytes the code has, in octal there.
\<close>

definition module_dark :: "QRcode \<Rightarrow> nat \<Rightarrow> nat \<Rightarrow> bool" where
  "module_dark qrcode x y \<longleftrightarrow> qr_data qrcode ! (y * qr_width qrcode + x) AND 0x1 \<noteq> 0"

definition newline :: char where "newline = CHR 0x0A"

definition full_block :: string where "full_block = [CHR 0xE2, CHR 0x96, CHR 0x88]"
definition lower_block :: string where "lower_block = [CHR 0xE2, CHR 0x96, CHR 0x84]"
definition upper_block :: string where "upper_block = [CHR 0xE2, CHR 0x96, CHR 0x80]"

definition writeASCII_margin :: "nat \<Rightarrow> nat \<Rightarrow> bool \<Rightarrow> string" where
  "writeASCII_margin margin realwidth invert =
     concat (replicate margin (replicate realwidth (if invert then CHR ''#'' else CHR '' '') @ [newline]))"

definition writeASCII_row :: "QRcode \<Rightarrow> nat \<Rightarrow> char \<Rightarrow> char \<Rightarrow> nat \<Rightarrow> string" where
  "writeASCII_row qrcode margin black white y =
     replicate (margin * 2) white
     @ concat (map (\<lambda>x. if module_dark qrcode x y then [black, black] else [white, white]) [0..<qr_width qrcode])
     @ replicate (margin * 2) white @ [newline]"

definition writeASCII :: "tool \<Rightarrow> QRcode \<Rightarrow> bool \<Rightarrow> (string \<times> tool) exit" where
  "writeASCII t qrcode invert =
     (let black = (if invert then CHR '' '' else CHR ''#'');
          white = (if invert then CHR ''#'' else CHR '' '');
          margin = nat (t_margin t);
          width = qr_width qrcode;
          t' = t\<lparr>t_size := 1\<rparr>
      in exit_bind (int_value ((int width + t_margin t * 2) * 2)) (\<lambda>realwidth.
         exit_bind (int_value (realwidth + 2)) (\<lambda>buffer_s.
         Inr (writeASCII_margin margin (nat realwidth) invert
              @ concat (map (writeASCII_row qrcode margin black white) [0..<width])
              @ writeASCII_margin margin (nat realwidth) invert, t'))))"

definition writeUTF8_margin :: "nat \<Rightarrow> nat \<Rightarrow> string \<Rightarrow> string \<Rightarrow> string" where
  "writeUTF8_margin margin realwidth white reset =
     concat (replicate (margin div 2) (white @ concat (replicate realwidth full_block) @ reset @ [newline]))"

definition writeUTF8_cell :: "QRcode \<Rightarrow> nat \<Rightarrow> nat \<Rightarrow> string" where
  "writeUTF8_cell qrcode y x =
     (if module_dark qrcode x y
      then if y + 1 < qr_width qrcode \<and> module_dark qrcode x (y + 1) then '' '' else lower_block
      else if y + 1 < qr_width qrcode \<and> module_dark qrcode x (y + 1) then upper_block else full_block)"

definition writeUTF8_row :: "QRcode \<Rightarrow> nat \<Rightarrow> string \<Rightarrow> string \<Rightarrow> nat \<Rightarrow> string" where
  "writeUTF8_row qrcode margin white reset y =
     white @ concat (replicate margin full_block)
     @ concat (map (writeUTF8_cell qrcode y) [0..<qr_width qrcode])
     @ concat (replicate margin full_block) @ reset @ [newline]"

definition writeUTF8 :: "tool \<Rightarrow> QRcode \<Rightarrow> bool \<Rightarrow> (string \<times> tool) exit" where
  "writeUTF8 t qrcode use_ansi =
     (let white = (if use_ansi then CHR 0x1B # ''[40;37;1m'' else '''');
          reset = (if use_ansi then CHR 0x1B # ''[0m'' else '''');
          margin = nat (t_margin t);
          width = qr_width qrcode
      in exit_bind (int_value (int width + t_margin t * 2)) (\<lambda>realwidth.
         Inr (writeUTF8_margin margin (nat realwidth) white reset
              @ concat (map (\<lambda>k. writeUTF8_row qrcode margin white reset (2 * k)) [0..<(width + 1) div 2])
              @ writeUTF8_margin margin (nat realwidth) white reset, t)))"

text \<open>
  The lines for ANSI terminals are built in a buffer of fixed size; \<open>buffer_set\<close> is undefined
  when a string and its terminating zero do not fit.
\<close>

definition buffer_set :: "nat \<Rightarrow> string \<Rightarrow> string exit" where
  "buffer_set buffer_s s = (if length s + 1 \<le> buffer_s then Inr s else Inl FAULT)"

definition ansi_reset :: string where "ansi_reset = CHR 0x1B # ''[0m'' @ [newline]"

definition writeANSI_margin :: "nat \<Rightarrow> nat \<Rightarrow> nat \<Rightarrow> string \<Rightarrow> string exit" where
  "writeANSI_margin margin realwidth buffer_s white =
     exit_bind (buffer_set buffer_s (white @ replicate (realwidth * 2) (CHR '' '') @ ansi_reset)) (\<lambda>buffer.
     Inr (concat (replicate margin buffer)))"

text \<open>The loop over the modules of a row, with the buffer and whether the last module was dark.\<close>

definition ansi_cell :: "nat \<Rightarrow> string \<Rightarrow> string \<Rightarrow> bool \<Rightarrow> string \<times> bool \<Rightarrow> (string \<times> bool) exit" where
  "ansi_cell buffer_s white black d = (\<lambda>(buffer, last).
     exit_bind (if d then (if \<not> last then buffer_set buffer_s (buffer @ black) else Inr buffer)
                else (if last then buffer_set buffer_s (buffer @ white) else Inr buffer)) (\<lambda>buffer.
     exit_bind (buffer_set buffer_s (buffer @ ''  '')) (\<lambda>buffer.
     Inr (buffer, d))))"

fun ansi_cells :: "nat \<Rightarrow> string \<Rightarrow> string \<Rightarrow> bool list \<Rightarrow> string \<times> bool \<Rightarrow> (string \<times> bool) exit" where
  "ansi_cells buffer_s white black [] st = Inr st"
| "ansi_cells buffer_s white black (d # ds) st =
     exit_bind (ansi_cell buffer_s white black d st) (ansi_cells buffer_s white black ds)"

definition writeANSI_row :: "QRcode \<Rightarrow> nat \<Rightarrow> nat \<Rightarrow> string \<Rightarrow> string \<Rightarrow> nat \<Rightarrow> string exit" where
  "writeANSI_row qrcode margin buffer_s white black y =
     exit_bind (buffer_set buffer_s (white @ concat (replicate margin ''  ''))) (\<lambda>buffer.
     exit_bind (ansi_cells buffer_s white black (map (\<lambda>x. module_dark qrcode x y) [0..<qr_width qrcode]) (buffer, False))
       (\<lambda>(buffer, last).
     exit_bind (if last then buffer_set buffer_s (buffer @ white) else Inr buffer) (\<lambda>buffer.
     buffer_set buffer_s (buffer @ concat (replicate margin ''  '') @ ansi_reset))))"

definition writeANSI :: "tool \<Rightarrow> QRcode \<Rightarrow> (string \<times> tool) exit" where
  "writeANSI t qrcode =
     (let white = (if t_image_type t = ANSI256_TYPE then CHR 0x1B # ''[48;5;231m'' else CHR 0x1B # ''[47m'');
          black = (if t_image_type t = ANSI256_TYPE then CHR 0x1B # ''[48;5;16m'' else CHR 0x1B # ''[40m'');
          margin = nat (t_margin t);
          width = qr_width qrcode;
          t' = t\<lparr>t_size := 1\<rparr>
      in exit_bind (int_value ((int width + t_margin t * 2) * t_size t')) (\<lambda>realwidth.
         exit_bind (int_value (realwidth * int (length white) * 2)) (\<lambda>buffer_s.
         exit_bind (writeANSI_margin margin (nat realwidth) (nat buffer_s) white) (\<lambda>top.
         exit_bind (exit_map (writeANSI_row qrcode margin (nat buffer_s) white black) [0..<width]) (\<lambda>rows.
         Inr (top @ concat rows @ top, t'))))))"

section \<open>Writers of vector images\<close>

definition writeEPS :: "tool \<Rightarrow> QRcode \<Rightarrow> (string \<times> tool) exit" where
  "writeEPS t qrcode =
     (let width = qr_width qrcode
      in exit_bind (int_value ((int width + t_margin t * 2) * t_size t)) (\<lambda>realwidth.
         Inr (''%!PS-Adobe-2.0 EPSF-1.2'' @ [newline]
              @ ''%%BoundingBox: 0 0 '' @ fmt_d realwidth @ '' '' @ fmt_d realwidth @ [newline]
              @ ''%%Pages: 1 1'' @ [newline] @ ''%%EndComments'' @ [newline]
              @ ''/p { moveto 0 1 rlineto 1 0 rlineto 0 -1 rlineto fill } bind def ''
              @ fmt_d (t_size t) @ '' '' @ fmt_d (t_size t) @ '' scale ''
              @ concat (map (\<lambda>y. concat (map (\<lambda>x.
                   if module_dark qrcode x y
                   then fmt_d (t_margin t + int x) @ '' '' @ fmt_d (t_margin t + int width - int y - 1) @ '' p ''
                   else '''') [0..<width])) [0..<width])
              @ [newline] @ ''%%EOF'' @ [newline], t)))"

text \<open>
  Floating point numbers are only printed or handed to the PNG library: the text of a width in
  centimetres (\<open>%0.2f\<close>), the text of an opacity (\<open>%f\<close>) and the pixels per metre are parameters.
\<close>

record floats =
  fl_cm :: "int \<Rightarrow> int \<Rightarrow> string"
  fl_opacity :: "uint \<Rightarrow> string"
  fl_per_metre :: "int \<Rightarrow> nat"

definition attr :: "string \<Rightarrow> string \<Rightarrow> string" where
  "attr name value = '' '' @ name @ ''='' @ [CHR 0x22] @ value @ [CHR 0x22]"

definition tabs :: "nat \<Rightarrow> string" where
  "tabs n = replicate n (CHR 0x09)"

definition writeSVG_writeRect :: "floats \<Rightarrow> tool \<Rightarrow> int \<Rightarrow> int \<Rightarrow> int \<Rightarrow> string \<Rightarrow> string" where
  "writeSVG_writeRect fl t x y width col =
     tabs 3 @ ''<rect'' @ attr ''x'' (fmt_d x) @ attr ''y'' (fmt_d y) @ attr ''width'' (fmt_d width)
     @ attr ''height'' ''1'' @ attr ''fill'' (CHR ''#'' # col)
     @ (if t_fg_color t ! 3 \<noteq> 255 then attr ''fill-opacity'' (fl_opacity fl (t_fg_color t ! 3)) else '''')
     @ '' />'' @ [newline]"

text \<open>The rectangles of a row: \<open>x\<close> and width. Without \<open>--rle\<close> every module has its own.\<close>

definition svg_single :: "bool list \<Rightarrow> (nat \<times> nat) list" where
  "svg_single row = concat (map (\<lambda>x. if row ! x then [(x, 1)] else []) [0..<length row])"

fun svg_rle :: "nat \<Rightarrow> bool list \<Rightarrow> bool \<Rightarrow> nat \<Rightarrow> (nat \<times> nat) list" where
  "svg_rle x [] pen x0 = (if pen then [(x0, x - x0)] else [])"
| "svg_rle x (d # ds) pen x0 =
     (if \<not> pen then svg_rle (x + 1) ds d x
      else if \<not> d then (x0, x - x0) # svg_rle (x + 1) ds False x0
      else svg_rle (x + 1) ds pen x0)"

definition svg_rects :: "bool \<Rightarrow> bool list \<Rightarrow> (nat \<times> nat) list" where
  "svg_rects rle row = (if rle then svg_rle 0 row False 0 else svg_single row)"

definition fmt_color :: "uint list \<Rightarrow> string" where
  "fmt_color c = take 6 (fmt_02x (c ! 0) @ fmt_02x (c ! 1) @ fmt_02x (c ! 2))"

definition writeSVG :: "floats \<Rightarrow> tool \<Rightarrow> QRcode \<Rightarrow> (string \<times> tool) exit" where
  "writeSVG fl t qrcode =
     (let width = qr_width qrcode;
          fg = fmt_color (t_fg_color t);
          bg = fmt_color (t_bg_color t)
      in exit_bind (int_value (int width + t_margin t * 2)) (\<lambda>symwidth.
         exit_bind (int_value (symwidth * t_size t)) (\<lambda>realwidth.
         Inr (''<?xml'' @ attr ''version'' ''1.0'' @ attr ''encoding'' ''UTF-8'' @ attr ''standalone'' ''yes'' @ ''?>'' @ [newline]
              @ ''<!-- Created with qrencode '' @ QRcode_APIVersionString
              @ '' (http://fukuchi.org/works/qrencode/index.html.en) -->'' @ [newline]
              @ ''<svg'' @ attr ''width'' (fl_cm fl realwidth (t_dpi t) @ ''cm'') @ attr ''height'' (fl_cm fl realwidth (t_dpi t) @ ''cm'')
              @ attr ''viewBox'' (''0 0 '' @ fmt_d symwidth @ '' '' @ fmt_d symwidth) @ attr ''preserveAspectRatio'' ''none''
              @ attr ''version'' ''1.1'' @ attr ''xmlns'' ''http://www.w3.org/2000/svg'' @ ''>'' @ [newline]
              @ tabs 1 @ ''<g'' @ attr ''id'' ''QRcode'' @ ''>'' @ [newline]
              @ tabs 2 @ ''<rect'' @ attr ''x'' ''0'' @ attr ''y'' ''0'' @ attr ''width'' (fmt_d symwidth) @ attr ''height'' (fmt_d symwidth)
              @ attr ''fill'' (CHR ''#'' # bg)
              @ (if t_bg_color t ! 3 \<noteq> 255 then attr ''fill-opacity'' (fl_opacity fl (t_bg_color t ! 3)) else '''')
              @ '' />'' @ [newline]
              @ tabs 2 @ ''<g'' @ attr ''id'' ''Pattern'' @ ''>'' @ [newline]
              @ concat (map (\<lambda>y. concat (map (\<lambda>(x, w). writeSVG_writeRect fl t (t_margin t + int x) (t_margin t + int y) (int w) fg)
                   (svg_rects (t_rle t) (map (\<lambda>x. module_dark qrcode x y) [0..<width])))) [0..<width])
              @ tabs 2 @ ''</g>'' @ [newline] @ tabs 1 @ ''</g>'' @ [newline] @ ''</svg>'' @ [newline], t))))"

section \<open>The writer of PNG images\<close>

text \<open>What is handed to the PNG library: palette index 0 is the foreground, 1 the background.\<close>

record png_image =
  png_palette :: "byte list list"
  png_alpha :: "byte list"
  png_width :: nat
  png_height :: nat
  png_bit_depth :: nat
  png_per_metre :: nat
  png_rows :: "byte list list"

text \<open>The bits of a row: the byte \<open>q\<close> and the position \<open>bit\<close> in it. A byte outside the row is undefined.\<close>

record png_cursor =
  pc_row :: "byte list"
  pc_q :: nat
  pc_bit :: nat

definition png_put :: "byte \<Rightarrow> png_cursor \<Rightarrow> png_cursor exit" where
  "png_put p c =
     (if pc_q c \<ge> length (pc_row c) then Inl FAULT
      else let row = (pc_row c)[pc_q c := pc_row c ! pc_q c XOR push_bit (pc_bit c) (p AND 1)]
           in Inr (if pc_bit c = 0 then \<lparr>pc_row = row, pc_q = pc_q c + 1, pc_bit = 7\<rparr>
                   else \<lparr>pc_row = row, pc_q = pc_q c, pc_bit = pc_bit c - 1\<rparr>))"

fun png_puts :: "byte list \<Rightarrow> png_cursor \<Rightarrow> png_cursor exit" where
  "png_puts [] c = Inr c"
| "png_puts (p # ps) c = exit_bind (png_put p c) (png_puts ps)"

definition writePNG_row :: "QRcode \<Rightarrow> nat \<Rightarrow> nat \<Rightarrow> nat \<Rightarrow> nat \<Rightarrow> byte list exit" where
  "writePNG_row qrcode margin sz realwidth y =
     exit_bind (png_puts (concat (map (\<lambda>x. replicate sz (qr_data qrcode ! (y * qr_width qrcode + x))) [0..<qr_width qrcode]))
        \<lparr>pc_row = replicate ((realwidth + 7) div 8) 0xff, pc_q = margin * sz div 8, pc_bit = 7 - margin * sz mod 8\<rparr>)
     (\<lambda>c. Inr (pc_row c))"

definition writePNG :: "floats \<Rightarrow> tool \<Rightarrow> QRcode \<Rightarrow> (png_image \<times> tool) exit" where
  "writePNG fl t qrcode =
     (let margin = nat (t_margin t); sz = nat (t_size t); width = qr_width qrcode; fg = t_fg_color t; bg = t_bg_color t
      in exit_bind (int_value ((int width + t_margin t * 2) * t_size t)) (\<lambda>realwidth.
         exit_bind (int_value (realwidth + 7)) (\<lambda>_.
         exit_bind (exit_map (writePNG_row qrcode margin sz (nat realwidth)) [0..<width]) (\<lambda>rows.
         let blank = replicate ((nat realwidth + 7) div 8) 0xff
         in Inr (\<lparr>png_palette = [map ucast (take 3 fg), map ucast (take 3 bg)], png_alpha = [ucast (fg ! 3), ucast (bg ! 3)],
                  png_width = nat realwidth, png_height = nat realwidth, png_bit_depth = 1, png_per_metre = fl_per_metre fl (t_dpi t),
                  png_rows = replicate (margin * sz) blank @ concat (map (replicate sz) rows) @ replicate (margin * sz) blank\<rparr>, t)))))"

section \<open>Symbols and files\<close>

text \<open>What is written where; \<open>None\<close> is the standard output.\<close>

datatype content = Text string | Png png_image

type_synonym files = "(string option \<times> content) list"

definition openFile :: "(string \<Rightarrow> bool) \<Rightarrow> string option \<Rightarrow> string option exit" where
  "openFile creatable outfile =
     (case outfile of
        None \<Rightarrow> Inr None
      | Some f \<Rightarrow> if f = ''-'' then Inr None else if creatable f then Inr (Some f) else Inl EXIT_FAILURE)"

definition write_text :: "(string \<Rightarrow> bool) \<Rightarrow> string option \<Rightarrow> (string \<times> tool) exit \<Rightarrow> (files \<times> tool) exit" where
  "write_text creatable outfile r =
     exit_bind (openFile creatable outfile) (\<lambda>fp. exit_bind r (\<lambda>(text, t). Inr ([(fp, Text text)], t)))"

text \<open>\<open>writePNG\<close> opens its file itself, after it has computed its width, and dereferences the name.\<close>

definition write_png :: "(string \<Rightarrow> bool) \<Rightarrow> string option \<Rightarrow> (png_image \<times> tool) exit \<Rightarrow> (files \<times> tool) exit" where
  "write_png creatable outfile r =
     (if outfile = None then Inl FAULT
      else exit_bind r (\<lambda>(image, t). exit_bind (openFile creatable outfile) (\<lambda>fp. Inr ([(fp, Png image)], t))))"

text \<open>The text of a string entry point ends at the first zero byte.\<close>

definition encode :: "qr_caches \<Rightarrow> tool \<Rightarrow> byte list \<Rightarrow> QRcode res \<times> qr_caches" where
  "encode c t intext =
     (let string = Some (takeWhile (\<lambda>b. b \<noteq> 0) intext); len = int (length intext)
      in if t_micro t then
           if t_eightbit t then QRcode_encodeDataMQR c len (Some intext) (t_version t) (t_level t)
           else QRcode_encodeStringMQR c string (t_version t) (t_level t) (t_hint t) (t_casesensitive t)
         else
           if t_eightbit t then QRcode_encodeData c len (Some intext) (t_version t) (t_level t)
           else QRcode_encodeString c string (t_version t) (t_level t) (t_hint t) (t_casesensitive t))"

definition qrencode :: "floats \<Rightarrow> (string \<Rightarrow> bool) \<Rightarrow> tool \<Rightarrow> byte list \<Rightarrow> string option \<Rightarrow> files exit" where
  "qrencode fl creatable t intext outfile =
     (case fst (encode no_caches t intext) of
        Inl e \<Rightarrow> Inl EXIT_FAILURE
      | Inr qrcode \<Rightarrow>
          exit_bind
            (case t_image_type t of
               PNG_TYPE \<Rightarrow> write_png creatable outfile (writePNG fl t qrcode)
             | EPS_TYPE \<Rightarrow> write_text creatable outfile (writeEPS t qrcode)
             | SVG_TYPE \<Rightarrow> write_text creatable outfile (writeSVG fl t qrcode)
             | ANSI_TYPE \<Rightarrow> write_text creatable outfile (writeANSI t qrcode)
             | ANSI256_TYPE \<Rightarrow> write_text creatable outfile (writeANSI t qrcode)
             | ASCIIi_TYPE \<Rightarrow> write_text creatable outfile (writeASCII t qrcode True)
             | ASCII_TYPE \<Rightarrow> write_text creatable outfile (writeASCII t qrcode False)
             | UTF8_TYPE \<Rightarrow> write_text creatable outfile (writeUTF8 t qrcode False)
             | ANSIUTF8_TYPE \<Rightarrow> write_text creatable outfile (writeUTF8 t qrcode True))
            (\<lambda>(fs, t'). Inr fs))"

definition encodeStructured :: "qr_caches \<Rightarrow> tool \<Rightarrow> byte list \<Rightarrow> QRcode list res \<times> qr_caches" where
  "encodeStructured c t intext =
     (if t_eightbit t then QRcode_encodeDataStructured c (int (length intext)) (Some intext) (t_version t) (t_level t)
      else QRcode_encodeStringStructured c (Some (takeWhile (\<lambda>b. b \<noteq> 0) intext)) (t_version t) (t_level t) (t_hint t) (t_casesensitive t))"

definition type_suffix :: "imageType \<Rightarrow> string exit" where
  "type_suffix ty =
     (case ty of
        PNG_TYPE \<Rightarrow> Inr ''.png'' | EPS_TYPE \<Rightarrow> Inr ''.eps'' | SVG_TYPE \<Rightarrow> Inr ''.svg''
      | ANSI_TYPE \<Rightarrow> Inr ''.txt'' | ANSI256_TYPE \<Rightarrow> Inr ''.txt'' | ASCII_TYPE \<Rightarrow> Inr ''.txt''
      | UTF8_TYPE \<Rightarrow> Inr ''.txt'' | ANSIUTF8_TYPE \<Rightarrow> Inr ''.txt''
      | ASCIIi_TYPE \<Rightarrow> Inl EXIT_FAILURE)"

definition FILENAME_MAX :: nat where "FILENAME_MAX = 4096"

text \<open>The name of the image with number \<open>i\<close>; the suffix of \<open>outfile\<close> stays at the end.\<close>

definition split_suffix :: "string \<Rightarrow> string \<Rightarrow> string \<times> string" where
  "split_suffix ts outfile =
     (let n = length outfile - length ts
      in if length outfile > length ts \<and> strcasecmp_eq ts (drop n outfile) then (take n outfile, drop n outfile)
         else (outfile, []))"

definition image_name :: "string \<times> string \<Rightarrow> nat \<Rightarrow> string" where
  "image_name p i = take (FILENAME_MAX - 1) (fst p @ ''-'' @ fmt_02d i @ snd p)"

text \<open>The images written until the program ends, and how it ends.\<close>

fun write_structured :: "floats \<Rightarrow> (string \<Rightarrow> bool) \<Rightarrow> tool \<Rightarrow> string \<times> string \<Rightarrow> nat \<Rightarrow> QRcode list \<Rightarrow> status \<times> files" where
  "write_structured fl creatable t names i [] = (EXIT_SUCCESS, [])"
| "write_structured fl creatable t names i (qrcode # codes) =
     (let filename = Some (image_name names i)
      in case (case t_image_type t of
               PNG_TYPE \<Rightarrow> write_png creatable filename (writePNG fl t qrcode)
             | EPS_TYPE \<Rightarrow> write_text creatable filename (writeEPS t qrcode)
             | SVG_TYPE \<Rightarrow> write_text creatable filename (writeSVG fl t qrcode)
             | ANSI_TYPE \<Rightarrow> write_text creatable filename (writeANSI t qrcode)
             | ANSI256_TYPE \<Rightarrow> write_text creatable filename (writeANSI t qrcode)
             | ASCIIi_TYPE \<Rightarrow> write_text creatable filename (writeASCII t qrcode True)
             | ASCII_TYPE \<Rightarrow> write_text creatable filename (writeASCII t qrcode False)
             | UTF8_TYPE \<Rightarrow> write_text creatable filename (writeUTF8 t qrcode False)
             | ANSIUTF8_TYPE \<Rightarrow> write_text creatable filename (writeUTF8 t qrcode False)) of
           Inl s \<Rightarrow> (s, [])
         | Inr (fs, t') \<Rightarrow>
             (case write_structured fl creatable t' names (i + 1) codes of (s, gs) \<Rightarrow> (s, fs @ gs)))"

definition qrencodeStructured :: "floats \<Rightarrow> (string \<Rightarrow> bool) \<Rightarrow> tool \<Rightarrow> byte list \<Rightarrow> string option \<Rightarrow> status \<times> files" where
  "qrencodeStructured fl creatable t intext outfile =
     (case type_suffix (t_image_type t) of
        Inl s \<Rightarrow> (s, [])
      | Inr ts \<Rightarrow>
          (case outfile of
             None \<Rightarrow> (EXIT_FAILURE, [])
           | Some f \<Rightarrow>
               (case fst (encodeStructured no_caches t intext) of
                  Inl e \<Rightarrow> (EXIT_FAILURE, [])
                | Inr codes \<Rightarrow> write_structured fl creatable t (split_suffix ts f) 1 codes)))"

section \<open>The main program\<close>

text \<open>
  What \<open>getopt_long\<close> returns, call after call: an option with its index among the long options
  and its argument, or a flag that it has stored itself.
\<close>

datatype getopt_event = Opt char int string | Flag_rle | Flag_verbose

definition MAX_DATA_SIZE :: nat where "MAX_DATA_SIZE = 7090 * 16"

text \<open>\<open>feof\<close> is true only when reading stopped before the buffer was full.\<close>

definition readStdin :: "byte list \<Rightarrow> byte list exit" where
  "readStdin stdin =
     (let buffer = take MAX_DATA_SIZE stdin
      in if buffer = [] then Inl EXIT_FAILURE
         else if length buffer = MAX_DATA_SIZE then Inl EXIT_FAILURE else Inr buffer)"

definition level_option :: "string \<Rightarrow> QRecLevel option" where
  "level_option s =
     (case s of
        [] \<Rightarrow> None
      | c # _ \<Rightarrow>
          if c = CHR ''l'' \<or> c = CHR ''L'' then Some QR_ECLEVEL_L else if c = CHR ''m'' \<or> c = CHR ''M'' then Some QR_ECLEVEL_M
          else if c = CHR ''q'' \<or> c = CHR ''Q'' then Some QR_ECLEVEL_Q else if c = CHR ''h'' \<or> c = CHR ''H'' then Some QR_ECLEVEL_H
          else None)"

definition type_option :: "string \<Rightarrow> imageType option" where
  "type_option s =
     (if strcasecmp_eq s ''png'' then Some PNG_TYPE else if strcasecmp_eq s ''eps'' then Some EPS_TYPE
      else if strcasecmp_eq s ''svg'' then Some SVG_TYPE else if strcasecmp_eq s ''ansi'' then Some ANSI_TYPE
      else if strcasecmp_eq s ''ansi256'' then Some ANSI256_TYPE else if strcasecmp_eq s ''asciii'' then Some ASCIIi_TYPE
      else if strcasecmp_eq s ''ascii'' then Some ASCII_TYPE else if strcasecmp_eq s ''utf8'' then Some UTF8_TYPE
      else if strcasecmp_eq s ''ansiutf8'' then Some ANSIUTF8_TYPE else None)"

definition or_fail :: "'a option \<Rightarrow> 'a exit" where
  "or_fail r = (case r of None \<Rightarrow> Inl EXIT_FAILURE | Some x \<Rightarrow> Inr x)"

text \<open>One round of the loop over the options, on the variables and the name of the output file.\<close>

definition option_step :: "getopt_event \<Rightarrow> tool \<times> string option \<Rightarrow> (tool \<times> string option) exit" where
  "option_step ev = (\<lambda>(t, outfile).
     case ev of
       Flag_rle \<Rightarrow> Inr (t\<lparr>t_rle := True\<rparr>, outfile)
     | Flag_verbose \<Rightarrow> Inr (t\<lparr>t_verbose := True\<rparr>, outfile)
     | Opt opt lindex optarg \<Rightarrow>
         if opt = CHR ''h'' then Inl EXIT_SUCCESS
         else if opt = CHR ''o'' then Inr (t, Some optarg)
         else if opt = CHR ''s'' then
           exit_bind (atoi optarg) (\<lambda>n. if n \<le> 0 then Inl EXIT_FAILURE else Inr (t\<lparr>t_size := n\<rparr>, outfile))
         else if opt = CHR ''v'' then
           exit_bind (atoi optarg) (\<lambda>n. if n < 0 then Inl EXIT_FAILURE else Inr (t\<lparr>t_version := n\<rparr>, outfile))
         else if opt = CHR ''l'' then
           exit_bind (or_fail (level_option optarg)) (\<lambda>l. Inr (t\<lparr>t_level := l\<rparr>, outfile))
         else if opt = CHR ''m'' then
           exit_bind (atoi optarg) (\<lambda>n. if n < 0 then Inl EXIT_FAILURE else Inr (t\<lparr>t_margin := n\<rparr>, outfile))
         else if opt = CHR ''d'' then
           exit_bind (atoi optarg) (\<lambda>n. if n < 0 then Inl EXIT_FAILURE else Inr (t\<lparr>t_dpi := n\<rparr>, outfile))
         else if opt = CHR ''t'' then
           exit_bind (or_fail (type_option optarg)) (\<lambda>ty. Inr (t\<lparr>t_image_type := ty\<rparr>, outfile))
         else if opt = CHR ''S'' then Inr (t\<lparr>t_structured := True\<rparr>, outfile)
         else if opt = CHR ''k'' then Inr (t\<lparr>t_hint := QR_MODE_KANJI\<rparr>, outfile)
         else if opt = CHR ''c'' then Inr (t\<lparr>t_casesensitive := True\<rparr>, outfile)
         else if opt = CHR ''i'' then Inr (t\<lparr>t_casesensitive := False\<rparr>, outfile)
         else if opt = CHR ''8'' then Inr (t\<lparr>t_eightbit := True\<rparr>, outfile)
         else if opt = CHR ''M'' then Inr (t\<lparr>t_micro := True\<rparr>, outfile)
         else if opt = CHR ''f'' then exit_bind (or_fail (color_set optarg)) (\<lambda>c. Inr (t\<lparr>t_fg_color := c\<rparr>, outfile))
         else if opt = CHR ''b'' then exit_bind (or_fail (color_set optarg)) (\<lambda>c. Inr (t\<lparr>t_bg_color := c\<rparr>, outfile))
         else if opt = CHR ''V'' then Inl EXIT_SUCCESS
         else Inl EXIT_FAILURE)"

fun option_loop :: "getopt_event list \<Rightarrow> tool \<times> string option \<Rightarrow> (tool \<times> string option) exit" where
  "option_loop [] st = Inr st"
| "option_loop (ev # evs) st = exit_bind (option_step ev st) (option_loop evs)"

text \<open>The tests after the options, and the default of the margin.\<close>

definition check_options :: "tool \<Rightarrow> tool exit" where
  "check_options t =
     (if t_micro t \<and> t_version t > int MQRSPEC_VERSION_MAX then Inl EXIT_FAILURE
      else if \<not> t_micro t \<and> t_version t > int QRSPEC_VERSION_MAX then Inl EXIT_FAILURE
      else let t' = (if t_margin t < 0 then t\<lparr>t_margin := if t_micro t then 2 else 4\<rparr> else t)
           in if t_micro t' \<and> t_version t' = 0 then Inl EXIT_FAILURE
              else if t_micro t' \<and> t_structured t' then Inl EXIT_FAILURE
              else if t_structured t' \<and> t_version t' = 0 then Inl EXIT_FAILURE
              else Inr t')"

text \<open>
  What the program is given: the number of arguments, the results of \<open>getopt_long\<close>, the first
  operand, the standard input, and which files can be created.
\<close>

record invocation =
  iv_argc :: nat
  iv_events :: "getopt_event list"
  iv_operand :: "byte list option"
  iv_stdin :: "byte list"
  iv_creatable :: "string \<Rightarrow> bool"

definition main :: "floats \<Rightarrow> invocation \<Rightarrow> status \<times> files" where
  "main fl iv =
     (case option_loop (iv_events iv) (tool_init, None) of
        Inl s \<Rightarrow> (s, [])
      | Inr (t, outfile) \<Rightarrow>
          if iv_argc iv = 1 then (EXIT_SUCCESS, [])
          else if outfile = None \<and> t_image_type t = PNG_TYPE then (EXIT_FAILURE, [])
          else case (case iv_operand iv of Some s \<Rightarrow> Inr s | None \<Rightarrow> readStdin (iv_stdin iv)) of
            Inl s \<Rightarrow> (s, [])
          | Inr intext \<Rightarrow>
              (case check_options t of
                 Inl s \<Rightarrow> (s, [])
               | Inr t' \<Rightarrow>
                   if t_structured t' then qrencodeStructured fl (iv_creatable iv) t' intext outfile
                   else (case qrencode fl (iv_creatable iv) t' intext outfile of
                           Inl s \<Rightarrow> (s, []) | Inr fs \<Rightarrow> (EXIT_SUCCESS, fs))))"

end
