(* ===== verification/QR_Strings.thy ===== *)
theory QR_Strings
  imports QR_Split QR_Stream
begin

text \<open>
  What the splitter of \<open>split.c\<close> does to a string: it appends entries that spell the string.
\<close>

section \<open>Character classes\<close>

lemma is_digit_iff: "is_digit c \<longleftrightarrow> digit_ok c"
  using unat_byte_less [of c]
  by (auto simp: is_digit_def digit_ok_def word_less_nat_alt unat_sub_if')

lemma is_alnum_iff: "is_alnum c \<longleftrightarrow> an_ok c"
  by (simp add: is_alnum_def an_ok_def)

lemma digit_alnum:
  assumes "digit_ok c" shows "an_ok c"
proof -
  have "list_all (\<lambda>x. 0 \<le> x) (take 10 (drop 48 QRinput_anTable))" by code_simp
  moreover have "length QRinput_anTable = 128" by (simp add: QRinput_anTable_def)
  ultimately have t: "0 \<le> QRinput_anTable ! (48 + k)" if "k < 10" for k using that by (simp add: list_all_length)
  have "unat c div 128 = 0" using assms by (simp add: digit_ok_def)
  then have "c AND 0x80 = 0" using and_single_bit_eq_0 [of c 7] by (simp add: bit_word_unat)
  moreover have "unat c - 48 < 10" "48 \<le> unat c" using assms by (auto simp: digit_ok_def)
  ultimately show ?thesis using t [of "unat c - 48"] by (simp add: an_ok_def QRinput_lookAnTable_def digit_ok_def)
qed

lemma identify_num: "Split_identifyMode s hint = QR_MODE_NUM \<Longrightarrow> s \<noteq> [] \<and> digit_ok (chr s)"
  by (auto simp: Split_identifyMode_def Let_def chr_def is_digit_iff split: if_splits list.splits)

lemma identify_an: "Split_identifyMode s hint = QR_MODE_AN \<Longrightarrow> s \<noteq> [] \<and> an_ok (chr s) \<and> \<not> digit_ok (chr s)"
  by (auto simp: Split_identifyMode_def Let_def chr_def is_digit_iff is_alnum_iff split: if_splits list.splits)

lemma identify_kanji:
  assumes "Split_identifyMode s hint = QR_MODE_KANJI"
  shows "hint = QR_MODE_KANJI \<and> 2 \<le> length s \<and> kanji_char_ok (kanji_at s 0)"
proof -
  have l: "2 \<le> length s" by (rule identify_kanji_length [OF assms])
  obtain c d t where s: "s = c # d # t" using l by (cases s; cases "tl s") auto
  have "hint = QR_MODE_KANJI" "(kanji_at s 0 \<ge> 0x8140 \<and> kanji_at s 0 \<le> 0x9ffc) \<or> (kanji_at s 0 \<ge> 0xe040 \<and> kanji_at s 0 \<le> 0xebbf)"
    using assms by (auto simp: Split_identifyMode_def Let_def chr_def s kanji_at_def split: if_splits)
  then show ?thesis using l by (auto simp: kanji_char_ok_def word_le_nat_alt word_less_nat_alt)
qed

lemma digit_run_facts: "digit_run s \<le> length s" "\<forall>c \<in> set (take (digit_run s) s). digit_ok c"
proof -
  show "digit_run s \<le> length s" by (simp add: digit_run_def length_takeWhile_le)
  have "take (digit_run s) s = takeWhile is_digit s" by (simp add: digit_run_def takeWhile_eq_take [symmetric])
  then show "\<forall>c \<in> set (take (digit_run s) s). digit_ok c" by (auto simp flip: is_digit_iff dest: set_takeWhileD)
qed

lemma digit_run_0: "digit_ok (chr s) \<Longrightarrow> 0 < digit_run s"
  by (rule digit_run_pos) (simp add: is_digit_iff)

lemma alnum_run_le: "alnum_run s \<le> length s"
  by (simp add: alnum_run_def length_takeWhile_le)

section \<open>The loops\<close>

lemma chr_nz: "chr s \<noteq> 0 \<Longrightarrow> s \<noteq> []"
  by (auto simp: chr_def)

text \<open>One round of a loop: it stops, or goes on behind some characters of the string.\<close>

lemma eat8_round:
  "eat8_loop v h n s = n \<or> (\<exists>k. 0 < k \<and> k \<le> length s \<and> eat8_loop v h n s = eat8_loop v h (n + k) (drop k s))"
proof -
  have d: "0 < digit_run s" if "Split_identifyMode s h = QR_MODE_NUM" using identify_num [OF that] digit_run_0 by blast
  have a: "0 < alnum_run s" if "Split_identifyMode s h = QR_MODE_AN"
    using identify_an [OF that] alnum_run_pos [of s] by (simp add: is_alnum_iff)
  have o: "0 < (1::nat) \<and> 1 \<le> length s" if "chr s \<noteq> 0" using chr_nz [OF that] by (simp add: Suc_le_eq)
  show ?thesis
    using d a o digit_run_facts(1) [of s] alnum_run_le [of s] eat8_loop.simps [of v h n s]
    unfolding Let_def by (simp only: split: if_splits) blast+
qed

lemma eat8_bounds: "n \<le> eat8_loop v h n s \<and> eat8_loop v h n s \<le> n + length s"
proof (induction "length s" arbitrary: n s rule: less_induct)
  case less
  consider "eat8_loop v h n s = n"
    | k where "0 < k" "k \<le> length s" "eat8_loop v h n s = eat8_loop v h (n + k) (drop k s)" using eat8_round by blast
  then show ?case
  proof cases
    case (2 k)
    then have "length (drop k s) < length s" by simp
    from less [OF this, of "n + k"] 2 show ?thesis by simp
  qed simp
qed

lemma eatAn_round:
  obtains (stop) "eatAn_loop v n s = n" "s = [] \<or> \<not> an_ok (chr s) \<or> digit_ok (chr s) \<and>
      int (QRinput_estimateBitsModeAn n) + int (QRinput_estimateBitsModeNum (digit_run s)) + 4 + int (QRspec_lengthIndicator QR_MODE_NUM v)
        + (if an_ok (chr (drop (digit_run s) s)) then 4 + int (QRspec_lengthIndicator QR_MODE_NUM v) else 0)
        < int (QRinput_estimateBitsModeAn (n + digit_run s))"
  | (more) k where "0 < k" "k \<le> length s" "\<forall>c \<in> set (take k s). an_ok c" "eatAn_loop v n s = eatAn_loop v (n + k) (drop k s)"
proof -
  have o: "\<forall>c \<in> set (take 1 s). an_ok c" "1 \<le> length s" if "s \<noteq> []" "an_ok (chr s)"
    using that by (cases s; auto simp: chr_def)+
  have d: "0 < digit_run s" "\<forall>c \<in> set (take (digit_run s) s). an_ok c" if "digit_ok (chr s)"
    using digit_run_0 [OF that] digit_run_facts(2) [of s] digit_alnum by auto
  note e = eatAn_loop.simps [of v n s, unfolded Let_def is_digit_iff is_alnum_iff]
  show thesis
  proof (cases "s \<noteq> [] \<and> an_ok (chr s)")
    case False
    then show ?thesis using e by (intro that(1)) auto
  next
    case an: True
    show ?thesis
    proof (cases "digit_ok (chr s)")
      case False
      have "eatAn_loop v n s = eatAn_loop v (n + 1) (drop 1 s)" using e an False by simp
      then show ?thesis using o an by (intro that(2) [of 1]) auto
    next
      case True
      show ?thesis
      proof (cases "eatAn_loop v n s = eatAn_loop v (n + digit_run s) (drop (digit_run s) s)")
        case t: True
        show ?thesis by (rule that(2) [OF d(1) [OF True] digit_run_facts(1) d(2) [OF True] t])
      next
        case False
        then show ?thesis using e an True by (intro that(1)) (auto split: if_split_asm)
      qed
    qed
  qed
qed

lemma eatAn_bounds:
  "n \<le> eatAn_loop v n s \<and> eatAn_loop v n s \<le> n + length s
     \<and> (\<forall>c \<in> set (take (eatAn_loop v n s - n) s). an_ok c)"
proof (induction "length s" arbitrary: n s rule: less_induct)
  case less
  show ?case
  proof (cases v n s rule: eatAn_round)
    case (more k)
    let ?r = "eatAn_loop v (n + k) (drop k s)"
    have IH: "n + k \<le> ?r \<and> ?r \<le> n + k + length (drop k s) \<and> (\<forall>c \<in> set (take (?r - (n + k)) (drop k s)). an_ok c)"
      using more by (intro less) simp
    then have "?r - n = k + (?r - (n + k))" by simp
    then have "set (take (?r - n) s) = set (take k s) \<union> set (take (?r - (n + k)) (drop k s))"
      by (simp only: take_add set_append)
    then show ?thesis using more IH by auto
  qed simp
qed

lemma eatKanji_bounds:
  "n \<le> eatKanji_loop h n s \<and> eatKanji_loop h n s \<le> n + length s \<and> even (eatKanji_loop h n s - n)
     \<and> (\<forall>k < (eatKanji_loop h n s - n) div 2. kanji_char_ok (kanji_at s (2 * k)))"
proof (induction h n s rule: eatKanji_loop.induct)
  case (1 h n s)
  show ?case
  proof (cases "Split_identifyMode s h = QR_MODE_KANJI")
    case True
    let ?r = "eatKanji_loop h (n + 2) (drop 2 s)"
    note IH = 1 [OF True] and k = identify_kanji [OF True]
    have e: "eatKanji_loop h n s = ?r" using True by (subst eatKanji_loop.simps) simp
    have sh: "kanji_at (drop 2 s) i = kanji_at s (i + 2)" for i using k by (simp add: kanji_at_def add.commute)
    have "kanji_char_ok (kanji_at s (2 * j))" if j: "j < (?r - n) div 2" for j
    proof (cases j)
      case (Suc i)
      have "(?r - n) div 2 = Suc ((?r - (n + 2)) div 2)" using IH by auto
      then have "kanji_char_ok (kanji_at (drop 2 s) (2 * i))" using IH j Suc by auto
      then show ?thesis by (simp add: sh Suc)
    qed (use k in simp)
    moreover have "?r - n = (?r - (n + 2)) + 2" using IH by linarith
    then have "even (?r - n)" using IH by (metis even_add even_numeral)
    ultimately show ?thesis unfolding e using IH k by auto
  qed (simp add: eatKanji_loop.simps)
qed

section \<open>Chunks\<close>

definition entry_of :: "QRencodeMode \<Rightarrow> byte list \<Rightarrow> QRinput_List" where
  "entry_of mode data = \<lparr>le_mode = mode, le_size = length data, le_data = data, le_bstream = None\<rparr>"

definition tail_ok :: "QRinput \<Rightarrow> bool" where
  "tail_ok i \<longleftrightarrow> inp_tail i = TailLast \<or> inp_tail i = TailNull \<and> inp_entries i = []"

definition added :: "QRinput_List list \<Rightarrow> QRinput \<Rightarrow> QRinput" where
  "added es i = i\<lparr>inp_entries := inp_entries i @ es, inp_tail := (if es = [] then inp_tail i else TailLast)\<rparr>"

lemma added_simps [simp]:
  "inp_entries (added es i) = inp_entries i @ es" "inp_version (added es i) = inp_version i" "inp_level (added es i) = inp_level i"
  "inp_mqr (added es i) = inp_mqr i" "inp_fnc1 (added es i) = inp_fnc1 i" "tail_ok i \<Longrightarrow> tail_ok (added es i)"
  "added fs (added es i) = added (es @ fs) i" "added [] i = i"
  by (auto simp: added_def tail_ok_def)

lemma entry_of_simps [simp]: "le_mode (entry_of m d) = m" "le_data (entry_of m d) = d" "entry_ok (entry_of m d) \<longleftrightarrow> d \<noteq> [] \<and> data_ok m d"
  by (simp_all add: entry_of_def entry_ok_def)

lemma append_ok:
  assumes "tail_ok i" "0 < n" "n \<le> length s" "data_ok mode (take n s)"
  shows "QRinput_append i mode (int n) s = Inr (added [entry_of mode (take n s)] i)"
proof -
  have "take n s \<noteq> []" using assms(2,3) by auto
  from newEntry_ok [OF this assms(4,3)] show ?thesis using assms(1,3)
    by (auto simp: QRinput_append_def QRinput_appendEntry_def added_def tail_ok_def entry_of_def)
qed

text \<open>What eating a chunk of \<open>s\<close> does: one entry more, with the characters of the chunk.\<close>

definition ate :: "byte list \<Rightarrow> QRencodeMode \<Rightarrow> QRinput \<Rightarrow> (nat \<times> QRinput) res \<Rightarrow> bool" where
  "ate s hint i r \<longleftrightarrow> (\<exists>n mode. r = Inr (n, added [entry_of mode (take n s)] i) \<and> 0 < n \<and> n \<le> length s \<and> data_ok mode (take n s)
     \<and> mode \<in> {QR_MODE_NUM, QR_MODE_AN, QR_MODE_8} \<union> (if hint = QR_MODE_KANJI then {QR_MODE_KANJI} else {}))"

lemma ate_append:
  assumes "tail_ok i" "0 < n" "n \<le> length s" "data_ok mode (take n s)"
    and "mode \<in> {QR_MODE_NUM, QR_MODE_AN, QR_MODE_8} \<union> (if hint = QR_MODE_KANJI then {QR_MODE_KANJI} else {})"
  shows "ate s hint i (res_bind (QRinput_append i mode (int n) s) (\<lambda>i'. Inr (n, i')))"
  using assms append_ok [OF assms(1-4)] by (auto simp: ate_def)

lemma eat8_ate:
  assumes "tail_ok i" "s \<noteq> []"
  shows "ate s hint i (Split_eat8 s i hint)"
proof -
  have "0 < length s" using assms(2) by simp
  then have "1 \<le> eat8_loop (inp_version i) hint 1 (drop 1 s)" "eat8_loop (inp_version i) hint 1 (drop 1 s) \<le> length s"
    using eat8_bounds [of 1 "inp_version i" hint "drop 1 s"] by simp_all
  then show ?thesis using assms unfolding Split_eat8_def Let_def
    by (intro ate_append) (auto simp: data_ok_def)
qed

lemma eatAn_ate:
  assumes "tail_ok i" "s \<noteq> []" "0 < eatAn_loop (inp_version i) 0 s"
  shows "ate s hint i (Split_eatAn s i hint)"
  using assms eatAn_bounds [of 0 "inp_version i" s] eat8_ate [OF assms(1,2)] unfolding Split_eatAn_def Let_def
  by (auto intro!: ate_append simp: data_ok_def)

lemma eatAn_progress:
  assumes "an_ok (chr s)" "\<not> digit_ok (chr s)" "s \<noteq> []"
  shows "0 < eatAn_loop v 0 s"
proof (cases v "0 :: nat" s rule: eatAn_round)
  case (more k)
  then show ?thesis using eatAn_bounds [of k v "drop k s"] by simp
qed (use assms in auto)

lemma estimateAn: "QRinput_estimateBitsModeAn (Suc n) = QRinput_estimateBitsModeAn n + (if even n then 6 else 5)"
  by (auto simp: QRinput_estimateBitsModeAn_def Let_def and_one_eq elim!: oddE)

lemma eatNum_progress:
  assumes "s \<noteq> []" "digit_ok (chr s)" "Split_identifyMode (drop (digit_run s) s) hint = QR_MODE_AN"
    and "int (QRinput_estimateBitsModeNum (digit_run s)) + 4 + int (QRspec_lengthIndicator QR_MODE_NUM v)
      + int (QRinput_estimateBitsModeAn 1) - int (QRinput_estimateBitsModeAn (digit_run s + 1)) > 0"
  shows "0 < eatAn_loop v 0 s"
proof (cases v "0 :: nat" s rule: eatAn_round)
  case stop
  have "an_ok (chr (drop (digit_run s) s))" using identify_an [OF assms(3)] by simp
  then show ?thesis using stop assms digit_alnum [OF assms(2)] by (simp add: estimateAn split: if_splits)
next
  case (more k)
  then show ?thesis using eatAn_bounds [of k v "drop k s"] by simp
qed

lemma eatNum_ate:
  assumes "tail_ok i" "s \<noteq> []" "digit_ok (chr s)"
  shows "ate s hint i (Split_eatNum s i hint)"
proof -
  have "data_ok QR_MODE_NUM (take (digit_run s) s)" using digit_run_facts(2) by (simp add: data_ok_def)
  then have n: "ate s hint i (res_bind (QRinput_append i QR_MODE_NUM (int (digit_run s)) s) (\<lambda>i'. Inr (digit_run s, i')))"
    using digit_run_0 [OF assms(3)] digit_run_facts(1) assms(1) by (intro ate_append) auto
  show ?thesis
    using n eat8_ate [OF assms(1,2)] eatAn_ate [OF assms(1,2) eatNum_progress [OF assms(2,3)]]
    unfolding Split_eatNum_def Let_def by auto
qed

lemma eatKanji_ate:
  assumes "tail_ok i" "Split_identifyMode s hint = QR_MODE_KANJI"
  shows "ate s hint i (Split_eatKanji s i hint)"
proof -
  let ?r = "eatKanji_loop hint 0 s"
  note b = eatKanji_bounds [of 0 hint s] and k = identify_kanji [OF assms(2)]
  have "?r = eatKanji_loop hint 2 (drop 2 s)" using assms(2) by (subst eatKanji_loop.simps) (simp add: numeral_2_eq_2)
  then have "0 < ?r" using eatKanji_bounds [of 2 hint "drop 2 s"] by simp
  moreover have "kanji_at (take ?r s) (2 * j) = kanji_at s (2 * j)" if "j < ?r div 2" for j
    using that by (simp add: kanji_at_def)
  ultimately show ?thesis using b k assms(1) unfolding Split_eatKanji_def Let_def
    by (intro ate_append) (auto simp: data_ok_def min_def)
qed

lemma eat_chunk_ate:
  assumes "tail_ok i" "chr s \<noteq> 0"
  shows "ate s hint i (eat_chunk s i hint)"
  using assms chr_nz [OF assms(2)] identify_num [of s hint] identify_an [of s hint]
  by (auto simp: eat_chunk_def Let_def intro!: eatNum_ate eatAn_ate eat8_ate eatKanji_ate eatAn_progress)

section \<open>Splitting keeps the string\<close>

lemma splitString_ok:
  assumes "tail_ok i" "0 \<notin> set s"
  obtains es where "Split_splitString s i hint = Inr (added es i)" "concat (map le_data es) = s" "list_all entry_ok es"
    "\<forall>e \<in> set es. le_mode e \<in> {QR_MODE_NUM, QR_MODE_AN, QR_MODE_8} \<union> (if hint = QR_MODE_KANJI then {QR_MODE_KANJI} else {})"
  using assms
proof (induction "length s" arbitrary: s i thesis rule: less_induct)
  case less
  show ?case
  proof (cases "chr s = 0")
    case True
    then have "s = []" using less.prems(3) by (cases s) (auto simp: chr_def)
    then show ?thesis using True by (intro less.prems(1) [of "[]"]) (simp_all add: Split_splitString.simps)
  next
    case False
    from eat_chunk_ate [OF less.prems(2) False, of hint] obtain n mode where n: "eat_chunk s i hint = Inr (n, added [entry_of mode (take n s)] i)"
      "0 < n" "n \<le> length s" "data_ok mode (take n s)"
      "mode \<in> {QR_MODE_NUM, QR_MODE_AN, QR_MODE_8} \<union> (if hint = QR_MODE_KANJI then {QR_MODE_KANJI} else {})"
      unfolding ate_def by blast
    have d: "length (drop n s) < length s" "0 \<notin> set (drop n s)" using n less.prems(3) by (auto dest: in_set_dropD)
    from less.hyps [OF d(1) _ _ d(2), of "added [entry_of mode (take n s)] i"] less.prems(2)
    obtain es where es: "Split_splitString (drop n s) (added [entry_of mode (take n s)] i) hint = Inr (added es (added [entry_of mode (take n s)] i))"
      "concat (map le_data es) = drop n s" "list_all entry_ok es"
      "\<forall>e \<in> set es. le_mode e \<in> {QR_MODE_NUM, QR_MODE_AN, QR_MODE_8} \<union> (if hint = QR_MODE_KANJI then {QR_MODE_KANJI} else {})"
      by (metis added_simps(6))
    have "Split_splitString s i hint = Inr (added (entry_of mode (take n s) # es) i)"
      using False n es(1) by (subst Split_splitString.simps) simp
    moreover have "take n s \<noteq> []" using n by auto
    ultimately show ?thesis using n es by (intro less.prems(1) [of "entry_of mode (take n s) # es"]) auto
  qed
qed

text \<open>
  Splitting a string loses nothing and cannot fail: for every string that a C string can be
  and every hint, \<open>Split_splitString\<close> appends entries that validate, whose data joined together
  is the string, and it uses kanji mode only when the hint allows it. The shortcuts from one
  mode to another always eat at least one character, so the silent end of the recursion at a
  chunk of length 0 is never taken.
\<close>

lemma splitString_preserves:
  assumes "tail_ok input" "0 \<notin> set s"
  shows "\<exists>es. Split_splitString s input hint = Inr (added es input) \<and> concat (map le_data es) = s \<and> list_all entry_ok es
     \<and> (\<forall>e \<in> set es. le_mode e \<in> {QR_MODE_NUM, QR_MODE_AN, QR_MODE_8} \<union> (if hint = QR_MODE_KANJI then {QR_MODE_KANJI} else {}))"
  by (rule splitString_ok [OF assms, of hint]) blast

end
