(* ===== verification/QR_Parts.thy ===== *)
theory QR_Parts
  imports QR_Struct QR_Strings
begin

text \<open>
  Splitting an input for structured append: the loop ends, loses no byte, and every part fits
  the version of the input together with its header.
\<close>

section \<open>Sizes\<close>

lemma indicator_cases:
  assumes "QRinput_isSplittableMode mode"
  obtains "mode = QR_MODE_NUM" | "mode = QR_MODE_AN" | "mode = QR_MODE_8" | "mode = QR_MODE_KANJI"
  using assms by (cases mode) (auto simp: QRinput_isSplittableMode_def)

lemma splittable_simps [simp]:
  "QRinput_isSplittableMode QR_MODE_NUM" "QRinput_isSplittableMode QR_MODE_AN" "QRinput_isSplittableMode QR_MODE_8"
  "QRinput_isSplittableMode QR_MODE_KANJI"
  by (simp_all add: QRinput_isSplittableMode_def)

definition payload_len :: "QRencodeMode \<Rightarrow> nat \<Rightarrow> nat" where
  "payload_len mode n = (case mode of
       QR_MODE_NUM \<Rightarrow> QRinput_estimateBitsModeNum n
     | QR_MODE_AN \<Rightarrow> QRinput_estimateBitsModeAn n
     | QR_MODE_8 \<Rightarrow> QRinput_estimateBitsMode8 n
     | _ \<Rightarrow> QRinput_estimateBitsModeKanji n)"

lemma estimateNum_div: "QRinput_estimateBitsModeNum n = (10 * n + 2) div 3"
proof -
  have "n mod 3 = 0 \<or> n mod 3 = 1 \<or> n mod 3 = 2" by linarith
  then show ?thesis by (auto simp: QRinput_estimateBitsModeNum_def Let_def minus_div_mult_eq_mod [symmetric])
qed

lemma estimateAn_div: "QRinput_estimateBitsModeAn n = (11 * n + 1) div 2"
  by (simp add: QRinput_estimateBitsModeAn_def and_one_eq Let_def) presburger

lemma payload_len_mono: "m \<le> n \<Longrightarrow> payload_len mode m \<le> payload_len mode n"
  by (cases mode) (auto simp: payload_len_def estimateNum_div estimateAn_div QRinput_estimateBitsMode8_def QRinput_estimateBitsModeKanji_def
      intro: div_le_mono)

lemma length_payload: "QRinput_isSplittableMode mode \<Longrightarrow> length (payload mode data) = payload_len mode (length data)"
  by (cases rule: indicator_cases) (auto simp: payload_def payload_len_def length_num_payload length_an_payload length_kanji_payload
      QRinput_estimateBitsMode8_def)

lemma length_seg:
  "QRinput_isSplittableMode mode \<Longrightarrow> length (seg_bits v mode data) = 4 + QRspec_lengthIndicator mode v + payload_len mode (length data)"
  by (cases rule: indicator_cases) (auto simp: seg_bits_def length_payload)

lemma class_cases: obtains "length_class v = 0" "v \<le> 9" | "length_class v = 1" "10 \<le> v" "v \<le> 26" | "length_class v = 2" "27 \<le> v"
  by (cases "v \<le> 9"; cases "v \<le> 26") (auto simp: length_class_def)

text \<open>Data that fits the symbol fits one segment.\<close>

lemma capacity_class:
  assumes "level \<le> QR_ECLEVEL_H" "1 \<le> v" "v \<le> 40"
  shows "QRspec_getDataLength v level \<le> [232, 1370, 2956] ! length_class v" "9 \<le> QRspec_getDataLength v level"
proof -
  have l: "level = 0 \<or> level = 1 \<or> level = 2 \<or> level = 3" using assms(1) by auto
  have c: "QRspec_getDataLength 9 level \<le> 232" "QRspec_getDataLength 26 level \<le> 1370" "QRspec_getDataLength 40 level \<le> 2956"
    "9 \<le> QRspec_getDataLength 1 level"
    using l by (elim disjE; simp add: QRspec_getDataLength_def qrspecCapacity_def)+
  show "9 \<le> QRspec_getDataLength v level" using dataLength_mono [of 1 v level] assms c(4) by simp
  show "QRspec_getDataLength v level \<le> [232, 1370, 2956] ! length_class v"
    using dataLength_mono [of v 9 level] dataLength_mono [of v 26 level] dataLength_mono [of v 40 level] assms c
    by (cases rule: class_cases [of v]) auto
qed

lemma one_segment_fits:
  assumes "QRinput_isSplittableMode mode" "level \<le> QR_ECLEVEL_H" "1 \<le> v" "v \<le> 40"
    and "payload_len mode n \<le> 8 * QRspec_getDataLength v level" "mode = QR_MODE_KANJI \<Longrightarrow> even n"
  shows "n \<le> QRspec_maximumWords mode v"
proof (rule ccontr)
  assume n: "\<not> ?thesis"
  have "8 * QRspec_getDataLength v level < payload_len mode (QRspec_maximumWords mode v + (if mode = QR_MODE_KANJI then 2 else 1))"
    using capacity_class(1) [OF assms(2-4)] assms(1)
    by (cases rule: class_cases [of v]; cases rule: indicator_cases [OF assms(1)])
      (simp_all add: QRspec_maximumWords_def Let_def lengthTableBits_def payload_len_def estimateNum_div estimateAn_div QRinput_estimateBitsMode8_def
        QRinput_estimateBitsModeKanji_def)
  also have "\<dots> \<le> payload_len mode n"
  proof (rule payload_len_mono)
    show "QRspec_maximumWords mode v + (if mode = QR_MODE_KANJI then 2 else 1) \<le> n"
      using n assms(6) maximumWords_even [of v] by (auto elim!: evenE)
  qed
  finally show False using assms(5) by simp
qed

text \<open>What \<open>QRinput_lengthOfCode\<close> returns fits the bits, and is the most that does.\<close>

lemma lengthOfCode:
  fixes bits :: int
  assumes "QRinput_isSplittableMode mode" "b = QRinput_lengthOfCode mode v bits" "p = bits - 4 - int (QRspec_lengthIndicator mode v)"
  shows "b \<le> QRspec_maximumWords mode v" "0 < b \<Longrightarrow> int (payload_len mode b) \<le> p" "13 \<le> p \<Longrightarrow> 0 < b" "mode = QR_MODE_KANJI \<Longrightarrow> even b"
proof -
  let ?m = "QRspec_maximumWords mode v"
  define s where "s = (case mode of
              QR_MODE_NUM \<Rightarrow> (let chunks = p sdiv 10; remain = p - chunks * 10
                 in if remain \<ge> 7 then chunks * 3 + 2 else if remain \<ge> 4 then chunks * 3 + 1 else chunks * 3)
            | QR_MODE_AN \<Rightarrow> (let chunks = p sdiv 11; remain = p - chunks * 11 in if remain \<ge> 6 then chunks * 2 + 1 else chunks * 2)
            | QR_MODE_8 \<Rightarrow> p sdiv 8 | QR_MODE_KANJI \<Rightarrow> (p sdiv 13) * 2 | QR_MODE_STRUCTURE \<Rightarrow> p sdiv 8 | _ \<Rightarrow> 0)"
  have m: "0 < ?m"
    by (cases rule: class_cases [of v]; cases rule: indicator_cases [OF assms(1)]) (simp_all add: QRspec_maximumWords_def Let_def lengthTableBits_def)
  have b: "b = min (nat s) ?m"
    using m unfolding assms(2) QRinput_lengthOfCode_def Let_def assms(3) [symmetric] s_def [unfolded Let_def, symmetric] by auto
  then show "b \<le> ?m" by simp
  have neg: "s \<le> 0" if "p < 0"
  proof -
    have "p sdiv k = - (- p div k)" if "0 < k" for k using that \<open>p < 0\<close> by (simp add: signed_divide_int_def sgn_if)
    moreover have "0 \<le> - p div k" "- p div k * k \<le> - p" if "0 < k" for k
      using that \<open>p < 0\<close> div_mult_mod_eq [of "- p" k] pos_mod_sign [of k "- p"] by (simp add: pos_imp_zdiv_nonneg_iff, linarith)
    ultimately show ?thesis using \<open>p < 0\<close>
      by (cases rule: indicator_cases [OF assms(1)]) (auto simp: s_def Let_def)
  qed
  have pos: "int (payload_len mode (nat s)) \<le> p \<and> (13 \<le> p \<longrightarrow> 0 < s) \<and> 0 \<le> s" if "0 \<le> p"
  proof -
    obtain q where q: "p = int q" using \<open>0 \<le> p\<close> by (metis nonneg_int_cases)
    have "int q sdiv 10 = int (q div 10)" "int q sdiv 11 = int (q div 11)" "int q sdiv 8 = int (q div 8)" "int q sdiv 13 = int (q div 13)"
      by (auto simp: signed_divide_int_def sgn_if)
    note d = this [folded q]
    show ?thesis
    proof (cases rule: indicator_cases [OF assms(1)])
      case 1
      have "q = 10 * (q div 10) + q mod 10" "q mod 10 < 10" by simp_all
      then obtain c r where c: "q div 10 = c" "q = 10 * c + r" "r < 10" by metis
      have "(10 * (c * 3 + 2) + 2) div 3 = 10 * c + 7" "(10 * (c * 3 + 1) + 2) div 3 = 10 * c + 4" "(10 * (c * 3) + 2) div 3 = 10 * c" by simp_all
      moreover have "nat s = (if 7 \<le> r then c * 3 + 2 else if 4 \<le> r then c * 3 + 1 else c * 3)" "0 \<le> s"
        using 1 c q d(1) by (auto simp: s_def Let_def nat_add_distrib nat_mult_distrib)
      ultimately show ?thesis using 1 c q by (auto simp: payload_len_def estimateNum_div split: if_splits)
    next
      case 2
      have "q = 11 * (q div 11) + q mod 11" "q mod 11 < 11" by simp_all
      then obtain c r where c: "q div 11 = c" "q = 11 * c + r" "r < 11" by metis
      have "(11 * (c * 2 + 1) + 1) div 2 = 11 * c + 6" "(11 * (c * 2) + 1) div 2 = 11 * c" by simp_all
      moreover have "nat s = (if 6 \<le> r then c * 2 + 1 else c * 2)" "0 \<le> s"
        using 2 c q d(2) by (auto simp: s_def Let_def nat_add_distrib nat_mult_distrib)
      ultimately show ?thesis using 2 c q by (auto simp: payload_len_def estimateAn_div split: if_splits)
    next
      case 3
      then show ?thesis using q d(3) by (auto simp: s_def payload_len_def QRinput_estimateBitsMode8_def)
    next
      case 4
      then show ?thesis using q d(4) by (auto simp: s_def payload_len_def QRinput_estimateBitsModeKanji_def nat_mult_distrib)
    qed
  qed
  show "0 < b \<Longrightarrow> int (payload_len mode b) \<le> p"
    using b neg pos payload_len_mono [of b "nat s" mode] by (cases "0 \<le> p") auto
  show "13 \<le> p \<Longrightarrow> 0 < b" using b m pos by auto
  show "even b" if "mode = QR_MODE_KANJI"
  proof -
    have "even (nat (x * 2))" for x :: int by (cases "0 \<le> x") (simp_all add: nat_mult_distrib)
    then show ?thesis using b that maximumWords_even [of v] by (simp add: s_def min_def)
  qed
qed

section \<open>The loop\<close>

text \<open>The bytes of entries with their modes.\<close>

definition entry_chars :: "QRinput_List list \<Rightarrow> (QRencodeMode \<times> byte) list" where
  "entry_chars es = concat (map (\<lambda>e. map (Pair (le_mode e)) (le_data e)) es)"

lemma entry_chars_simps [simp]:
  "entry_chars [] = []" "entry_chars (e # es) = map (Pair (le_mode e)) (le_data e) @ entry_chars es"
  "entry_chars (es @ fs) = entry_chars es @ entry_chars fs"
  by (simp_all add: entry_chars_def)

lemma all_bits_simps [simp]:
  "all_bits v [] = []" "all_bits v (e # es) = entry_bits v (le_mode e) (le_data e) @ all_bits v es"
  "all_bits v (es @ fs) = all_bits v es @ all_bits v fs"
  by (simp_all add: all_bits_def)

text \<open>A part: an input for one symbol, with room for the header.\<close>

definition part_entry :: "QRinput_List \<Rightarrow> bool" where
  "part_entry e \<longleftrightarrow> entry_ok e \<and> QRinput_isSplittableMode (le_mode e) \<and> readable (le_mode e) (le_data e)"

definition part_input :: "nat \<Rightarrow> QRecLevel \<Rightarrow> QRinput \<Rightarrow> bool" where
  "part_input v level i \<longleftrightarrow> inp_version i = v \<and> inp_level i = level \<and> \<not> inp_mqr i \<and> inp_fnc1 i = 0"

definition part_ok :: "nat \<Rightarrow> QRecLevel \<Rightarrow> nat \<Rightarrow> QRinput \<Rightarrow> bool" where
  "part_ok v level maxbits i \<longleftrightarrow> part_input v level i \<and> list_all part_entry (inp_entries i)
     \<and> length (all_bits v (inp_entries i)) \<le> maxbits"

definition split_inv :: "nat \<Rightarrow> QRecLevel \<Rightarrow> nat \<Rightarrow> int \<Rightarrow> (QRencodeMode \<times> byte) list \<Rightarrow> split_state \<Rightarrow> bool" where
  "split_inv v level maxbits p cs st \<longleftrightarrow>
     part_input v level (sp_input st) \<and> list_all part_entry (sp_done st) \<and> list_all part_entry (sp_rest st)
     \<and> sp_bits st = length (all_bits v (sp_done st)) \<and> sp_bits st \<le> maxbits
     \<and> list_all (part_ok v level maxbits) (st_inputs (sp_struct st))
     \<and> st_size (sp_struct st) = length (st_inputs (sp_struct st)) \<and> st_parity (sp_struct st) = p
     \<and> concat (map (\<lambda>i. entry_chars (inp_entries i)) (st_inputs (sp_struct st))) @ entry_chars (sp_done st) @ entry_chars (sp_rest st) = cs"

definition split_measure :: "split_state \<Rightarrow> nat" where
  "split_measure st = 2 * length (entry_chars (sp_rest st)) + (if sp_done st = [] then 0 else 1)"

lemma estimate_covers:
  assumes "part_entry e" "level \<le> QR_ECLEVEL_H" "1 \<le> v" "v \<le> 40"
    and "QRinput_estimateBitStreamSizeOfEntry e v False \<le> 8 * QRspec_getDataLength v level"
  shows "length (entry_bits v (le_mode e) (le_data e)) \<le> QRinput_estimateBitStreamSizeOfEntry e v False"
proof -
  let ?m = "le_mode e" and ?d = "le_data e" and ?l = "QRspec_lengthIndicator (le_mode e) v"
  have e: "entry_ok e" "QRinput_isSplittableMode ?m" "le_size e = length ?d" "?d \<noteq> []" "data_ok ?m ?d"
    using assms(1) by (auto simp: part_entry_def entry_ok_def)
  have est: "QRinput_estimateBitStreamSizeOfEntry e v False = payload_len ?m (length ?d) + entry_overhead ?m (length ?d) v False"
    using assms(3) e(3) by (cases rule: indicator_cases [OF e(2)])
      (simp_all add: QRinput_estimateBitStreamSizeOfEntry_def Let_def payload_len_def)
  have one: "length ?d \<le> QRspec_maximumWords ?m v"
    using assms(5) est e(5) by (intro one_segment_fits [OF e(2) assms(2-4)]) (simp_all add: data_ok_def)
  have "4 + ?l \<le> entry_overhead ?m (length ?d) v False"
  proof -
    have "1 \<le> (length ?d + 2 ^ ?l - 1) div 2 ^ ?l"
      using e(4) by (cases ?d) (simp_all add: less_eq_div_iff_mult_less_eq)
    then show ?thesis by (simp add: entry_overhead_def Let_def MODE_INDICATOR_SIZE_def)
  qed
  then show ?thesis using est length_seg [OF e(2), of v ?d] entry_bits_one [of ?m ?d v] one by simp
qed

lemma estimate_exact:
  assumes "part_entry e" "le_mode e \<noteq> QR_MODE_KANJI" "le_size e \<le> QRspec_maximumWords (le_mode e) v" "1 \<le> v"
  shows "QRinput_estimateBitStreamSizeOfEntry e v False
     = 4 + QRspec_lengthIndicator (le_mode e) v + payload_len (le_mode e) (le_size e)"
proof -
  have e: "entry_ok e" "QRinput_isSplittableMode (le_mode e)" "le_size e = length (le_data e)" "le_mode e \<noteq> QR_MODE_ECI"
    using assms(1) by (auto simp: part_entry_def entry_ok_def QRinput_isSplittableMode_def)
  show ?thesis
    using estimate_one_segment [OF e(1,4) assms(2), of v] assms(3,4) length_seg [OF e(2)] entry_bits_one [of "le_mode e" "le_data e" v] e(3)
    by simp
qed

lemma splitEntry_ok:
  assumes "part_entry e" "0 < b" "b < le_size e" "le_mode e = QR_MODE_KANJI \<Longrightarrow> even b"
  obtains e1 e2 where "QRinput_splitEntry e b = Inr (e1, e2)" "part_entry e1" "part_entry e2" "le_mode e1 = le_mode e" "le_mode e2 = le_mode e"
    "le_data e1 = take b (le_data e)" "le_data e2 = drop b (le_data e)"
proof -
  let ?m = "le_mode e" and ?d = "le_data e"
  have e: "QRinput_isSplittableMode ?m" "le_size e = length ?d" "data_ok ?m ?d" "readable ?m ?d"
    using assms(1) by (auto simp: part_entry_def entry_ok_def)
  note cut = data_ok_cut [OF e(3,1) assms(4)] readable_cut [OF e(4,1) assms(4)]
  have "?d \<noteq> []" using assms(3) e(2) by auto
  have "QRinput_List_newEntry ?m (int (length ?d - b)) (drop b ?d)
      = Inr \<lparr>le_mode = ?m, le_size = length ?d - b, le_data = drop b ?d, le_bstream = None\<rparr>"
    using newEntry_ok [of "length ?d - b" "drop b ?d" ?m] cut(2) assms(3) e(2) by simp
  moreover have "int (le_size e) - int b = int (length ?d - b)" using assms(3) e(2) by simp
  ultimately show ?thesis
    using that [of "QRinput_List_shrinkEntry e b" "\<lparr>le_mode = ?m, le_size = length ?d - b, le_data = drop b ?d, le_bstream = None\<rparr>"]
      cut assms(2,3) e \<open>?d \<noteq> []\<close> by (auto simp: QRinput_splitEntry_def QRinput_List_shrinkEntry_def part_entry_def entry_ok_def)
qed

lemma split_step_ok:
  assumes inv: "split_inv v level maxbits p cs st" and rest: "sp_rest st = e # es"
    and v: "level \<le> QR_ECLEVEL_H" "1 \<le> v" "v \<le> 40" "maxbits = 8 * QRspec_getDataLength v level - 20"
  obtains (ok) st' where "split_step maxbits st = Inr st'" "split_inv v level maxbits p cs st'" "split_measure st' < split_measure st"
  | (kanji) "split_step maxbits st = Inl EINVAL" "(QR_MODE_KANJI, hd (le_data e)) \<in> set cs"
proof -
  let ?m = "le_mode e" and ?d = "le_data e" and ?room = "int maxbits - int (sp_bits st)"
  note i = inv [unfolded split_inv_def rest]
  have e: "part_entry e" "list_all part_entry es" "?d \<noteq> []" "QRinput_isSplittableMode ?m" "le_size e = length ?d" "entry_ok e"
    using i by (auto simp: part_entry_def entry_ok_def)
  have in0: "inp_version (sp_input st) = v" "inp_level (sp_input st) = level" "\<not> inp_mqr (sp_input st)" "inp_fnc1 (sp_input st) = 0"
    using i by (simp_all add: part_input_def)
  have chars: "concat (map (\<lambda>i. entry_chars (inp_entries i)) (st_inputs (sp_struct st))) @ entry_chars (sp_done st)
      @ map (Pair ?m) ?d @ entry_chars es = cs" using i by simp
  have big: "52 \<le> maxbits" using capacity_class(2) [OF v(1-3)] v(4) by simp
  show thesis
  proof (cases "sp_bits st + QRinput_estimateBitStreamSizeOfEntry e v False \<le> maxbits")
    case True
    let ?e = "e\<lparr>le_bstream := Some (bs_of (entry_bits v ?m ?d))\<rparr>"
    let ?st = "st\<lparr>sp_done := sp_done st @ [?e], sp_rest := es, sp_bits := sp_bits st + length (entry_bits v ?m ?d)\<rparr>"
    have "split_step maxbits st = Inr ?st"
      using True in0 by (simp add: split_step_def rest encodeBitStream_bits [OF e(6)])
    moreover have "length (entry_bits v ?m ?d) \<le> QRinput_estimateBitStreamSizeOfEntry e v False"
      using True v(4) by (intro estimate_covers [OF e(1) v(1-3)]) simp
    then have "split_inv v level maxbits p cs ?st"
      using True i e by (simp add: split_inv_def part_entry_def entry_ok_def)
    moreover have "split_measure ?st < split_measure st" using e(3) by (simp add: split_measure_def rest length_greater_0_conv [symmetric] del: length_greater_0_conv)
    ultimately show thesis by (rule ok)
  next
    case False
    define b where "b = QRinput_lengthOfCode ?m v ?room"
    note len = lengthOfCode [OF e(4) b_def refl]
    obtain q where q: "QRinput_new2 (int v) level = Inr q" "part_input v level q"
      using v by (auto simp: QRinput_new2_def part_input_def QRSPEC_VERSION_MAX_def)
    have step: "split_step maxbits st = (if b > 0 then
                    res_bind (QRinput_splitEntry e b) (\<lambda>(e1, e2).
                    res_bind (QRinput_Struct_appendInput (sp_struct st)
                                ((sp_input st)\<lparr>inp_entries := sp_done st @ [e1], inp_tail := TailLast\<rparr>)) (\<lambda>s.
                    Inr \<lparr>sp_struct = s,
                         sp_input = q\<lparr>inp_tail := if es = [] then TailForeign else inp_tail (sp_input st)\<rparr>,
                         sp_done = [], sp_rest = e2 # es, sp_bits = 0\<rparr>))
                  else if sp_done st = [] then Inl EFAULT
                  else
                    res_bind (QRinput_Struct_appendInput (sp_struct st)
                                ((sp_input st)\<lparr>inp_entries := sp_done st, inp_tail := TailLast\<rparr>)) (\<lambda>s.
                    Inr \<lparr>sp_struct = s, sp_input = q\<lparr>inp_tail := inp_tail (sp_input st)\<rparr>,
                         sp_done = [], sp_rest = e # es, sp_bits = 0\<rparr>))"
      using False in0 q(1) by (simp add: split_step_def rest b_def Let_def)
    show thesis
    proof (cases "0 < b")
      case b: True
      show thesis
      proof (cases "b < length ?d")
        case True
        obtain e1 e2 where s: "QRinput_splitEntry e b = Inr (e1, e2)" "part_entry e1" "part_entry e2" "le_mode e1 = ?m" "le_mode e2 = ?m"
          "le_data e1 = take b ?d" "le_data e2 = drop b ?d"
          using splitEntry_ok [OF e(1) b _ len(4)] True e(5) by metis
        let ?i = "(sp_input st)\<lparr>inp_entries := sp_done st @ [e1], inp_tail := TailLast\<rparr>"
        let ?st = "\<lparr>sp_struct = (sp_struct st)\<lparr>st_size := st_size (sp_struct st) + 1, st_inputs := st_inputs (sp_struct st) @ [?i]\<rparr>,
           sp_input = q\<lparr>inp_tail := if es = [] then TailForeign else inp_tail (sp_input st)\<rparr>, sp_done = [], sp_rest = e2 # es, sp_bits = 0\<rparr>"
        have "split_step maxbits st = Inr ?st" using b s(1) in0 by (simp add: step QRinput_Struct_appendInput_def)
        moreover have "length (entry_bits v ?m (take b ?d)) = 4 + QRspec_lengthIndicator ?m v + payload_len ?m b"
          using length_seg [OF e(4), of v "take b ?d"] entry_bits_one [of ?m "take b ?d" v] len(1) True by simp
        then have "part_ok v level maxbits ?i" using len(2) [OF b] i s by (simp add: part_ok_def part_input_def)
        moreover have "concat (map (\<lambda>i. entry_chars (inp_entries i)) (st_inputs (sp_struct st))) @ entry_chars (sp_done st)
            @ map (Pair ?m) (take b ?d) @ map (Pair ?m) (drop b ?d) @ entry_chars es = cs"
          using chars by (metis append_assoc append_take_drop_id map_append)
        ultimately have "split_step maxbits st = Inr ?st" "split_inv v level maxbits p cs ?st"
          using i q(2) s e(2) by (simp_all add: split_inv_def part_input_def)
        moreover have "split_measure ?st < split_measure st" using b True s by (simp add: split_measure_def rest)
        ultimately show thesis by (rule ok)
      next
        case big_b: False
        have k: "?m = QR_MODE_KANJI"
        proof (rule ccontr)
          assume "?m \<noteq> QR_MODE_KANJI"
          then have "QRinput_estimateBitStreamSizeOfEntry e v False = 4 + QRspec_lengthIndicator ?m v + payload_len ?m (le_size e)"
            using estimate_exact [OF e(1)] len(1) big_b e(5) v(2) by simp
          moreover have "payload_len ?m (le_size e) \<le> payload_len ?m b" using big_b e(5) by (intro payload_len_mono) simp
          ultimately show False using False len(2) [OF b] by simp
        qed
        have "QRinput_List_newEntry ?m (int (le_size e) - int b) (drop b ?d) = Inl EINVAL"
          using big_b e(5) by (simp add: QRinput_List_newEntry_def QRinput_check_def)
        then have "split_step maxbits st = Inl EINVAL" using b by (simp add: step QRinput_splitEntry_def)
        moreover have "(QR_MODE_KANJI, hd ?d) \<in> set cs" using chars k e(3) by auto
        ultimately show thesis by (rule kanji)
      qed
    next
      case b: False
      have "sp_done st \<noteq> []"
      proof
        assume "sp_done st = []"
        then have "sp_bits st = 0" using i by simp
        then show False using len(3) b big lengthIndicator_le [of ?m v] by simp
      qed
      let ?i = "(sp_input st)\<lparr>inp_entries := sp_done st, inp_tail := TailLast\<rparr>"
      let ?st = "\<lparr>sp_struct = (sp_struct st)\<lparr>st_size := st_size (sp_struct st) + 1, st_inputs := st_inputs (sp_struct st) @ [?i]\<rparr>,
         sp_input = q\<lparr>inp_tail := inp_tail (sp_input st)\<rparr>, sp_done = [], sp_rest = e # es, sp_bits = 0\<rparr>"
      have "split_step maxbits st = Inr ?st" using b in0 \<open>sp_done st \<noteq> []\<close> by (simp add: step QRinput_Struct_appendInput_def)
      moreover have "split_inv v level maxbits p cs ?st" using i q(2) by (simp add: split_inv_def part_ok_def part_input_def)
      moreover have "split_measure ?st < split_measure st" using \<open>sp_done st \<noteq> []\<close> by (simp add: split_measure_def rest)
      ultimately show thesis by (rule ok)
    qed
  qed
qed

lemma split_loop_ok:
  assumes v: "level \<le> QR_ECLEVEL_H" "1 \<le> v" "v \<le> 40" "maxbits = 8 * QRspec_getDataLength v level - 20"
  shows "split_inv v level maxbits p cs st \<Longrightarrow>
     (\<exists>st'. split_loop maxbits st = Some (Inr st') \<and> split_inv v level maxbits p cs st' \<and> sp_rest st' = [])
   \<or> split_loop maxbits st = Some (Inl EINVAL) \<and> QR_MODE_KANJI \<in> fst ` set cs"
proof (induction "split_measure st" arbitrary: st rule: less_induct)
  case less
  show ?case
  proof (cases "sp_rest st")
    case Nil
    then show ?thesis using less.prems by (subst split_loop.simps, subst split_loop.simps) simp
  next
    case (Cons e es)
    from less.prems Cons v show ?thesis
    proof (cases rule: split_step_ok)
      case (ok st')
      then have "split_loop maxbits st = split_loop maxbits st'" using Cons by (subst split_loop.simps) simp
      then show ?thesis using less.hyps [OF ok(3,2)] by simp
    next
      case kanji
      then have "split_loop maxbits st = Some (Inl EINVAL)" using Cons by (subst split_loop.simps) simp
      then show ?thesis using kanji(2) by force
    qed
  qed
qed

section \<open>Copies, parity and headers\<close>

lemma dup_entries:
  assumes "tail_ok n" "list_all entry_ok es"
  shows "fold_res (\<lambda>e n. QRinput_appendEntry n (QRinput_List_dup e)) es n = Inr (added (map (\<lambda>e. entry_of (le_mode e) (le_data e)) es) n)"
  using assms
proof (induction es arbitrary: n)
  case (Cons e es)
  let ?e = "entry_of (le_mode e) (le_data e)"
  have "QRinput_appendEntry n (QRinput_List_dup e) = Inr (added [?e] n)"
    using Cons.prems by (auto simp: QRinput_appendEntry_def tail_ok_def added_def entry_ok_def QRinput_List_dup_def entry_of_def)
  then show ?case using Cons by simp
qed simp

lemma dup_ok:
  assumes "qr_input_ok input"
  obtains i where "QRinput_dup input = Inr i" "part_input (inp_version input) (inp_level input) i"
    "inp_entries i = map (\<lambda>e. entry_of (le_mode e) (le_data e)) (inp_entries input)"
proof -
  obtain n where n: "QRinput_new2 (int (inp_version input)) (inp_level input) = Inr n" "tail_ok n" "inp_entries n = []"
    "part_input (inp_version input) (inp_level input) n"
    using assms by (auto simp: QRinput_new2_def qr_input_ok_def QRSPEC_VERSION_MAX_def tail_ok_def part_input_def)
  show ?thesis
    using n dup_entries [OF n(2), of "inp_entries input"] assms
      that [of "added (map (\<lambda>e. entry_of (le_mode e) (le_data e)) (inp_entries input)) n"]
    by (simp add: QRinput_dup_def qr_input_ok_def part_input_def)
qed

definition data_parity :: "byte list \<Rightarrow> byte" where
  "data_parity bs = foldr (\<lambda>b p. p XOR b) bs 0"

lemma foldr_xor: "foldr (\<lambda>b p. p XOR b) bs p = p XOR data_parity bs" for p :: byte
  by (induction bs) (simp_all add: data_parity_def xor.assoc)

lemma data_parity_append: "data_parity (as @ bs) = data_parity as XOR data_parity bs"
proof -
  have "data_parity (as @ bs) = foldr (\<lambda>b p. p XOR b) as (data_parity bs)" by (simp add: data_parity_def)
  then show ?thesis unfolding foldr_xor by (simp only: xor.commute)
qed

lemma calcParity:
  assumes "list_all part_entry (inp_entries i)"
  shows "QRinput_calcParity i = data_parity (map snd (entry_chars (inp_entries i)))"
proof -
  have inner: "fold (\<lambda>k p. p XOR d ! k) (rev [0..<length d]) p = p XOR data_parity d" for p :: byte and d
  proof -
    have "fold (\<lambda>k p. p XOR d ! k) (rev [0..<length d]) p = foldr (\<lambda>b p. p XOR b) (map ((!) d) [0..<length d]) p"
      by (simp only: foldr_conv_fold rev_map fold_map comp_def)
    then show ?thesis by (simp add: map_nth foldr_xor)
  qed
  have "fold (\<lambda>e p. if le_mode e \<noteq> QR_MODE_STRUCTURE then fold (\<lambda>k p. p XOR le_data e ! k) (rev [0..<le_size e]) p else p) es p
      = p XOR data_parity (map snd (entry_chars es))" if "list_all part_entry es" for es p
    using that
  proof (induction es arbitrary: p)
    case (Cons e es)
    have "le_mode e \<noteq> QR_MODE_STRUCTURE" "le_size e = length (le_data e)"
      using Cons.prems by (auto simp: part_entry_def entry_ok_def QRinput_isSplittableMode_def)
    then show ?case using Cons by (simp add: inner data_parity_append comp_def xor.assoc)
  qed (simp add: data_parity_def)
  then show ?thesis using assms by (simp add: QRinput_calcParity_def)
qed

definition with_header :: "nat \<Rightarrow> byte \<Rightarrow> nat \<times> QRinput \<Rightarrow> QRinput" where
  "with_header n p = (\<lambda>(k, i). i\<lparr>inp_entries := entry_of QR_MODE_STRUCTURE [word_of_nat n, word_of_nat k, p] # inp_entries i\<rparr>)"

lemma insert_headers_ok:
  "n \<le> 16 \<Longrightarrow> 1 \<le> k \<Longrightarrow> k + length xs \<le> n + 1 \<Longrightarrow> insert_headers xs n k p = Inr (map (with_header n p) (enumerate k xs))"
proof (induction xs arbitrary: k)
  case (Cons x xs)
  have "QRinput_insertStructuredAppendHeader x n k p = Inr (with_header n p (k, x))"
    using Cons.prems newEntry_ok [of 3 "[word_of_nat n, word_of_nat k, p]" QR_MODE_STRUCTURE]
    by (simp add: QRinput_insertStructuredAppendHeader_def MAX_STRUCTURED_SYMBOLS_def data_ok_def with_header_def entry_of_def)
  then show ?case using Cons by simp
qed simp

text \<open>The set of inputs of a split: the parts, numbered by headers with the parity when there are several.\<close>

definition struct_of :: "byte \<Rightarrow> QRinput list \<Rightarrow> QRinput list" where
  "struct_of p parts = (if length parts = 1 then parts else map (with_header (length parts) p) (enumerate 1 parts))"

lemma split_ok:
  assumes "qr_input_ok input" "list_all part_entry (inp_entries input)" "v = inp_version input" "1 \<le> v" "level = inp_level input"
  obtains (ok) s parts where "QRinput_splitQRinputToStruct input = Inr s" "parts \<noteq> []" "length parts \<le> 16"
      "list_all (part_ok v level (8 * QRspec_getDataLength v level - 20)) parts"
      "concat (map (\<lambda>i. entry_chars (inp_entries i)) parts) = entry_chars (inp_entries input)"
      "st_inputs s = struct_of (data_parity (map snd (entry_chars (inp_entries input)))) parts" "st_size s = length parts"
  | (range) "QRinput_splitQRinputToStruct input = Inl ERANGE"
  | (kanji) "QRinput_splitQRinputToStruct input = Inl EINVAL" "QR_MODE_KANJI \<in> le_mode ` set (inp_entries input)"
proof -
  let ?cs = "entry_chars (inp_entries input)" let ?p = "data_parity (map snd ?cs)" let ?w = "QRspec_getDataLength v level"
  define maxbits where "maxbits = 8 * ?w - 20"
  have v: "level \<le> QR_ECLEVEL_H" "1 \<le> v" "v \<le> 40" "maxbits = 8 * ?w - 20"
    using assms by (auto simp: qr_input_ok_def maxbits_def)
  have big: "9 \<le> ?w" by (rule capacity_class(2) [OF v(1-3)])
  obtain i where i: "QRinput_dup input = Inr i" "part_input v level i"
    "inp_entries i = map (\<lambda>e. entry_of (le_mode e) (le_data e)) (inp_entries input)"
    using dup_ok [OF assms(1)] assms(3,5) by metis
  have ch: "entry_chars (inp_entries i) = ?cs" by (simp add: i(3) entry_chars_def comp_def)
  have pe: "list_all part_entry (inp_entries i)"
    using assms(2) by (auto simp: i(3) list_all_iff part_entry_def entry_ok_def entry_of_def)
  have par: "QRinput_calcParity i = ?p" using calcParity [OF pe] ch by simp
  let ?s0 = "QRinput_Struct_setParity QRinput_Struct_new ?p"
  let ?st = "\<lparr>sp_struct = ?s0, sp_input = i, sp_done = [], sp_rest = inp_entries i, sp_bits = 0\<rparr>"
  have mb: "nat (int (QRspec_getDataLength (inp_version i) (inp_level i) * 8) - int STRUCTURE_HEADER_SIZE) = maxbits"
    "\<not> int (QRspec_getDataLength (inp_version i) (inp_level i) * 8) - int STRUCTURE_HEADER_SIZE \<le> 0"
    using i(2) big by (simp_all add: part_input_def maxbits_def STRUCTURE_HEADER_SIZE_def)
  have sp: "QRinput_splitQRinputToStruct input = (case split_loop maxbits ?st of None \<Rightarrow> Inl EHANG | Some r \<Rightarrow> res_bind r (\<lambda>st.
                    res_bind (QRinput_Struct_appendInput (sp_struct st) ((sp_input st)\<lparr>inp_entries := sp_done st\<rparr>)) (\<lambda>s.
                    if st_size s > MAX_STRUCTURED_SYMBOLS then Inl ERANGE else QRinput_Struct_insertStructuredAppendHeaders s)))"
    using assms(1) by (simp only: QRinput_splitQRinputToStruct_def qr_input_ok_def if_False i(1) res_bind.simps Let_def mb par)
  have inv: "split_inv v level maxbits (uint ?p) ?cs ?st"
    using i(2) pe ch by (simp add: split_inv_def QRinput_Struct_setParity_def QRinput_Struct_new_def)
  from split_loop_ok [OF v inv] show thesis
  proof (elim disjE exE conjE)
    fix st assume st: "split_loop maxbits ?st = Some (Inr st)" "split_inv v level maxbits (uint ?p) ?cs st" "sp_rest st = []"
    let ?i = "(sp_input st)\<lparr>inp_entries := sp_done st\<rparr>" let ?parts = "st_inputs (sp_struct st) @ [?i]"
    let ?s = "(sp_struct st)\<lparr>st_size := length ?parts, st_inputs := ?parts\<rparr>"
    note si = st(2) [unfolded split_inv_def st(3)]
    have parts: "?parts \<noteq> []" "list_all (part_ok v level maxbits) ?parts" "concat (map (\<lambda>i. entry_chars (inp_entries i)) ?parts) = ?cs"
      using si by (simp_all add: part_ok_def part_input_def)
    have s: "QRinput_splitQRinputToStruct input
        = (if length ?parts > 16 then Inl ERANGE else QRinput_Struct_insertStructuredAppendHeaders ?s)"
      using si by (simp add: sp st(1) QRinput_Struct_appendInput_def part_input_def MAX_STRUCTURED_SYMBOLS_def)
    show thesis
    proof (cases "length ?parts > 16")
      case False
      have "QRinput_Struct_insertStructuredAppendHeaders ?s = Inr (?s\<lparr>st_inputs := struct_of ?p ?parts\<rparr>)"
        using insert_headers_ok [of "length ?parts" 1 ?parts ?p] False si
        by (simp add: QRinput_Struct_insertStructuredAppendHeaders_def struct_of_def del: length_append)
      then show thesis using ok [of "?s\<lparr>st_inputs := struct_of ?p ?parts\<rparr>" ?parts] s False parts maxbits_def by simp
    qed (use s range in simp)
  next
    assume "split_loop maxbits ?st = Some (Inl EINVAL)" "QR_MODE_KANJI \<in> fst ` set ?cs"
    then show thesis using kanji sp by (auto simp: entry_chars_def)
  qed
qed

text \<open>
  C10. Splitting an input for structured append ends and loses nothing. For an input with a version
  and valid entries of the four data modes, \<open>QRinput_splitQRinputToStruct\<close> returns between
  one and sixteen inputs of the same version and level whose entries, in order, have the bytes
  and modes of the original; the streams of every one fit the version with the header, and when
  there are several each starts with a header of their number, its position and the parity of
  all bytes. It fails only when more than sixteen are needed, or in the presence of kanji data.
\<close>

theorem split_preserves:
  assumes "qr_input_ok input" "list_all part_entry (inp_entries input)" "1 \<le> inp_version input"
  defines "v \<equiv> inp_version input" and "level \<equiv> inp_level input" and "cs \<equiv> entry_chars (inp_entries input)"
  shows "case QRinput_splitQRinputToStruct input of
     Inr s \<Rightarrow> (\<exists>parts. parts \<noteq> [] \<and> length parts \<le> MAX_STRUCTURED_SYMBOLS \<and> st_size s = length parts
        \<and> list_all (part_ok v level (8 * QRspec_getDataLength v level - STRUCTURE_HEADER_SIZE)) parts
        \<and> concat (map (\<lambda>i. entry_chars (inp_entries i)) parts) = cs
        \<and> st_inputs s = struct_of (data_parity (map snd cs)) parts)
   | Inl e \<Rightarrow> e = ERANGE \<or> e = EINVAL \<and> QR_MODE_KANJI \<in> le_mode ` set (inp_entries input)"
  using assms(1,2) v_def [THEN meta_eq_to_obj_eq] assms(3) [folded v_def] level_def [THEN meta_eq_to_obj_eq]
  by (cases rule: split_ok) (auto simp: MAX_STRUCTURED_SYMBOLS_def STRUCTURE_HEADER_SIZE_def cs_def)

definition ten_bytes :: QRinput where
  "ten_bytes = \<lparr>inp_version = 1, inp_level = QR_ECLEVEL_H, inp_entries = [entry_of QR_MODE_8 [1, 2, 3, 4, 5, 6, 7, 8, 9, 10]],
     inp_tail = TailLast, inp_mqr = False, inp_fnc1 = 0, inp_appid = 0\<rparr>"

lemma ten_bytes: "qr_input_ok ten_bytes" "list_all part_entry (inp_entries ten_bytes)" "1 \<le> inp_version ten_bytes"
  by (simp_all add: ten_bytes_def qr_input_ok_def part_entry_def data_ok_def readable_def)

lemma ten_bytes_split: "(case QRinput_splitQRinputToStruct ten_bytes of Inr s \<Rightarrow> st_size s | Inl e \<Rightarrow> 0) = 2"
  by code_simp

theorem split_preserves_witness:
  "\<exists>s p q. QRinput_splitQRinputToStruct ten_bytes = Inr s \<and> st_size s = 2
     \<and> entry_chars (inp_entries p) @ entry_chars (inp_entries q) = map (Pair QR_MODE_8) [1, 2, 3, 4, 5, 6, 7, 8, 9, 10]
     \<and> st_inputs s = struct_of 11 [p, q]"
proof -
  have e: "entry_chars (inp_entries ten_bytes) = map (Pair QR_MODE_8) [1, 2, 3, 4, 5, 6, 7, 8, 9, 10]" by (simp add: ten_bytes_def)
  obtain s where s: "QRinput_splitQRinputToStruct ten_bytes = Inr s" "st_size s = 2"
    using ten_bytes_split by (cases "QRinput_splitQRinputToStruct ten_bytes") simp_all
  have p: "data_parity (map snd (map (Pair QR_MODE_8) [1, 2, 3, 4, 5, 6, 7, 8, 9, 10])) = 11" by (simp add: data_parity_def)
  from split_preserves [OF ten_bytes] obtain parts where parts: "st_size s = length parts"
    "concat (map (\<lambda>i. entry_chars (inp_entries i)) parts) = map (Pair QR_MODE_8) [1, 2, 3, 4, 5, 6, 7, 8, 9, 10]"
    "st_inputs s = struct_of 11 parts" unfolding s(1) e p by auto
  moreover from parts(1) s(2) obtain p q where "parts = [p, q]"
    by (metis (no_types) length_0_conv length_Suc_conv numeral_2_eq_2)
  ultimately show ?thesis using s by auto
qed

text \<open>
  C37. Splitting fails for kanji data that just fits. The estimate charges a header for every
  256 (1024, 4096) bytes, but the length field counts characters of two bytes: when data of one
  entry is estimated above the room of a symbol although all of it fits, the code cuts it at its
  end, and \<open>QRinput_splitQRinputToStruct\<close> fails with \<open>EINVAL\<close> because the second half is empty.
\<close>

theorem split_kanji_fails:
  assumes "qr_input_ok input" "inp_entries input = [e]" "le_mode e = QR_MODE_KANJI" "1 \<le> inp_version input" "v = inp_version input"
    and "maxbits = 8 * QRspec_getDataLength v (inp_level input) - STRUCTURE_HEADER_SIZE"
    and "le_size e \<le> QRinput_lengthOfCode QR_MODE_KANJI v (int maxbits)" "maxbits < QRinput_estimateBitStreamSizeOfEntry e v False"
  shows "length (all_bits v [e]) \<le> maxbits \<and> QRinput_splitQRinputToStruct input = Inl EINVAL"
proof -
  let ?l = "inp_level input" and ?d = "le_data e"
  have e: "entry_ok e" "le_size e = length ?d" "?d \<noteq> []" and v: "?l \<le> QR_ECLEVEL_H" "1 \<le> v" "v \<le> 40"
    using assms(1-5) by (auto simp: qr_input_ok_def entry_ok_def)
  define b where "b = QRinput_lengthOfCode QR_MODE_KANJI v (int maxbits)"
  have k: "QRinput_isSplittableMode QR_MODE_KANJI" by simp
  note len = lengthOfCode [OF k b_def refl]
  have b: "length ?d \<le> b" "0 < b" using assms(7) e(2,3) by (auto simp: b_def intro: Nat.gr0I)
  have "length (entry_bits v QR_MODE_KANJI ?d) = 4 + QRspec_lengthIndicator QR_MODE_KANJI v + payload_len QR_MODE_KANJI (length ?d)"
    using length_seg [OF k, of v ?d] entry_bits_one [of QR_MODE_KANJI ?d v] len(1) b(1) by simp
  moreover have "payload_len QR_MODE_KANJI (length ?d) \<le> payload_len QR_MODE_KANJI b" by (rule payload_len_mono [OF b(1)])
  ultimately have fits: "length (all_bits v [e]) \<le> maxbits" using len(2) [OF b(2)] assms(3) by simp
  obtain i where i: "QRinput_dup input = Inr i" "part_input v ?l i" "inp_entries i = [entry_of QR_MODE_KANJI ?d]"
    using dup_ok [OF assms(1)] assms(2,3,5) by (metis list.simps(8,9))
  let ?e = "entry_of QR_MODE_KANJI ?d"
  have est: "QRinput_estimateBitStreamSizeOfEntry ?e v False = QRinput_estimateBitStreamSizeOfEntry e v False"
    using assms(3) e(2) by (simp add: QRinput_estimateBitStreamSizeOfEntry_def Let_def entry_of_def)
  have w: "9 \<le> QRspec_getDataLength v ?l" by (rule capacity_class(2) [OF v])
  have "QRinput_List_newEntry QR_MODE_KANJI (int (length ?d) - int b) (drop b ?d) = Inl EINVAL"
    using b(1) by (simp add: QRinput_List_newEntry_def QRinput_check_def)
  then have se: "QRinput_splitEntry ?e b = Inl EINVAL" by (simp add: QRinput_splitEntry_def entry_of_def)
  have "split_step maxbits \<lparr>sp_struct = s, sp_input = i, sp_done = [], sp_rest = [?e], sp_bits = 0\<rparr> = Inl EINVAL" for s
    using assms(8) est i(2) v b se b_def by (simp add: split_step_def part_input_def Let_def QRinput_new2_def QRSPEC_VERSION_MAX_def)
  then have "split_loop maxbits \<lparr>sp_struct = s, sp_input = i, sp_done = [], sp_rest = [?e], sp_bits = 0\<rparr> = Some (Inl EINVAL)" for s
    by (subst split_loop.simps) simp
  moreover have "nat (int (QRspec_getDataLength v ?l * 8) - int STRUCTURE_HEADER_SIZE) = maxbits"
    "\<not> int (QRspec_getDataLength v ?l * 8) - int STRUCTURE_HEADER_SIZE \<le> 0"
    using w assms(6) by (simp_all add: STRUCTURE_HEADER_SIZE_def)
  ultimately have "QRinput_splitQRinputToStruct input = Inl EINVAL"
    using assms(1) i by (simp add: QRinput_splitQRinputToStruct_def qr_input_ok_def part_input_def)
  with fits show ?thesis by simp
qed

definition kanji_140 :: QRinput where
  "kanji_140 = \<lparr>inp_version = 9, inp_level = QR_ECLEVEL_L, inp_entries = [entry_of QR_MODE_KANJI (concat (replicate 140 [0x82, 0x9f]))],
     inp_tail = TailLast, inp_mqr = False, inp_fnc1 = 0, inp_appid = 0\<rparr>"

lemma kanji_140: "qr_input_ok kanji_140" "le_size (hd (inp_entries kanji_140)) = 280"
proof -
  let ?d = "\<lambda>n. concat (replicate n [0x82, 0x9f :: byte])"
  have nth: "?d n ! (2 * k) = 0x82 \<and> ?d n ! (2 * k + 1) = 0x9f" if "k < n" for n k
    using that
  proof (induction n arbitrary: k)
    case (Suc n)
    then show ?case by (cases k) simp_all
  qed simp
  have len: "length (?d n) = 2 * n" for n by (induction n) simp_all
  have "kanji_at (?d n) (2 * k) = 0x829f" if "k < n" for n k
    using nth [OF that] by (simp add: kanji_at_def)
  then have "data_ok QR_MODE_KANJI (?d n)" for n by (simp add: data_ok_def len kanji_char_ok_def)
  moreover have "?d 140 \<noteq> []" using len [of 140] by auto
  ultimately show "qr_input_ok kanji_140" unfolding kanji_140_def qr_input_ok_def by (simp del: concat_eq_Nil_conv)
  show "le_size (hd (inp_entries kanji_140)) = 280" using len [of 140] by (simp add: kanji_140_def entry_of_def)
qed

theorem split_kanji_fails_witness:
  "length (all_bits 9 (inp_entries kanji_140)) \<le> 1836 \<and> QRinput_splitQRinputToStruct kanji_140 = Inl EINVAL"
proof -
  obtain e where e: "inp_entries kanji_140 = [e]" "le_mode e = QR_MODE_KANJI" unfolding kanji_140_def QRinput.select_convs by force
  have v: "inp_version kanji_140 = 9" "inp_level kanji_140 = QR_ECLEVEL_L" by (simp_all add: kanji_140_def)
  have n: "le_size e = 280" using kanji_140(2) e(1) by simp
  have "8 * QRspec_getDataLength 9 QR_ECLEVEL_L - STRUCTURE_HEADER_SIZE = 1836"
    by (simp add: QRspec_getDataLength_def qrspecCapacity_def STRUCTURE_HEADER_SIZE_def)
  moreover have "QRinput_lengthOfCode QR_MODE_KANJI 9 (int 1836) = 280"
    by (simp add: QRinput_lengthOfCode_def QRspec_lengthIndicator_def lengthTableBits_def length_class_def QRspec_maximumWords_def
        signed_divide_int_def)
  moreover have "QRinput_estimateBitStreamSizeOfEntry e 9 False = 1844"
    using e(2) n by (simp add: QRinput_estimateBitStreamSizeOfEntry_def entry_overhead_def QRinput_estimateBitsModeKanji_def
        QRspec_lengthIndicator_def lengthTableBits_def length_class_def MODE_INDICATOR_SIZE_def)
  ultimately have "length (all_bits 9 [e]) \<le> 1836 \<and> QRinput_splitQRinputToStruct kanji_140 = Inl EINVAL"
    using v n by (intro split_kanji_fails [OF kanji_140(1) e]) simp_all
  then show ?thesis unfolding e(1) .
qed

end
