(* ===== verification/QR_Text.thy ===== *)
theory QR_Text
  imports QR_Strings QR_Encode
begin

text \<open>
  The entry points for strings and data of QR Code symbols: the symbols read back as what was
  encoded, and when there is one.
\<close>

section \<open>Case folding\<close>

definition ascii_upper :: "byte \<Rightarrow> byte" where
  "ascii_upper c = (if c \<ge> 97 \<and> c \<le> 122 then c - 32 else c)"

lemma ascii_upper_0: "ascii_upper c = 0 \<longleftrightarrow> c = 0"
proof -
  have "c - 32 \<noteq> 0" if "c \<ge> 97" using that by (auto simp: word_le_nat_alt)
  then show ?thesis by (auto simp: ascii_upper_def)
qed

lemma toUpper_plain:
  "0 \<notin> set s \<Longrightarrow> hint \<noteq> QR_MODE_KANJI \<Longrightarrow> toUpper_loop hint s = map ascii_upper s"
proof (induction s)
  case (Cons c s)
  have "Split_identifyMode (c # s) hint \<noteq> QR_MODE_KANJI" using identify_kanji [of "c # s" hint] Cons.prems by blast
  then show ?case using Cons by (subst toUpper_loop.simps) (auto simp: chr_def ascii_upper_def)
qed (simp add: toUpper_loop.simps chr_def)

section \<open>Entry points\<close>

lemma encodeInput_reads:
  assumes "qr_input_ok input" "inp_fnc1 input = 0" "caches_ok c"
    and "list_all (\<lambda>e. readable (le_mode e) (le_data e)) (inp_entries input)"
  shows "case QRcode_encodeInput c input of
      (Inr code, _, _) \<Rightarrow> reads_back code (inp_level input) (concat (map (\<lambda>e. map (Pair (le_mode e)) (le_data e)) (inp_entries input)))
    | (Inl e, _, _) \<Rightarrow> e = ERANGE"
proof -
  have "QRcode_encodeInput c input = QRcode_encodeMask c input (-1)" using assms(1) by (simp add: QRcode_encodeInput_def qr_input_ok_def)
  then show ?thesis
    by (cases rule: encodeMask_reads [OF assms(1-3) _ _ assms(4), of "-1"]) (simp_all add: maskNum_def)
qed

definition reads_text :: "QRcode \<Rightarrow> QRecLevel \<Rightarrow> byte list \<Rightarrow> bool" where
  "reads_text code level s \<longleftrightarrow> (\<exists>cs. reads_back code level cs \<and> map snd cs = s)"

lemma encode_entries_reads:
  assumes "0 \<le> version" "version \<le> int QRSPEC_VERSION_MAX" "level \<le> QR_ECLEVEL_H" "caches_ok c"
    and "QRinput_new2 version level = Inr i0" "list_all entry_ok es" "list_all (\<lambda>e. readable (le_mode e) (le_data e)) es"
  shows "case fst (encode_built c (Inr (added es i0))) of Inr code \<Rightarrow> reads_text code level (concat (map le_data es)) | Inl e \<Rightarrow> e = ERANGE"
proof -
  let ?i = "added es i0"
  have i0: "inp_version i0 = nat version" "inp_level i0 = level" "inp_entries i0 = []" "inp_mqr i0 = False" "inp_fnc1 i0 = 0"
    using assms(1-3,5) by (auto simp: QRinput_new2_def)
  have ok: "qr_input_ok ?i" "inp_fnc1 ?i = 0" "inp_entries ?i = es" "inp_level ?i = level"
    using assms by (simp_all add: qr_input_ok_def i0 QRSPEC_VERSION_MAX_def)
  have snds: "map snd (concat (map (\<lambda>e. map (Pair (le_mode e)) (le_data e)) es)) = concat (map le_data es)"
    by (simp add: map_concat comp_def)
  show ?thesis
    using encodeInput_reads [OF ok(1,2) assms(4)] assms(7) snds unfolding ok(3,4) encode_built_def reads_text_def
    by (auto split: prod.splits sum.splits)
qed

lemma new2_ok:
  assumes "0 \<le> version" "version \<le> int QRSPEC_VERSION_MAX" "level \<le> QR_ECLEVEL_H"
  obtains i0 where "QRinput_new2 version level = Inr i0" "tail_ok i0"
  using assms by (simp add: QRinput_new2_def tail_ok_def)

lemma encodeString_reads:
  assumes "0 \<le> version" "version \<le> int QRSPEC_VERSION_MAX" "level \<le> QR_ECLEVEL_H" "caches_ok c"
    and "s \<noteq> []" "0 \<notin> set s"
  shows "case fst (QRcode_encodeString c (Some s) version level QR_MODE_8 casesensitive) of
       Inr code \<Rightarrow> reads_text code level (if casesensitive then s else map ascii_upper s)
     | Inl e \<Rightarrow> e = ERANGE"
proof -
  let ?t = "if casesensitive then s else map ascii_upper s"
  obtain i0 where i0: "QRinput_new2 version level = Inr i0" "tail_ok i0" using new2_ok [OF assms(1-3)] .
  have t: "0 \<notin> set ?t" using assms(6) by (auto simp: ascii_upper_0 [THEN iffD1] dest: ascii_upper_0 [THEN iffD1] sym)
  obtain es where es: "Split_splitString ?t i0 QR_MODE_8 = Inr (added es i0)" "concat (map le_data es) = ?t" "list_all entry_ok es"
    "\<forall>e \<in> set es. le_mode e \<in> {QR_MODE_NUM, QR_MODE_AN, QR_MODE_8}"
    using splitString_ok [OF i0(2) t, of QR_MODE_8] by auto
  have "list_all (\<lambda>e. readable (le_mode e) (le_data e)) es" using es(4) by (auto simp: list_all_iff readable_def)
  note r = encode_entries_reads [OF assms(1-4) i0(1) es(3) this]
  have "chr s \<noteq> 0" using assms(5,6) by (cases s) (auto simp: chr_def)
  then have "Split_splitStringToQRinput (Some s) i0 QR_MODE_8 casesensitive = Inr (added es i0)"
    using es(1) assms(6) by (auto simp: Split_splitStringToQRinput_def dupAndToUpper_def toUpper_plain)
  then have "QRcode_encodeString c (Some s) version level QR_MODE_8 casesensitive = encode_built c (Inr (added es i0))"
    by (simp add: QRcode_encodeString_def QRcode_encodeStringReal_def new_input_def i0)
  then show ?thesis using r unfolding es(2) by (simp only:)
qed

text \<open>
  C6. A string becomes a symbol that reads as the string: for every version from 0 (automatic) to
  40 and every non-empty C string, \<open>QRcode_encodeString\<close> with the hint \<open>QR_MODE_8\<close> fails only with
  \<open>ERANGE\<close>, and the symbol it returns reads back as the string, folded to upper case when the
  caller asks for that.
\<close>

theorem encodeString_roundtrip:
  assumes "0 \<le> version" "version \<le> int QRSPEC_VERSION_MAX" "level \<le> QR_ECLEVEL_H" "caches_ok c"
    and "s \<noteq> []" "0 \<notin> set s"
  shows "case fst (QRcode_encodeString c (Some s) version level QR_MODE_8 casesensitive) of
       Inr code \<Rightarrow> reads_text code level (if casesensitive then s else map ascii_upper s)
     | Inl e \<Rightarrow> e = ERANGE"
  by (rule encodeString_reads [OF assms])

theorem encodeString_roundtrip_witness:
  "case fst (QRcode_encodeString no_caches (Some [0x61, 0x31]) 0 QR_ECLEVEL_M QR_MODE_8 False) of
     Inr code \<Rightarrow> reads_text code QR_ECLEVEL_M [0x41, 0x31]
   | Inl e \<Rightarrow> e = ERANGE"
  using encodeString_roundtrip [OF _ _ _ no_caches_ok, of 0 QR_ECLEVEL_M "[0x61, 0x31]" False]
  by (simp add: ascii_upper_def split: sum.splits)

lemma encodeData_entry:
  assumes "0 \<le> version" "version \<le> int QRSPEC_VERSION_MAX" "level \<le> QR_ECLEVEL_H" "0 < n" "n \<le> length d"
  obtains i0 where "QRinput_new2 version level = Inr i0" "tail_ok i0"
    "\<And>c. QRcode_encodeData c (int n) (Some d) version level = encode_built c (Inr (added [entry_of QR_MODE_8 (take n d)] i0))"
proof -
  obtain i0 where i0: "QRinput_new2 version level = Inr i0" "tail_ok i0" using new2_ok [OF assms(1-3)] .
  have "QRinput_append i0 QR_MODE_8 (int n) d = Inr (added [entry_of QR_MODE_8 (take n d)] i0)"
    using assms(4,5) i0(2) by (intro append_ok) (simp_all add: data_ok_def)
  then show ?thesis
    using assms(4) i0 by (intro that [OF i0]) (simp add: QRcode_encodeData_def QRcode_encodeDataReal_def new_input_def)
qed

lemma encodeData_reads:
  assumes "0 \<le> version" "version \<le> int QRSPEC_VERSION_MAX" "level \<le> QR_ECLEVEL_H" "caches_ok c"
    and "0 < n" "n \<le> length d"
  shows "case fst (QRcode_encodeData c (int n) (Some d) version level) of
       Inr code \<Rightarrow> reads_text code level (take n d)
     | Inl e \<Rightarrow> e = ERANGE"
proof -
  let ?e = "entry_of QR_MODE_8 (take n d)"
  obtain i0 where i0: "QRinput_new2 version level = Inr i0"
    and enc: "QRcode_encodeData c (int n) (Some d) version level = encode_built c (Inr (added [?e] i0))"
    using encodeData_entry [OF assms(1-3,5,6)] by metis
  have "list_all entry_ok [?e]" "list_all (\<lambda>e. readable (le_mode e) (le_data e)) [?e]"
    using assms(5,6) by (auto simp: data_ok_def readable_def)
  from encode_entries_reads [OF assms(1-4) i0 this] enc show ?thesis by (simp split: sum.splits)
qed

text \<open>
  C7. Data becomes a symbol that reads as the data: \<open>QRcode_encodeData\<close> with a positive size up to the
  length of the array it is given fails only with \<open>ERANGE\<close>, and the symbol reads back as that many
  bytes, zero bytes included.
\<close>

theorem encodeData_roundtrip:
  assumes "0 \<le> version" "version \<le> int QRSPEC_VERSION_MAX" "level \<le> QR_ECLEVEL_H" "caches_ok c"
    and "0 < n" "n \<le> length d"
  shows "case fst (QRcode_encodeData c (int n) (Some d) version level) of
       Inr code \<Rightarrow> reads_text code level (take n d)
     | Inl e \<Rightarrow> e = ERANGE"
  by (rule encodeData_reads [OF assms])

theorem encodeData_roundtrip_witness:
  "case fst (QRcode_encodeData no_caches 3 (Some [0, 0xff, 0]) 0 QR_ECLEVEL_H) of
     Inr code \<Rightarrow> reads_text code QR_ECLEVEL_H [0, 0xff, 0]
   | Inl e \<Rightarrow> e = ERANGE"
  using encodeData_roundtrip [OF _ _ _ no_caches_ok, of 0 QR_ECLEVEL_H 3 "[0, 0xff, 0]"] by (simp split: sum.splits)

section \<open>When data fits\<close>

text \<open>The symbol exists exactly when the conversion of the entries succeeds.\<close>

lemma encode_built_ok_iff:
  assumes "qr_input_ok i" "inp_fnc1 i = 0" "caches_ok c"
  shows "(\<exists>code. fst (encode_built c (Inr i)) = Inr code) \<longleftrightarrow> (\<exists>bytes. fst (QRinput_getByteStream i) = Inr bytes)"
    and "(\<exists>code. fst (encode_built c (Inr i)) = Inr code) \<or> fst (encode_built c (Inr i)) = Inl ERANGE"
proof -
  have e: "fst (encode_built c (Inr i)) = fst (QRcode_encodeMask c i (-1))"
    using assms(1) by (simp add: encode_built_def QRcode_encodeInput_def qr_input_ok_def split: prod.splits)
  have "(\<exists>bytes. fst (QRinput_getByteStream i) = Inr bytes) \<and> (\<exists>code. fst (QRcode_encodeMask c i (-1)) = Inr code)
    \<or> fst (QRinput_getByteStream i) = Inl ERANGE \<and> fst (QRcode_encodeMask c i (-1)) = Inl ERANGE"
    using assms(1,2)
  proof (cases rule: getByteStream_ok)
    case (ok v bytes)
    have v: "v = inp_version (converted v i)" "inp_level (converted v i) = inp_level i" by (simp_all add: converted_def)
    have "-1 < int maskNum" by simp
    from encodeMask_ok [OF assms(1,3) _ this ok(1) v(1) ok(3,4) v(2) ok(5)]
    have "\<exists>code. fst (QRcode_encodeMask c i (-1)) = Inr code" by (metis fst_conv order_refl)
    then show ?thesis using ok(1) by simp
  next
    case (range v i')
    then have "QRraw_new (c_rslist c) i = (Inl ERANGE, i', c_rslist c)" by (simp add: QRraw_new_def)
    then show ?thesis
      using assms range by (simp add: QRcode_encodeMask_def qr_input_ok_def QRSPEC_VERSION_MAX_def)
  qed
  then show "(\<exists>code. fst (encode_built c (Inr i)) = Inr code) \<longleftrightarrow> (\<exists>bytes. fst (QRinput_getByteStream i) = Inr bytes)"
    and "(\<exists>code. fst (encode_built c (Inr i)) = Inr code) \<or> fst (encode_built c (Inr i)) = Inl ERANGE"
    unfolding e by auto
qed

lemma mode_8_words:
  "QRspec_lengthIndicator QR_MODE_8 v = (if v \<le> 9 then 8 else 16)"
  "QRspec_maximumWords QR_MODE_8 v = (if v \<le> 9 then 255 else 65535)"
  by (simp_all add: QRspec_lengthIndicator_def QRspec_maximumWords_def QRinput_isSplittableMode_def lengthTableBits_def length_class_def)

lemma entry_bits_8:
  assumes "d \<noteq> []"
  shows "length (entry_bits v QR_MODE_8 d) = 8 * length d
     + (4 + QRspec_lengthIndicator QR_MODE_8 v) * ((length d + QRspec_maximumWords QR_MODE_8 v - 1) div QRspec_maximumWords QR_MODE_8 v)"
    (is "_ = _ + ?h * ((_ + ?W - 1) div _)")
  using assms
proof (induction "length d" arbitrary: d rule: less_induct)
  case less
  have W: "0 < ?W" by (simp add: mode_8_words)
  have seg: "length (seg_bits v QR_MODE_8 x) = 8 * length x + ?h" for x
    by (simp add: seg_bits_def payload_def)
  show ?case
  proof (cases "length d > ?W")
    case True
    let ?r = "drop ?W d"
    have r: "?r \<noteq> []" "length ?r < length d" using True W by auto
    have "(length d + ?W - 1) = (length ?r + ?W - 1) + ?W" using True by simp
    then have "(length d + ?W - 1) div ?W = Suc ((length ?r + ?W - 1) div ?W)" using W by (simp only: div_add_self2)
    moreover have "entry_bits v QR_MODE_8 d = seg_bits v QR_MODE_8 (take ?W d) @ entry_bits v QR_MODE_8 ?r"
      using True W by (subst entry_bits_unfold) (simp add: Let_def)
    ultimately show ?thesis using less(1) [OF r(2,1)] True by (simp add: seg algebra_simps)
  next
    case False
    then have "length d + ?W - 1 = 1 * ?W + (length d - 1)" "length d - 1 < ?W" using less.prems W by (cases d; simp)+
    then have "(length d + ?W - 1) div ?W = 1" by (simp only: radix)
    then show ?thesis using False by (simp add: entry_bits_one seg)
  qed
qed

lemma built_facts:
  assumes "0 \<le> version" "version \<le> int QRSPEC_VERSION_MAX" "level \<le> QR_ECLEVEL_H" "QRinput_new2 version level = Inr i0"
    and "d \<noteq> []"
  defines "i \<equiv> added [entry_of QR_MODE_8 d] i0"
  shows "qr_input_ok i" "inp_fnc1 i = 0" "inp_level i = level" "inp_version i = nat version" "inp_entries i = [entry_of QR_MODE_8 d]"
  using assms by (auto simp: QRinput_new2_def qr_input_ok_def QRSPEC_VERSION_MAX_def data_ok_def)

lemma data_fits_iff:
  assumes "10 \<le> version" "version \<le> int QRSPEC_VERSION_MAX" "level \<le> QR_ECLEVEL_H" "caches_ok c"
    and "0 < n" "n \<le> length d"
  shows "(\<exists>code. fst (QRcode_encodeData c (int n) (Some d) version level) = Inr code)
     \<longleftrightarrow> 8 * n + 20 \<le> 8 * QRspec_getDataLength QRSPEC_VERSION_MAX level"
proof -
  let ?d = "take n d"
  have v0: "0 \<le> version" using assms(1) by simp
  obtain i0 where i0: "QRinput_new2 version level = Inr i0"
    and enc: "QRcode_encodeData c (int n) (Some d) version level = encode_built c (Inr (added [entry_of QR_MODE_8 ?d] i0))"
    using encodeData_entry [OF v0 assms(2,3,5,6)] by metis
  have ne: "?d \<noteq> []" using assms(5,6) by auto
  note f = built_facts [OF v0 assms(2,3) i0 ne]
  let ?i = "added [entry_of QR_MODE_8 ?d] i0"
  have cap: "QRspec_getDataLength 40 level \<le> 2956"
  proof -
    have "list_all (\<lambda>e. cap_words (qrspecCapacity ! 40) - e \<le> 2956) (cap_ec (qrspecCapacity ! 40))"
      "length (cap_ec (qrspecCapacity ! 40)) = 4" by code_simp+
    then show ?thesis using assms(3) by (simp add: QRspec_getDataLength_def list_all_length)
  qed
  have len: "length (all_bits v (inp_entries ?i)) \<le> 8 * QRspec_getDataLength 40 level \<longleftrightarrow> 8 * n + 20 \<le> 8 * QRspec_getDataLength 40 level"
    if "nat version \<le> v" for v
  proof -
    have l: "length (all_bits v (inp_entries ?i)) = 8 * n + 20 * ((n + 65534) div 65535)"
      using that assms(1,6) entry_bits_8 [OF ne, of v] unfolding f(5) by (simp add: all_bits_def mode_8_words add.commute)
    have "1 \<le> (n + 65534) div 65535" using assms(5) by (simp add: Suc_le_eq div_greater_zero_iff)
    moreover have "(n + 65534) div 65535 = 1" if "n \<le> 65535" using that assms(5) by linarith
    ultimately show ?thesis unfolding l using cap by (cases "n \<le> 65535") auto
  qed
  have "(\<exists>bytes. fst (QRinput_getByteStream ?i) = Inr bytes) \<longleftrightarrow> 8 * n + 20 \<le> 8 * QRspec_getDataLength 40 level"
    using f(1,2)
  proof (cases rule: getByteStream_ok)
    case (ok v bytes)
    have "length (all_bits v (inp_entries ?i)) \<le> length (bytes_bits bytes)" unfolding ok(6) by simp
    also have "\<dots> \<le> 8 * QRspec_getDataLength 40 level"
      using ok(3-5) dataLength_mono [OF ok(3,4) order_refl assms(3)] f(3) by simp
    finally show ?thesis using len [of v] ok f(4) by simp
  next
    case (range v i')
    then show ?thesis using len [of v] f by simp
  qed
  then show ?thesis unfolding enc encode_built_ok_iff(1) [OF f(1,2) assms(4)] by (simp add: QRSPEC_VERSION_MAX_def)
qed

text \<open>
  C19. When the caller asks for version 10 or more, \<open>QRcode_encodeData\<close> succeeds exactly when the
  data, with a segment header of 20 bits, fits into version 40 at the level: it never gives up
  early, and never returns a symbol too small.
\<close>

theorem encodeData_capacity:
  assumes "10 \<le> version" "version \<le> int QRSPEC_VERSION_MAX" "level \<le> QR_ECLEVEL_H" "caches_ok c"
    and "0 < n" "n \<le> length d"
  shows "(\<exists>code. fst (QRcode_encodeData c (int n) (Some d) version level) = Inr code)
     \<longleftrightarrow> 8 * n + 20 \<le> 8 * QRspec_getDataLength QRSPEC_VERSION_MAX level"
  by (rule data_fits_iff [OF assms])

theorem encodeData_capacity_witness:
  "(\<exists>code. fst (QRcode_encodeData no_caches 2953 (Some (replicate 2953 0)) 10 QR_ECLEVEL_L) = Inr code)"
proof -
  have "QRspec_getDataLength 40 QR_ECLEVEL_L = 2956" by code_simp
  then show ?thesis using encodeData_capacity [OF _ _ _ no_caches_ok, of 10 QR_ECLEVEL_L 2953 "replicate 2953 0"]
    by (simp add: QRSPEC_VERSION_MAX_def)
qed

text \<open>
  C33. When the version is left to the library, it gives up too early: data of 2939 to 2953 bytes
  fits into version 40 at level L, and is encoded when the caller asks for version 40, but with
  version 0 the estimate and the first conversion use the segment headers of the small versions,
  find that no version holds them, and the call fails with \<open>ERANGE\<close>.
\<close>

theorem encodeData_gives_up_early:
  assumes "2939 \<le> length d" "length d \<le> 2953" "caches_ok c"
  shows "fst (QRcode_encodeData c (int (length d)) (Some d) 0 QR_ECLEVEL_L) = Inl ERANGE
     \<and> (\<exists>code. fst (QRcode_encodeData c (int (length d)) (Some d) 40 QR_ECLEVEL_L) = Inr code)"
proof
  have cap: "QRspec_getDataLength 40 QR_ECLEVEL_L = 2956" by code_simp
  have ne: "d \<noteq> []" "0 < length d" using assms(1) by auto
  show "\<exists>code. fst (QRcode_encodeData c (int (length d)) (Some d) 40 QR_ECLEVEL_L) = Inr code"
    using data_fits_iff [OF _ _ _ assms(3), of 40 QR_ECLEVEL_L "length d" d] assms(2) ne(2) cap by (simp add: QRSPEC_VERSION_MAX_def)
  obtain i0 where i0: "QRinput_new2 0 QR_ECLEVEL_L = Inr i0"
    and enc: "QRcode_encodeData c (int (length d)) (Some d) 0 QR_ECLEVEL_L = encode_built c (Inr (added [entry_of QR_MODE_8 d] i0))"
    using encodeData_entry [of 0 QR_ECLEVEL_L "length d" d] ne(2) by (auto simp: QRSPEC_VERSION_MAX_def)
  let ?i = "added [entry_of QR_MODE_8 d] i0"
  have f: "qr_input_ok ?i" "inp_fnc1 ?i = 0" "inp_level ?i = QR_ECLEVEL_L" "inp_version ?i = 0" "inp_entries ?i = [entry_of QR_MODE_8 d]"
    using built_facts [OF _ _ _ i0 ne(1)] by (simp_all add: QRSPEC_VERSION_MAX_def)
  have none: "QRspec_getMinimumVersion m QR_ECLEVEL_L = -1" if "2956 < m" for m
  proof (cases rule: minimumVersion_cases [of m QR_ECLEVEL_L])
    case (some v)
    then show ?thesis using dataLength_mono [of v 40 QR_ECLEVEL_L] cap that by simp
  qed simp
  have segs: "(length d + 254) div 255 = 12" "(length d + 255) div 256 = 12" using assms(1,2) by linarith+
  then have bits: "length (all_bits 0 (inp_entries ?i)) = 8 * length d + 144" "QRinput_estimateBitStreamSize ?i 0 = 8 * length d + 144"
    using entry_bits_8 [OF ne(1), of 0] f(1) unfolding QRinput_estimateBitStreamSize_def f(5)
    by (simp_all add: Let_def qr_input_ok_def add.commute all_bits_def mode_8_words QRinput_estimateBitStreamSizeOfEntry_def entry_overhead_def entry_of_def
        QRinput_estimateBitsMode8_def MODE_INDICATOR_SIZE_def)
  have big: "2956 < (8 * length d + 144 + 7) div 8" using assms(1) by simp
  then have "QRinput_estimateVersion ?i = -1"
    unfolding QRinput_estimateVersion_def by (subst estimateVersion_loop.simps) (simp only: bits(2) f(3) none Let_def if_True; simp)
  moreover have "\<exists>i'. convertData_loop ?i = Some (Inl ERANGE, i')"
  proof -
    have "list_all entry_ok (inp_entries ?i)" "\<not> inp_mqr ?i" using f(1) unfolding qr_input_ok_def by blast+
    from createBitStream_loop_ok [OF this(1), of 0 0] this(2) obtain i' where i': "QRinput_createBitStream ?i = (Inr (8 * length d + 144), i')"
      "inp_level i' = inp_level ?i" unfolding QRinput_createBitStream_def bits(1) f(4) by simp
    show ?thesis by (subst convertData_loop.simps) (simp only: i' prod.case sum.case f(3) Let_def none [OF big]; simp)
  qed
  ultimately have "fst (QRinput_convertData ?i) = Inl ERANGE" by (auto simp: QRinput_convertData_def)
  then have "fst (QRinput_getByteStream ?i) = Inl ERANGE"
    using f(1,2) by (auto simp: QRinput_getByteStream_def QRinput_getBitStream_def QRinput_mergeBitStream_def qr_input_ok_def split: prod.splits)
  then show "fst (QRcode_encodeData c (int (length d)) (Some d) 0 QR_ECLEVEL_L) = Inl ERANGE"
    unfolding enc using encode_built_ok_iff [OF f(1,2) assms(3)] by auto
qed

theorem encodeData_gives_up_early_witness:
  "fst (QRcode_encodeData no_caches 2953 (Some (replicate 2953 0)) 0 QR_ECLEVEL_L) = Inl ERANGE"
  using encodeData_gives_up_early [OF _ _ no_caches_ok, of "replicate 2953 0"] by simp

end
