(* ===== verification/QR_Structured.thy ===== *)
theory QR_Structured
  imports QR_Parts QR_Text
begin

text \<open>
  Structured symbols: a part that fits its version is always converted, and the symbols of a
  split input together read as the input.
\<close>

section \<open>Parts are converted\<close>

lemma indicator_8: "QRinput_isSplittableMode mode \<Longrightarrow> 8 \<le> QRspec_lengthIndicator mode v"
  by (cases rule: indicator_cases, assumption; cases rule: class_cases [of v]) (simp_all add: QRspec_lengthIndicator_def lengthTableBits_def)

lemma maximumWords_mono: "v \<le> v' \<Longrightarrow> QRinput_isSplittableMode mode \<Longrightarrow> QRspec_maximumWords mode v \<le> QRspec_maximumWords mode v'"
  by (cases rule: indicator_cases, assumption; cases rule: class_cases [of v]; cases rule: class_cases [of v'])
    (simp_all add: QRspec_maximumWords_def Let_def lengthTableBits_def)

lemma payload_len_add:
  assumes "QRinput_isSplittableMode mode" "mode = QR_MODE_KANJI \<Longrightarrow> even a"
  shows "payload_len mode (a + b) \<le> payload_len mode a + payload_len mode b"
proof (cases rule: indicator_cases [OF assms(1)])
  case 1
  define x y where "x = (10 * a + 2) div 3" and "y = (10 * b + 2) div 3"
  have "10 * a \<le> 3 * x" "10 * b \<le> 3 * y" unfolding x_def y_def by linarith+
  then have "(10 * (a + b) + 2) div 3 \<le> (3 * (x + y) + 2) div 3" by (intro div_le_mono) (simp add: distrib_left)
  then have "(10 * (a + b) + 2) div 3 \<le> (10 * a + 2) div 3 + (10 * b + 2) div 3" by (simp add: x_def y_def)
  then show ?thesis using 1 by (simp add: payload_len_def estimateNum_div)
next
  case 2
  define x y where "x = (11 * a + 1) div 2" and "y = (11 * b + 1) div 2"
  have "11 * a \<le> 2 * x" "11 * b \<le> 2 * y" unfolding x_def y_def by linarith+
  then have "(11 * (a + b) + 1) div 2 \<le> (2 * (x + y) + 1) div 2" by (intro div_le_mono) (simp add: distrib_left)
  then have "(11 * (a + b) + 1) div 2 \<le> (11 * a + 1) div 2 + (11 * b + 1) div 2" by (simp add: x_def y_def)
  then show ?thesis using 2 by (simp add: payload_len_def estimateAn_div)
next
  case 4
  then show ?thesis using assms(2) by (auto simp: payload_len_def QRinput_estimateBitsModeKanji_def)
qed (simp add: payload_len_def QRinput_estimateBitsMode8_def)

lemma payload_le_entry_bits: "QRinput_isSplittableMode mode \<Longrightarrow> payload_len mode (length d) \<le> length (entry_bits v mode d)"
proof (induction "length d" arbitrary: d rule: less_induct)
  case less
  let ?w = "QRspec_maximumWords mode v"
  show ?case
  proof (cases "?w \<noteq> 0 \<and> length d > ?w")
    case True
    have "payload_len mode (?w + (length d - ?w)) \<le> payload_len mode ?w + payload_len mode (length d - ?w)"
      using less.prems maximumWords_even by (intro payload_len_add) auto
    moreover have "payload_len mode (length (drop ?w d)) \<le> length (entry_bits v mode (drop ?w d))"
      using True less.prems by (intro less.hyps) auto
    ultimately show ?thesis using True length_seg [OF less.prems, of v "take ?w d"] by (subst entry_bits_unfold) (simp add: Let_def)
  next
    case False
    then show ?thesis using length_seg [OF less.prems, of v d] by (subst entry_bits_unfold) (auto simp: Let_def)
  qed
qed

text \<open>A higher version lengthens the count fields only, and from version 27 on nothing changes.\<close>

lemma entry_bits_grow:
  assumes "part_entry e" "level \<le> QR_ECLEVEL_H" "1 \<le> v" "v \<le> v'" "v' \<le> 40"
    and "length (entry_bits v (le_mode e) (le_data e)) \<le> 8 * QRspec_getDataLength v level"
  shows "length (entry_bits v' (le_mode e) (le_data e)) \<le> (if v < 27 then 2 else 1) * length (entry_bits v (le_mode e) (le_data e))"
proof -
  let ?m = "le_mode e" and ?d = "le_data e"
  have e: "QRinput_isSplittableMode ?m" "data_ok ?m ?d" using assms(1) by (auto simp: part_entry_def entry_ok_def)
  have one: "length ?d \<le> QRspec_maximumWords ?m v"
    using payload_le_entry_bits [OF e(1), of ?d v] assms(4-6) e(2)
    by (intro one_segment_fits [OF e(1) assms(2,3)]) (auto simp: data_ok_def)
  then have "length ?d \<le> QRspec_maximumWords ?m v'" using maximumWords_mono [OF assms(4) e(1)] by simp
  then have l: "length (entry_bits u ?m ?d) = 4 + QRspec_lengthIndicator ?m u + payload_len ?m (length ?d)" if "u = v \<or> u = v'" for u
    using length_seg [OF e(1)] entry_bits_one [of ?m ?d u] one that by auto
  have "QRspec_lengthIndicator ?m v' = QRspec_lengthIndicator ?m v" if "27 \<le> v"
    using that assms(4) by (simp add: QRspec_lengthIndicator_def length_class_def)
  then show ?thesis using l [of v] l [of v'] indicator_8 [OF e(1), of v] lengthIndicator_le [of ?m v'] by (cases "v < 27") simp_all
qed

lemma all_bits_grow:
  assumes "level \<le> QR_ECLEVEL_H" "1 \<le> v" "v \<le> v'" "v' \<le> 40" "list_all part_entry es"
    and "length (all_bits v es) \<le> 8 * QRspec_getDataLength v level"
  shows "length (all_bits v' es) \<le> (if v < 27 then 2 else 1) * length (all_bits v es)"
  using assms(5,6)
proof (induction es)
  case (Cons e es)
  have "length (entry_bits v' (le_mode e) (le_data e)) \<le> (if v < 27 then 2 else 1) * length (entry_bits v (le_mode e) (le_data e))"
    using Cons.prems by (intro entry_bits_grow [OF _ assms(1-4)]) simp_all
  then show ?case using Cons by (simp add: distrib_left)
qed simp

lemma capacity_double:
  assumes "level \<le> QR_ECLEVEL_H" "1 \<le> v" "v \<le> 40"
  shows "(if v < 27 then 2 else 1) * QRspec_getDataLength v level \<le> QRspec_getDataLength 40 level"
proof (cases "v < 27")
  case True
  have "level = 0 \<or> level = 1 \<or> level = 2 \<or> level = 3" using assms(1) by auto
  then have "2 * QRspec_getDataLength 26 level \<le> QRspec_getDataLength 40 level"
    by (elim disjE; simp add: QRspec_getDataLength_def qrspecCapacity_def)
  moreover have "QRspec_getDataLength v level \<le> QRspec_getDataLength 26 level" using assms True by (intro dataLength_mono) auto
  ultimately show ?thesis using True by simp
qed (use assms in \<open>auto intro: dataLength_mono\<close>)

text \<open>The conversion of a part, with or without a header, cannot run out of versions.\<close>

lemma part_converts:
  assumes "level \<le> QR_ECLEVEL_H" "1 \<le> v" "v \<le> 40" "list_all part_entry es"
    and "inp_entries i = hs @ es" "\<And>u. length (all_bits u hs) = h" "length (all_bits v es) + h \<le> 8 * QRspec_getDataLength v level"
    and "inp_version i = v" "inp_level i = level" "qr_input_ok i" "inp_fnc1 i = 0"
  shows "QRinput_getByteStream i \<noteq> (Inl ERANGE, i')"
  using assms(10,11)
proof (cases rule: getByteStream_ok)
  case (range v' j)
  have "length (all_bits v' es) \<le> (if v < 27 then 2 else 1) * length (all_bits v es)"
    using range(2,3) assms(7,8) by (intro all_bits_grow [OF assms(1,2) _ _ assms(4)]) auto
  then have "length (all_bits v' (inp_entries i)) \<le> (if v < 27 then 2 else 1) * (8 * QRspec_getDataLength v level)"
    using assms(5-7) by (cases "v < 27") auto
  also have "\<dots> \<le> 8 * QRspec_getDataLength 40 level" using capacity_double [OF assms(1-3)] by (cases "v < 27") simp_all
  finally show ?thesis using range(4) assms(9) by simp
qed auto

section \<open>The symbols of a structure\<close>

definition header_chars :: "nat \<Rightarrow> nat \<Rightarrow> byte \<Rightarrow> (QRencodeMode \<times> byte) list" where
  "header_chars n k p = (if n = 1 then [] else map (Pair QR_MODE_STRUCTURE) [word_of_nat n, word_of_nat k, p])"

lemma header_entry:
  assumes "1 \<le> n" "n \<le> 16" "1 \<le> k" "k \<le> 16"
  shows "entry_ok (entry_of QR_MODE_STRUCTURE [word_of_nat n, word_of_nat k, p])" "readable QR_MODE_STRUCTURE [word_of_nat n, word_of_nat k, p]"
    "length (all_bits u [entry_of QR_MODE_STRUCTURE [word_of_nat n, word_of_nat k, p]]) = 20"
proof -
  have "unat (word_of_nat m :: byte) = m" if "m \<le> 16" for m using that by (simp add: unat_of_nat take_bit_nat_eq_self)
  then show "readable QR_MODE_STRUCTURE [word_of_nat n, word_of_nat k, p]" using assms by (simp add: readable_def)
  have "entry_bits u QR_MODE_STRUCTURE d = seg_bits u QR_MODE_STRUCTURE d" for d
    by (rule entry_bits_one) (simp add: QRinput_isSplittableMode_def)
  then show "length (all_bits u [entry_of QR_MODE_STRUCTURE [word_of_nat n, word_of_nat k, p]]) = 20" by (simp add: seg_bits_def)
qed (simp add: data_ok_def)

lemma encodeInput_part:
  assumes "level \<le> QR_ECLEVEL_H" "1 \<le> v" "v \<le> 40" "list_all part_entry es"
    and "inp_entries i = hs @ es" "list_all entry_ok hs" "list_all (\<lambda>e. readable (le_mode e) (le_data e)) hs"
    "\<And>u. length (all_bits u hs) = h" "length (all_bits v es) + h \<le> 8 * QRspec_getDataLength v level"
    and "part_input v level i" "caches_ok c"
  obtains code i' c' where "QRcode_encodeInput c i = (Inr code, i', c')" "caches_ok c'" "reads_back code level (entry_chars (hs @ es))"
proof -
  have i: "inp_version i = v" "inp_level i = level" "inp_fnc1 i = 0" "\<not> inp_mqr i" using assms(10) by (simp_all add: part_input_def)
  have "list_all entry_ok es" using assms(4) by (auto simp: part_entry_def list_all_iff)
  then have ok: "qr_input_ok i" using i assms(1,3,5,6) by (simp add: qr_input_ok_def)
  have rd: "list_all (\<lambda>e. readable (le_mode e) (le_data e)) (inp_entries i)"
    using assms(4,5,7) by (auto simp: part_entry_def list_all_iff)
  have enc: "QRcode_encodeInput c i = QRcode_encodeMask c i (-1)" using i by (simp add: QRcode_encodeInput_def)
  have "- 1 \<le> (- 1 :: int)" "(- 1 :: int) < int maskNum" by simp_all
  from ok i(3) assms(11) this rd show ?thesis
  proof (cases rule: encodeMask_reads)
    case (ok code input' c')
    then show ?thesis using that [of code input' c'] enc assms(5) i(2) by (simp add: entry_chars_def)
  next
    case (range input' c')
    then show ?thesis using part_converts [OF assms(1-5,8,9) i(1,2) ok i(3)] by simp
  qed
qed

text \<open>What is read from the symbols, part by part; \<open>hdr\<close> gives the headers.\<close>

lemma encode_inputs_parts:
  assumes v: "level \<le> QR_ECLEVEL_H" "1 \<le> v" "v \<le> 40"
    and "list_all2 (\<lambda>i (hs, es). inp_entries i = hs @ es \<and> part_input v level i \<and> list_all part_entry es \<and> list_all entry_ok hs
         \<and> list_all (\<lambda>e. readable (le_mode e) (le_data e)) hs \<and> (\<exists>h. (\<forall>u. length (all_bits u hs) = h)
         \<and> length (all_bits v es) + h \<le> 8 * QRspec_getDataLength v level)) is ps" "caches_ok c"
  shows "\<exists>codes is' c'. encode_inputs c is = (Inr codes, is', c') \<and> list_all2 (\<lambda>code (hs, es). reads_back code level (entry_chars (hs @ es))) codes ps"
  using assms(4,5)
proof (induction "is" ps arbitrary: c rule: list_all2_induct)
  case (Cons i "is" p ps)
  obtain hs es where p: "p = (hs, es)" by (rule prod.exhaust)
  from Cons.hyps(1) [unfolded p] obtain h where h: "\<And>u. length (all_bits u hs) = h" "length (all_bits v es) + h \<le> 8 * QRspec_getDataLength v level"
    and i: "inp_entries i = hs @ es" "part_input v level i" "list_all part_entry es" "list_all entry_ok hs"
    "list_all (\<lambda>e. readable (le_mode e) (le_data e)) hs" by auto
  obtain code i' c' where 1: "QRcode_encodeInput c i = (Inr code, i', c')" "caches_ok c'" "reads_back code level (entry_chars (hs @ es))"
    using encodeInput_part [OF v i(3,1,4,5) h i(2) Cons.prems] by blast
  from Cons.IH [OF 1(2)] obtain codes is' c2 where "encode_inputs c' is = (Inr codes, is', c2)"
    "list_all2 (\<lambda>code (hs, es). reads_back code level (entry_chars (hs @ es))) codes ps" by blast
  then show ?case using 1 p by (intro exI [of _ "code # codes"]) simp
qed simp

text \<open>
  C9. A set of structured symbols reads as the input. For an input with a version and entries of
  the four data modes, \<open>QRcode_encodeInputToStructured\<close> fails only when the splitting fails; no
  symbol fails afterwards. Otherwise it returns one to sixteen symbols, each reads as its header
  (number of symbols, position, parity of all bytes; none for a single symbol) followed by a
  part, and the parts in order are the bytes of the input with their modes.
\<close>

theorem structured_roundtrip:
  assumes "qr_input_ok input" "list_all part_entry (inp_entries input)" "1 \<le> inp_version input" "caches_ok c"
  shows "case fst (QRcode_encodeInputToStructured c input) of
     Inr codes \<Rightarrow> (\<exists>parts. codes \<noteq> [] \<and> length codes \<le> MAX_STRUCTURED_SYMBOLS \<and> length parts = length codes
        \<and> concat parts = entry_chars (inp_entries input)
        \<and> (\<forall>k < length codes. reads_back (codes ! k) (inp_level input)
             (header_chars (length codes) (k + 1) (data_parity (map snd (entry_chars (inp_entries input)))) @ parts ! k)))
   | Inl e \<Rightarrow> QRinput_splitQRinputToStruct input = Inl e"
proof -
  let ?l = "inp_level input" and ?v = "inp_version input" and ?p = "data_parity (map snd (entry_chars (inp_entries input)))"
  have v: "?l \<le> QR_ECLEVEL_H" "?v \<le> 40" using assms(1) by (simp_all add: qr_input_ok_def)
  have w: "20 \<le> 8 * QRspec_getDataLength ?v ?l" using capacity_class(2) [OF v(1) assms(3) v(2)] by simp
  from assms(1,2) refl assms(3) refl show ?thesis
  proof (cases rule: split_ok)
    case (ok s parts)
    let ?n = "length parts"
    let ?hs = "\<lambda>k. if ?n = 1 then [] else [entry_of QR_MODE_STRUCTURE [word_of_nat ?n, word_of_nat k, ?p]]"
    let ?ps = "map (\<lambda>k. (?hs (k + 1), inp_entries (parts ! k))) [0..<?n]"
    have n: "1 \<le> ?n" using ok(2) by (simp add: Suc_leI)
    have len: "length (st_inputs s) = ?n" by (simp add: ok(6) struct_of_def)
    have at: "inp_entries (st_inputs s ! k) = ?hs (k + 1) @ inp_entries (parts ! k) \<and> part_input ?v ?l (st_inputs s ! k)
       \<and> list_all part_entry (inp_entries (parts ! k)) \<and> length (all_bits ?v (inp_entries (parts ! k))) \<le> 8 * QRspec_getDataLength ?v ?l - 20"
      if "k < ?n" for k
      using that ok(4) by (auto simp: ok(6) struct_of_def with_header_def part_ok_def part_input_def list_all_length nth_enumerate_eq)
    have hs: "list_all entry_ok (?hs (k + 1)) \<and> list_all (\<lambda>e. readable (le_mode e) (le_data e)) (?hs (k + 1))
       \<and> (\<exists>h \<le> 20. \<forall>u. length (all_bits u (?hs (k + 1))) = h)" if "k < ?n" for k
      using header_entry [OF n ok(3), where k = "k + 1" and p = ?p] that ok(3) by (auto simp del: all_bits_simps(2))
    have "list_all2 (\<lambda>i (hs, es). inp_entries i = hs @ es \<and> part_input ?v ?l i \<and> list_all part_entry es \<and> list_all entry_ok hs
         \<and> list_all (\<lambda>e. readable (le_mode e) (le_data e)) hs \<and> (\<exists>h. (\<forall>u. length (all_bits u hs) = h)
         \<and> length (all_bits ?v es) + h \<le> 8 * QRspec_getDataLength ?v ?l)) (st_inputs s) ?ps"
    proof (rule list_all2_all_nthI)
      fix k assume "k < length (st_inputs s)"
      then have k: "k < ?n" using len by simp
      from hs [OF k] obtain h where h: "h \<le> 20" "\<forall>u. length (all_bits u (?hs (k + 1))) = h" by blast
      have "length (all_bits ?v (inp_entries (parts ! k))) + h \<le> 8 * QRspec_getDataLength ?v ?l" using at [OF k] h(1) w by linarith
      with h(2) hs [OF k] at [OF k] have "(\<lambda>i (hs, es). inp_entries i = hs @ es \<and> part_input ?v ?l i \<and> list_all part_entry es \<and> list_all entry_ok hs
         \<and> list_all (\<lambda>e. readable (le_mode e) (le_data e)) hs \<and> (\<exists>h. (\<forall>u. length (all_bits u hs) = h)
         \<and> length (all_bits ?v es) + h \<le> 8 * QRspec_getDataLength ?v ?l)) (st_inputs s ! k) (?hs (k + 1), inp_entries (parts ! k))"
        unfolding prod.case by blast
      then show "(\<lambda>i (hs, es). inp_entries i = hs @ es \<and> part_input ?v ?l i \<and> list_all part_entry es \<and> list_all entry_ok hs
         \<and> list_all (\<lambda>e. readable (le_mode e) (le_data e)) hs \<and> (\<exists>h. (\<forall>u. length (all_bits u hs) = h)
         \<and> length (all_bits ?v es) + h \<le> 8 * QRspec_getDataLength ?v ?l)) (st_inputs s ! k) (?ps ! k)"
        using k by (simp only: nth_map_upt add_0 diff_zero)
    qed (simp add: len)
    from encode_inputs_parts [OF v(1) assms(3) v(2) this assms(4)]
    obtain codes is' c' where codes: "encode_inputs c (st_inputs s) = (Inr codes, is', c')"
      "list_all2 (\<lambda>code (hs, es). reads_back code ?l (entry_chars (hs @ es))) codes ?ps" by blast
    have nc: "length codes = ?n" using list_all2_lengthD [OF codes(2)] by simp
    have rd: "reads_back (codes ! k) ?l (header_chars ?n (k + 1) ?p @ entry_chars (inp_entries (parts ! k)))" if "k < ?n" for k
    proof -
      have "reads_back (codes ! k) ?l (entry_chars (?hs (k + 1) @ inp_entries (parts ! k)))"
        using list_all2_nthD [OF codes(2), of k] that nc by (simp only: nth_map_upt prod.case add_0 diff_zero)
      moreover have "entry_chars (?hs (k + 1)) = header_chars ?n (k + 1) ?p" by (simp add: header_chars_def)
      ultimately show ?thesis by (simp only: entry_chars_simps(3))
    qed
    have "codes \<noteq> []" using nc ok(2) by auto
    then have "fst (QRcode_encodeInputToStructured c input) = Inr codes"
      by (simp add: QRcode_encodeInputToStructured_def ok(1) QRcode_encodeInputStructured_def codes(1))
    then show ?thesis using \<open>codes \<noteq> []\<close> nc rd ok(3,5)
      by (auto simp: MAX_STRUCTURED_SYMBOLS_def intro!: exI [of _ "map (\<lambda>i. entry_chars (inp_entries i)) parts"])
  qed (simp_all add: QRcode_encodeInputToStructured_def)
qed

theorem structured_roundtrip_witness:
  "\<exists>codes parts. fst (QRcode_encodeInputToStructured no_caches ten_bytes) = Inr codes
     \<and> concat parts = map (Pair QR_MODE_8) [1, 2, 3, 4, 5, 6, 7, 8, 9, 10] \<and> length parts = length codes
     \<and> (\<forall>k < length codes. reads_back (codes ! k) QR_ECLEVEL_H (header_chars (length codes) (k + 1) 11 @ parts ! k))"
proof -
  have e: "entry_chars (inp_entries ten_bytes) = map (Pair QR_MODE_8) [1, 2, 3, 4, 5, 6, 7, 8, 9, 10]" "inp_level ten_bytes = QR_ECLEVEL_H"
    by (simp_all add: ten_bytes_def)
  have p: "data_parity (map snd (map (Pair QR_MODE_8) [1, 2, 3, 4, 5, 6, 7, 8, 9, 10])) = 11" by (simp add: data_parity_def)
  have s: "QRinput_splitQRinputToStruct ten_bytes \<noteq> Inl x" for x using ten_bytes_split by auto
  show ?thesis using structured_roundtrip [OF ten_bytes no_caches_ok] s unfolding e p by (auto split: sum.splits)
qed

end
