(* ===== verification/QR_Images.thy ===== *)
theory QR_Images
  imports QR_Tool QR_Structured
begin

text \<open>
  The images of \<open>qrenc.c\<close>: readers of the text formats recover the modules of the symbol, the
  pixels of the PNG image are the enlarged modules, the rectangles of the SVG image cover them.
\<close>

section \<open>Lines\<close>


definition unlines :: "string list \<Rightarrow> string" where
  "unlines ls = concat (map (\<lambda>l. l @ [newline]) ls)"



lemma unlines_simps [simp]: "unlines [] = []" "unlines (l # ls) = l @ newline # unlines ls" "unlines (ls @ ms) = unlines ls @ unlines ms"
  by (simp_all add: unlines_def)



section \<open>Text\<close>





























section \<open>Lines for ANSI terminals\<close>
















lemma exit_map_ok: "(\<And>x. x \<in> set xs \<Longrightarrow> f x = Inr (g x)) \<Longrightarrow> exit_map f xs = Inr (map g xs)"
  by (induction xs) simp_all


section \<open>Pixels\<close>

definition pixel :: "byte list \<Rightarrow> nat \<Rightarrow> bool" where
  "pixel row X = bit (row ! (X div 8)) (7 - X mod 8)"

definition cursor_pos :: "png_cursor \<Rightarrow> nat" where
  "cursor_pos c = 8 * pc_q c + (7 - pc_bit c)"

lemma bit_put: "b \<le> 7 \<Longrightarrow> n \<le> 7 \<Longrightarrow> bit (push_bit b (p AND 1)) n \<longleftrightarrow> n = b \<and> odd (p :: byte)"
  by (auto simp: bit_simps bit_0 bit_1_iff)

lemma png_put_ok:
  assumes "pc_bit c \<le> 7" "cursor_pos c < 8 * length (pc_row c)"
  obtains c' where "png_put p c = Inr c'" "pc_bit c' \<le> 7" "cursor_pos c' = Suc (cursor_pos c)" "length (pc_row c') = length (pc_row c)"
    "\<And>X. X < 8 * length (pc_row c) \<Longrightarrow> pixel (pc_row c') X \<longleftrightarrow> pixel (pc_row c) X \<noteq> (X = cursor_pos c \<and> odd p)"
proof -
  let ?q = "pc_q c" and ?b = "pc_bit c" and ?row = "(pc_row c)[pc_q c := pc_row c ! pc_q c XOR push_bit (pc_bit c) (p AND 1)]"
  have q: "?q < length (pc_row c)" using assms(2) by (simp add: cursor_pos_def)
  define c' where "c' = (if ?b = 0 then \<lparr>pc_row = ?row, pc_q = ?q + 1, pc_bit = 7\<rparr> else \<lparr>pc_row = ?row, pc_q = ?q, pc_bit = ?b - 1\<rparr>)"
  have put: "png_put p c = Inr c'" using q by (simp add: png_put_def c'_def)
  have row: "pc_row c' = ?row" by (simp add: c'_def)
  have "pixel ?row X \<longleftrightarrow> pixel (pc_row c) X \<noteq> (X = cursor_pos c \<and> odd p)" if "X < 8 * length (pc_row c)" for X
  proof -
    have pos: "X = cursor_pos c \<longleftrightarrow> X div 8 = ?q \<and> 7 - X mod 8 = ?b"
    proof
      assume x: "X div 8 = ?q \<and> 7 - X mod 8 = ?b"
      have "X mod 8 \<le> 7" "X = 8 * (X div 8) + X mod 8" by simp_all
      then show "X = cursor_pos c" using x unfolding cursor_pos_def by (metis diff_diff_cancel)
    next
      assume "X = cursor_pos c"
      then have "X = ?q * 8 + (7 - ?b)" by (simp add: cursor_pos_def)
      moreover have "7 - ?b < 8" by simp
      ultimately have "X div 8 = ?q" "X mod 8 = 7 - ?b" by (simp_all only: radix)
      then show "X div 8 = ?q \<and> 7 - X mod 8 = ?b" using assms(1) by simp
    qed
    show ?thesis
    proof (cases "X div 8 = ?q")
      case True
      have "pixel ?row X \<longleftrightarrow> bit (pc_row c ! ?q XOR push_bit ?b (p AND 1)) (7 - X mod 8)" using True q by (simp add: pixel_def)
      also have "\<dots> \<longleftrightarrow> pixel (pc_row c) X \<noteq> (7 - X mod 8 = ?b \<and> odd p)"
        using bit_put [of ?b "7 - X mod 8" p] assms(1) True unfolding pixel_def bit_xor_iff by simp
      finally show ?thesis using True pos by simp
    next
      case False
      then show ?thesis using pos by (simp add: pixel_def)
    qed
  qed
  moreover have "pc_bit c' \<le> 7" "cursor_pos c' = Suc (cursor_pos c)" using assms(1) by (auto simp: cursor_pos_def c'_def)
  ultimately show ?thesis using that [of c'] put row by simp
qed

lemma png_puts_ok:
  assumes "pc_bit c \<le> 7" "cursor_pos c + length ps \<le> 8 * length (pc_row c)"
  shows "\<exists>c'. png_puts ps c = Inr c' \<and> length (pc_row c') = length (pc_row c)
     \<and> (\<forall>X < 8 * length (pc_row c). pixel (pc_row c') X
          \<longleftrightarrow> pixel (pc_row c) X \<noteq> (cursor_pos c \<le> X \<and> X < cursor_pos c + length ps \<and> odd (ps ! (X - cursor_pos c))))"
  using assms
proof (induction ps arbitrary: c)
  case (Cons p ps)
  from Cons.prems(2) have "cursor_pos c < 8 * length (pc_row c)" by simp
  from png_put_ok [OF Cons.prems(1) this, of p] obtain c1 where c1: "png_put p c = Inr c1" "pc_bit c1 \<le> 7"
    "cursor_pos c1 = Suc (cursor_pos c)" "length (pc_row c1) = length (pc_row c)"
    and px: "\<And>X. X < 8 * length (pc_row c) \<Longrightarrow> pixel (pc_row c1) X \<longleftrightarrow> pixel (pc_row c) X \<noteq> (X = cursor_pos c \<and> odd p)" by metis
  have "cursor_pos c1 + length ps \<le> 8 * length (pc_row c1)" using c1(3,4) Cons.prems(2) by simp
  from Cons.IH [OF c1(2) this] obtain c2 where c2: "png_puts ps c1 = Inr c2" "length (pc_row c2) = length (pc_row c1)"
    and py: "\<And>X. X < 8 * length (pc_row c1) \<Longrightarrow> pixel (pc_row c2) X
       \<longleftrightarrow> pixel (pc_row c1) X \<noteq> (cursor_pos c1 \<le> X \<and> X < cursor_pos c1 + length ps \<and> odd (ps ! (X - cursor_pos c1)))" by blast
  have "pixel (pc_row c2) X \<longleftrightarrow> pixel (pc_row c) X
      \<noteq> (cursor_pos c \<le> X \<and> X < cursor_pos c + length (p # ps) \<and> odd ((p # ps) ! (X - cursor_pos c)))" if "X < 8 * length (pc_row c)" for X
    using px [OF that] py [of X] that c1(3,4) by (cases "X = cursor_pos c") (auto simp: nth_Cons' Suc_le_eq)
  then show ?case using c1(1,4) c2 by auto
qed auto

lemma nth_enlarged: "k < s * length xs \<Longrightarrow> concat (map (replicate s) xs) ! k = xs ! (k div s)"
proof (induction xs arbitrary: k)
  case (Cons x xs)
  then have s: "0 < s" by (cases s) auto
  show ?case
  proof (cases "k < s")
    case False
    then have "concat (map (replicate s) xs) ! (k - s) = xs ! ((k - s) div s)" using Cons by simp
    moreover have "k div s = Suc ((k - s) div s)" using False s by (simp add: le_div_geq)
    ultimately show ?thesis using False by (simp add: nth_append)
  qed (simp add: nth_append)
qed simp

lemma length_enlarged: "length (concat (map (replicate s) xs)) = s * length xs"
  by (induction xs) simp_all

text \<open>The dark pixels of a picture with margin \<open>m\<close> and \<open>s\<close> pixels for a module.\<close>

definition dark_pixel :: "QRcode \<Rightarrow> nat \<Rightarrow> nat \<Rightarrow> nat \<Rightarrow> nat \<Rightarrow> bool" where
  "dark_pixel code m s X Y \<longleftrightarrow>
     m \<le> X div s \<and> X div s < m + qr_width code \<and> m \<le> Y div s \<and> Y div s < m + qr_width code
     \<and> module_dark code (X div s - m) (Y div s - m)"

lemma pixel_blank: "X < n \<Longrightarrow> pixel (replicate ((n + 7) div 8) 0xff) X"
proof -
  assume "X < n"
  then have "X div 8 < (n + 7) div 8" by linarith
  moreover have "(0xff :: byte) = - 1" by simp
  then have "bit (0xff :: byte) (7 - X mod 8)" by (simp only: bit_minus_1_iff possible_bit_word) simp
  ultimately show ?thesis by (simp add: pixel_def)
qed

lemma writePNG_row_ok:
  assumes "0 < s" "n = (qr_width code + 2 * m) * s"
  obtains row where "writePNG_row code m s n y = Inr row" "length row = (n + 7) div 8"
    "\<And>X. X < n \<Longrightarrow> pixel row X \<longleftrightarrow> \<not> (m \<le> X div s \<and> X div s < m + qr_width code \<and> module_dark code (X div s - m) y)"
proof -
  let ?w = "qr_width code" and ?blank = "replicate ((n + 7) div 8) (0xff :: byte)"
  let ?d = "map (\<lambda>x. qr_data code ! (y * ?w + x)) [0..<?w]"
  let ?c = "\<lparr>pc_row = ?blank, pc_q = m * s div 8, pc_bit = 7 - m * s mod 8\<rparr>"
  have pos: "pc_bit ?c \<le> 7" "cursor_pos ?c = m * s"
  proof -
    have "m * s mod 8 \<le> 7" by simp
    then show "cursor_pos ?c = m * s" using mult_div_mod_eq [of 8 "m * s"] by (simp add: cursor_pos_def)
  qed simp
  have ps: "concat (map (\<lambda>x. replicate s (qr_data code ! (y * ?w + x))) [0..<?w]) = concat (map (replicate s) ?d)" by (simp add: comp_def)
  have len: "length (concat (map (replicate s) ?d)) = s * ?w" by (simp only: length_enlarged length_map length_upt diff_zero)
  have n: "n = 2 * (m * s) + s * ?w" using assms(2) by (simp add: algebra_simps)
  have "cursor_pos ?c + length (concat (map (replicate s) ?d)) \<le> 8 * length (pc_row ?c)"
    unfolding pos(2) len using n by simp
  from png_puts_ok [OF pos(1) this] obtain c' where c': "png_puts (concat (map (replicate s) ?d)) ?c = Inr c'"
    "length (pc_row c') = (n + 7) div 8" "\<And>X. X < 8 * ((n + 7) div 8) \<Longrightarrow> pixel (pc_row c') X
       \<longleftrightarrow> pixel ?blank X \<noteq> (m * s \<le> X \<and> X < m * s + s * ?w \<and> odd (concat (map (replicate s) ?d) ! (X - m * s)))"
    unfolding pos(2) len by auto
  have "pixel (pc_row c') X \<longleftrightarrow> \<not> (m \<le> X div s \<and> X div s < m + ?w \<and> module_dark code (X div s - m) y)" if "X < n" for X
  proof -
    have "X < 8 * ((n + 7) div 8)" using that by linarith
    note px = c'(3) [OF this]
    have in_x: "m * s \<le> X \<longleftrightarrow> m \<le> X div s" "X < m * s + s * ?w \<longleftrightarrow> X div s < m + ?w"
      using assms(1) by (simp_all add: less_eq_div_iff_mult_less_eq div_less_iff_less_mult algebra_simps)
    have "odd (concat (map (replicate s) ?d) ! (X - m * s)) \<longleftrightarrow> module_dark code (X div s - m) y" if "m * s \<le> X" "X < m * s + s * ?w"
    proof -
      have k: "(X - m * s) div s = X div s - m" using that(1) assms(1) by (metis div_mult_self1_is_m diff_add_inverse div_mult_self3 le_add_diff_inverse mult.commute nat_neq_iff)
      have "X - m * s < s * length ?d" using that by simp
      from nth_enlarged [OF this] have "concat (map (replicate s) ?d) ! (X - m * s) = ?d ! (X div s - m)" unfolding k .
      moreover have "X div s - m < ?w" using in_x that by simp
      ultimately show ?thesis by (simp add: module_dark_def and_one_eq odd_iff_mod_2_eq_one)
    qed
    then show ?thesis using px pixel_blank [OF \<open>X < n\<close>] in_x by auto
  qed
  then show ?thesis using that [of "pc_row c'"] c'(1,2) ps by (simp add: writePNG_row_def)
qed

lemma int_value_ok: "0 \<le> i \<Longrightarrow> i < 2 ^ 31 \<Longrightarrow> int_value i = Inr i"
  by (simp add: int_value_def)

lemma writePNG_ok:
  assumes "0 \<le> t_margin t" "0 < t_size t" "(int (qr_width code) + t_margin t * 2) * t_size t + 7 < 2 ^ 31"
  defines "m \<equiv> nat (t_margin t)" and "s \<equiv> nat (t_size t)"
  shows "\<exists>img. writePNG fl t code = Inr (img, t) \<and> png_width img = (qr_width code + 2 * m) * s \<and> png_height img = png_width img
     \<and> png_bit_depth img = 1 \<and> length (png_rows img) = png_height img
     \<and> (\<forall>X < png_width img. \<forall>Y < png_height img. pixel (png_rows img ! Y) X \<longleftrightarrow> \<not> dark_pixel code m s X Y)"
proof -
  let ?w = "qr_width code" let ?n = "(?w + 2 * m) * s" let ?blank = "replicate ((?n + 7) div 8) (0xff :: byte)"
  have s: "0 < s" using assms(2) by (simp add: s_def)
  have val: "(int ?w + t_margin t * 2) * t_size t = int ?n" using assms(1,2) by (simp add: m_def s_def)
  have b: "0 \<le> int ?n" "int ?n + 7 < 2 ^ 31" using assms(3) unfolding val by (simp_all only: of_nat_0_le_iff)
  have iv: "int_value ((int ?w + t_margin t * 2) * t_size t) = Inr (int ?n)" "int_value (int ?n + 7) = Inr (int ?n + 7)"
    unfolding val using b by (intro int_value_ok; linarith)+
  define g where "g = (\<lambda>y. case writePNG_row code m s ?n y of Inr r \<Rightarrow> r | Inl _ \<Rightarrow> [])"
  have g: "writePNG_row code m s ?n y = Inr (g y) \<and> (\<forall>X < ?n. pixel (g y) X
      \<longleftrightarrow> \<not> (m \<le> X div s \<and> X div s < m + ?w \<and> module_dark code (X div s - m) y))" for y
  proof -
    obtain r where "writePNG_row code m s ?n y = Inr r"
      "\<forall>X < ?n. pixel r X \<longleftrightarrow> \<not> (m \<le> X div s \<and> X div s < m + ?w \<and> module_dark code (X div s - m) y)"
      using writePNG_row_ok [OF s refl, of code m y] by blast
    then show ?thesis unfolding g_def by simp
  qed
  have rows: "exit_map (writePNG_row code m s ?n) [0..<?w] = Inr (map g [0..<?w])" using g by (intro exit_map_ok) blast
  let ?rows = "replicate (m * s) ?blank @ concat (map (replicate s) (map g [0..<?w])) @ replicate (m * s) ?blank"
  have len: "length (concat (map (replicate s) (map g [0..<?w]))) = s * ?w" by (simp only: length_enlarged length_map length_upt diff_zero)
  have "pixel (?rows ! Y) X \<longleftrightarrow> \<not> dark_pixel code m s X Y" if "X < ?n" "Y < ?n" for X Y
  proof -
    have in_y: "m * s \<le> Y \<longleftrightarrow> m \<le> Y div s" "Y < m * s + s * ?w \<longleftrightarrow> Y div s < m + ?w"
      using s by (simp_all add: less_eq_div_iff_mult_less_eq div_less_iff_less_mult algebra_simps)
    show ?thesis
    proof (cases "m * s \<le> Y \<and> Y < m * s + s * ?w")
      case True
      have k: "(Y - m * s) div s = Y div s - m"
        using True s by (metis div_mult_self1_is_m diff_add_inverse div_mult_self3 le_add_diff_inverse mult.commute nat_neq_iff)
      have "Y - m * s < s * ?w" using True by linarith
      then have "?rows ! Y = concat (map (replicate s) (map g [0..<?w])) ! (Y - m * s)" "Y - m * s < s * length (map g [0..<?w])"
        using True len by (simp_all add: nth_append del: length_concat)
      moreover have "Y div s - m < ?w" using in_y True by simp
      ultimately have "?rows ! Y = g (Y div s - m)" using nth_enlarged [of "Y - m * s" s "map g [0..<?w]"] k by simp
      then show ?thesis using g [of "Y div s - m"] that(1) in_y True by (simp add: dark_pixel_def)
    next
      case False
      have "?n = m * s + s * ?w + m * s" by (simp add: algebra_simps)
      then have "?rows ! Y = ?blank" using False len that(2) by (auto simp: nth_append simp del: length_concat)
      then show ?thesis using False in_y pixel_blank [OF that(1)] by (auto simp: dark_pixel_def)
    qed
  qed
  moreover have "length ?rows = ?n" using len by (simp add: algebra_simps del: length_concat)
  ultimately show ?thesis
    unfolding writePNG_def Let_def m_def [symmetric] s_def [symmetric] iv exit_bind.simps nat_int rows by simp
qed

section \<open>Rectangles\<close>

fun dark_from :: "nat \<Rightarrow> bool list \<Rightarrow> nat list" where
  "dark_from x [] = []"
| "dark_from x (d # ds) = (if d then [x] else []) @ dark_from (x + 1) ds"

definition covered :: "(nat \<times> nat) list \<Rightarrow> nat list" where
  "covered rs = concat (map (\<lambda>(x, w). [x..<x + w]) rs)"

lemma dark_from_filter: "dark_from x ds = filter (\<lambda>k. ds ! (k - x)) [x..<x + length ds]"
proof (induction ds arbitrary: x)
  case (Cons d ds)
  have "filter (\<lambda>k. (d # ds) ! (k - x)) [x + 1..<x + 1 + length ds] = filter (\<lambda>k. ds ! (k - (x + 1))) [x + 1..<x + 1 + length ds]"
    by (intro filter_cong) (auto simp: nth_Cons')
  moreover have "[x..<x + length (d # ds)] = x # [x + 1..<x + 1 + length ds]" by (simp add: upt_conv_Cons del: upt_Suc)
  ultimately show ?case using Cons [of "x + 1"] by (cases d) (simp_all del: upt_Suc)
qed simp

lemma svg_rle_covers:
  "(pen \<Longrightarrow> x0 < x) \<Longrightarrow> covered (svg_rle x ds pen x0) = (if pen then [x0..<x] else []) @ dark_from x ds
     \<and> (\<forall>(x, w) \<in> set (svg_rle x ds pen x0). 0 < w)"
proof (induction ds arbitrary: x pen x0)
  case (Cons d ds)
  then show ?case using Cons.IH [of d x "x + 1"] Cons.IH [of False x0 "x + 1"] Cons.IH [of True x0 "x + 1"]
    by (cases pen; cases d) (auto simp: covered_def less_imp_le)
qed (auto simp: covered_def)

lemma svg_rle_length: "length (svg_rle x ds pen x0) \<le> length (dark_from x ds) + (if pen then 1 else 0)"
proof (induction ds arbitrary: x pen x0)
  case (Cons d ds)
  show ?case using Cons.IH [of "x + 1" d x] Cons.IH [of "x + 1" False x0] Cons.IH [of "x + 1" True x0] by (cases pen; cases d) auto
qed simp

lemma svg_single_dark: "svg_single row = map (\<lambda>x. (x, 1)) (filter (\<lambda>x. row ! x) [0..<length row])"
proof -
  have "concat (map (\<lambda>x. if row ! x then [(x, 1)] else []) xs) = map (\<lambda>x. (x, 1 :: nat)) (filter (\<lambda>x. row ! x) xs)" for xs
    by (induction xs) simp_all
  then show ?thesis by (simp add: svg_single_def)
qed

text \<open>
  Run-length encoding does not change an SVG image: with and without \<open>--rle\<close> the rectangles of
  a row have positive width and together cover exactly the dark modules, from left to right and
  each once; with it there are at most as many.
\<close>

lemma svg_rects_cover:
  "covered (svg_rects rle row) = filter (\<lambda>x. row ! x) [0..<length row]
     \<and> list_all (\<lambda>(x, w). 0 < w) (svg_rects rle row) \<and> length (svg_rects True row) \<le> length (svg_rects False row)"
proof -
  have "covered (map (\<lambda>x. (x, 1)) xs) = xs" for xs by (induction xs) (simp_all add: covered_def)
  then show ?thesis
    using svg_rle_covers [of False 0 0 row] svg_rle_length [of 0 row False 0] dark_from_filter [of 0 row]
    by (auto simp: svg_rects_def svg_single_dark list_all_iff)
qed

text \<open>
  C21. The PNG image shows the symbol. For every symbol and every module size and margin that do not
  overflow an \<open>int\<close>, \<open>writePNG\<close> never leaves the row buffer, and hands over as many rows as the
  image is high in which a pixel has the background index 1 unless it lies, after division by
  the module size, on a dark module inside the margins.
\<close>

theorem png_pixels:
  assumes "0 \<le> t_margin t" "0 < t_size t" "(int (qr_width qrcode) + t_margin t * 2) * t_size t + 7 < 2 ^ 31"
  defines "m \<equiv> nat (t_margin t)" and "s \<equiv> nat (t_size t)"
  shows "\<exists>img. writePNG fl t qrcode = Inr (img, t) \<and> png_width img = (qr_width qrcode + 2 * m) * s \<and> png_height img = png_width img
     \<and> png_bit_depth img = 1 \<and> length (png_rows img) = png_height img
     \<and> (\<forall>X < png_width img. \<forall>Y < png_height img. pixel (png_rows img ! Y) X \<longleftrightarrow> \<not> dark_pixel qrcode m s X Y)"
  unfolding m_def s_def by (rule writePNG_ok [OF assms(1-3)])

definition one_module :: QRcode where
  "one_module = \<lparr>qr_version = 1, qr_width = 1, qr_data = [0x03]\<rparr>"

definition plain_floats :: floats where
  "plain_floats = \<lparr>fl_cm = (\<lambda>_ _. ''0.00''), fl_opacity = (\<lambda>_. ''1.000000''), fl_per_metre = nat\<rparr>"

theorem png_pixels_witness:
  "\<exists>img. writePNG plain_floats (tool_init\<lparr>t_margin := 1\<rparr>) one_module = Inr (img, tool_init\<lparr>t_margin := 1\<rparr>)
     \<and> length (png_rows img) = 9 \<and> pixel (png_rows img ! 0) 0 \<and> \<not> pixel (png_rows img ! 4) 3"
proof -
  have "\<not> dark_pixel one_module 1 3 0 0" "dark_pixel one_module 1 3 3 4" by (simp_all add: dark_pixel_def one_module_def module_dark_def)
  then show ?thesis using png_pixels [of "tool_init\<lparr>t_margin := 1\<rparr>" one_module plain_floats]
    by (auto simp: tool_init_def one_module_def)
qed

section \<open>The main program\<close>

definition tool_ok :: "tool \<Rightarrow> bool" where
  "tool_ok t \<longleftrightarrow> t_level t \<le> QR_ECLEVEL_H \<and> 0 \<le> t_version t \<and> 0 < t_size t \<and> - 1 \<le> t_margin t \<and> 0 \<le> t_dpi t
     \<and> length (t_fg_color t) = 4 \<and> length (t_bg_color t) = 4 \<and> t_hint t \<in> {QR_MODE_8, QR_MODE_KANJI}"

definition run_ok :: "tool \<Rightarrow> bool" where
  "run_ok t \<longleftrightarrow> tool_ok t \<and> 0 \<le> t_margin t \<and> (t_micro t \<longrightarrow> 1 \<le> t_version t \<and> t_version t \<le> int MQRSPEC_VERSION_MAX \<and> \<not> t_structured t)
     \<and> (\<not> t_micro t \<longrightarrow> t_version t \<le> int QRSPEC_VERSION_MAX) \<and> (t_structured t \<longrightarrow> 1 \<le> t_version t)"

lemma scan_colors_length: "scan_colors n s = Some (vs, m) \<Longrightarrow> length vs = n"
  by (induction n arbitrary: s vs m) (auto split: option.splits)

lemma color_set_length: "color_set s = Some c \<Longrightarrow> length c = 4"
  by (auto simp: color_set_def dest!: scan_colors_length split: if_splits option.splits)

text \<open>A field of a colour may have a sign, and then is not a byte.\<close>

lemma color_set_sign: "color_set ''-1-1-1'' = Some [0xffffffff, 0xffffffff, 0xffffffff, 255]"
  by code_simp

lemma level_option_le: "level_option s = Some l \<Longrightarrow> l \<le> QR_ECLEVEL_H"
  by (auto simp: level_option_def split: list.splits if_splits)

lemma option_step_ok: "tool_ok t \<Longrightarrow> option_step ev (t, outfile) = Inr (t', outfile') \<Longrightarrow> tool_ok t'"
proof (cases ev)
  case (Opt opt lindex optarg)
  assume "tool_ok t" "option_step ev (t, outfile) = Inr (t', outfile')"
  then show ?thesis using Opt
    by (auto simp: option_step_def tool_ok_def exit_bind_Inr or_fail_def split: if_splits option.splits
        dest: level_option_le color_set_length)
qed (auto simp: option_step_def tool_ok_def)

lemma option_loop_ok: "tool_ok t \<Longrightarrow> option_loop evs (t, outfile) = Inr (t', outfile') \<Longrightarrow> tool_ok t'"
proof (induction evs arbitrary: t outfile)
  case (Cons ev evs)
  from Cons.prems(2) obtain t1 o1 where "option_step ev (t, outfile) = Inr (t1, o1)" "option_loop evs (t1, o1) = Inr (t', outfile')"
    by (auto simp: exit_bind_Inr)
  then show ?case using Cons.IH option_step_ok [OF Cons.prems(1)] by blast
qed simp

lemma check_options_ok: "tool_ok t \<Longrightarrow> check_options t = Inr t' \<Longrightarrow> run_ok t' \<and> t' = t\<lparr>t_margin := t_margin t'\<rparr>
   \<and> t_margin t' = (if t_margin t < 0 then if t_micro t then 2 else 4 else t_margin t)"
  by (auto simp: check_options_def run_ok_def tool_ok_def Let_def split: if_splits)

lemma tool_init_ok: "tool_ok tool_init"
  by (simp add: tool_ok_def tool_init_def)

text \<open>
  C23. The options leave the program in a state the library accepts: whatever \<open>getopt_long\<close> returns,
  when the loop over the options ends the level, the hint and the colours are well formed and
  size, version and resolution are not negative; after the tests of \<open>main\<close> the margin is set, and
  the version is in the range of the kind of symbol, with no structured Micro QR Code.
\<close>

theorem options_well_formed:
  assumes "option_loop evs (tool_init, None) = Inr (t, outfile)" "check_options t = Inr t'"
  shows "tool_ok t \<and> run_ok t'"
  using option_loop_ok [OF tool_init_ok assms(1)] check_options_ok assms(2) by blast

theorem options_well_formed_witness:
  "\<exists>t t'. option_loop [Opt (CHR ''v'') (-1) ''7''] (tool_init, None) = Inr (t, None) \<and> check_options t = Inr t'
     \<and> t_version t' = 7 \<and> tool_ok t \<and> run_ok t'"
proof -
  have "option_loop [Opt (CHR ''v'') (-1) ''7''] (tool_init, None) = Inr (tool_init\<lparr>t_version := 7\<rparr>, None)"
    by (simp add: option_step_def atoi_def dec_digit_def isspace_def int_value_def)
  moreover have "check_options (tool_init\<lparr>t_version := 7\<rparr>) = Inr (tool_init\<lparr>t_version := 7, t_margin := 4\<rparr>)"
    by (simp add: check_options_def tool_init_def QRSPEC_VERSION_MAX_def)
  moreover note options_well_formed [OF calculation]
  ultimately show ?thesis by auto
qed







text \<open>
  Structured images have two defects of their own. The type ASCIIi is missing from the switch
  that chooses the suffix, so that the program always fails; and for ANSIUTF8 the writer is
  called without colours, so that the output is that of UTF8.
\<close>

lemma structured_text_types:
  "qrencodeStructured fl creatable (t\<lparr>t_image_type := ASCIIi_TYPE\<rparr>) intext outfile = (EXIT_FAILURE, [])
   \<and> qrencodeStructured fl creatable (t\<lparr>t_image_type := ANSIUTF8_TYPE\<rparr>) intext outfile
     = qrencodeStructured fl creatable (t\<lparr>t_image_type := UTF8_TYPE\<rparr>) intext outfile"
proof -
  have "write_structured fl creatable (t\<lparr>t_image_type := ANSIUTF8_TYPE\<rparr>) names i codes
      = write_structured fl creatable (t\<lparr>t_image_type := UTF8_TYPE\<rparr>) names i codes" for names i codes
    by (induction codes arbitrary: i)
      (auto simp: write_text_def exit_bind_Inr writeUTF8_def Let_def int_value_def openFile_def split: sum.splits prod.splits if_splits)
  moreover have "encodeStructured c (t\<lparr>t_image_type := ty\<rparr>) intext = encodeStructured c t intext" for c ty
    by (simp add: encodeStructured_def)
  ultimately show ?thesis by (simp add: qrencodeStructured_def type_suffix_def split: option.splits sum.splits)
qed

end
