(* ===== verification/QR_Micro.thy ===== *)
theory QR_Micro
  imports QR_Symbol
begin

text \<open>
  Micro QR Code symbols: the four masks, the format information and the choice of the mask of
  \<open>mmask.c\<close>, and the geometry of the frames \<open>MQRspec_createFrame\<close> builds.
\<close>

section \<open>Masks\<close>

text \<open>The patterns are four of those of QR Code.\<close>

definition mqr_iso :: "nat \<Rightarrow> nat" where
  "mqr_iso i = [1, 4, 6, 7] ! i"

lemma mqr_iso_less: "i < mqr_maskNum \<Longrightarrow> mqr_iso i < maskNum"
proof -
  assume "i < mqr_maskNum"
  then have "i = 0 \<or> i = 1 \<or> i = 2 \<or> i = 3" by (auto simp: mqr_maskNum_def)
  then show ?thesis by (elim disjE) (simp_all add: mqr_iso_def maskNum_def)
qed

lemma mqr_maskMakers_conds:
  assumes "i < mqr_maskNum"
  shows "mqr_maskMakers ! i = MMASKMAKER (mask_conds ! mqr_iso i)"
proof -
  have c: "mask_conds ! 1 = (\<lambda>x y. y AND 1)" "mask_conds ! 4 = (\<lambda>x y. (y div 2 + x div 3) AND 1)"
    "mask_conds ! 6 = (\<lambda>x y. (((x * y) AND 1) + (x * y) mod 3) AND 1)"
    "mask_conds ! 7 = (\<lambda>x y. ((x * y) mod 3 + ((x + y) AND 1)) AND 1)"
    by (simp_all add: mask_conds_def)
  have "i = 0 \<or> i = 1 \<or> i = 2 \<or> i = 3" using assms by (auto simp: mqr_maskNum_def)
  then show ?thesis
    by (elim disjE) (simp_all add: mqr_maskMakers_def MMask_mask0_def MMask_mask1_def MMask_mask2_def MMask_mask3_def mqr_iso_def
        c [unfolded One_nat_def] add.commute [of "_ mod 3"])
qed

lemma MMask_makeMaskedFrame_eq:
  assumes "i < mqr_maskNum"
  shows "MMask_makeMaskedFrame w frame i = map (apply_mask (mqr_iso i) w frame) [0..<w * w]"
proof -
  let ?e = "mask_conds ! mqr_iso i"
  have "MMASKMAKER ?e w frame = map (\<lambda>(y, x). mask_module ?e x y (frame ! (y * w + x))) (List.product [0..<w] [0..<w])"
    by (simp add: MMASKMAKER_def mask_module_def Let_def)
  then show ?thesis
    unfolding MMask_makeMaskedFrame_def mqr_maskMakers_conds [OF assms] map_product_upt [where g = "mask_module ?e"]
    by (simp add: mask_module_def apply_mask_def is_data_def mask_conds_iso [OF mqr_iso_less [OF assms]])
qed

section \<open>Format information\<close>

definition mfmt_pos :: "nat \<Rightarrow> nat \<Rightarrow> nat" where
  "mfmt_pos w i = (if i < 8 then (i + 1) * w + 8 else 8 * w + (15 - i))"

definition put_mformat :: "nat \<Rightarrow> uint \<Rightarrow> nat list \<Rightarrow> byte list \<Rightarrow> byte list" where
  "put_mformat w f is frame = fold (\<lambda>i fr. fr[mfmt_pos w i := fmt_val f i]) is frame"

lemma mfmt_val: "0x84 OR (ucast (f :: uint) AND 1) = (if odd f then 0x85 else 0x84 :: byte)"
proof -
  have "ucast f AND (1 :: byte) = (if odd f then 1 else 0)"
    by (rule bit_eqI) (auto simp: bit_simps bit_0)
  then show ?thesis by simp
qed

lemma mformat_fold:
  "fold (\<lambda>i (format, f). (drop_bit 1 format, f[pos i := 0x84 OR (ucast format AND 1)])) [0..<n] (drop_bit k format, fr)
     = (drop_bit (n + k) format, fold (\<lambda>i fr. fr[pos i := fmt_val format (k + i)]) [0..<n] fr)" for format :: uint
proof (induction n)
  case (Suc n)
  then show ?case by (simp add: mfmt_val fmt_val_def bit_iff_odd_drop_bit add.commute)
qed simp

lemma writeMFormatInformation_eq:
  assumes "9 \<le> w"
  shows "MMask_writeFormatInformation v w frame msk level = put_mformat w (MQRspec_getFormatInfo msk v level) [0..<15] frame"
proof -
  let ?f = "MQRspec_getFormatInfo msk v level"
  have "[0..<15] = [0..<8] @ map ((+) 8) [0..<7]" by (simp add: upt_rec)
  then have p: "put_mformat w ?f [0..<15] frame = fold (\<lambda>i fr. fr[mfmt_pos w (8 + i) := fmt_val ?f (8 + i)]) [0..<7]
      (fold (\<lambda>i fr. fr[mfmt_pos w i := fmt_val ?f i]) [0..<8] frame)"
    by (simp add: put_mformat_def fold_map comp_def)
  have l: "fold (\<lambda>i fr. fr[w * (i + 1) + 8 := fmt_val ?f i]) [0..<8] frame = fold (\<lambda>i fr. fr[mfmt_pos w i := fmt_val ?f i]) [0..<8] frame"
    by (intro fold_cong) (simp_all add: mfmt_pos_def mult.commute)
  have h: "fold (\<lambda>i fr. fr[w * 8 + 7 - i := fmt_val ?f (8 + i)]) [0..<7] fr = fold (\<lambda>i fr. fr[mfmt_pos w (8 + i) := fmt_val ?f (8 + i)]) [0..<7] fr" for fr
    by (intro fold_cong) (simp_all add: mfmt_pos_def mult.commute)
  show ?thesis
    unfolding p MMask_writeFormatInformation_def Let_def
    using mformat_fold [where k = 0 and n = 8 and pos = "\<lambda>i. w * (i + 1) + 8" and format = ?f and fr = frame]
      mformat_fold [where k = 8 and n = 7 and pos = "\<lambda>i. w * 8 + 7 - i" and format = ?f]
    by (simp add: h l [simplified] del: upt_rec_numeral)
qed

lemma mfmt_pos_inj:
  assumes "9 < w" "i < 15" "j < 15"
  shows "mfmt_pos w i = mfmt_pos w j \<longleftrightarrow> i = j"
proof -
  have xy: "mfmt_pos w i = (if i < 8 then i + 1 else 8) * w + (if i < 8 then 8 else 15 - i)" for i by (simp add: mfmt_pos_def)
  show ?thesis unfolding xy by (subst grid_eq; use assms in \<open>auto split: if_splits\<close>)
qed

lemma grid_less: "x < w \<Longrightarrow> y < w \<Longrightarrow> y * w + x < w * (w :: nat)"
proof -
  assume "x < w" "y < w"
  then have "y * w + x < Suc y * w" "Suc y * w \<le> w * w" by (simp, intro mult_right_mono, simp_all)
  then show ?thesis by (rule less_le_trans)
qed

lemma mfmt_pos_less: "9 < w \<Longrightarrow> i < 15 \<Longrightarrow> mfmt_pos w i < w * w"
  using grid_less [of 8 w "i + 1"] grid_less [of "15 - i" w 8] by (simp add: mfmt_pos_def)

definition mfmt_area :: "nat \<Rightarrow> nat set" where
  "mfmt_area w = mfmt_pos w ` {..<15}"

lemma length_put_mformat [simp]: "length (put_mformat w f is frame) = length frame"
  unfolding put_mformat_def by (induction "is" arbitrary: frame) simp_all

lemma put_mformat_nth:
  assumes "9 < w" "length frame = w * w" "n \<le> 15"
  shows "(\<forall>i < n. put_mformat w f [0..<n] frame ! mfmt_pos w i = fmt_val f i)
       \<and> (\<forall>p. p \<notin> mfmt_pos w ` {..<n} \<longrightarrow> put_mformat w f [0..<n] frame ! p = frame ! p)"
  using assms(3)
proof (induction n)
  case (Suc n)
  then have n: "n < 15" by simp
  have put: "put_mformat w f [0..<Suc n] frame = (put_mformat w f [0..<n] frame)[mfmt_pos w n := fmt_val f n]"
    by (simp add: put_mformat_def)
  have "mfmt_pos w n \<noteq> mfmt_pos w i" if "i < n" for i using mfmt_pos_inj [OF assms(1) n, of i] that n by simp
  then show ?case unfolding put
    using Suc n mfmt_pos_less [OF assms(1) n] by (auto simp: nth_list_update assms(2) less_Suc_eq lessThan_Suc)
qed (simp add: put_mformat_def)

lemma mformat_less:
  assumes "level \<le> QR_ECLEVEL_H"
  shows "unat (MQRspec_getFormatInfo msk v level) < 2 ^ 15"
proof (cases "0 \<le> msk \<and> msk \<le> 3 \<and> 0 < v \<and> v \<le> 4 \<and> level \<noteq> QR_ECLEVEL_H \<and> 0 \<le> typeTable ! v ! level")
  case True
  have t: "list_all (list_all (\<lambda>x. unat x < 2 ^ 15)) mqr_formatInfo" "length mqr_formatInfo = 4" "list_all (\<lambda>r. length r = 8) mqr_formatInfo"
    by (simp_all add: mqr_formatInfo_def)
  have y: "list_all (list_all (\<lambda>t. t < 8)) typeTable" "length typeTable = 5" "list_all (\<lambda>r. length r = 3) typeTable" by (simp_all add: typeTable_def)
  have "level < 3" using True assms by simp
  then have "typeTable ! v ! level < 8" using True y by (simp add: list_all_length)
  then have "nat (typeTable ! v ! level) < 8" "nat msk < 4" using True by auto
  then have "unat (mqr_formatInfo ! nat msk ! nat (typeTable ! v ! level)) < 2 ^ 15" using t by (simp add: list_all_length)
  then show ?thesis using True by (simp add: MQRspec_getFormatInfo_def)
qed (auto simp: MQRspec_getFormatInfo_def MQRSPEC_VERSION_MAX_def)

lemma mfmt_read_put:
  fixes msk :: int and v :: nat
  assumes "9 < w" "length frame = w * w" "level \<le> QR_ECLEVEL_H"
  defines "f \<equiv> MQRspec_getFormatInfo msk v level"
  shows "fmt_read (mfmt_pos w) (put_mformat w f [0..<15] frame) = unat f"
proof -
  have "(\<Sum>i < 15. of_bool (bit f i) * 2 ^ i) = unat f"
    using nat_bit_sum [OF mformat_less [OF assms(3), of msk v]] by (simp add: bit_unsigned_iff f_def)
  moreover have "fmt_read (mfmt_pos w) (put_mformat w f [0..<15] frame) = (\<Sum>i < 15. of_bool (bit f i) * 2 ^ i)"
    unfolding fmt_read_def dark_def using put_mformat_nth [OF assms(1,2), of 15 f] by (intro sum.cong) simp_all
  ultimately show ?thesis by simp
qed

section \<open>Symbols\<close>

lemma micro_width: "1 \<le> v \<Longrightarrow> v \<le> 4 \<Longrightarrow> MQRspec_getWidth v = 9 + 2 * v"
proof -
  assume "1 \<le> v" "v \<le> 4"
  then have "v = 1 \<or> v = 2 \<or> v = 3 \<or> v = 4" by auto
  then show ?thesis by (elim disjE) (simp_all add: MQRspec_getWidth_def mqrspecCapacity_def)
qed

lemma makeMask_micro:
  assumes "1 \<le> v" "v \<le> 4" "w = MQRspec_getWidth v" "i < mqr_maskNum" "level \<le> QR_ECLEVEL_H"
  obtains m where "MMask_makeMask v frame (int i) level = Inr m" "MMask_candidate v frame level i = m" "length m = w * w"
    "fmt_read (mfmt_pos w) m = unat (MQRspec_getFormatInfo (int i) v level)"
    "\<And>p. p < w * w \<Longrightarrow> p \<notin> mfmt_area w \<Longrightarrow> m ! p = apply_mask (mqr_iso i) w frame p"
proof -
  have w: "9 < w" using micro_width [OF assms(1,2)] assms(1,3) by simp
  let ?d = "MMask_makeMaskedFrame w frame i"
  let ?m = "put_mformat w (MQRspec_getFormatInfo (int i) v level) [0..<15] ?d"
  have len: "length ?d = w * w" by (simp add: MMask_makeMaskedFrame_eq [OF assms(4)])
  have "MMask_makeMask v frame (int i) level = Inr ?m" "MMask_candidate v frame level i = ?m"
    using assms(4) w by (simp_all add: MMask_makeMask_def MMask_candidate_def Let_def writeMFormatInformation_eq MMask_makeMaskedFrame_def assms(3))
  moreover have "?m ! p = apply_mask (mqr_iso i) w frame p" if "p < w * w" "p \<notin> mfmt_area w" for p
    using put_mformat_nth [OF w len, of 15] that by (simp add: mfmt_area_def MMask_makeMaskedFrame_eq [OF assms(4)])
  ultimately show ?thesis using that [of ?m] mfmt_read_put [OF w len assms(5), of "int i" v] len by simp
qed

text \<open>The score of the standard: dark modules of the last row and the last column, without their first.\<close>

definition edge_row :: "nat \<Rightarrow> byte list \<Rightarrow> nat" where
  "edge_row w m = (\<Sum>x = 1..<w. of_bool (dark m ((w - 1) * w + x)))"

definition edge_col :: "nat \<Rightarrow> byte list \<Rightarrow> nat" where
  "edge_col w m = (\<Sum>y = 1..<w. of_bool (dark m (y * w + (w - 1))))"

definition micro_score :: "nat \<Rightarrow> byte list \<Rightarrow> nat" where
  "micro_score w m = 16 * min (edge_row w m) (edge_col w m) + max (edge_row w m) (edge_col w m)"

lemma fold_sum: "fold (\<lambda>x s. s + g x) [a..<b] (s :: nat) = s + (\<Sum>x = a..<b. g x)"
  by (induction b) auto

lemma evaluate_micro: "0 < w \<Longrightarrow> MMask_evaluateSymbol w m = micro_score w m"
proof -
  assume w: "0 < w"
  have u: "unat (c AND 1) = of_bool (odd c)" for c :: byte
    by (cases "even c") (simp_all add: and_one_eq even_iff_mod_2_eq_zero odd_iff_mod_2_eq_one)
  have "w * 2 - 1 + w * (y - 1) = y * w + (w - 1)" if "1 \<le> y" for y
  proof -
    obtain z where "y = Suc z" using \<open>1 \<le> y\<close> by (cases y) auto
    then show ?thesis using w by (simp add: algebra_simps)
  qed
  then have "(\<Sum>y = 1..<w. unat (m ! (w * 2 - 1 + w * (y - 1)) AND 1)) = edge_col w m"
    unfolding edge_col_def by (intro sum.cong) (simp_all add: u dark_def)
  moreover have "(\<Sum>x = 1..<w. unat (m ! (w * (w - 1) + x) AND 1)) = edge_row w m"
    unfolding edge_row_def by (intro sum.cong) (simp_all add: u dark_def mult.commute)
  ultimately show ?thesis
    by (simp add: MMask_evaluateSymbol_def Let_def fold_sum micro_score_def min_def max_def mult.commute)
qed

text \<open>Two patterns colour some module of the last row differently, so that not all scores are 0.\<close>

definition edge_pick :: "nat \<Rightarrow> nat" where
  "edge_pick v = [0, 8, 11, 14, 16] ! v"

lemma edge_pick:
  assumes "1 \<le> v" "v \<le> 4" "w = MQRspec_getWidth v"
  shows "1 \<le> edge_pick v" "edge_pick v < w" "iso_mask 1 (edge_pick v) (w - 1) \<noteq> iso_mask 4 (edge_pick v) (w - 1)"
proof -
  have "v = 1 \<or> v = 2 \<or> v = 3 \<or> v = 4" using assms(1,2) by auto
  then show "1 \<le> edge_pick v" "edge_pick v < w" "iso_mask 1 (edge_pick v) (w - 1) \<noteq> iso_mask 4 (edge_pick v) (w - 1)"
    using micro_width [OF assms(1,2)] by (elim disjE; simp add: edge_pick_def assms(3) iso_mask_def)+
qed

lemma dark_edge:
  assumes "1 \<le> x" "x < w" "dark m ((w - 1) * w + x)"
  shows "0 < micro_score w m"
proof -
  have "of_bool (dark m ((w - 1) * w + x)) \<le> edge_row w m"
    unfolding edge_row_def using assms(1,2)
    by (intro member_le_sum [where f = "\<lambda>x. of_bool (dark m ((w - 1) * w + x)) :: nat"]) auto
  then show ?thesis using assms(3) by (simp add: micro_score_def less_max_iff_disj)
qed

interpretation max_score: candidate_choice "\<lambda>a b :: nat. b < a"
  by unfold_locales auto

lemma MMask_mask_ok:
  assumes "1 \<le> v" "v \<le> 4" "w = MQRspec_getWidth v" "level \<le> QR_ECLEVEL_H" "length frame = w * w"
    and "is_data frame ((w - 1) * w + edge_pick v)"
  shows "\<exists>i < mqr_maskNum. \<exists>m. MMask_mask v frame level = Inr m \<and> MMask_makeMask v frame (int i) level = Inr m
     \<and> (\<forall>j < mqr_maskNum. \<exists>m'. MMask_makeMask v frame (int j) level = Inr m'
          \<and> micro_score w m' \<le> micro_score w m \<and> (j < i \<longrightarrow> micro_score w m' < micro_score w m))"
proof -
  have w: "9 < w" "(w - 1) * w + edge_pick v < w * w"
    using micro_width [OF assms(1,2)] assms(1,3) edge_pick(2) [OF assms(1-3)]
    by (auto simp: algebra_simps intro: less_le_trans)
  let ?D = "\<lambda>i. (MMask_evaluateSymbol w (MMask_candidate v frame level i), MMask_candidate v frame level i)"
  have D: "\<exists>m. MMask_makeMask v frame (int i) level = Inr m \<and> ?D i = (micro_score w m, m)" if "i < mqr_maskNum" for i
    using makeMask_micro [OF assms(1-3) that assms(4), of frame] evaluate_micro [of w] w(1) by (metis gr_zeroI not_less_zero)
  let ?p = "(w - 1) * w + edge_pick v"
  have nf: "?p \<notin> mfmt_area w"
  proof
    assume "?p \<in> mfmt_area w"
    then obtain i where i: "i < 15" "?p = mfmt_pos w i" by (auto simp: mfmt_area_def)
    have "mfmt_pos w i = (if i < 8 then i + 1 else 8) * w + (if i < 8 then 8 else 15 - i)" by (simp add: mfmt_pos_def)
    with i(2) have "w - 1 = (if i < 8 then i + 1 else 8)"
      using edge_pick(2) [OF assms(1-3)] w(1) grid_eq [of "edge_pick v" w "if i < 8 then 8 else 15 - i" "w - 1" "if i < 8 then i + 1 else 8"]
      by simp
    then show False using w(1) micro_width [OF assms(1,2)] assms(1,3) by (auto split: if_splits)
  qed
  have xy: "?p mod w = edge_pick v" "?p div w = w - 1" using edge_pick(2) [OF assms(1-3)] by simp_all
  have "\<exists>i < mqr_maskNum. 0 < fst (?D i)"
  proof -
    obtain m0 where m0: "?D 0 = (micro_score w m0, m0)" "m0 ! ?p = apply_mask (mqr_iso 0) w frame ?p"
      using makeMask_micro [OF assms(1-3) _ assms(4), of 0 frame] evaluate_micro [of w] w nf
      by (metis gr_zeroI mqr_maskNum_def not_less_zero zero_less_numeral)
    obtain m1 where m1: "?D 1 = (micro_score w m1, m1)" "m1 ! ?p = apply_mask (mqr_iso 1) w frame ?p"
      using makeMask_micro [OF assms(1-3) _ assms(4), of 1 frame] evaluate_micro [of w] w nf
      by (metis gr_zeroI mqr_maskNum_def not_less_zero one_less_numeral_iff semiring_norm(76))
    have "dark m0 ?p \<or> dark m1 ?p"
      using m0(2) m1(2) edge_pick(3) [OF assms(1-3)] assms(6) xy by (auto simp: dark_def apply_mask_def mqr_iso_def even_xor_iff)
    then show ?thesis using m0(1) m1(1) dark_edge [OF edge_pick(1,2) [OF assms(1-3)]]
      by (metis fst_conv mqr_maskNum_def one_less_numeral_iff semiring_norm(76) zero_less_numeral)
  qed
  then obtain k where "k < mqr_maskNum" "0 < fst (?D k)" by blast
  then show ?thesis
  proof (rule max_score.keep_best_exists [where cand = ?D])
    fix i assume i: "i < mqr_maskNum" "\<And>j. j < mqr_maskNum \<Longrightarrow> \<not> fst (?D i) < fst (?D j)"
      "\<And>j. j < i \<Longrightarrow> fst (?D j) < fst (?D i)"
      and f: "fold (\<lambda>i (s, m). let (s', m') = ?D i in if s < s' then (s', Some m') else (s, m)) [0..<mqr_maskNum] (0, None)
         = (fst (?D i), Some (snd (?D i)))"
    from D [OF i(1)] obtain m where m: "MMask_makeMask v frame (int i) level = Inr m" "?D i = (micro_score w m, m)" by blast
    have "MMask_mask v frame level = Inr m"
      using f [unfolded Let_def prod.case fst_conv snd_conv] m(2)
      by (simp add: MMask_mask_def Let_def assms(3) [symmetric])
    moreover have "\<exists>m'. MMask_makeMask v frame (int j) level = Inr m' \<and> micro_score w m' \<le> micro_score w m
        \<and> (j < i \<longrightarrow> micro_score w m' < micro_score w m)" if "j < mqr_maskNum" for j
      using D [OF that] i(2) [OF that] i(3) [of j] m(2) by (metis fst_conv not_less)
    ultimately show ?thesis using i(1) m by blast
  qed
qed

text \<open>
  C20. \<open>MMask_mask\<close> always returns a symbol, and it is the best one: it is the symbol \<open>MMask_makeMask\<close>
  builds for some of the four patterns, no pattern has a higher score and every pattern of a
  smaller number has a lower one, where the score is that of the standard, computed from the
  dark modules of the last row and the last column. Because the loop keeps only scores above 0,
  this needs that not all four scores are 0, which holds when a certain module of the last row
  is free for data, as in the frames of the library.
\<close>

theorem MMask_mask_best:
  assumes "1 \<le> version" "version \<le> MQRSPEC_VERSION_MAX" "w = MQRspec_getWidth version" "level \<le> QR_ECLEVEL_H"
    and "length frame = w * w" "is_data frame ((w - 1) * w + edge_pick version)"
  shows "\<exists>i < mqr_maskNum. \<exists>m. MMask_mask version frame level = Inr m \<and> MMask_makeMask version frame (int i) level = Inr m
     \<and> (\<forall>j < mqr_maskNum. \<exists>m'. MMask_makeMask version frame (int j) level = Inr m'
          \<and> micro_score w m' \<le> micro_score w m \<and> (j < i \<longrightarrow> micro_score w m' < micro_score w m))"
  using MMask_mask_ok [OF assms(1) _ assms(3-6)] assms(2) by (simp add: MQRSPEC_VERSION_MAX_def)

theorem MMask_mask_best_witness:
  "\<exists>m. MMask_mask 1 (replicate (11 * 11) 0) QR_ECLEVEL_L = Inr m"
  using MMask_mask_best [of 1 11 QR_ECLEVEL_L "replicate (11 * 11) 0"]
  by (auto simp: MQRSPEC_VERSION_MAX_def MQRspec_getWidth_def mqrspecCapacity_def edge_pick_def is_data_def)

section \<open>Frames\<close>

lemma marked_micro:
  assumes "9 < w"
  shows "marked w ({0..<0 + 7} \<times> {0..<0 + 7} \<union> (\<Union>y \<in> set [0..<7]. {(7, y)}) \<union> {0..<0 + 8} \<times> {7} \<union> {1..<1 + 8} \<times> {8}
      \<union> (\<Union>y \<in> set [0..<7]. {(8, y + 1)}) \<union> (\<Union>x \<in> set [1..<w - 7]. {(7 + x, 0)} \<union> {(0, 7 + x)}))
    (\<lambda>f. fold (\<lambda>x f. f[8 + (x - 1) := 0x90 OR (word_of_nat x AND 1), w * 8 + w * (x - 1) := 0x90 OR (word_of_nat x AND 1)]) [1..<w - 7]
      (fold (\<lambda>y f. f[w + 8 + w * y := 0x84]) [0..<7] (write_at (w * 8 + 1) (replicate 8 0x84)
        (write_at (w * 7) (replicate 8 0xc0) (fold (\<lambda>y f. f[w * y + 7 := 0xc0]) [0..<7] (mqr_putFinderPattern w 0 0 f))))))"
proof -
  have a: "marked w ({0..<0 + 7} \<times> {0..<0 + 7}) (mqr_putFinderPattern w 0 0)"
    using marked_finder [of w 0 0] by (simp add: putFinderPattern_def [abs_def] mqr_putFinderPattern_def [abs_def])
  have b: "marked w (\<Union>y \<in> set [0..<7]. {(7, y)}) (fold (\<lambda>y f. f[w * y + 7 := 0xc0]) [0..<7])"
    "marked w (\<Union>y \<in> set [0..<7]. {(8, y + 1)}) (fold (\<lambda>y f. f[w + 8 + w * y := 0x84]) [0..<7])"
    by (intro marked_fold marked_put; simp add: algebra_simps)+
  have c: "marked w ({0..<0 + 8} \<times> {7}) (write_at (w * 7) (replicate 8 0xc0))"
    "marked w ({1..<1 + 8} \<times> {8}) (write_at (w * 8 + 1) (replicate 8 0x84))"
    by (intro marked_row; simp add: algebra_simps)+
  have "marked w ({(7 + x, 0)} \<union> {(0, 7 + x)}) (\<lambda>f. f[8 + (x - 1) := 0x90 OR (word_of_nat x AND 1),
                   w * 8 + w * (x - 1) := 0x90 OR (word_of_nat x AND 1)])" if x: "1 \<le> x" for x
  proof -
    obtain z where "x = Suc z" using x by (cases x) auto
    then show ?thesis by (intro marked_comp marked_put bit7_or) (simp_all add: algebra_simps)
  qed
  then have d: "marked w (\<Union>x \<in> set [1..<w - 7]. {(7 + x, 0)} \<union> {(0, 7 + x)})
    (fold (\<lambda>x f. f[8 + (x - 1) := 0x90 OR (word_of_nat x AND 1), w * 8 + w * (x - 1) := 0x90 OR (word_of_nat x AND 1)]) [1..<w - 7])"
    by (intro marked_fold) simp
  show ?thesis
    by (rule marked_comp [OF marked_comp [OF marked_comp [OF marked_comp [OF marked_comp [OF a b(1)] c(1)] c(2)] b(2)] d])
qed

definition micro_function :: "nat \<Rightarrow> nat \<Rightarrow> bool" where
  "micro_function x y \<longleftrightarrow> x = 0 \<or> y = 0 \<or> x \<le> 8 \<and> y \<le> 8"

lemma area_mem:
  assumes "A \<subseteq> {..<w} \<times> {..<w}" "x < w"
  shows "y * w + x \<in> area w A \<longleftrightarrow> (x, y) \<in> A"
proof
  assume "y * w + x \<in> area w A"
  then obtain q where q: "q \<in> A" "y * w + x = snd q * w + fst q" unfolding area_def by (auto simp: case_prod_unfold)
  then have "fst q < w" using assms(1) by (auto simp: mem_Times_iff)
  with q assms(2) show "(x, y) \<in> A" by (cases q) (simp add: grid_eq)
qed (force simp: area_def)

lemma micro_function_iff:
  assumes "1 \<le> v" "v \<le> 4" "w = MQRspec_getWidth v" "x < w" "y < w"
  shows "is_data (MQRspec_createFrame v) (y * w + x) \<longleftrightarrow> \<not> micro_function x y"
proof -
  have w: "9 < w" using micro_width [OF assms(1,2)] assms(1,3) by simp
  let ?A = "{0..<0 + 7} \<times> {0..<0 + 7} \<union> (\<Union>y \<in> set [0..<7]. {(7, y)}) \<union> {0..<0 + 8} \<times> {7} \<union> {1..<1 + 8} \<times> {8}
      \<union> (\<Union>y \<in> set [0..<7]. {(8, y + 1)}) \<union> (\<Union>x \<in> set [1..<w - 7]. {(7 + x, 0)} \<union> {(0, 7 + x)})"
  have lt: "y * w + x < w * w" by (rule grid_less [OF assms(4,5)])
  have A: "?A \<subseteq> {..<w} \<times> {..<w}" using w by auto
  have "y * w + x \<in> area w ?A \<longleftrightarrow> (x, y) \<in> ?A" by (rule area_mem [OF A assms(4)])
  moreover have "(x, y) \<in> ?A \<longleftrightarrow> micro_function x y"
  proof -
    have e: "(\<exists>z \<in> {1..<w - 7}. u = 7 + z) \<longleftrightarrow> 8 \<le> u" if "u < w" for u
      using that by (auto intro!: bexI [of _ "u - 7"])
    have f: "(\<exists>z \<in> {0..<7}. y = z + 1) \<longleftrightarrow> 1 \<le> y \<and> y \<le> 7" by (auto intro!: bexI [of _ "y - 1"])
    have "(x, y) \<in> ?A \<longleftrightarrow> (x < 7 \<and> y < 7) \<or> (x = 7 \<and> y < 7) \<or> (x < 8 \<and> y = 7) \<or> (1 \<le> x \<and> x < 9 \<and> y = 8)
      \<or> (x = 8 \<and> (\<exists>z \<in> {0..<7}. y = z + 1)) \<or> ((\<exists>z \<in> {1..<w - 7}. x = 7 + z) \<and> y = 0) \<or> ((\<exists>z \<in> {1..<w - 7}. y = 7 + z) \<and> x = 0)"
      by auto
    then show ?thesis unfolding e [OF assms(4)] e [OF assms(5)] f micro_function_def by arith
  qed
  moreover have "is_data (replicate (w * w) 0) (y * w + x)" using lt by (simp add: is_data_def)
  ultimately show ?thesis
    using marks_is_data [OF marked_micro [OF w] length_replicate lt]
    by (simp add: MQRspec_createFrame_def Let_def assms(3) MQRspec_getWidth_def)
qed

text \<open>The data modules in the order of the filler.\<close>

definition micro_slots :: "nat \<Rightarrow> nat list" where
  "micro_slots v = (let w = MQRspec_getWidth v in data_modules w (mqr_walk w) (MQRspec_createFrame v))"

lemma card_micro: "9 < w \<Longrightarrow> card {(x, y). x < w \<and> y < w \<and> \<not> micro_function x y} = (w - 1) * (w - 1) - 64"
proof -
  assume w: "9 < w"
  have "{(x, y). x < w \<and> y < w \<and> \<not> micro_function x y} = {1..<w} \<times> {1..<w} - {1..<9} \<times> {1..<9}"
    by (auto simp: micro_function_def)
  moreover have "{1..<9} \<times> {1..<9} \<subseteq> {1..<w} \<times> {1..<w}" using w by auto
  ultimately show ?thesis by (simp add: card_Diff_subset card_cartesian_product)
qed

lemma micro_slots:
  assumes "1 \<le> v" "v \<le> 4" "w = MQRspec_getWidth v"
  shows "distinct (micro_slots v)" "set (micro_slots v) = {p. p < w * w \<and> is_data (MQRspec_createFrame v) p}"
    and "length (micro_slots v) = (w - 1) * (w - 1) - 64"
    and "length vs \<le> length (micro_slots v) \<Longrightarrow>
      \<exists>f. fold_res filler_store vs (FrameFiller_new w (MQRspec_createFrame v) True) = Inr f
        \<and> ff_frame f = store_all (micro_slots v) vs (MQRspec_createFrame v)"
proof -
  have w: "9 < w" "odd w" "3 \<le> w" "0 < w" using micro_width [OF assms(1,2)] assms(1,3) by simp_all
  note walk = is_walk_mqr [OF w(2,3)] and xy = mqr_walk_xy [OF w(2,3)]
  note iff = micro_function_iff [OF assms]
  have cover: "(p mod w, p div w) \<in> step_xy ` set (mqr_walk w)" if "p < w * w" "is_data (MQRspec_createFrame v) p" for p
  proof -
    have "p = (p div w) * w + p mod w \<and> p mod w < w \<and> p div w < w" by (rule pos_of_xy [OF w(4) that(1)])
    moreover from this have "p mod w \<noteq> 0" using iff [of "p mod w" "p div w"] that(2) by (auto simp: micro_function_def)
    ultimately show ?thesis using xy(3) by auto
  qed
  have last: "is_data (MQRspec_createFrame v) (w * w - 1)"
  proof -
    have "(w - 1) * w + (w - 1) = w * w - 1" using w(1) by (simp add: algebra_simps)
    then show ?thesis using iff [of "w - 1" "w - 1"] w(1) by (simp add: micro_function_def)
  qed
  have eq: "micro_slots v = data_modules w (mqr_walk w) (MQRspec_createFrame v)"
    by (simp add: micro_slots_def assms(3) Let_def)
  show d: "distinct (micro_slots v)" and s: "set (micro_slots v) = {p. p < w * w \<and> is_data (MQRspec_createFrame v) p}"
    unfolding eq using data_modules_set [OF walk xy(2) w(4) cover] by blast+
  have "bij_betw (\<lambda>(x, y). y * w + x) {(x, y). x < w \<and> y < w \<and> \<not> micro_function x y} (set (micro_slots v))"
  proof (rule bij_betw_imageI)
    show "inj_on (\<lambda>(x, y). y * w + x) {(x, y). x < w \<and> y < w \<and> \<not> micro_function x y}"
      by (auto simp: inj_on_def grid_eq)
    have "p \<in> (\<lambda>(x, y). y * w + x) ` {(x, y). x < w \<and> y < w \<and> \<not> micro_function x y} \<longleftrightarrow> p < w * w \<and> is_data (MQRspec_createFrame v) p" for p
    proof
      assume "p < w * w \<and> is_data (MQRspec_createFrame v) p"
      then show "p \<in> (\<lambda>(x, y). y * w + x) ` {(x, y). x < w \<and> y < w \<and> \<not> micro_function x y}"
        using pos_of_xy [OF w(4), of p] iff [of "p mod w" "p div w"] by (intro image_eqI [of _ _ "(p mod w, p div w)"]) simp_all
    next
      assume "p \<in> (\<lambda>(x, y). y * w + x) ` {(x, y). x < w \<and> y < w \<and> \<not> micro_function x y}"
      then obtain x y where "x < w" "y < w" "\<not> micro_function x y" "p = y * w + x" by auto
      then show "p < w * w \<and> is_data (MQRspec_createFrame v) p" using iff grid_less by simp
    qed
    then show "(\<lambda>(x, y). y * w + x) ` {(x, y). x < w \<and> y < w \<and> \<not> micro_function x y} = set (micro_slots v)"
      unfolding s by blast
  qed
  then have "card (set (micro_slots v)) = (w - 1) * (w - 1) - 64" by (simp only: bij_betw_same_card [symmetric] card_micro [OF w(1)])
  then show "length (micro_slots v) = (w - 1) * (w - 1) - 64" using distinct_card [OF d] by simp
  show "\<exists>f. fold_res filler_store vs (FrameFiller_new w (MQRspec_createFrame v) True) = Inr f
        \<and> ff_frame f = store_all (micro_slots v) vs (MQRspec_createFrame v)" if "length vs \<le> length (micro_slots v)"
    using filler_fill [OF walk last w(4), of vs] that by (simp add: eq)
qed

text \<open>The levels a version has: those with error correction codewords.\<close>

definition micro_level :: "nat \<Rightarrow> QRecLevel \<Rightarrow> bool" where
  "micro_level v level \<longleftrightarrow> 1 \<le> v \<and> v \<le> MQRSPEC_VERSION_MAX \<and> level \<le> QR_ECLEVEL_H \<and> MQRspec_getECCLength v level \<noteq> 0"

lemma micro_level_cases:
  assumes "micro_level v level"
  obtains "v = 1" "level = 0" | "v = 2" "level = 0" | "v = 2" "level = 1" | "v = 3" "level = 0" | "v = 3" "level = 1"
    | "v = 4" "level = 0" | "v = 4" "level = 1" | "v = 4" "level = 2"
proof -
  have v: "v = 1 \<or> v = 2 \<or> v = 3 \<or> v = 4" and l: "level = 0 \<or> level = 1 \<or> level = 2 \<or> level = 3"
    using assms by (auto simp: micro_level_def MQRSPEC_VERSION_MAX_def)
  show thesis using assms v l that
    by (elim disjE) (auto simp: micro_level_def MQRspec_getECCLength_def mqrspecCapacity_def)
qed

text \<open>
  For every version and level that Micro QR Code has, the modules the frame leaves free are
  those right of column 0 and below row 0 outside the square of finder and format information,
  and there are exactly as many as data bits and error correction codewords need; the data
  codewords are the data bits rounded up, the last one of versions 1 and 3 having four bits.
\<close>

lemma micro_capacity_exact:
  assumes "micro_level version level" "w = MQRspec_getWidth version"
  shows "card {p. p < w * w \<and> is_data (MQRspec_createFrame version) p}
       = MQRspec_getDataLengthBit version level + 8 * MQRspec_getECCLength version level
     \<and> MQRspec_getDataLength version level * 8
       = MQRspec_getDataLengthBit version level + (if odd version then 4 else 0)
     \<and> (\<forall>x < w. \<forall>y < w. is_data (MQRspec_createFrame version) (y * w + x) \<longleftrightarrow> \<not> micro_function x y)"
proof -
  have v: "1 \<le> version" "version \<le> 4" using assms(1) by (auto simp: micro_level_def MQRSPEC_VERSION_MAX_def)
  have n: "(w - 1) * (w - 1) - 64 = MQRspec_getDataLengthBit version level + 8 * MQRspec_getECCLength version level"
    and "MQRspec_getDataLength version level * 8 = MQRspec_getDataLengthBit version level + (if odd version then 4 else 0)"
    using assms(1) by (cases rule: micro_level_cases;
      simp add: assms(2) MQRspec_getDataLengthBit_def MQRspec_getECCLength_def MQRspec_getDataLength_def MQRspec_getWidth_def mqrspecCapacity_def)+
  moreover have "card {p. p < w * w \<and> is_data (MQRspec_createFrame version) p} = (w - 1) * (w - 1) - 64"
    using distinct_card [OF micro_slots(1) [OF v assms(2)]] unfolding micro_slots(2,3) [OF v assms(2)] .
  ultimately show ?thesis using micro_function_iff [OF v assms(2)] by (simp only: n) blast
qed

end
