(* ===== verification/QR_MStream.thy ===== *)
theory QR_MStream
  imports QR_Stream QR_Micro
begin

text \<open>
  The streams of Micro QR Code inputs: their segments, the padding that ends in half a codeword
  in versions 1 and 3, and a decoder that reads the data back from the bytes.
\<close>


section \<open>Segments\<close>

text \<open>The modes the versions of Micro QR Code have.\<close>

definition micro_mode :: "nat \<Rightarrow> QRencodeMode \<Rightarrow> bool" where
  "micro_mode v mode \<longleftrightarrow> mode = QR_MODE_NUM \<or> mode = QR_MODE_AN \<and> 2 \<le> v \<or> (mode = QR_MODE_8 \<or> mode = QR_MODE_KANJI) \<and> 3 \<le> v"

definition micro_mode_id :: "QRencodeMode \<Rightarrow> nat" where
  "micro_mode_id mode = (case mode of QR_MODE_AN \<Rightarrow> 1 | QR_MODE_8 \<Rightarrow> 2 | QR_MODE_KANJI \<Rightarrow> 3 | _ \<Rightarrow> 0)"

definition mseg_bits :: "nat \<Rightarrow> QRencodeMode \<Rightarrow> byte list \<Rightarrow> byte list" where
  "mseg_bits v mode data = bits_msb (v - 1) (micro_mode_id mode)
     @ bits_msb (MQRspec_lengthIndicator mode v) (char_count mode data) @ payload mode data"

lemma micro_version_cases: "1 \<le> v \<Longrightarrow> v \<le> 4 \<Longrightarrow> v = 1 \<or> v = 2 \<or> v = 3 \<or> v = (4 :: nat)"
  by auto

lemma micro_lengthIndicator:
  assumes "micro_mode v mode" "1 \<le> v" "v \<le> 4"
  shows "MQRspec_lengthIndicator mode v = (case mode of QR_MODE_NUM \<Rightarrow> v + 2 | QR_MODE_KANJI \<Rightarrow> v | _ \<Rightarrow> v + 1)"
    "MQRspec_lengthIndicator mode v \<le> 16" "micro_mode_id mode < 2 ^ (v - 1)"
  using assms(1) micro_version_cases [OF assms(2,3)]
  by (auto simp: micro_mode_def MQRspec_lengthIndicator_def mqr_lengthTableBits_def micro_mode_id_def)

lemma encode_mode_micro:
  assumes "entry_ok e" "micro_mode v (le_mode e)" "1 \<le> v" "v \<le> 4"
  shows "encode_mode e v True = Inr (bs_of (mseg_bits v (le_mode e) (le_data e)))"
proof -
  let ?d = "le_data e" and ?l = "MQRspec_lengthIndicator (le_mode e) v"
  have sz: "le_size e = length ?d" and ok: "data_ok (le_mode e) ?d" and ne: "?d \<noteq> []" using assms by (auto simp: entry_ok_def)
  have l: "?l \<le> 16" by (rule micro_lengthIndicator(2) [OF assms(2-4)])
  then have l32: "?l \<le> 32" "v - 1 \<le> 32" using assms(4) by simp_all
  note cnt = bits_msb_count [OF l]
  consider "le_mode e = QR_MODE_NUM" | "le_mode e = QR_MODE_AN" "2 \<le> v" | "le_mode e = QR_MODE_8" "3 \<le> v" | "le_mode e = QR_MODE_KANJI" "3 \<le> v"
    using assms(2) by (auto simp: micro_mode_def)
  then show ?thesis
  proof cases
    case 1
    then have p: "num_payload ?d = concat (map (\<lambda>i. bits_msb 10 (unat (num_triple ?d i))) [0..<length ?d div 3]) @ num_rest ?d"
      using ok by (intro num_payload_index) (simp add: data_ok_def)
    show ?thesis using 1 l32
      by (auto simp: encode_mode_def QRinput_encodeModeNum_def Let_def sz append_nums_new mseg_bits_def micro_mode_id_def
          char_count_def payload_def p cnt [unfolded 1] num_rest_def num_triple_def comp_def bs.appendNum_rep)
  next
    case 2
    then have p: "an_payload ?d = concat (map (\<lambda>i. bits_msb 11 (unat (an_pair ?d i))) [0..<length ?d div 2])
       @ (if odd (length ?d) then bits_msb 6 (unat (an_value (?d ! (length ?d div 2 * 2)))) else [])"
      using ok by (intro an_payload_index) (simp add: data_ok_def)
    have o: "(n :: nat) AND 1 \<noteq> 0 \<longleftrightarrow> odd n" for n by (simp add: and_one_eq odd_iff_mod_2_eq_one)
    show ?thesis using 2 l32 unfolding encode_mode_def QRinput_encodeModeAn_def Let_def o
      by (simp add: sz append_nums_new mseg_bits_def micro_mode_id_def char_count_def payload_def p cnt [unfolded 2] comp_def an_pair_def)
  next
    case 3
    then show ?thesis using l32
      by (simp add: encode_mode_def QRinput_encodeMode8_def Let_def sz append_nums_new mseg_bits_def micro_mode_id_def
          char_count_def payload_def cnt [unfolded 3] bs.appendBytes_rep)
  next
    case 4
    then have e: "even (length ?d)" and p: "kanji_payload ?d
        = concat (map (\<lambda>k. bits_msb 13 (unat (kanji_code (kanji_at ?d (2 * k))))) [0..<length ?d div 2])"
      using ok by (auto simp: data_ok_def intro: kanji_payload_index)
    have "Suc (length ?d) div 2 = length ?d div 2" using e by simp
    then show ?thesis using 4 l32
      by (simp add: encode_mode_def QRinput_encodeModeKanji_def Let_def sz append_nums_new mseg_bits_def micro_mode_id_def
          char_count_def payload_def p cnt [unfolded 4] comp_def)
  qed
qed

definition mentry_bits :: "nat \<Rightarrow> QRencodeMode \<Rightarrow> byte list \<Rightarrow> byte list" where
  "mentry_bits v = split_bits (mseg_bits v) v"

definition mall_bits :: "nat \<Rightarrow> QRinput_List list \<Rightarrow> byte list" where
  "mall_bits v es = concat (map (\<lambda>e. mentry_bits v (le_mode e) (le_data e)) es)"

definition mwith_stream :: "nat \<Rightarrow> QRinput_List \<Rightarrow> QRinput_List" where
  "mwith_stream v e = e\<lparr>le_bstream := Some (bs_of (mentry_bits v (le_mode e) (le_data e)))\<rparr>"

definition micro_entry :: "nat \<Rightarrow> QRinput_List \<Rightarrow> bool" where
  "micro_entry v e \<longleftrightarrow> entry_ok e \<and> micro_mode v (le_mode e)"

lemma createBitStream_loop_micro:
  assumes "1 \<le> v" "v \<le> 4"
  shows "list_all (micro_entry v) es \<Longrightarrow>
     createBitStream_loop es v True n = (Inr (n + length (mall_bits v es)), map (mwith_stream v) es)"
proof (induction es arbitrary: n)
  case (Cons e es)
  then have e: "entry_ok e" "micro_mode v (le_mode e)" by (simp_all add: micro_entry_def)
  have "QRinput_encodeBitStream e v True = Inr (mwith_stream v e)"
    unfolding mwith_stream_def mentry_bits_def
    by (rule encodeBitStream_split [OF _ e(1) refl]) (use encode_mode_micro e(2) assms in auto)
  then show ?case using Cons by (simp add: Let_def mall_bits_def mwith_stream_def add.assoc)
qed (simp add: mall_bits_def)

lemma is_bits_mall_bits [simp]: "is_bits (mall_bits v es)"
proof -
  have "is_bits (mentry_bits v mode data)" for mode data
  proof (induction "length data" arbitrary: data rule: less_induct)
    case less
    have "is_bits (mseg_bits v mode d)" for d by (simp add: mseg_bits_def)
    then show ?case using less [of "drop (QRspec_maximumWords mode v) data"]
      unfolding mentry_bits_def by (subst split_bits.simps) (auto simp: Let_def)
  qed
  then show ?thesis by (induction es) (simp_all add: mall_bits_def)
qed

lemma merge_streams_micro: "merge_streams (map (mwith_stream v) es) = Inr (bs_of (mall_bits v es))"
proof -
  have "fold_res (\<lambda>e b. BitStream_append b (le_bstream e)) (map (mwith_stream v) es) (bs_of xs) = Inr (bs_of (xs @ mall_bits v es))" for xs
    by (induction es arbitrary: xs) (simp_all add: mall_bits_def mwith_stream_def bs.append_rep)
  from this [of "[]"] show ?thesis by (simp add: merge_streams_def bs.new_rep)
qed

section \<open>Padding\<close>

lemma micro_bits:
  assumes "micro_level v level"
  obtains k where "0 < k" "MQRspec_getDataLengthBit v level = 8 * k + (if odd v then 4 else 0)"
    "MQRspec_getDataLength v level = k + (if odd v then 1 else 0)" "8 * k + 4 \<le> 132" "k < 17"
  using assms
  by (cases rule: micro_level_cases)
    (simp_all add: MQRspec_getDataLengthBit_def MQRspec_getDataLength_def mqrspecCapacity_def)

text \<open>
  What is appended: the terminator, and zeros up to a byte boundary; then pad bytes and, in versions
  1 and 3, four zeros. When the terminator ends in the last half byte, the code fills the whole
  byte.
\<close>

definition mpadding :: "nat \<Rightarrow> nat \<Rightarrow> nat \<Rightarrow> byte list" where
  "mpadding v k n =
     (let m = 8 * k + (if odd v then 4 else 0); t = 2 * v + 1; words = (n + t + 7) div 8
      in if m - n \<le> t then replicate (m - n) 0
         else if words > k then replicate (8 * words - n) 0
         else if words = k then replicate (m - n) 0
         else replicate (8 * words - n) 0 @ bytes_bits (pad_bytes (k - words)) @ replicate (m - 8 * k) 0)"

lemma appendPaddingBitMQR_ok:
  assumes "MQRspec_getDataLengthBit v level = 8 * k + (if odd v then 4 else 0)" "v = inp_version i" "level = inp_level i" "v \<le> 4"
    and "length xs \<le> 8 * k + (if odd v then 4 else 0)"
  shows "QRinput_appendPaddingBitMQR (bs_of xs) i = Inr (bs_of (xs @ mpadding v k (length xs)))"
proof -
  define m where "m = 8 * k + (if odd v then 4 else 0)"
  define t where "t = 2 * v + 1"
  let ?n = "length xs" let ?words = "(?n + t + 7) div 8"
  have m: "MQRspec_getDataLengthBit (inp_version i) (inp_level i) = m" "m div 8 = k" "m - 8 * k = (if odd v then 4 else 0)" "m - 8 * k \<le> 32"
    using assms(1-3) by (auto simp: m_def)
  have n: "?n \<le> m" using assms(5) by (simp add: m_def)
  have t: "t \<le> 9" "inp_version i * 2 + 1 = t" using assms(2,4) by (simp_all add: t_def)
  have lp: "length (pad_bytes k) = k" for k by (simp add: pad_bytes_def)
  show ?thesis
  proof (cases "m - ?n \<le> t")
    case True
    then show ?thesis using n t
      unfolding QRinput_appendPaddingBitMQR_def mpadding_def Let_def bs_of_sel m(1) m_def [symmetric] t_def [symmetric]
      by (auto simp: bs.appendNum_rep bits_msb_zero)
  next
    case False
    have w: "?n + t \<le> 8 * ?words" "8 * ?words \<le> ?n + t + 7" by linarith+
    have b: "t + (?words * 8 - (?n + t)) = 8 * ?words - ?n" using w by linarith
    have "m \<le> 8 * k + 4" by (simp add: m_def)
    then have c: "8 * ?words - ?n \<le> 32" "?words = k \<Longrightarrow> m - ?n \<le> 32" using w t(1) by linarith+
    show ?thesis
    proof (cases "?words > k")
      case True
      then have "\<not> m > ?words * 8" using m_def by (auto split: if_splits)
      then show ?thesis using False True n t b c
        unfolding QRinput_appendPaddingBitMQR_def mpadding_def Let_def bs_of_sel m(1,2) m_def [symmetric] t_def [symmetric] t(2)
        by (simp add: bs.appendNum_rep bs.append_rep bits_msb_zero bs.new_rep b)
    next
      case le: False
      show ?thesis
      proof (cases "?words = k")
        case True
        have "t + (?words * 8 - (?n + t)) + (m - ?words * 8) = m - ?n" if "m > ?words * 8" using that w False by linarith
        moreover have "8 * ?words - ?n = m - ?n" if "\<not> m > ?words * 8" using that True m_def by (simp split: if_splits)
        ultimately show ?thesis using False le True n t b c
          unfolding QRinput_appendPaddingBitMQR_def mpadding_def Let_def bs_of_sel m(1,2) m_def [symmetric] t_def [symmetric] t(2)
          by (simp add: bs.appendNum_rep bs.append_rep bits_msb_zero bs.new_rep)
      next
        case ne: False
        have "m > ?words * 8" using le ne m_def by (simp split: if_splits)
        then show ?thesis using False le ne n t b c lp m(3,4)
          unfolding QRinput_appendPaddingBitMQR_def mpadding_def Let_def bs_of_sel m(1,2) m_def [symmetric] t_def [symmetric] t(2)
          by (auto simp: bs.appendNum_rep bs.append_rep bs.appendBytes_rep bits_msb_zero bs.new_rep mult.commute)
      qed
    qed
  qed
qed

text \<open>The bits of the data codewords that a symbol shows.\<close>

definition micro_data_bits :: "nat \<Rightarrow> byte list \<Rightarrow> byte list" where
  "micro_data_bits v bytes =
     (if odd v then bytes_bits (butlast bytes) @ bits_msb 4 (unat (last bytes)) else bytes_bits bytes)"

lemma toByte_micro:
  assumes "is_bits ys" "0 < k" "m = 8 * k + (if odd v then 4 else 0)"
    and "length ys = m \<or> odd v \<and> length ys = m + 4 \<and> drop (8 * k) ys = replicate 8 0"
  shows "\<exists>bytes. BitStream_toByte (bs_of ys) = Some bytes \<and> length bytes = k + (if odd v then 1 else 0)
     \<and> micro_data_bits v bytes = take m ys"
proof -
  have len: "8 * k \<le> length ys" using assms(3,4) by auto
  obtain vs where vs: "length vs = k" "take (8 * k) ys = bytes_bits vs"
    using bits_as_bytes [of "take (8 * k) ys" k] is_bits_take [OF assms(1)] len by auto
  let ?r = "drop (8 * k) ys"
  have ys: "ys = bytes_bits vs @ ?r" using vs(2) append_take_drop_id [of "8 * k" ys] by simp
  have r: "is_bits ?r" by (rule is_bits_drop [OF assms(1)])
  have ne: "vs \<noteq> []" using vs(1) assms(2) by auto
  from assms(4) show ?thesis
  proof (elim disjE conjE)
    assume l: "length ys = m"
    show ?thesis
    proof (cases "odd v")
      case True
      then have l4: "length ?r = 4" using l assms(3) by simp
      have "bits_val ?r < 16" using bits_val_less [OF r] l4 by simp
      then have "unat (word_of_nat (bits_val ?r) :: byte) = bits_val ?r" by (simp add: unat_of_nat take_bit_nat_eq_self)
      then have "bits_msb 4 (unat (word_of_nat (bits_val ?r) :: byte)) = ?r" using bits_msb_bits_val [OF r] l4 by simp
      moreover have "BitStream_toByte (bs_of ys) = Some (vs @ [word_of_nat (bits_val ?r)])"
        using BitStream_toByte_bs_of [OF r, of vs] l4 ne ys by auto
      ultimately show ?thesis using True l vs(1) ys by (intro exI [of _ "vs @ [word_of_nat (bits_val ?r)]"]) (simp add: micro_data_bits_def)
    next
      case False
      then have "?r = []" using l assms(3) by simp
      then show ?thesis using False l vs(1) ys BitStream_toByte_bs_of [of "[]" vs] ne
        by (intro exI [of _ vs]) (simp add: micro_data_bits_def)
    qed
  next
    assume o: "odd v" and l: "length ys = m + 4" and z: "?r = replicate 8 0"
    have "bytes_bits (vs @ [0]) = bytes_bits vs @ replicate 8 0" by (simp add: bits_msb_zero)
    then have "ys = bytes_bits (vs @ [0])" using ys z by simp
    moreover from this have "BitStream_toByte (bs_of ys) = Some (vs @ [0])" using BitStream_toByte_bs_of [of "[]" "vs @ [0]"] by simp
    moreover have "take m ys = bytes_bits vs @ replicate 4 0" using o assms(3) z vs(1) by (subst ys) simp
    ultimately show ?thesis using o vs(1) by (intro exI [of _ "vs @ [0]"]) (simp add: micro_data_bits_def bits_msb_zero)
  qed
qed

section \<open>The bytes of an input\<close>

definition mqr_input_ok :: "QRinput \<Rightarrow> bool" where
  "mqr_input_ok i \<longleftrightarrow> inp_mqr i \<and> micro_level (inp_version i) (inp_level i) \<and> list_all (micro_entry (inp_version i)) (inp_entries i)"

lemma mpadding_length:
  assumes "n \<le> m" "m = 8 * k + (if odd v then 4 else 0)"
  shows "n + length (mpadding v k n) = m
     \<or> odd v \<and> n + length (mpadding v k n) = m + 4 \<and> n \<le> 8 * k \<and> mpadding v k n = replicate (m + 4 - n) 0"
proof -
  let ?t = "2 * v + 1" let ?words = "(n + ?t + 7) div 8"
  have lp: "length (pad_bytes k) = k" for k by (simp add: pad_bytes_def)
  have w: "n + ?t \<le> 8 * ?words" "8 * ?words \<le> n + ?t + 7" by linarith+
  show ?thesis
  proof (cases "m - n \<le> ?t \<or> ?words \<le> k")
    case True
    have "8 * ?words - n + 8 * (k - ?words) + (m - 8 * k) + n = m" if "?words < k" using that w assms(2) by linarith
    then show ?thesis using True assms unfolding mpadding_def Let_def assms(2) [symmetric] by (auto simp: lp)
  next
    case False
    then have o: "odd v" using w assms(2) by (cases "odd v") auto
    then have v: "1 \<le> v" by (cases v) auto
    have "?words = Suc k" "n \<le> 8 * k" using False o assms(2) w v by simp_all linarith+
    moreover have "m = 8 * k + 4" using o assms(2) by simp
    ultimately show ?thesis using False o unfolding mpadding_def Let_def assms(2) [symmetric] by simp
  qed
qed

lemma getByteStream_micro:
  assumes "mqr_input_ok i" "v = inp_version i" "level = inp_level i"
  obtains (ok) k bytes where "QRinput_getByteStream i = (Inr bytes, i\<lparr>inp_entries := map (mwith_stream v) (inp_entries i)\<rparr>)"
      "length bytes = MQRspec_getDataLength v level"
      "micro_data_bits v bytes = take (MQRspec_getDataLengthBit v level)
         (mall_bits v (inp_entries i) @ mpadding v k (length (mall_bits v (inp_entries i))))"
      "MQRspec_getDataLengthBit v level = 8 * k + (if odd v then 4 else 0)"
      "length (mall_bits v (inp_entries i)) \<le> MQRspec_getDataLengthBit v level"
  | (range) i' where "QRinput_getByteStream i = (Inl ERANGE, i')"
      "MQRspec_getDataLengthBit v level < length (mall_bits v (inp_entries i))"
proof -
  let ?es = "inp_entries i" let ?xs = "mall_bits v ?es" let ?i = "i\<lparr>inp_entries := map (mwith_stream v) ?es\<rparr>"
  let ?m = "MQRspec_getDataLengthBit v level"
  have a: "inp_mqr i" "micro_level v level" "list_all (micro_entry v) ?es" using assms by (simp_all add: mqr_input_ok_def)
  have v: "1 \<le> v" "v \<le> 4" using a(2) by (auto simp: micro_level_def MQRSPEC_VERSION_MAX_def)
  obtain k where k: "0 < k" "?m = 8 * k + (if odd v then 4 else 0)" "MQRspec_getDataLength v level = k + (if odd v then 1 else 0)"
    using micro_bits [OF a(2)] by metis
  have "QRinput_createBitStream i = (Inr (length ?xs), ?i)"
    using createBitStream_loop_micro [OF v a(3), of 0] a(1) by (simp add: QRinput_createBitStream_def assms(2) [symmetric])
  then have g: "QRinput_mergeBitStream i = (Inr (bs_of ?xs), ?i)"
    using a(1) by (simp add: QRinput_mergeBitStream_def merge_streams_micro)
  show thesis
  proof (cases "length ?xs \<le> ?m")
    case True
    let ?ys = "?xs @ mpadding v k (length ?xs)"
    have "QRinput_appendPaddingBitMQR (bs_of ?xs) ?i = Inr (bs_of ?ys)"
      using True k(2) v assms(2,3) by (intro appendPaddingBitMQR_ok) simp_all
    then have b: "QRinput_getBitStream i = (Inr (bs_of ?ys), ?i)" using a(1) by (simp add: QRinput_getBitStream_def g)
    have isb: "is_bits ?ys" by (simp add: mpadding_def Let_def)
    have "length ?ys = ?m \<or> odd v \<and> length ?ys = ?m + 4 \<and> drop (8 * k) ?ys = replicate 8 0"
      using mpadding_length [OF True k(2)] k(2) by auto
    from toByte_micro [OF isb k(1,2) this] obtain bytes where
      "BitStream_toByte (bs_of ?ys) = Some bytes" "length bytes = k + (if odd v then 1 else 0)" "micro_data_bits v bytes = take ?m ?ys" by blast
    then show thesis using that(1) [of bytes k] b k True by (simp add: QRinput_getByteStream_def)
  next
    case False
    then have "QRinput_appendPaddingBitMQR (bs_of ?xs) ?i = Inl ERANGE"
      using assms(2,3) by (simp add: QRinput_appendPaddingBitMQR_def Let_def)
    then have "QRinput_getByteStream i = (Inl ERANGE, ?i)"
      using a(1) by (simp add: QRinput_getByteStream_def QRinput_getBitStream_def g)
    then show thesis using that(2) False by simp
  qed
qed

section \<open>The decoder\<close>

definition micro_mode_of :: "nat \<Rightarrow> QRencodeMode" where
  "micro_mode_of k = (if k = 0 then QR_MODE_NUM else if k = 1 then QR_MODE_AN else if k = 2 then QR_MODE_8 else QR_MODE_KANJI)"

definition dec_payload :: "QRencodeMode \<Rightarrow> nat \<Rightarrow> byte list \<Rightarrow> byte list \<times> byte list" where
  "dec_payload mode = (case mode of QR_MODE_NUM \<Rightarrow> dec_num | QR_MODE_AN \<Rightarrow> dec_an | QR_MODE_8 \<Rightarrow> dec_bytes | _ \<Rightarrow> dec_kanji)"

text \<open>The terminator is the header of a numeric segment without digits, possibly cut off.\<close>

definition mdec_seg :: "nat \<Rightarrow> byte list \<Rightarrow> (QRencodeMode \<times> byte list \<times> byte list) option" where
  "mdec_seg v bs =
     (let k = bits_val (take (v - 1) bs); mode = micro_mode_of k; l = MQRspec_lengthIndicator mode v;
          n = bits_val (take l (drop (v - 1) bs))
      in if length bs < v - 1 + l \<or> k > 3 \<or> n = 0 then None
         else Some (mode, dec_payload mode n (drop l (drop (v - 1) bs))))"

function mdec_stream :: "nat \<Rightarrow> byte list \<Rightarrow> (QRencodeMode \<times> byte) list" where
  "mdec_stream v bs =
     (case mdec_seg v bs of
        None \<Rightarrow> []
      | Some (mode, data, r) \<Rightarrow>
          if length r < length bs then map (Pair mode) data @ mdec_stream v r else [])"
  by pat_completeness auto
termination by (relation "measure (\<lambda>(v, bs). length bs)") auto

declare mdec_stream.simps [simp del]

lemma micro_mode_of_id: "micro_mode v mode \<Longrightarrow> micro_mode_of (micro_mode_id mode) = mode \<and> micro_mode_id mode \<le> 3"
  by (auto simp: micro_mode_def micro_mode_of_def micro_mode_id_def)

lemma dec_payload_bits:
  assumes "data_ok mode data" "readable mode data" "micro_mode v mode"
  shows "dec_payload mode (char_count mode data) (payload mode data @ rest) = (data, rest)"
  using assms dec_num_payload [of data rest] dec_an_payload [of data rest] dec_bytes_payload [of data rest] dec_kanji_payload [of data rest]
  by (auto simp: micro_mode_def dec_payload_def char_count_def payload_def data_ok_def readable_def)

lemma mdec_seg_bits:
  assumes "data_ok mode data" "readable mode data" "micro_mode v mode" "1 \<le> v" "v \<le> 4"
    and "0 < char_count mode data" "char_count mode data < 2 ^ MQRspec_lengthIndicator mode v"
  shows "mdec_seg v (mseg_bits v mode data @ rest) = Some (mode, data, rest)"
  using assms(6,7) dec_payload_bits [OF assms(1-3)] micro_mode_of_id [OF assms(3)] micro_lengthIndicator(3) [OF assms(3-5)]
  by (simp add: mdec_seg_def mseg_bits_def Let_def bits_val_bits_msb)

lemma mdec_padding:
  assumes "1 \<le> v" "v \<le> 4" "n \<le> m" "m = 8 * k + (if odd v then 4 else 0)" "ps = take (m - n) (mpadding v k n)"
  shows "mdec_stream v ps = []"
proof -
  let ?t = "2 * v + 1" let ?words = "(n + ?t + 7) div 8"
  have w: "?t \<le> 8 * ?words - n" by linarith
  have rep: "replicate a x = replicate (min b a) x @ replicate (a - min b a) x" for a b and x :: byte
    by (simp flip: replicate_add)
  have "\<exists>r. ps = replicate (min (m - n) ?t) 0 @ r"
  proof (cases "m - n \<le> ?t")
    case True
    then show ?thesis by (simp add: assms(5) mpadding_def Let_def flip: assms(4))
  next
    case False
    have "\<exists>r. mpadding v k n = replicate ?t 0 @ r"
      using w False rep [of "8 * ?words - n" 0 ?t] rep [of "m - n" 0 ?t]
      by (simp add: mpadding_def Let_def min_absorb1 flip: assms(4))
    then obtain q where q: "mpadding v k n = replicate ?t 0 @ q" by blast
    have "min (m - n) ?t = ?t" using False by simp
    then show ?thesis by (auto simp only: assms(5) q take_append length_replicate take_replicate)
  qed
  then obtain r where r: "ps = replicate (min (m - n) ?t) 0 @ r" by blast
  have l: "MQRspec_lengthIndicator QR_MODE_NUM v = v + 2" using micro_lengthIndicator(1) [of v QR_MODE_NUM] assms by (simp add: micro_mode_def)
  have z: "bits_val (replicate a 0) = 0" for a using bits_val_zeros [of a] by simp
  have "mdec_seg v ps = None"
  proof (cases "?t \<le> m - n")
    case True
    have "?t = (v - 1) + (v + 2)" using assms(1) by simp
    then have ps: "ps = replicate (v - 1) 0 @ replicate (v + 2) 0 @ r"
      using r True by (simp only: min_absorb2 replicate_add append_assoc)
    show ?thesis unfolding ps by (simp add: mdec_seg_def Let_def z micro_mode_of_def l)
  next
    case False
    have "length ps \<le> m - n" by (simp add: assms(5))
    then have "r = []" using arg_cong [OF r, of length] False by (cases r) auto
    then have "length ps < v - 1 + (v + 2)" "ps = replicate (length ps) 0" using assms(1) r False by auto
    moreover from this(2) have "take (v - 1) ps = replicate (min (length ps) (v - 1)) 0" by (metis take_replicate min.commute)
    ultimately show ?thesis by (simp add: mdec_seg_def Let_def z micro_mode_of_def l)
  qed
  then show ?thesis by (subst mdec_stream.simps) simp
qed

text \<open>Entries that fit into a symbol are not cut, and their count fits its field.\<close>

definition micro_max :: "nat \<Rightarrow> nat" where
  "micro_max v = [0, 20, 40, 84, 128] ! v"

lemma micro_max:
  assumes "micro_level v level"
  shows "MQRspec_getDataLengthBit v level \<le> micro_max v"
  using assms by (cases rule: micro_level_cases) (simp_all add: MQRspec_getDataLengthBit_def mqrspecCapacity_def micro_max_def)

lemma payload_size:
  assumes "micro_mode v mode" "data_ok mode data"
  shows "length (payload mode data) = (case mode of QR_MODE_NUM \<Rightarrow> 10 * (length data div 3) + (if length data mod 3 = 1 then 4 else if length data mod 3 = 2 then 7 else 0)
     | QR_MODE_AN \<Rightarrow> 11 * (length data div 2) + 6 * (length data mod 2) | QR_MODE_8 \<Rightarrow> 8 * length data | _ \<Rightarrow> 13 * (length data div 2))"
proof -
  have "length data - length data div 3 * 3 = length data mod 3" by (simp add: minus_div_mult_eq_mod)
  then show ?thesis using assms
  by (auto simp: micro_mode_def payload_def length_num_payload length_an_payload length_kanji_payload QRinput_estimateBitsModeNum_def
      QRinput_estimateBitsModeAn_def QRinput_estimateBitsModeKanji_def Let_def and_one_eq odd_iff_mod_2_eq_one)
qed

lemma micro_entry_fits:
  assumes "micro_mode v mode" "data_ok mode data" "data \<noteq> []" "1 \<le> v" "v \<le> 4" "length (mentry_bits v mode data) \<le> micro_max v"
  shows "mentry_bits v mode data = mseg_bits v mode data" "0 < char_count mode data"
    "char_count mode data < 2 ^ MQRspec_lengthIndicator mode v"
proof -
  let ?W = "QRspec_maximumWords mode v"
  have W: "?W = (case mode of QR_MODE_NUM \<Rightarrow> 1023 | QR_MODE_AN \<Rightarrow> 511 | QR_MODE_8 \<Rightarrow> 255 | _ \<Rightarrow> 510)"
    using assms(1,5) by (auto simp: micro_mode_def QRspec_maximumWords_def QRinput_isSplittableMode_def lengthTableBits_def length_class_def)
  have mx: "micro_max v \<le> 128" using micro_version_cases [OF assms(4,5)] by (auto simp: micro_max_def)
  have "\<not> ?W < length data"
  proof
    assume lt: "?W < length data"
    have W0: "?W \<noteq> 0" using W by (simp split: QRencodeMode.splits)
    have "data_ok mode (take ?W data)" using data_ok_split(1) [OF assms(2) refl W0 lt] .
    then have "length (payload mode (take ?W data)) > 128"
      using assms(1) lt W by (simp add: payload_size) (auto simp: micro_mode_def)
    moreover have "mentry_bits v mode data = mseg_bits v mode (take ?W data) @ mentry_bits v mode (drop ?W data)"
      unfolding mentry_bits_def using lt W0 by (subst split_bits.simps) (simp add: Let_def)
    ultimately show False using assms(6) mx by (simp add: mseg_bits_def)
  qed
  then show m: "mentry_bits v mode data = mseg_bits v mode data" unfolding mentry_bits_def by (subst split_bits.simps) (auto simp: Let_def)
  show "0 < char_count mode data" using assms(1-3)
    by (cases data) (auto simp: char_count_def micro_mode_def data_ok_def elim!: oddE)
  have fit: "v - 1 + MQRspec_lengthIndicator mode v + length (payload mode data) \<le> micro_max v"
    using assms(6) unfolding m by (simp add: mseg_bits_def add.assoc)
  show "char_count mode data < 2 ^ MQRspec_lengthIndicator mode v"
    using micro_version_cases [OF assms(4,5)] assms(1) fit payload_size [OF assms(1,2)] micro_lengthIndicator(1) [OF assms(1,4,5)]
    by (auto simp: micro_mode_def micro_max_def char_count_def)
qed

lemma mdec_stream_all:
  assumes "1 \<le> v" "v \<le> 4"
  shows "list_all (micro_entry v) es \<Longrightarrow> list_all (\<lambda>e. readable (le_mode e) (le_data e)) es \<Longrightarrow> length (mall_bits v es) \<le> micro_max v \<Longrightarrow>
     mdec_stream v (mall_bits v es @ rest) = concat (map (\<lambda>e. map (Pair (le_mode e)) (le_data e)) es) @ mdec_stream v rest"
proof (induction es)
  case (Cons e es)
  let ?m = "le_mode e" and ?d = "le_data e"
  have e: "micro_mode v ?m" "data_ok ?m ?d" "?d \<noteq> []" "readable ?m ?d"
    using Cons.prems by (auto simp: micro_entry_def entry_ok_def)
  have "length (mentry_bits v ?m ?d) \<le> micro_max v" using Cons.prems(3) by (simp add: mall_bits_def)
  note fits = micro_entry_fits [OF e(1-3) assms this]
  have "mdec_seg v (mseg_bits v ?m ?d @ mall_bits v es @ rest) = Some (?m, ?d, mall_bits v es @ rest)"
    by (rule mdec_seg_bits [OF e(2,4,1) assms fits(2,3)])
  moreover have "0 < length (mseg_bits v ?m ?d)" using fits(3) fits(2) by (cases "MQRspec_lengthIndicator ?m v") (auto simp: mseg_bits_def)
  ultimately have "mdec_stream v (mseg_bits v ?m ?d @ mall_bits v es @ rest) = map (Pair ?m) ?d @ mdec_stream v (mall_bits v es @ rest)"
    by (subst mdec_stream.simps) simp
  then show ?case using Cons by (simp add: mall_bits_def fits(1))
qed (simp add: mall_bits_def)

lemma getByteStream_micro_reads:
  assumes "mqr_input_ok i" "list_all (\<lambda>e. readable (le_mode e) (le_data e)) (inp_entries i)"
  shows "(\<exists>bytes i'. QRinput_getByteStream i = (Inr bytes, i') \<and> inp_level i' = inp_level i \<and> inp_mqr i'
        \<and> length bytes = MQRspec_getDataLength (inp_version i) (inp_level i)
        \<and> mdec_stream (inp_version i) (micro_data_bits (inp_version i) bytes)
            = concat (map (\<lambda>e. map (Pair (le_mode e)) (le_data e)) (inp_entries i)))
     \<or> (\<exists>i'. QRinput_getByteStream i = (Inl ERANGE, i')
        \<and> MQRspec_getDataLengthBit (inp_version i) (inp_level i) < length (mall_bits (inp_version i) (inp_entries i)))"
  using assms(1) refl refl
proof (cases rule: getByteStream_micro)
  case (ok k bytes)
  let ?v = "inp_version i" let ?m = "MQRspec_getDataLengthBit ?v (inp_level i)" let ?xs = "mall_bits ?v (inp_entries i)"
  have a: "inp_mqr i" "micro_level ?v (inp_level i)" "list_all (micro_entry ?v) (inp_entries i)" using assms by (simp_all add: mqr_input_ok_def)
  have v: "1 \<le> ?v" "?v \<le> 4" using a(2) by (auto simp: micro_level_def MQRSPEC_VERSION_MAX_def)
  have "micro_data_bits ?v bytes = ?xs @ take (?m - length ?xs) (mpadding ?v k (length ?xs))" using ok(3,5) by simp
  moreover have "length ?xs \<le> micro_max ?v" using ok(5) micro_max [OF a(2)] by simp
  ultimately have "mdec_stream ?v (micro_data_bits ?v bytes) = concat (map (\<lambda>e. map (Pair (le_mode e)) (le_data e)) (inp_entries i))"
    using mdec_stream_all [OF v a(3) assms(2)] mdec_padding [OF v ok(5,4) refl] by simp
  then show ?thesis using ok a(1) by auto
qed auto

text \<open>
  The data of a Micro QR Code input survives: for every version and level the standard has and
  entries in modes of the version, \<open>QRinput_getByteStream\<close> fails only with \<open>ERANGE\<close>, exactly when the
  streams exceed the data bits of the symbol; otherwise it returns as many bytes as the symbol
  has data codewords, and their bits, the last codeword of versions 1 and 3 counting four, are
  read by the decoder as the bytes of all entries. This includes the case where the code pads the
  half codeword to a whole byte.
\<close>

lemma getByteStream_micro_roundtrip:
  assumes "mqr_input_ok input" "list_all (\<lambda>e. readable (le_mode e) (le_data e)) (inp_entries input)"
  defines "v \<equiv> inp_version input"
  shows "case fst (QRinput_getByteStream input) of
       Inr bytes \<Rightarrow> length bytes = MQRspec_getDataLength v (inp_level input)
         \<and> mdec_stream v (micro_data_bits v bytes) = concat (map (\<lambda>e. map (Pair (le_mode e)) (le_data e)) (inp_entries input))
     | Inl e \<Rightarrow> e = ERANGE \<and> MQRspec_getDataLengthBit v (inp_level input) < length (mall_bits v (inp_entries input))"
  using getByteStream_micro_reads [OF assms(1,2)] unfolding v_def by (auto split: sum.splits prod.splits)

definition one_micro_digit :: QRinput where
  "one_micro_digit = one_digit\<lparr>inp_version := 1, inp_level := QR_ECLEVEL_L, inp_mqr := True\<rparr>"

lemma one_micro_digit:
  "mqr_input_ok one_micro_digit" "list_all (\<lambda>e. readable (le_mode e) (le_data e)) (inp_entries one_micro_digit)"
  by (simp_all add: one_micro_digit_def one_digit_def mqr_input_ok_def micro_level_def MQRSPEC_VERSION_MAX_def MQRspec_getECCLength_def
      mqrspecCapacity_def micro_entry_def entry_ok_def data_ok_def digit_ok_def micro_mode_def readable_def)

lemma one_micro_digit_fits: "length (mall_bits 1 (inp_entries one_micro_digit)) = 7" "MQRspec_getDataLengthBit 1 QR_ECLEVEL_L = 20"
  by (simp_all add: mall_bits_def mentry_bits_def split_bits.simps one_micro_digit_def one_digit_def mseg_bits_def payload_def
      MQRspec_lengthIndicator_def mqr_lengthTableBits_def QRspec_maximumWords_def QRinput_isSplittableMode_def lengthTableBits_def
      length_class_def MQRspec_getDataLengthBit_def mqrspecCapacity_def)

section \<open>Kanji in version 2\<close>

text \<open>
  C36. The check of the version in the kanji encoder is off by one: version 2 has no kanji mode, but
  an entry is refused in version 1 only. In version 2 it is written with the one-bit indicator of
  alphanumeric mode and no count at all, so that a reader takes it for alphanumeric data.
\<close>

theorem kanji_in_version_2:
  assumes "entry_ok e" "le_mode e = QR_MODE_KANJI"
  shows "QRinput_encodeModeKanji e 2 True = Inr (bs_of (1 # kanji_payload (le_data e)))
     \<and> micro_mode_of (bits_val [1]) = QR_MODE_AN \<and> QRinput_encodeModeKanji e 1 True = Inl EINVAL"
proof -
  let ?d = "le_data e"
  have e: "even (length ?d)" "le_size e = length ?d" and p: "kanji_payload ?d
      = concat (map (\<lambda>k. bits_msb 13 (unat (kanji_code (kanji_at ?d (2 * k))))) [0..<length ?d div 2])"
    using assms by (auto simp: entry_ok_def data_ok_def intro: kanji_payload_index)
  have "Suc (length ?d) div 2 = length ?d div 2" using e(1) by simp
  then show ?thesis
    by (simp add: QRinput_encodeModeKanji_def Let_def append_nums_new e(2) p comp_def MQRspec_lengthIndicator_def mqr_lengthTableBits_def
        micro_mode_of_def)
qed

theorem kanji_in_version_2_witness:
  "\<exists>b. QRinput_encodeModeKanji \<lparr>le_mode = QR_MODE_KANJI, le_size = 2, le_data = [0x82, 0x9f], le_bstream = None\<rparr> 2 True = Inr b
     \<and> hd (bs_data b) = 1"
  using kanji_in_version_2 [of "\<lparr>le_mode = QR_MODE_KANJI, le_size = 2, le_data = [0x82, 0x9f], le_bstream = None\<rparr>"]
  by (simp add: entry_ok_def data_ok_def kanji_at_def kanji_char_ok_def bs_of_def)

end
