(* ===== verification/QR_MicroCode.thy ===== *)
theory QR_MicroCode
  imports QR_Encode QR_MStream
begin

text \<open>
  Micro QR Code symbols from input to modules: what \<open>QRcode_encodeMaskMQR\<close> of \<open>qrencode.c\<close> places,
  with the half codeword of versions 1 and 3, and that the symbol can be read back.
\<close>

section \<open>Placing the codewords\<close>

definition mcode_bits :: "MQRRawCode \<Rightarrow> nat \<Rightarrow> byte list" where
  "mcode_bits raw k =
     (if k < mraw_dataLength raw
      then bits_msb (if mraw_oddbits raw \<noteq> 0 \<and> k + 1 = mraw_dataLength raw then mraw_oddbits raw else 8) (unat (mraw_datacode raw ! k))
      else bits_msb 8 (unat (mraw_ecccode raw ! (k - mraw_dataLength raw))))"

lemma put_code_half: "put_code_bits 4 (push_bit 3 1) code f = fold_res filler_store (map (\<lambda>b. 0x02 OR b) (bits_msb 4 (unat code))) f"
proof -
  have "drop_bit (8 - 4) 0x80 = (push_bit 3 1 :: byte)" by simp
  then show ?thesis using put_code_bits_eq [of 4 code f] by (metis numeral_le_iff semiring_norm(68,69,71))
qed

lemma put_codes_mqr_eq:
  assumes "mraw_oddbits raw = 0 \<or> mraw_oddbits raw = 4" "mraw_count raw + n \<le> mraw_dataLength raw + mraw_eccLength raw"
  shows "put_codes_mqr n (mraw_count raw) raw f
     = fold_res filler_store (map (\<lambda>b. 0x02 OR b) (concat (map (mcode_bits raw) [mraw_count raw..<mraw_count raw + n]))) f"
  using assms
proof (induction n arbitrary: raw f)
  case (Suc n)
  let ?c = "mraw_count raw" let ?r = "raw\<lparr>mraw_count := ?c + 1\<rparr>"
  let ?code = "if ?c < mraw_dataLength raw then mraw_datacode raw ! ?c else mraw_ecccode raw ! (?c - mraw_dataLength raw)"
  have g: "MQRraw_getCode raw = (?code, ?r)" using Suc.prems(2) by (auto simp: MQRraw_getCode_def Let_def)
  have m: "mcode_bits ?r = mcode_bits raw" by (rule ext) (simp add: mcode_bits_def)
  have IH: "put_codes_mqr n (?c + 1) ?r = fold_res filler_store (map (\<lambda>b. 0x02 OR b) (concat (map (mcode_bits raw) [?c + 1..<?c + 1 + n])))"
    using Suc.IH [of ?r] Suc.prems m by (intro ext) simp
  have b: "(if mraw_oddbits ?r \<noteq> 0 \<and> int ?c = int (mraw_dataLength ?r) - 1
      then put_code_bits (mraw_oddbits ?r) (push_bit (mraw_oddbits ?r - 1) 1) ?code f else put_code_bits 8 0x80 ?code f)
      = fold_res filler_store (map (\<lambda>b. 0x02 OR b) (mcode_bits raw ?c)) f"
  proof (cases "mraw_oddbits raw \<noteq> 0 \<and> ?c + 1 = mraw_dataLength raw")
    case True
    then have o: "mraw_oddbits raw = 4" "int ?c = int (mraw_dataLength raw) - 1" using Suc.prems(1) by auto
    then show ?thesis using True put_code_half [of "mraw_datacode raw ! ?c" f] by (simp add: mcode_bits_def)
  next
    case False
    then have "\<not> (mraw_oddbits raw \<noteq> 0 \<and> int ?c = int (mraw_dataLength raw) - 1)" by auto
    then show ?thesis using False by (auto simp: mcode_bits_def put_code_8)
  qed
  have "[?c..<?c + Suc n] = ?c # [?c + 1..<?c + 1 + n]" by (simp add: upt_conv_Cons del: upt_Suc)
  then show ?case unfolding put_codes_mqr.simps Let_def g prod.case b IH by (simp add: fold_res_append del: upt_Suc)
qed simp

lemma mcode_bits_all:
  assumes "mraw_datacode raw = bytes" "length bytes = mraw_dataLength raw" "bytes \<noteq> []" "mraw_ecccode raw = ecc" "length ecc = mraw_eccLength raw"
    "mraw_oddbits raw = (if odd v then 4 else 0)"
  shows "concat (map (mcode_bits raw) [0..<mraw_dataLength raw + mraw_eccLength raw]) = micro_data_bits v bytes @ bytes_bits ecc"
proof -
  let ?d = "length bytes"
  have d: "?d = Suc (?d - 1)" using assms(3) by simp
  have "concat (map (mcode_bits raw) [0..<?d]) = micro_data_bits v bytes"
  proof -
    have "map (mcode_bits raw) [0..<?d - 1] = map (\<lambda>b. bits_msb 8 (unat b)) (butlast bytes)"
      using assms by (intro nth_equalityI) (auto simp: mcode_bits_def nth_butlast)
    moreover have "mcode_bits raw (?d - 1) = bits_msb (if odd v then 4 else 8) (unat (last bytes))"
      using assms(1-3,6) d by (simp add: mcode_bits_def last_conv_nth)
    moreover have "[0..<?d] = [0..<?d - 1] @ [?d - 1]" using d by (metis upt_Suc_append zero_le)
    moreover have "bytes_bits bytes = bytes_bits (butlast bytes) @ bits_msb 8 (unat (last bytes))"
      using bytes_bits_simps(3) [of "butlast bytes" "[last bytes]"] assms(3) by simp
    ultimately show ?thesis by (simp add: micro_data_bits_def bytes_bits_def [of "butlast bytes"])
  qed
  moreover have "concat (map (mcode_bits raw) [?d..<?d + length ecc]) = bytes_bits ecc"
  proof -
    have "map (mcode_bits raw) [?d..<?d + length ecc] = map (\<lambda>b. bits_msb 8 (unat b)) ecc"
      using assms by (intro nth_equalityI) (auto simp: mcode_bits_def)
    then show ?thesis by (simp add: bytes_bits_def)
  qed
  moreover have "[0..<?d + length ecc] = [0..<?d] @ [?d..<?d + length ecc]" by (intro upt_add_eq_append) simp
  ultimately have "concat (map (mcode_bits raw) [0..<?d + length ecc]) = micro_data_bits v bytes @ bytes_bits ecc"
    by (simp only: map_append concat_append)
  then show ?thesis unfolding assms(2,5) .
qed

section \<open>Filled frames\<close>

lemma stored_modules:
  assumes "distinct ps" "set ps = {p. p < length frame \<and> is_data frame p}" "length bits = length ps" "is_bits bits"
  defines "F \<equiv> store_all ps (map (\<lambda>b. 0x02 OR b) bits) frame"
  shows "p < length frame \<Longrightarrow> is_data F p \<longleftrightarrow> p \<in> set ps" "map (\<lambda>p. F ! p AND 1) ps = bits" "p \<notin> set ps \<Longrightarrow> F ! p = frame ! p"
proof -
  have in_range: "\<forall>p \<in> set ps. p < length frame" using assms(2) by auto
  note st = store_all_nth [OF assms(1) in_range, of "map (\<lambda>b. 0x02 OR b) bits", folded F_def]
  show out: "p \<notin> set ps \<Longrightarrow> F ! p = frame ! p" for p using st(2) assms(3) by simp
  have bits: "bits ! k = 0 \<or> bits ! k = 1" if "k < length bits" for k using assms(4) that by (auto simp: is_bits_def)
  have slot: "F ! (ps ! k) = 0x02 OR bits ! k" if "k < length bits" for k using st(1) [of k] that assms(3) by simp
  show "map (\<lambda>p. F ! p AND 1) ps = bits"
    by (rule nth_equalityI) (use assms(3) slot bit_or_2 [OF bits] in \<open>auto simp del: bit_numeral_rec\<close>)
  show "is_data F p \<longleftrightarrow> p \<in> set ps" if "p < length frame"
  proof (cases "p \<in> set ps")
    case True
    then obtain k where "k < length bits" "p = ps ! k" using assms(3) by (metis in_set_conv_nth)
    then show ?thesis using True slot bit_or_2 [OF bits] by (simp add: is_data_def)
  qed (use assms(2) that out in \<open>simp add: is_data_def\<close>)
qed

text \<open>The reader: unmask, collect the bits in the order of the filler, decode the data part.\<close>

definition micro_module_bits :: "nat \<Rightarrow> nat \<Rightarrow> byte list \<Rightarrow> byte list" where
  "micro_module_bits v i m = map (\<lambda>p. MMask_makeMaskedFrame (MQRspec_getWidth v) m i ! p AND 1) (micro_slots v)"

definition read_micro :: "nat \<Rightarrow> QRecLevel \<Rightarrow> nat \<Rightarrow> byte list \<Rightarrow> (QRencodeMode \<times> byte) list" where
  "read_micro v level i m = mdec_stream v (take (MQRspec_getDataLengthBit v level) (micro_module_bits v i m))"

lemma mfmt_area_function:
  assumes "1 \<le> v" "v \<le> 4" "w = MQRspec_getWidth v" "p \<in> mfmt_area w"
  shows "\<not> is_data (MQRspec_createFrame v) p"
proof -
  have w: "9 < w" using micro_width [OF assms(1,2)] assms(1,3) by simp
  obtain i where i: "i < 15" "p = mfmt_pos w i" using assms(4) by (auto simp: mfmt_area_def)
  have "p = (if i < 8 then i + 1 else 8) * w + (if i < 8 then 8 else 15 - i)" by (simp add: i mfmt_pos_def)
  then show ?thesis
    using micro_function_iff [OF assms(1-3), of "if i < 8 then 8 else 15 - i" "if i < 8 then i + 1 else 8"] w i(1)
    by (auto simp: micro_function_def split: if_splits)
qed

definition micro_filled :: "nat \<Rightarrow> byte list \<Rightarrow> byte list" where
  "micro_filled v bits = store_all (micro_slots v) (map (\<lambda>b. 0x02 OR b) bits) (MQRspec_createFrame v)"

lemma micro_readback:
  assumes "1 \<le> v" "v \<le> 4" "w = MQRspec_getWidth v" "is_bits bits" "length bits = length (micro_slots v)" "i < mqr_maskNum" "level \<le> QR_ECLEVEL_H"
    and "MMask_makeMask v (micro_filled v bits) (int i) level = Inr m"
  shows "length m = w * w" "micro_module_bits v i m = bits" "fmt_read (mfmt_pos w) m = unat (MQRspec_getFormatInfo (int i) v level)"
    and "p < w * w \<Longrightarrow> \<not> is_data (MQRspec_createFrame v) p \<Longrightarrow> p \<notin> mfmt_area w \<Longrightarrow> m ! p = MQRspec_createFrame v ! p"
proof -
  let ?F = "micro_filled v bits" and ?f = "MQRspec_createFrame v"
  note s = micro_slots [OF assms(1-3)]
  have len: "length ?f = w * w" by (simp add: assms(3))
  have set: "set (micro_slots v) = {p. p < length ?f \<and> is_data ?f p}" using s(2) len by simp
  note st = stored_modules [OF s(1) set assms(5,4), folded micro_filled_def]
  from makeMask_micro [OF assms(1-3,6,7), of ?F] assms(8)
  have m: "length m = w * w" "fmt_read (mfmt_pos w) m = unat (MQRspec_getFormatInfo (int i) v level)"
    "\<And>p. p < w * w \<Longrightarrow> p \<notin> mfmt_area w \<Longrightarrow> m ! p = apply_mask (mqr_iso i) w ?F p" by (metis Inr_inject)+
  show "length m = w * w" "fmt_read (mfmt_pos w) m = unat (MQRspec_getFormatInfo (int i) v level)" by (rule m(1,2))+
  show "m ! p = ?f ! p" if "p < w * w" "\<not> is_data ?f p" "p \<notin> mfmt_area w"
    using m(3) [OF that(1,3)] st(1) [of p] st(3) [of p] that(1,2) len set by (simp add: apply_mask_def)
  have "MMask_makeMaskedFrame w m i ! p = ?F ! p" if "p \<in> set (micro_slots v)" for p
  proof -
    have p: "p < w * w" "is_data ?f p" using that s(2) by auto
    then have "p \<notin> mfmt_area w" using mfmt_area_function [OF assms(1-3)] by blast
    then have "m ! p = apply_mask (mqr_iso i) w ?F p" by (rule m(3) [OF p(1)])
    then show ?thesis using st(1) [of p] that p(1) len
      by (auto simp: MMask_makeMaskedFrame_eq [OF assms(6)] apply_mask_def is_data_def xor.assoc)
  qed
  then show "micro_module_bits v i m = bits"
    using st(2) by (simp add: micro_module_bits_def assms(3) cong: map_cong)
qed

section \<open>The symbol of an input\<close>

lemma MQRraw_new_ok:
  assumes "QRinput_getByteStream input0 = (Inr bytes, input)" "v = inp_version input0" "level = inp_level input0" "micro_level v level"
    and "length bytes = MQRspec_getDataLength v level"
  obtains raw b where "rb_data b = bytes" "valid_block b" "length (rb_ecc b) = MQRspec_getECCLength v level" "mraw_version raw = v"
    "\<And>f. put_codes_mqr (mraw_dataLength raw + mraw_eccLength raw) 0 raw f
       = fold_res filler_store (map (\<lambda>b. 0x02 OR b) (micro_data_bits v bytes @ bytes_bits (rb_ecc b))) f"
    "\<And>rslist. rslist_inv rslist \<Longrightarrow> \<exists>rslist'. MQRraw_new rslist input0 = (Inr raw, input, rslist') \<and> rslist_inv rslist'"
proof -
  let ?d = "MQRspec_getDataLength v level" and ?e = "MQRspec_getECCLength v level"
  have n: "0 < ?d" "0 < ?e" "?d + ?e < 255" and o: "?d * 8 - MQRspec_getDataLengthBit v level = (if odd v then 4 else 0)"
    using assms(4) by (cases rule: micro_level_cases;
      simp add: MQRspec_getDataLengthBit_def MQRspec_getECCLength_def MQRspec_getDataLength_def mqrspecCapacity_def)+
  obtain rs where rs: "rs_ok rs ?e (255 - ?d - ?e)"
    "\<And>rl. rslist_inv rl \<Longrightarrow> \<exists>rl'. init_rs rl 8 0x11d 0 1 (int ?e) (255 - int ?d - int ?e) = (Inr rs, rl') \<and> rslist_inv rl'"
    using init_rs_ok [OF n(1,3)] by blast
  let ?b = "RSblock_initBlock ?d bytes ?e rs"
  have "block_ok ?d ?e ?b" using assms(5) by (intro initBlock_ok [OF rs(1) n(2,3)]) simp
  then have b: "valid_block ?b" "length (rb_ecc ?b) = ?e" using n(2) by (auto simp: block_ok_def valid_block_def)
  have d: "rb_data ?b = bytes" using assms(5) by (simp add: RSblock_initBlock_def)
  define raw where "raw = \<lparr>mraw_version = v, mraw_dataLength = ?d, mraw_eccLength = ?e, mraw_datacode = bytes,
     mraw_ecccode = rb_ecc ?b, mraw_rsblock = ?b, mraw_oddbits = ?d * 8 - MQRspec_getDataLengthBit v level, mraw_count = 0\<rparr>"
  have "put_codes_mqr (mraw_dataLength raw + mraw_eccLength raw) 0 raw f
      = fold_res filler_store (map (\<lambda>b. 0x02 OR b) (micro_data_bits v bytes @ bytes_bits (rb_ecc ?b))) f" for f
  proof -
    have "bytes \<noteq> []" using assms(5) n(1) by auto
    then have "concat (map (mcode_bits raw) [0..<mraw_dataLength raw + mraw_eccLength raw]) = micro_data_bits v bytes @ bytes_bits (rb_ecc ?b)"
      by (intro mcode_bits_all) (simp_all add: raw_def assms(5) b(2) o)
    then show ?thesis using put_codes_mqr_eq [of raw "mraw_dataLength raw + mraw_eccLength raw" f] by (simp add: raw_def o split: if_splits)
  qed
  moreover have "\<exists>rslist'. MQRraw_new rslist input0 = (Inr raw, input, rslist') \<and> rslist_inv rslist'" if "rslist_inv rslist" for rslist
    using rs(2) [OF that] by (auto simp: MQRraw_new_def assms(1) Let_def raw_def simp flip: assms(2,3))
  ultimately show ?thesis using that [of ?b raw] d b by (simp add: raw_def)
qed

lemma newMFrame_ok:
  assumes "\<forall>v f. frames v = Some f \<longrightarrow> f = MQRspec_createFrame v" "1 \<le> v" "v \<le> 4"
  shows "\<exists>frames'. MQRspec_newFrame frames (int v) = (Inr (MQRspec_createFrame v), frames')
     \<and> (\<forall>v f. frames' v = Some f \<longrightarrow> f = MQRspec_createFrame v)"
proof -
  have inv: "frames u = Some f \<Longrightarrow> f = MQRspec_createFrame u" for u f using assms(1) by simp
  have "fst (MQRspec_newFrame frames (int v)) = Inr (MQRspec_createFrame v)"
    using mqr_frames.transparent(1) [OF inv, where version = "int v"] assms by (simp add: MQRSPEC_VERSION_MAX_def)
  moreover have "\<forall>u f. snd (MQRspec_newFrame frames (int v)) u = Some f \<longrightarrow> f = MQRspec_createFrame u"
    using mqr_frames.transparent(2) [OF inv, where version = "int v"] by blast
  ultimately show ?thesis by (metis prod.collapse)
qed

text \<open>A finished symbol, masked with pattern \<open>i\<close>, that shows the codewords of the block \<open>b\<close>.\<close>

definition shows_block :: "nat \<Rightarrow> QRecLevel \<Rightarrow> nat \<Rightarrow> RSblock \<Rightarrow> byte list \<Rightarrow> bool" where
  "shows_block v level i b m \<longleftrightarrow>
     (let w = MQRspec_getWidth v
      in length m = w * w \<and> fmt_read (mfmt_pos w) m = unat (MQRspec_getFormatInfo (int i) v level)
       \<and> micro_module_bits v i m = micro_data_bits v (rb_data b) @ bytes_bits (rb_ecc b)
       \<and> (\<forall>p < w * w. \<not> is_data (MQRspec_createFrame v) p \<and> p \<notin> mfmt_area w \<longrightarrow> m ! p = MQRspec_createFrame v ! p))"

lemma length_micro_data_bits:
  assumes "micro_level v level" "length bytes = MQRspec_getDataLength v level"
  shows "length (micro_data_bits v bytes) = MQRspec_getDataLengthBit v level"
    and "length (micro_slots v) = MQRspec_getDataLengthBit v level + 8 * MQRspec_getECCLength v level"
proof -
  have v: "1 \<le> v" "v \<le> 4" using assms(1) by (auto simp: micro_level_def MQRSPEC_VERSION_MAX_def)
  show "length (micro_data_bits v bytes) = MQRspec_getDataLengthBit v level"
  proof (rule micro_bits [OF assms(1)])
    fix k assume k: "MQRspec_getDataLengthBit v level = 8 * k + (if odd v then 4 else 0)"
      "MQRspec_getDataLength v level = k + (if odd v then 1 else 0)"
    show ?thesis unfolding k(1) using assms(2) [unfolded k(2)] by (cases "odd v") (simp_all add: micro_data_bits_def)
  qed
  show "length (micro_slots v) = MQRspec_getDataLengthBit v level + 8 * MQRspec_getECCLength v level"
    unfolding micro_slots(3) [OF v refl] using assms(1) by (cases rule: micro_level_cases;
      simp add: MQRspec_getDataLengthBit_def MQRspec_getECCLength_def MQRspec_getWidth_def mqrspecCapacity_def)
qed

lemma edge_pick_data:
  assumes "1 \<le> v" "v \<le> 4" "w = MQRspec_getWidth v"
  shows "is_data (MQRspec_createFrame v) ((w - 1) * w + edge_pick v)" "(w - 1) * w + edge_pick v < w * w"
  using edge_pick(1,2) [OF assms] micro_function_iff [OF assms, of "edge_pick v" "w - 1"] micro_width [OF assms(1,2)] assms(1,3)
    grid_less [of "edge_pick v" w "w - 1"] by (simp_all add: micro_function_def)

lemma encodeMaskMQR_ok:
  assumes "inp_mqr input" "micro_level v level" "v = inp_version input" "level = inp_level input" "caches_ok c" "-1 \<le> msk" "msk < int mqr_maskNum"
    and "QRinput_getByteStream input = (Inr bytes, input')" "inp_level input' = level" "length bytes = MQRspec_getDataLength v level"
  obtains m i b c' where "QRcode_encodeMaskMQR c input msk = (Inr \<lparr>qr_version = v, qr_width = MQRspec_getWidth v, qr_data = m\<rparr>, input', c')"
    "caches_ok c'" "i < mqr_maskNum" "0 \<le> msk \<Longrightarrow> int i = msk" "rb_data b = bytes" "valid_block b" "shows_block v level i b m"
proof -
  let ?w = "MQRspec_getWidth v"
  have v: "1 \<le> v" "v \<le> 4" and l: "level \<le> QR_ECLEVEL_H" using assms(2) by (auto simp: micro_level_def MQRSPEC_VERSION_MAX_def)
  have lq: "level \<le> QR_ECLEVEL_Q" using assms(2) by (cases rule: micro_level_cases) simp_all
  obtain raw b where r: "rb_data b = bytes" "valid_block b" "length (rb_ecc b) = MQRspec_getECCLength v level" "mraw_version raw = v"
    and put: "\<And>f. put_codes_mqr (mraw_dataLength raw + mraw_eccLength raw) 0 raw f
       = fold_res filler_store (map (\<lambda>b. 0x02 OR b) (micro_data_bits v bytes @ bytes_bits (rb_ecc b))) f"
    and raw: "\<And>rslist. rslist_inv rslist \<Longrightarrow> \<exists>rslist'. MQRraw_new rslist input = (Inr raw, input', rslist') \<and> rslist_inv rslist'"
    using MQRraw_new_ok [OF assms(8,3,4,2,10)] by metis
  let ?bits = "micro_data_bits v bytes @ bytes_bits (rb_ecc b)"
  let ?F = "micro_filled v ?bits"
  have bits: "is_bits ?bits" "length ?bits = length (micro_slots v)"
    using length_micro_data_bits [OF assms(2,10)] r(3) by (simp_all add: micro_data_bits_def)
  obtain f where f: "put_codes_mqr (mraw_dataLength raw + mraw_eccLength raw) 0 raw (FrameFiller_new ?w (MQRspec_createFrame v) True) = Inr f"
    "ff_frame f = ?F"
    unfolding put micro_filled_def using micro_slots(4) [OF v refl, of "map (\<lambda>b. 0x02 OR b) ?bits"] bits(2) by auto
  obtain rl where rl: "MQRraw_new (c_rslist c) input = (Inr raw, input', rl)" "rslist_inv rl"
    using raw [of "c_rslist c"] assms(5) by (auto simp: caches_ok_def)
  obtain fr where fr: "MQRspec_newFrame (c_mframes c) (int v) = (Inr (MQRspec_createFrame v), fr)" "\<forall>v f. fr v = Some f \<longrightarrow> f = MQRspec_createFrame v"
    using newMFrame_ok [OF _ v, of "c_mframes c"] assms(5) by (auto simp: caches_ok_def)
  let ?c = "c\<lparr>c_rslist := rl, c_mframes := fr\<rparr>"
  have c: "caches_ok ?c" using assms(5) rl fr by (simp add: caches_ok_def)
  have enc: "QRcode_encodeMaskMQR c input msk = (res_bind (if msk < 0 then MMask_mask v ?F level else MMask_makeMask v ?F msk level)
      (\<lambda>m. Inr \<lparr>qr_version = v, qr_width = ?w, qr_data = m\<rparr>), input', ?c)"
    unfolding QRcode_encodeMaskMQR_def Let_def assms(3,4) [symmetric] using assms(1,9) v lq f
    by (simp add: rl fr(1) r(4) QRcode_new_def MQRSPEC_VERSION_MAX_def)
  have sh: "shows_block v level i b m" if "i < mqr_maskNum" "MMask_makeMask v ?F (int i) level = Inr m" for i m
    using micro_readback [OF v refl bits that(1) l that(2)] by (simp add: shows_block_def Let_def r(1))
  show ?thesis
  proof (cases "msk < 0")
    case False
    then have i: "nat msk < mqr_maskNum" "int (nat msk) = msk" using assms(7) by simp_all
    obtain m where "MMask_makeMask v ?F msk level = Inr m" using makeMask_micro [OF v refl i(1) l, of ?F] i(2) by metis
    then show ?thesis using that [of m ?c "nat msk" b] enc False i c r sh [of "nat msk" m] by simp
  next
    case True
    have "length (MQRspec_createFrame v) = ?w * ?w" by simp
    then have set: "set (micro_slots v) = {p. p < length (MQRspec_createFrame v) \<and> is_data (MQRspec_createFrame v) p}"
      using micro_slots(2) [OF v refl] by simp
    have "is_data ?F ((?w - 1) * ?w + edge_pick v)" "length ?F = ?w * ?w"
      using stored_modules(1) [OF micro_slots(1) [OF v refl] set bits(2,1), folded micro_filled_def] edge_pick_data [OF v refl] set
      by (simp_all add: micro_filled_def)
    from MMask_mask_ok [OF v refl l this(2,1)]
    obtain i m where "i < mqr_maskNum" "MMask_mask v ?F level = Inr m" "MMask_makeMask v ?F (int i) level = Inr m" by blast
    then show ?thesis using that [of m ?c i b] enc True sh c r by simp
  qed
qed

text \<open>
  C8. Micro QR Code symbols can be read back. For every input with a version and level the
  standard has and entries in modes of the version, and every mask argument up to 3,
  \<open>QRcode_encodeMaskMQR\<close> fails only with \<open>ERANGE\<close>, when the streams exceed the data bits of the
  symbol. Otherwise the format information of the symbol names version, level and mask, the
  function modules are those of the frame, the unmasked data modules show the data bits and the
  parity of one valid Reed-Solomon block, and the reader decodes them to the bytes of all
  entries. Caches that were consistent stay consistent.
\<close>

theorem micro_symbol_roundtrip:
  assumes "mqr_input_ok input" "list_all (\<lambda>e. readable (le_mode e) (le_data e)) (inp_entries input)"
    and "caches_ok c" "-1 \<le> msk" "msk < int mqr_maskNum"
  defines "v \<equiv> inp_version input" and "level \<equiv> inp_level input"
  shows "case QRcode_encodeMaskMQR c input msk of
     (Inr code, input', c') \<Rightarrow> caches_ok c' \<and> qr_version code = v \<and> qr_width code = MQRspec_getWidth v
        \<and> (\<exists>i < mqr_maskNum. \<exists>b. (0 \<le> msk \<longrightarrow> int i = msk) \<and> valid_block b \<and> shows_block v level i b (qr_data code)
            \<and> read_micro v level i (qr_data code) = concat (map (\<lambda>e. map (Pair (le_mode e)) (le_data e)) (inp_entries input)))
   | (Inl e, input', c') \<Rightarrow> e = ERANGE \<and> caches_ok c' \<and> MQRspec_getDataLengthBit v level < length (mall_bits v (inp_entries input))"
proof -
  have a: "inp_mqr input" "micro_level v level" using assms(1) by (simp_all add: mqr_input_ok_def v_def level_def)
  from getByteStream_micro_reads [OF assms(1,2), folded v_def level_def] show ?thesis
  proof (elim disjE exE conjE)
    fix bytes i'
    assume g: "QRinput_getByteStream input = (Inr bytes, i')" "inp_level i' = level" "length bytes = MQRspec_getDataLength v level"
      and dec: "mdec_stream v (micro_data_bits v bytes) = concat (map (\<lambda>e. map (Pair (le_mode e)) (le_data e)) (inp_entries input))"
    show ?thesis
    proof (rule encodeMaskMQR_ok [OF a v_def [THEN meta_eq_to_obj_eq] level_def [THEN meta_eq_to_obj_eq] assms(3-5) g(1-3)])
      fix m i b c'
      assume *: "QRcode_encodeMaskMQR c input msk = (Inr \<lparr>qr_version = v, qr_width = MQRspec_getWidth v, qr_data = m\<rparr>, i', c')"
        "caches_ok c'" "i < mqr_maskNum" "0 \<le> msk \<Longrightarrow> int i = msk" "rb_data b = bytes" "valid_block b" "shows_block v level i b m"
      have "read_micro v level i m = mdec_stream v (micro_data_bits v bytes)"
        using *(5,7) length_micro_data_bits(1) [OF a(2) g(3)] by (simp add: read_micro_def shows_block_def Let_def)
      then show ?thesis using * dec by auto
    qed
  next
    fix i' assume g: "QRinput_getByteStream input = (Inl ERANGE, i')" "MQRspec_getDataLengthBit v level < length (mall_bits v (inp_entries input))"
    have "level \<le> QR_ECLEVEL_Q" using a(2) by (cases rule: micro_level_cases) simp_all
    moreover have "MQRraw_new (c_rslist c) input = (Inl ERANGE, i', c_rslist c)" using g(1) by (simp add: MQRraw_new_def Let_def)
    ultimately have "QRcode_encodeMaskMQR c input msk = (Inl ERANGE, i', c)"
      using a by (simp add: QRcode_encodeMaskMQR_def micro_level_def v_def level_def)
    then show ?thesis using g(2) assms(3) by simp
  qed
qed

theorem micro_symbol_roundtrip_witness:
  "\<exists>code input' c' i. QRcode_encodeMaskMQR no_caches one_micro_digit (-1) = (Inr code, input', c')
     \<and> read_micro 1 QR_ECLEVEL_L i (qr_data code) = [(QR_MODE_NUM, 0x37)]"
proof -
  have e: "inp_version one_micro_digit = 1" "inp_level one_micro_digit = QR_ECLEVEL_L"
    "concat (map (\<lambda>e. map (Pair (le_mode e)) (le_data e)) (inp_entries one_micro_digit)) = [(QR_MODE_NUM, 0x37)]"
    by (simp_all add: one_micro_digit_def one_digit_def)
  show ?thesis
    using micro_symbol_roundtrip [OF one_micro_digit no_caches_ok, of "-1"] one_micro_digit_fits
    unfolding e by (auto simp: mqr_maskNum_def split: prod.splits sum.splits)
qed

end
