(* ===== verification/FS_IO.thy ===== *)
theory FS_IO
  imports QR_Prelude
begin

text \<open>
  The virtual disk of \<open>dosfsck\<close> (\<open>io.c\<close>): writes are collected in a list of changes that reads
  see through, and reach the device when it is closed, or at once with the option \<open>-w\<close>. Both ways
  are shown to be the same disk.
\<close>

section \<open>The device and the list of changes\<close>

record CHANGE =
  ch_pos :: int
  ch_data :: "byte list"

text \<open>
  The device is a file of fixed length with some bytes that cannot be read; the static variables
  are the changes, oldest first, and \<open>did_change\<close>.
\<close>

record io =
  io_dev :: "byte list"
  io_bad :: "nat \<Rightarrow> bool"
  io_changes :: "CHANGE list"
  io_did_change :: bool

text \<open>What \<open>open\<close> finds under the path, if it succeeds.\<close>

definition fs_open :: "(byte list \<times> (nat \<Rightarrow> bool)) option \<Rightarrow> io exit" where
  "fs_open path =
     (case path of
        None \<Rightarrow> Inl EXIT_FAILURE
      | Some (dev, bad) \<Rightarrow> Inr \<lparr>io_dev = dev, io_bad = bad, io_changes = [], io_did_change = False\<rparr>)"

text \<open>\<open>llseek\<close> followed by \<open>read\<close>; \<open>None\<close> when it fails or returns fewer bytes.\<close>

definition dev_read :: "io \<Rightarrow> int \<Rightarrow> nat \<Rightarrow> byte list option" where
  "dev_read io pos sz =
     (if pos < 0 \<or> length (io_dev io) < nat pos + sz \<or> list_ex (io_bad io) [nat pos..<nat pos + sz] then None
      else Some (take sz (drop (nat pos) (io_dev io))))"

text \<open>\<open>write\<close> at a position that is not negative stores what fits into the device (\<open>write_at\<close> ignores the rest).\<close>

definition dev_write :: "int \<Rightarrow> byte list \<Rightarrow> byte list \<Rightarrow> byte list" where
  "dev_write pos data dev = write_at (nat pos) data dev"

definition memcpy_at :: "byte list \<Rightarrow> nat \<Rightarrow> byte list \<Rightarrow> nat \<Rightarrow> byte list" where
  "memcpy_at dst k src n = write_at k (take n src) dst"

section \<open>Operations\<close>

text \<open>The part of a change that a read of \<open>size\<close> bytes at \<open>pos\<close> sees.\<close>

definition apply_change :: "int \<Rightarrow> nat \<Rightarrow> CHANGE \<Rightarrow> byte list \<Rightarrow> byte list" where
  "apply_change pos sz w data =
     (let wsize = int (length (ch_data w))
      in if ch_pos w < pos + int sz \<and> ch_pos w + wsize > pos then
           if ch_pos w < pos
           then memcpy_at data 0 (drop (nat (pos - ch_pos w)) (ch_data w)) (nat (min (int sz) (wsize - pos + ch_pos w)))
           else memcpy_at data (nat (ch_pos w - pos)) (ch_data w) (nat (min wsize (int sz + pos - ch_pos w)))
         else data)"

definition fs_read :: "io \<Rightarrow> int \<Rightarrow> nat \<Rightarrow> byte list exit" where
  "fs_read io pos sz =
     (case dev_read io pos sz of
        None \<Rightarrow> Inl EXIT_FAILURE
      | Some data \<Rightarrow> Inr (fold (apply_change pos sz) (io_changes io) data))"

definition fs_test :: "io \<Rightarrow> int \<Rightarrow> nat \<Rightarrow> bool exit" where
  "fs_test io pos sz = (if pos < 0 then Inl EXIT_FAILURE else Inr (dev_read io pos sz \<noteq> None))"

definition fs_write :: "bool \<Rightarrow> int \<Rightarrow> byte list \<Rightarrow> io \<Rightarrow> io exit" where
  "fs_write write_immed pos data io =
     (if write_immed then
        if pos < 0 \<or> length (io_dev io) < nat pos + length data then Inl EXIT_FAILURE
        else Inr (io\<lparr>io_dev := dev_write pos data (io_dev io), io_did_change := True\<rparr>)
      else Inr (io\<lparr>io_changes := io_changes io @ [\<lparr>ch_pos = pos, ch_data = data\<rparr>]\<rparr>))"

text \<open>A change at a negative position is skipped with a message.\<close>

definition flush_change :: "CHANGE \<Rightarrow> byte list \<Rightarrow> byte list" where
  "flush_change w dev = (if ch_pos w < 0 then dev else dev_write (ch_pos w) (ch_data w) dev)"

definition fs_flush :: "io \<Rightarrow> io" where
  "fs_flush io = io\<lparr>io_dev := fold flush_change (io_changes io) (io_dev io), io_changes := []\<rparr>"

text \<open>The result and the state that is left.\<close>

definition fs_close :: "bool \<Rightarrow> io \<Rightarrow> bool \<times> io" where
  "fs_close wr io =
     (let changed = (io_changes io \<noteq> []);
          io' = (if wr then fs_flush io else io\<lparr>io_changes := []\<rparr>)
      in (changed \<or> io_did_change io', io'))"

definition fs_changed :: "io \<Rightarrow> bool" where
  "fs_changed io \<longleftrightarrow> io_changes io \<noteq> [] \<or> io_did_change io"

section \<open>The contents of the virtual disk\<close>

definition contents :: "io \<Rightarrow> byte list" where
  "contents io = fold flush_change (io_changes io) (io_dev io)"

definition io_ok :: "io \<Rightarrow> bool" where
  "io_ok io \<longleftrightarrow> list_all (\<lambda>w. 0 \<le> ch_pos w) (io_changes io)"

lemma length_dev_write [simp]: "length (dev_write pos d xs) = length xs"
  by (simp add: dev_write_def)

lemma length_flush_change [simp]: "length (flush_change w xs) = length xs"
  by (simp add: flush_change_def)

lemma length_apply_change [simp]: "length (apply_change pos n w xs) = length xs"
  by (simp add: apply_change_def memcpy_at_def Let_def)

lemma length_contents [simp]: "length (contents io) = length (io_dev io)"
proof -
  have "length (fold flush_change ws xs) = length xs" for ws xs by (induction ws arbitrary: xs) simp_all
  then show ?thesis by (simp add: contents_def)
qed

lemma nth_dev_write:
  "i < length xs \<Longrightarrow> dev_write pos d xs ! i = (if nat pos \<le> i \<and> i < nat pos + length d then d ! (i - nat pos) else xs ! i)"
  by (simp add: dev_write_def nth_write_at)

lemma nth_slice: "i < n \<Longrightarrow> p + n \<le> length xs \<Longrightarrow> take n (drop p xs) ! i = xs ! (p + i)"
  by simp

text \<open>A read applies the same changes to its slice that closing applies to the device.\<close>

lemma apply_change_slice:
  assumes "0 \<le> pos" "nat pos + n \<le> length xs" "0 \<le> ch_pos w"
  shows "apply_change pos n w (take n (drop (nat pos) xs)) = take n (drop (nat pos) (flush_change w xs))"
proof -
  obtain p q where pq: "pos = int p" "ch_pos w = int q" using assms(1,3) nonneg_int_cases by metis
  define d where "d = ch_data w"
  have "apply_change pos n w (take n (drop p xs)) ! i = take n (drop p (flush_change w xs)) ! i" if i: "i < n" for i
  proof -
    have l: "i < length (take n (drop p xs))" "p + i < length xs" using i assms(2) by (auto simp: pq)
    have rhs: "take n (drop p (flush_change w xs)) ! i = (if q \<le> p + i \<and> p + i < q + length d then d ! (p + i - q) else xs ! (p + i))"
      using l i by (simp add: flush_change_def pq nth_dev_write d_def)
    consider "q < p + n \<and> p < q + length d \<and> q < p" | "q < p + n \<and> p < q + length d \<and> p \<le> q" | "\<not> (q < p + n \<and> p < q + length d)"
      by linarith
    then show ?thesis
    proof cases
      case 1
      then have "apply_change pos n w (take n (drop p xs))
        = write_at 0 (take (min n (q + length d - p)) (drop (p - q) d)) (take n (drop p xs))"
        by (auto simp: apply_change_def memcpy_at_def pq d_def Let_def nat_minus_as_int of_nat_diff min_def
            intro!: arg_cong [where f = "\<lambda>k. write_at 0 (take k _) _"])
      then show ?thesis using 1 i l by (auto simp: nth_write_at rhs min_def add.commute)
    next
      case 2
      then have "apply_change pos n w (take n (drop p xs))
        = write_at (q - p) (take (min (length d) (n + p - q)) d) (take n (drop p xs))"
        by (auto simp: apply_change_def memcpy_at_def pq d_def Let_def nat_minus_as_int of_nat_diff min_def
            intro!: arg_cong [where f = "\<lambda>k. write_at _ (take k _) _"])
      then show ?thesis using 2 i l by (auto simp: nth_write_at rhs min_def add.commute)
    next
      case 3
      then have "apply_change pos n w (take n (drop p xs)) = take n (drop p xs)"
        by (auto simp: apply_change_def pq d_def)
      then show ?thesis using 3 i l by (auto simp: rhs)
    qed
  qed
  then show ?thesis using assms(2) by (intro nth_equalityI) (auto simp: pq)
qed

lemma fold_apply_changes:
  assumes "0 \<le> pos" "nat pos + n \<le> length xs" "list_all (\<lambda>w. 0 \<le> ch_pos w) ws"
  shows "fold (apply_change pos n) ws (take n (drop (nat pos) xs)) = take n (drop (nat pos) (fold flush_change ws xs))"
  using assms by (induction ws arbitrary: xs) (simp_all add: apply_change_slice)

text \<open>The position and length of an access inside the disk.\<close>

definition in_disk :: "io \<Rightarrow> int \<Rightarrow> nat \<Rightarrow> bool" where
  "in_disk io pos n \<longleftrightarrow> 0 \<le> pos \<and> nat pos + n \<le> length (io_dev io)"

definition readable :: "io \<Rightarrow> int \<Rightarrow> nat \<Rightarrow> bool" where
  "readable io pos n \<longleftrightarrow> in_disk io pos n \<and> \<not> list_ex (io_bad io) [nat pos..<nat pos + n]"

lemma fs_read_contents:
  assumes "io_ok io"
  shows "fs_read io pos n = (if readable io pos n then Inr (take n (drop (nat pos) (contents io))) else Inl EXIT_FAILURE)"
  using assms
  by (auto simp: fs_read_def dev_read_def readable_def in_disk_def fold_apply_changes io_ok_def contents_def not_le not_less)

lemma fs_write_contents:
  assumes "io_ok io" "0 \<le> pos" "im \<longrightarrow> io_changes io = [] \<and> in_disk io pos (length d)"
  shows "\<exists>io'. fs_write im pos d io = Inr io' \<and> contents io' = dev_write pos d (contents io) \<and> io_ok io'
     \<and> io_bad io' = io_bad io \<and> length (io_dev io') = length (io_dev io) \<and> (im \<longrightarrow> io_changes io' = [])
     \<and> (\<not> im \<longrightarrow> io_dev io' = io_dev io)"
  using assms by (auto simp: fs_write_def contents_def io_ok_def flush_change_def in_disk_def)

section \<open>The disk its clients see\<close>

text \<open>
  What the other parts of the program rely on: an access inside the disk reads the bytes of the
  view, a write replaces them, and nothing else.
\<close>

locale virtual_disk =
  fixes ok :: "'s \<Rightarrow> bool" and view :: "'s \<Rightarrow> byte list"
    and rd :: "'s \<Rightarrow> int \<Rightarrow> nat \<Rightarrow> byte list exit" and wr :: "int \<Rightarrow> byte list \<Rightarrow> 's \<Rightarrow> 's exit"
    and rdable :: "'s \<Rightarrow> int \<Rightarrow> nat \<Rightarrow> bool"
  assumes rd_view: "ok s \<Longrightarrow> rdable s p n \<Longrightarrow> rd s p n = Inr (take n (drop (nat p) (view s)))"
    and wr_view: "ok s \<Longrightarrow> 0 \<le> p \<Longrightarrow> nat p + length d \<le> length (view s)
      \<Longrightarrow> \<exists>s'. wr p d s = Inr s' \<and> ok s' \<and> view s' = write_at (nat p) d (view s) \<and> rdable s' = rdable s"
    and rdable_pos: "rdable s p n \<Longrightarrow> 0 \<le> p \<and> nat p + n \<le> length (view s)"
begin

lemma read_back:
  assumes "ok s" "rdable s p (length d)"
  shows "\<exists>s'. wr p d s = Inr s' \<and> rd s' p (length d) = Inr d"
proof -
  obtain s' where s': "wr p d s = Inr s'" "ok s'" "view s' = write_at (nat p) d (view s)" "rdable s' = rdable s"
    using wr_view [of s p d] rdable_pos [OF assms(2)] assms(1) by blast
  have "take (length d) (drop (nat p) (view s')) = d"
    using rdable_pos [OF assms(2)] by (intro nth_equalityI) (auto simp: s'(3) nth_write_at)
  then show ?thesis using rd_view [OF s'(2), of p "length d"] s' assms(2) by simp
qed

lemma read_other:
  assumes "ok s" "0 \<le> p" "nat p + length d \<le> length (view s)" "rdable s q n"
    and "nat q + n \<le> nat p \<or> nat p + length d \<le> nat q"
  shows "\<exists>s'. wr p d s = Inr s' \<and> rd s' q n = rd s q n"
proof -
  obtain s' where s': "wr p d s = Inr s'" "ok s'" "view s' = write_at (nat p) d (view s)" "rdable s' = rdable s"
    using wr_view [OF assms(1-3)] by blast
  have "take n (drop (nat q) (view s')) = take n (drop (nat q) (view s))"
    using rdable_pos [OF assms(4)] assms(5) by (intro nth_equalityI) (auto simp: s'(3) nth_write_at)
  then show ?thesis using rd_view [OF s'(2), of q n] rd_view [OF assms(1,4)] s' assms(4) by simp
qed

end

text \<open>With and without \<open>-w\<close> the operations of \<open>io.c\<close> are such a disk.\<close>

definition io_mode_ok :: "bool \<Rightarrow> io \<Rightarrow> bool" where
  "io_mode_ok im io \<longleftrightarrow> io_ok io \<and> (im \<longrightarrow> io_changes io = [])"

lemma readable_cong: "io_bad io' = io_bad io \<Longrightarrow> length (io_dev io') = length (io_dev io) \<Longrightarrow> readable io' = readable io"
  by (intro ext) (simp add: readable_def in_disk_def)

interpretation vd: virtual_disk "io_mode_ok im" contents fs_read "fs_write im" readable for im
proof
  fix s :: io and p and d :: "byte list"
  assume a: "io_mode_ok im s" "0 \<le> p" "nat p + length d \<le> length (contents s)"
  then obtain io' where "fs_write im p d s = Inr io'" "contents io' = dev_write p d (contents s)" "io_ok io'" "io_bad io' = io_bad s"
    "length (io_dev io') = length (io_dev s)" "im \<longrightarrow> io_changes io' = []"
    using fs_write_contents [of s p im d] by (auto simp: io_mode_ok_def in_disk_def)
  then show "\<exists>s'. fs_write im p d s = Inr s' \<and> io_mode_ok im s' \<and> contents s' = write_at (nat p) d (contents s) \<and> readable s' = readable s"
    using readable_cong [of io' s] by (simp add: io_mode_ok_def dev_write_def)
qed (auto simp: io_mode_ok_def fs_read_contents readable_def in_disk_def)

section \<open>Delayed writes\<close>

text \<open>A client of the disk: a sequence of reads and writes, with what the reads return.\<close>

datatype io_op = Read int nat | Write int "byte list"

fun run_io :: "bool \<Rightarrow> io_op list \<Rightarrow> io \<Rightarrow> (byte list list \<times> io) exit" where
  "run_io im [] io = Inr ([], io)"
| "run_io im (Read p n # ops) io =
     exit_bind (fs_read io p n) (\<lambda>d. exit_bind (run_io im ops io) (\<lambda>(ds, io'). Inr (d # ds, io')))"
| "run_io im (Write p d # ops) io = exit_bind (fs_write im p d io) (run_io im ops)"

lemma run_io_simulation:
  assumes "run_io True ops a = Inr (ds, a')" "io_changes a = []" "io_ok b" "contents b = io_dev a" "io_bad b = io_bad a"
  shows "\<exists>b'. run_io False ops b = Inr (ds, b') \<and> io_ok b' \<and> contents b' = io_dev a' \<and> io_dev b' = io_dev b
     \<and> io_changes a' = [] \<and> (io_did_change a' \<longleftrightarrow> io_did_change a \<or> io_changes b' \<noteq> io_changes b)
     \<and> length (io_changes b) \<le> length (io_changes b')"
  using assms
proof (induction ops arbitrary: a b ds)
  case (Cons op ops)
  have len: "length (io_dev a) = length (io_dev b)" using length_contents [of b] Cons.prems(4) by simp
  show ?case
  proof (cases op)
    case (Read p n)
    have eq: "fs_read a p n = fs_read b p n"
      using Cons.prems(2-5) readable_cong [of a b] len
      by (simp add: fs_read_contents io_ok_def) (simp add: contents_def)
    then show ?thesis using Cons.prems Cons.IH [of a _ b] by (auto simp: Read exit_bind_Inr)
  next
    case (Write p d)
    then obtain a1 where a1: "fs_write True p d a = Inr a1" "run_io True ops a1 = Inr (ds, a')"
      using Cons.prems(1) by (auto simp: exit_bind_Inr)
    define b1 where "b1 = b\<lparr>io_changes := io_changes b @ [\<lparr>ch_pos = p, ch_data = d\<rparr>]\<rparr>"
    have p: "0 \<le> p" and a1': "a1 = a\<lparr>io_dev := dev_write p d (io_dev a), io_did_change := True\<rparr>"
      using a1(1) by (auto simp: fs_write_def split: if_splits)
    have "io_ok b1" "contents b1 = io_dev a1" "io_bad b1 = io_bad a1" "io_changes a1 = []"
      using Cons.prems(2-5) p by (auto simp: b1_def a1' io_ok_def contents_def flush_change_def)
    from Cons.IH [OF a1(2) this(4,1,2,3)] obtain b' where b': "run_io False ops b1 = Inr (ds, b')" "io_ok b'" "contents b' = io_dev a'"
      "io_dev b' = io_dev b1" "io_changes a' = []" "io_did_change a'" "length (io_changes b1) \<le> length (io_changes b')"
      by (auto simp: a1')
    then show ?thesis by (auto simp: Write fs_write_def b1_def)
  qed
qed auto

text \<open>
  C30. Delayed writes are equivalent to immediate ones. When a sequence of reads and writes succeeds
  with the option \<open>-w\<close>, it succeeds without it, with the same bytes read; the device is then
  unchanged until \<open>fs_close\<close>, which leaves it as \<open>-w\<close> would have when it is asked to write, and as it
  was before when it is not; and both ways agree on whether the file system was changed.
\<close>

theorem delayed_writes:
  assumes "run_io True ops io = Inr (ds, io1)" "fs_open (Some (dev, bad)) = Inr io"
  shows "\<exists>io2. run_io False ops io = Inr (ds, io2) \<and> io_dev io2 = dev \<and> fs_changed io2 = fs_changed io1
     \<and> io_dev (snd (fs_close True io2)) = io_dev io1 \<and> io_dev (snd (fs_close False io2)) = dev
     \<and> fst (fs_close True io2) = fst (fs_close True io1)"
proof -
  have io: "io = \<lparr>io_dev = dev, io_bad = bad, io_changes = [], io_did_change = False\<rparr>" using assms(2) by (simp add: fs_open_def)
  from run_io_simulation [OF assms(1), of io] obtain b where
    "run_io False ops io = Inr (ds, b)" "contents b = io_dev io1" "io_dev b = dev" "io_changes io1 = []" "io_did_change io1 \<longleftrightarrow> io_changes b \<noteq> []"
    by (auto simp: io io_ok_def contents_def)
  moreover have "io_did_change b \<longleftrightarrow> False" if "run_io False ops io = Inr (ds, b)" for b
  proof -
    have "run_io False ops i = Inr (ds, b) \<Longrightarrow> io_did_change b = io_did_change i" for i ds
    proof (induction ops arbitrary: i ds)
      case (Cons op ops)
      then show ?case by (cases op) (auto simp: exit_bind_Inr fs_write_def)
    qed simp
    then show ?thesis using that by (simp add: io)
  qed
  ultimately show ?thesis by (auto simp: fs_close_def fs_changed_def fs_flush_def contents_def Let_def)
qed

theorem delayed_writes_witness:
  "\<exists>io2. run_io False [Write 1 [7, 8], Read 0 3] \<lparr>io_dev = [1, 2, 3], io_bad = (\<lambda>_. False), io_changes = [], io_did_change = False\<rparr>
       = Inr ([[1, 7, 8]], io2) \<and> io_dev (snd (fs_close True io2)) = [1, 7, 8] \<and> io_dev (snd (fs_close False io2)) = [1, 2, 3]"
proof -
  let ?io = "\<lparr>io_dev = [1, 2, 3], io_bad = (\<lambda>_. False), io_changes = [], io_did_change = False\<rparr>"
  have "run_io True [Write 1 [7, 8], Read 0 3] ?io = Inr ([[1, 7, 8]], ?io\<lparr>io_dev := [1, 7, 8], io_did_change := True\<rparr>)"
    by (simp add: fs_write_def fs_read_def dev_read_def dev_write_def list_ex_iff)
  from delayed_writes [OF this, of "[1, 2, 3]" "\<lambda>_. False"] show ?thesis by (auto simp: fs_open_def)
qed

end
