(* ===== verification/FS_Fat.thy ===== *)
theory FS_Fat
  imports FS_IO
begin

text \<open>
  The file allocation table of \<open>dosfsck\<close> (\<open>fat.c\<close>): reading and writing its entries of 12, 16 and 32
  bits, the owners of clusters, and the repairs that need only the table. An \<open>unsigned long\<close> has 32
  bits, as on the ARM target of the Makefile.
\<close>

section \<open>State\<close>

text \<open>An owner is the address of a \<open>DOS_FILE\<close>. Of the globals of \<open>dosfsck.h\<close> those are kept that are read.\<close>

record FAT_ENTRY =
  fe_value :: nat
  fe_reserved :: nat
  fe_owner :: "nat option"
  fe_prev :: int

record DOS_FS =
  fs_nfats :: int
  fs_fat_start :: int
  fs_fat_size :: nat
  fs_fat_bits :: nat
  fs_eff_fat_bits :: nat
  fs_root_cluster :: nat
  fs_root_start :: int
  fs_root_entries :: nat
  fs_data_start :: int
  fs_cluster_size :: nat
  fs_clusters :: nat
  fs_fsinfo_start :: int
  fs_free_clusters :: int
  fs_backupboot_start :: int
  fs_fat :: "FAT_ENTRY list"

record fsck =
  fk_io :: io
  fk_fs :: DOS_FS
  fk_stdin :: string
  fk_interactive :: bool
  fk_write_immed :: bool
  fk_atari_format :: bool
  fk_n_files :: nat
  fk_curr_num :: nat

definition ULONG_MAX :: nat where "ULONG_MAX = 2 ^ 32 - 1"

text \<open>The macros of \<open>dosfsck.h\<close>; \<open>FAT_EXTD\<close> clears the low four bits.\<close>

definition FAT_EXTD :: "DOS_FS \<Rightarrow> nat" where
  "FAT_EXTD fs = (2 ^ fs_eff_fat_bits fs - 1) div 16 * 16"

definition FAT_EOF :: "bool \<Rightarrow> DOS_FS \<Rightarrow> nat" where
  "FAT_EOF atari fs = (if atari then 0xfff else 0xff8) OR FAT_EXTD fs"

definition FAT_IS_EOF :: "DOS_FS \<Rightarrow> nat \<Rightarrow> bool" where
  "FAT_IS_EOF fs v \<longleftrightarrow> v \<ge> 0xff8 OR FAT_EXTD fs"

definition FAT_BAD :: "DOS_FS \<Rightarrow> nat" where
  "FAT_BAD fs = 0xff7 OR FAT_EXTD fs"

definition FAT_MIN_BAD :: "bool \<Rightarrow> DOS_FS \<Rightarrow> nat" where
  "FAT_MIN_BAD atari fs = (if atari then 0xff0 else 0xff7) OR FAT_EXTD fs"

definition FAT_MAX_BAD :: "DOS_FS \<Rightarrow> nat" where
  "FAT_MAX_BAD fs = 0xff7 OR FAT_EXTD fs"

definition FAT_IS_BAD :: "bool \<Rightarrow> DOS_FS \<Rightarrow> nat \<Rightarrow> bool" where
  "FAT_IS_BAD atari fs v \<longleftrightarrow> v \<ge> FAT_MIN_BAD atari fs \<and> v \<le> FAT_MAX_BAD fs"

section \<open>Keys\<close>

text \<open>
  \<open>get_key\<close> of \<open>common.c\<close>: the first character of a line that is not blank, when it is one of the valid
  ones, else it asks again; the program ends with the input. What is left of the input is
  returned too.
\<close>

definition blank :: "char \<Rightarrow> bool" where
  "blank c \<longleftrightarrow> c = CHR '' '' \<or> c = CHR 0x09"

function get_key :: "string \<Rightarrow> string \<Rightarrow> (char \<times> string) exit" where
  "get_key valid inp =
     (case dropWhile blank inp of
        [] \<Rightarrow> Inl EXIT_FAILURE
      | ch # rest \<Rightarrow>
          (case dropWhile (\<lambda>c. c \<noteq> CHR 0x0A) rest of
             [] \<Rightarrow> Inl EXIT_FAILURE
           | _ # inp' \<Rightarrow> if ch \<in> set valid then Inr (ch, inp') else get_key valid inp'))"
  by auto
termination
proof (relation "measure (\<lambda>(_, inp). length inp)")
  fix valid inp :: string and ch rest a inp'
  assume "dropWhile blank inp = ch # rest" "dropWhile (\<lambda>c. c \<noteq> CHR 0x0A) rest = a # inp'"
  then have "length (ch # rest) \<le> length inp" "length (a # inp') \<le> length rest"
    using length_dropWhile_le [of blank inp] length_dropWhile_le [of "\<lambda>c. c \<noteq> CHR 0x0A" rest] by simp_all
  then show "((valid, inp'), valid, inp) \<in> measure (\<lambda>(_, inp). length inp)" by simp
qed simp

declare get_key.simps [simp del]

text \<open>The answer to a question; without \<open>interactive\<close> nobody is asked.\<close>

definition ask :: "string \<Rightarrow> fsck \<Rightarrow> (char \<times> fsck) exit" where
  "ask valid st = exit_bind (get_key valid (fk_stdin st)) (\<lambda>(c, inp). Inr (c, st\<lparr>fk_stdin := inp\<rparr>))"

section \<open>Entries\<close>

definition le_bytes :: "nat \<Rightarrow> nat \<Rightarrow> byte list" where
  "le_bytes n v = map (\<lambda>i. word_of_nat (drop_bit (8 * i) v)) [0..<n]"

definition le_value :: "byte list \<Rightarrow> nat" where
  "le_value bs = foldr (\<lambda>b v. unat b + 256 * v) bs 0"

text \<open>An access outside the buffer is undefined.\<close>

definition get_fat :: "FAT_ENTRY \<Rightarrow> byte list \<Rightarrow> nat \<Rightarrow> DOS_FS \<Rightarrow> FAT_ENTRY exit" where
  "get_fat entry fat cluster fs =
     (if fs_fat_bits fs = 12 then
        let k = cluster * 3 div 2
        in if k + 1 < length fat then
             let p0 = unat (fat ! k); p1 = unat (fat ! (k + 1))
             in Inr (entry\<lparr>fe_value := 0xfff AND (if odd cluster then drop_bit 4 p0 OR push_bit 4 p1 else p0 OR push_bit 8 p1),
                           fe_owner := None\<rparr>)
           else Inl FAULT
      else if fs_fat_bits fs = 16 then
        if cluster * 2 + 1 < length fat
        then Inr (entry\<lparr>fe_value := le_value (take 2 (drop (cluster * 2) fat)), fe_owner := None\<rparr>) else Inl FAULT
      else if fs_fat_bits fs = 32 then
        if cluster * 4 + 3 < length fat
        then let e = le_value (take 4 (drop (cluster * 4) fat))
             in Inr (entry\<lparr>fe_value := e AND 0xfffffff, fe_reserved := drop_bit 28 e, fe_owner := None\<rparr>)
        else Inl FAULT
      else Inl EXIT_FAILURE)"

text \<open>The entries 0 and 1 of the table in memory are never set; using them is undefined.\<close>

definition fat_at :: "fsck \<Rightarrow> nat \<Rightarrow> FAT_ENTRY exit" where
  "fat_at st c = (if 2 \<le> c \<and> c < fs_clusters (fk_fs st) + 2 \<and> c < length (fs_fat (fk_fs st))
     then Inr (fs_fat (fk_fs st) ! c) else Inl FAULT)"

definition fat_update :: "nat \<Rightarrow> (FAT_ENTRY \<Rightarrow> FAT_ENTRY) \<Rightarrow> fsck \<Rightarrow> fsck" where
  "fat_update c f st = st\<lparr>fk_fs := (fk_fs st)\<lparr>fs_fat := (fs_fat (fk_fs st))[c := f (fs_fat (fk_fs st) ! c)]\<rparr>\<rparr>"

definition disk_write :: "int \<Rightarrow> byte list \<Rightarrow> fsck \<Rightarrow> fsck exit" where
  "disk_write pos data st = exit_bind (fs_write (fk_write_immed st) pos data (fk_io st)) (\<lambda>io. Inr (st\<lparr>fk_io := io\<rparr>))"

text \<open>The offset in a table and the bytes \<open>set_fat\<close> stores there for an entry.\<close>

definition fat_code :: "fsck \<Rightarrow> nat \<Rightarrow> nat \<Rightarrow> (nat \<times> byte list) exit" where
  "fat_code st cluster new =
     (let fs = fk_fs st
      in if fs_fat_bits fs = 12 then
           if odd cluster then
             exit_bind (fat_at st (cluster - 1)) (\<lambda>p.
             Inr (cluster * 3 div 2, [word_of_nat (push_bit 4 (new AND 0xf) OR drop_bit 8 (fe_value p)), word_of_nat (drop_bit 4 new)]))
           else
             exit_bind (if cluster = fs_clusters fs - 1 then Inr 0
                        else exit_bind (fat_at st (cluster + 1)) (\<lambda>n. Inr (push_bit 4 (0xff AND fe_value n)))) (\<lambda>h.
             Inr (cluster * 3 div 2, [word_of_nat (new AND 0xff), word_of_nat (drop_bit 8 new OR h)]))
         else if fs_fat_bits fs = 16 then Inr (cluster * 2, le_bytes 2 new)
         else if fs_fat_bits fs = 32 then
           exit_bind (fat_at st cluster) (\<lambda>e.
           Inr (cluster * 4, le_bytes 4 ((new AND 0xfffffff) OR push_bit 28 (fe_reserved e))))
         else Inl EXIT_FAILURE)"

definition set_fat :: "nat \<Rightarrow> nat \<Rightarrow> fsck \<Rightarrow> fsck exit" where
  "set_fat cluster new st =
     (let fs = fk_fs st;
          new = (if new = ULONG_MAX then FAT_EOF (fk_atari_format st) fs else if new = ULONG_MAX - 1 then FAT_BAD fs else new)
      in exit_bind (fat_code st cluster new) (\<lambda>(k, data).
         exit_bind (fat_at st cluster) (\<lambda>e.
         exit_bind (disk_write (fs_fat_start fs + int k) data (fat_update cluster (fe_value_update (\<lambda>_. new)) st)) (\<lambda>st.
         disk_write (fs_fat_start fs + int k + int (fs_fat_size fs)) data st))))"

definition bad_cluster :: "fsck \<Rightarrow> nat \<Rightarrow> bool exit" where
  "bad_cluster st cluster = exit_bind (fat_at st cluster) (\<lambda>e. Inr (FAT_IS_BAD (fk_atari_format st) (fk_fs st) (fe_value e)))"

definition next_cluster :: "fsck \<Rightarrow> nat \<Rightarrow> nat exit" where
  "next_cluster st cluster =
     exit_bind (fat_at st cluster) (\<lambda>e.
       if FAT_IS_BAD (fk_atari_format st) (fk_fs st) (fe_value e) then Inl EXIT_FAILURE
       else Inr (if FAT_IS_EOF (fk_fs st) (fe_value e) then ULONG_MAX else fe_value e))"

definition cluster_start :: "DOS_FS \<Rightarrow> nat \<Rightarrow> int" where
  "cluster_start fs cluster = fs_data_start fs + (int cluster - 2) * int (fs_cluster_size fs)"

definition get_owner :: "fsck \<Rightarrow> nat \<Rightarrow> nat option exit" where
  "get_owner st cluster = exit_bind (fat_at st cluster) (\<lambda>e. Inr (fe_owner e))"

definition set_owner :: "nat \<Rightarrow> nat option \<Rightarrow> fsck \<Rightarrow> fsck exit" where
  "set_owner cluster owner st =
     exit_bind (fat_at st cluster) (\<lambda>e.
       if owner \<noteq> None \<and> fe_owner e \<noteq> None then Inl EXIT_FAILURE
       else Inr (fat_update cluster (fe_owner_update (\<lambda>_. owner)) st))"

section \<open>Reading the table\<close>

text \<open>The product is an \<open>unsigned long\<close>.\<close>

definition eff_size :: "DOS_FS \<Rightarrow> nat" where
  "eff_size fs = ((fs_clusters fs + 2) * fs_fat_bits fs + 7) mod 2 ^ 32 div 8"

definition media_ok :: "fsck \<Rightarrow> byte list \<Rightarrow> bool exit" where
  "media_ok st fat =
     exit_bind (get_fat \<lparr>fe_value = 0, fe_reserved = 0, fe_owner = None, fe_prev = 0\<rparr> fat 0 (fk_fs st)) (\<lambda>e.
     Inr (fe_value e AND FAT_EXTD (fk_fs st) = FAT_EXTD (fk_fs st)))"

text \<open>Two tables that differ: which one is used, and copied over the other.\<close>

definition choose_fat :: "byte list \<Rightarrow> byte list \<Rightarrow> fsck \<Rightarrow> (byte list \<times> fsck) exit" where
  "choose_fat first second st =
     (let fs = fk_fs st;
          use_first = (\<lambda>st. exit_bind (disk_write (fs_fat_start fs + int (fs_fat_size fs)) first st) (\<lambda>st. Inr (first, st)));
          use_second = (\<lambda>st. exit_bind (disk_write (fs_fat_start fs) second st) (\<lambda>st. Inr (second, st)))
      in exit_bind (media_ok st first) (\<lambda>first_ok.
         exit_bind (media_ok st second) (\<lambda>second_ok.
         if first_ok \<and> \<not> second_ok then use_first st
         else if \<not> first_ok \<and> second_ok then use_second st
         else if first_ok \<and> second_ok then
           if fk_interactive st then exit_bind (ask ''12'' st) (\<lambda>(c, st). if c = CHR ''1'' then use_first st else use_second st)
           else use_first st
         else Inl EXIT_FAILURE)))"

text \<open>The entries of the table in memory; what \<open>malloc\<close> returns for them is taken to be zero.\<close>

definition load_fat :: "byte list \<Rightarrow> fsck \<Rightarrow> fsck exit" where
  "load_fat use st =
     (let fs = fk_fs st; n = fs_clusters fs + 2; blank = \<lparr>fe_value = 0, fe_reserved = 0, fe_owner = None, fe_prev = 0\<rparr>
      in exit_bind (fold_exit (\<lambda>i fat. exit_bind (get_fat (fat ! i) use i fs) (\<lambda>e. Inr (fat[i := e]))) [2..<n] (replicate n blank))
         (\<lambda>fat. Inr (st\<lparr>fk_fs := fs\<lparr>fs_fat := fat\<rparr>\<rparr>)))"

definition fix_range :: "nat \<Rightarrow> fsck \<Rightarrow> fsck exit" where
  "fix_range i st =
     exit_bind (fat_at st i) (\<lambda>e.
       if fs_clusters (fk_fs st) + 2 \<le> fe_value e \<and> fe_value e < FAT_MIN_BAD (fk_atari_format st) (fk_fs st)
       then set_fat i ULONG_MAX st else Inr st)"

definition read_fat :: "fsck \<Rightarrow> fsck exit" where
  "read_fat st =
     (let fs = fk_fs st; n = eff_size fs
      in exit_bind (fs_read (fk_io st) (fs_fat_start fs) n) (\<lambda>first.
         exit_bind
           (if fs_nfats fs > 1 then
              exit_bind (fs_read (fk_io st) (fs_fat_start fs + int (fs_fat_size fs)) n) (\<lambda>second.
                if first \<noteq> second then choose_fat first second st else Inr (first, st))
            else Inr (first, st)) (\<lambda>(use, st).
         exit_bind (load_fat use st) (\<lambda>st.
         fold_exit fix_range [2..<fs_clusters fs + 2] st))))"

section \<open>Repairs\<close>

definition fix_bad :: "fsck \<Rightarrow> fsck exit" where
  "fix_bad st = fold_exit (\<lambda>i st.
     exit_bind (fat_at st i) (\<lambda>e.
       if fe_owner e = None \<and> \<not> FAT_IS_BAD (fk_atari_format st) (fk_fs st) (fe_value e) then
         exit_bind (fs_test (fk_io st) (cluster_start (fk_fs st) i) (fs_cluster_size (fk_fs st))) (\<lambda>okay.
           if \<not> okay then set_fat i (ULONG_MAX - 1) st else Inr st)
       else Inr st)) [2..<fs_clusters (fk_fs st) + 2] st"

definition reclaim_free :: "fsck \<Rightarrow> fsck exit" where
  "reclaim_free st = fold_exit (\<lambda>i st.
     exit_bind (fat_at st i) (\<lambda>e.
       if fe_owner e = None \<and> fe_value e \<noteq> 0 \<and> \<not> FAT_IS_BAD (fk_atari_format st) (fk_fs st) (fe_value e)
       then set_fat i 0 st else Inr st)) [2..<fs_clusters (fk_fs st) + 2] st"

text \<open>The field \<open>free_clusters\<close> is at offset 488 of the information sector.\<close>

definition update_free :: "fsck \<Rightarrow> (nat \<times> fsck) exit" where
  "update_free st =
     (let fs = fk_fs st
      in exit_bind (exit_map (fat_at st) [2..<fs_clusters fs + 2]) (\<lambda>es.
         let free = length (filter (\<lambda>e. fe_owner e = None \<and> \<not> FAT_IS_BAD (fk_atari_format st) fs (fe_value e)) es)
         in if fs_fsinfo_start fs = 0 then Inr (free, st)
            else exit_bind
              (if fs_free_clusters fs \<ge> 0 \<and> int free = fs_free_clusters fs then Inr (False, st)
               else if \<not> fk_interactive st then Inr (True, st)
               else exit_bind (ask ''12'' st) (\<lambda>(c, st). Inr (c = CHR ''1'', st))) (\<lambda>(do_set, st).
              if do_set then
                exit_bind (disk_write (fs_fsinfo_start fs + 488) (le_bytes 4 free) (st\<lparr>fk_fs := (fk_fs st)\<lparr>fs_free_clusters := int free\<rparr>\<rparr>))
                  (\<lambda>st. Inr (free, st))
              else Inr (free, st))))"

end
