(* ===== verification/FS_Table.thy ===== *)
theory FS_Table
  imports FS_Fat
begin

text \<open>
  The table of \<open>fat.c\<close> in memory against its two copies on the disk: \<open>set_fat\<close> keeps them the same, in
  each of the three widths of entries, and so do the repairs that are loops over the table.
\<close>

section \<open>Little-endian numbers\<close>

lemma le_bytes_Suc: "le_bytes (Suc n) v = word_of_nat v # le_bytes n (v div 256)"
proof -
  have "drop_bit (8 * Suc i) v = drop_bit (8 * i) (v div 256)" for i
    by (simp add: drop_bit_eq_div div_mult2_eq [symmetric] power_add mult.commute)
  then show ?thesis by (simp add: le_bytes_def upt_conv_Cons map_Suc_upt [symmetric] o_def del: upt_Suc)
qed

lemma length_le_bytes [simp]: "length (le_bytes n v) = n"
  by (simp add: le_bytes_def)

lemma le_value_le_bytes: "le_value (le_bytes n v) = v mod 256 ^ n"
proof (induction n arbitrary: v)
  case 0
  then show ?case by (simp add: le_bytes_def le_value_def)
next
  case (Suc n)
  have "le_value (le_bytes (Suc n) v) = v mod 256 + 256 * ((v div 256) mod 256 ^ n)"
    using Suc [of "v div 256"] by (simp add: le_bytes_Suc le_value_def unat_of_nat)
  then show ?case by (simp add: mod_mult2_eq)
qed

lemma le_value_less: "le_value bs < 256 ^ length bs"
proof (induction bs)
  case (Cons b bs)
  then show ?case using unat_byte_less [of b] by (simp add: le_value_def)
qed (simp add: le_value_def)

section \<open>Shifted fields\<close>

lemma unat_byte_mod: "unat (word_of_nat x :: byte) = x mod 256"
  by (simp add: unat_of_nat)

lemma not_bit_less: "a < 2 ^ n \<Longrightarrow> n \<le> k \<Longrightarrow> \<not> bit (a :: nat) k"
  using power_increasing [of n k "2 :: nat"] div_less [of a "2 ^ k"] order.strict_trans2 [of a "2 ^ n" "2 ^ k"]
  by (simp add: bit_iff_odd del: div_less)

lemma or_push: "a < 2 ^ n \<Longrightarrow> a OR push_bit n b = a + 2 ^ n * (b :: nat)"
proof -
  assume "a < 2 ^ n"
  then have "a AND push_bit n b = 0"
    by (intro bit_eqI) (auto simp: bit_and_iff bit_push_bit_iff dest: not_bit_less)
  then show ?thesis by (simp add: push_bit_eq_mult mult.commute flip: disjunctive_add_eq_or)
qed

lemma and_ones: "v AND 0xf = v mod 16" "v AND 0xff = v mod 256" "0xff AND v = v mod 256" "0xfff AND v = v mod 4096"
  "v AND 0xfffffff = v mod 2 ^ 28" for v :: nat
proof -
  have m: "v AND (2 ^ n - 1) = v mod 2 ^ n" for n by (metis mask_eq_exp_minus_1 take_bit_eq_mask take_bit_eq_mod)
  show "v AND 0xf = v mod 16" "v AND 0xff = v mod 256" "0xff AND v = v mod 256" "0xfff AND v = v mod 4096" "v AND 0xfffffff = v mod 2 ^ 28"
    using m [of 4] m [of 8] m [of 12] m [of 28] by (simp_all add: and.commute)
qed

lemma fat12_odd: "p0 < 256 \<Longrightarrow> p1 < 256 \<Longrightarrow> 0xfff AND (drop_bit 4 p0 OR push_bit 4 p1) = p0 div 16 + 16 * (p1 :: nat)"
  using or_push [of "p0 div 16" 4 p1] by (simp add: and_ones drop_bit_eq_div)

lemma fat12_even: "p0 < 256 \<Longrightarrow> 0xfff AND (p0 OR push_bit 8 p1) = p0 + 256 * (p1 mod 16 :: nat)"
  using or_push [of p0 8 p1] mod_mult2_eq [of "p0 + 256 * p1" 256 16] by (simp add: and_ones)

section \<open>Slices\<close>

lemma slice_write_in:
  "k + length d \<le> n \<Longrightarrow> a + n \<le> length xs \<Longrightarrow> take n (drop a (write_at (a + k) d xs)) = write_at k d (take n (drop a xs))"
  by (intro nth_equalityI) (auto simp: nth_write_at)

lemma slice_write_out:
  "p + length d \<le> a \<or> a + n \<le> p \<Longrightarrow> take n (drop a (write_at p d xs)) = take n (drop a xs)"
  by (intro nth_equalityI) (auto simp: nth_write_at)

lemma slice_write_same: "a + length d \<le> length xs \<Longrightarrow> take (length d) (drop a (write_at a d xs)) = d"
  using slice_write_in [of 0 d "length d" a xs] by (auto intro!: nth_equalityI simp: nth_write_at)

section \<open>The table in memory and its copies on the disk\<close>

text \<open>The widths of entries, clusters that fit them, and a size of the table that does not overflow.\<close>

definition fs_geo :: "DOS_FS \<Rightarrow> bool" where
  "fs_geo fs \<longleftrightarrow> (fs_fat_bits fs, fs_eff_fat_bits fs) \<in> {(12, 12), (16, 16), (32, 28)}
     \<and> fs_clusters fs + 2 \<le> 2 ^ fs_eff_fat_bits fs - 16 \<and> 0 \<le> fs_fat_start fs
     \<and> (fs_clusters fs + 2) * fs_fat_bits fs + 7 < 2 ^ 32 \<and> eff_size fs \<le> fs_fat_size fs"

definition fs_ok :: "DOS_FS \<Rightarrow> bool" where
  "fs_ok fs \<longleftrightarrow> fs_geo fs \<and> length (fs_fat fs) = fs_clusters fs + 2"

text \<open>Reading the entry from the bytes of a table gives the entry, up to its owner.\<close>

definition entry_in :: "DOS_FS \<Rightarrow> byte list \<Rightarrow> nat \<Rightarrow> FAT_ENTRY \<Rightarrow> bool" where
  "entry_in fs bytes i e \<longleftrightarrow> get_fat e bytes i fs = Inr (e\<lparr>fe_owner := None\<rparr>)"

definition table_in :: "DOS_FS \<Rightarrow> byte list \<Rightarrow> bool" where
  "table_in fs bytes \<longleftrightarrow> (\<forall>i. 2 \<le> i \<and> i < fs_clusters fs + 2 \<longrightarrow> entry_in fs bytes i (fs_fat fs ! i))"

definition fat_copy :: "fsck \<Rightarrow> nat \<Rightarrow> byte list" where
  "fat_copy st k = take (eff_size (fk_fs st)) (drop (nat (fs_fat_start (fk_fs st)) + k * fs_fat_size (fk_fs st)) (contents (fk_io st)))"

definition state_geo :: "fsck \<Rightarrow> bool" where
  "state_geo st \<longleftrightarrow> fs_geo (fk_fs st) \<and> io_mode_ok (fk_write_immed st) (fk_io st)
     \<and> nat (fs_fat_start (fk_fs st)) + 2 * fs_fat_size (fk_fs st) \<le> length (contents (fk_io st))"

definition state_ok :: "fsck \<Rightarrow> bool" where
  "state_ok st \<longleftrightarrow> state_geo st \<and> fs_ok (fk_fs st)"

definition synced :: "fsck \<Rightarrow> bool" where
  "synced st \<longleftrightarrow> table_in (fk_fs st) (fat_copy st 0) \<and> table_in (fk_fs st) (fat_copy st 1)"

lemma entry_in_simps:
  "fs_fat_bits fs = 12 \<Longrightarrow> entry_in fs xs i e \<longleftrightarrow> i * 3 div 2 + 1 < length xs
     \<and> fe_value e = (if odd i then unat (xs ! (i * 3 div 2)) div 16 + 16 * unat (xs ! (i * 3 div 2 + 1))
        else unat (xs ! (i * 3 div 2)) + 256 * (unat (xs ! (i * 3 div 2 + 1)) mod 16))"
  "fs_fat_bits fs = 16 \<Longrightarrow> entry_in fs xs i e \<longleftrightarrow> i * 2 + 1 < length xs \<and> fe_value e = le_value (take 2 (drop (i * 2) xs))"
  "fs_fat_bits fs = 32 \<Longrightarrow> entry_in fs xs i e \<longleftrightarrow> i * 4 + 3 < length xs
     \<and> fe_value e = le_value (take 4 (drop (i * 4) xs)) mod 2 ^ 28 \<and> fe_reserved e = le_value (take 4 (drop (i * 4) xs)) div 2 ^ 28"
  using fat12_odd [OF unat_byte_less unat_byte_less, of "xs ! (i * 3 div 2)" "xs ! (i * 3 div 2 + 1)"]
    fat12_even [OF unat_byte_less, of "xs ! (i * 3 div 2)" "unat (xs ! (i * 3 div 2 + 1))"]
  by (cases e; auto simp: entry_in_def get_fat_def Let_def and_ones drop_bit_eq_div)+

lemma entry_value_less:
  assumes "fs_ok fs" "entry_in fs xs i e"
  shows "fe_value e < 2 ^ fs_eff_fat_bits fs"
proof -
  from assms(1) consider "fs_fat_bits fs = 12" "fs_eff_fat_bits fs = 12" | "fs_fat_bits fs = 16" "fs_eff_fat_bits fs = 16"
    | "fs_fat_bits fs = 32" "fs_eff_fat_bits fs = 28" by (auto simp: fs_ok_def fs_geo_def)
  then show ?thesis
  proof cases
    case 1
    then show ?thesis
      using assms(2) unat_byte_less [of "xs ! (i * 3 div 2)"] unat_byte_less [of "xs ! (i * 3 div 2 + 1)"]
      by (auto simp: entry_in_simps split: if_splits)
  next
    case 2
    then show ?thesis using assms(2) le_value_less [of "take 2 (drop (i * 2) xs)"] by (auto simp: entry_in_simps)
  next
    case 3
    then show ?thesis using assms(2) by (auto simp: entry_in_simps)
  qed
qed


section \<open>Writing an entry\<close>

text \<open>
  The one defect of \<open>set_fat\<close> inside a table: with entries of 12 bits, the neighbour of an even cluster is
  dropped for the cluster number \<open>clusters - 1\<close> instead of the last one, \<open>clusters + 1\<close>. It does not
  show when the number of clusters is even.
\<close>

definition fat12_even_clusters :: "DOS_FS \<Rightarrow> bool" where
  "fat12_even_clusters fs \<longleftrightarrow> (fs_fat_bits fs = 12 \<longrightarrow> even (fs_clusters fs) \<and> 0 < fs_clusters fs)"

lemma fat_at_ok: "fs_ok (fk_fs st) \<Longrightarrow> 2 \<le> c \<Longrightarrow> c < fs_clusters (fk_fs st) + 2 \<Longrightarrow> fat_at st c = Inr (fs_fat (fk_fs st) ! c)"
  by (simp add: fat_at_def fs_ok_def fs_geo_def)

lemma with_fat_simps [simp]: "eff_size (fs\<lparr>fs_fat := fat\<rparr>) = eff_size fs" "fs_geo (fs\<lparr>fs_fat := fat\<rparr>) = fs_geo fs"
  by (simp_all add: eff_size_def fs_geo_def)

lemma eff_size_eq: "(fs_clusters fs + 2) * fs_fat_bits fs + 7 < 2 ^ 32 \<Longrightarrow> eff_size fs = ((fs_clusters fs + 2) * fs_fat_bits fs + 7) div 8"
  by (simp add: eff_size_def)

lemma eff_size_bounds:
  assumes "fs_geo fs"
  shows "fs_fat_bits fs = 12 \<Longrightarrow> c < fs_clusters fs + 2 \<Longrightarrow> c * 3 div 2 + 1 < eff_size fs"
    "fs_fat_bits fs = 16 \<Longrightarrow> eff_size fs = 2 * (fs_clusters fs + 2)"
    "fs_fat_bits fs = 32 \<Longrightarrow> eff_size fs = 4 * (fs_clusters fs + 2)"
proof -
  have e: "eff_size fs = ((fs_clusters fs + 2) * fs_fat_bits fs + 7) div 8" using assms by (intro eff_size_eq) (simp add: fs_geo_def)
  show "fs_fat_bits fs = 12 \<Longrightarrow> c < fs_clusters fs + 2 \<Longrightarrow> c * 3 div 2 + 1 < eff_size fs"
    "fs_fat_bits fs = 16 \<Longrightarrow> eff_size fs = 2 * (fs_clusters fs + 2)" "fs_fat_bits fs = 32 \<Longrightarrow> eff_size fs = 4 * (fs_clusters fs + 2)"
    by (simp_all add: e)
qed

definition with_value :: "nat \<Rightarrow> nat \<Rightarrow> DOS_FS \<Rightarrow> DOS_FS" where
  "with_value c v fs = fs\<lparr>fs_fat := (fs_fat fs)[c := (fs_fat fs ! c)\<lparr>fe_value := v\<rparr>]\<rparr>"

lemma with_value_simps [simp]:
  "fs_clusters (with_value c v fs) = fs_clusters fs" "fs_fat_bits (with_value c v fs) = fs_fat_bits fs"
  "fs_eff_fat_bits (with_value c v fs) = fs_eff_fat_bits fs" "fs_fat_start (with_value c v fs) = fs_fat_start fs"
  "fs_fat_size (with_value c v fs) = fs_fat_size fs" "length (fs_fat (with_value c v fs)) = length (fs_fat fs)"
  "eff_size (with_value c v fs) = eff_size fs" "fs_geo (with_value c v fs) = fs_geo fs" "fs_ok (with_value c v fs) = fs_ok fs"
  "fat12_even_clusters (with_value c v fs) = fat12_even_clusters fs"
  by (simp_all add: with_value_def eff_size_def fs_ok_def fs_geo_def fat12_even_clusters_def)

lemma table_in_with_value:
  assumes "length (fs_fat fs) = fs_clusters fs + 2" "entry_in fs xs c ((fs_fat fs ! c)\<lparr>fe_value := v\<rparr>)"
    and "\<And>i. 2 \<le> i \<Longrightarrow> i < fs_clusters fs + 2 \<Longrightarrow> i \<noteq> c \<Longrightarrow> entry_in fs xs i (fs_fat fs ! i)"
  shows "table_in (with_value c v fs) xs"
proof -
  have "entry_in (with_value c v fs) xs i e = entry_in fs xs i e" for i e
    by (simp add: entry_in_def get_fat_def with_value_def)
  moreover have "entry_in fs xs i (fs_fat (with_value c v fs) ! i)" if "2 \<le> i" "i < fs_clusters fs + 2" for i
    using assms that by (cases "i = c") (simp_all add: with_value_def)
  ultimately show ?thesis by (simp add: table_in_def)
qed

lemma fat12_index: "2 * m * 3 div 2 = 3 * m" "(2 * m + 1) * 3 div 2 = 3 * m + 1" for m :: nat
  by simp_all

text \<open>An entry of 12 bits by its place: \<open>m\<close> counts pairs of entries, which have three bytes.\<close>

lemma entry_in_12:
  assumes "fs_fat_bits fs = 12"
  shows "entry_in fs xs (2 * m) e \<longleftrightarrow> 3 * m + 1 < length xs \<and> fe_value e = unat (xs ! (3 * m)) + 256 * (unat (xs ! (3 * m + 1)) mod 16)"
    and "entry_in fs xs (2 * m + 1) e
      \<longleftrightarrow> 3 * m + 2 < length xs \<and> fe_value e = unat (xs ! (3 * m + 1)) div 16 + 16 * unat (xs ! (3 * m + 2))"
  unfolding entry_in_simps(1) [OF assms] fat12_index by simp_all

lemma fat12_pair_write:
  assumes "fs_fat_bits fs = 12" "entry_in fs xs i e" "i \<noteq> 2 * m" "i \<noteq> 2 * m + 1" "3 * m \<le> k" "k + length d \<le> 3 * m + 3"
  shows "entry_in fs (write_at k d xs) i e"
proof (cases "even i")
  case True
  then obtain n where "i = 2 * n" by blast
  then show ?thesis using assms by (auto simp: entry_in_12 nth_write_at)
next
  case False
  then obtain n where n: "i = 2 * n + 1" by (blast elim: oddE)
  then show ?thesis using assms(2-) unfolding n entry_in_12 [OF assms(1)] by (auto simp: nth_write_at)
qed

lemma fat_code_12:
  assumes "fs_fat_bits (fk_fs st) = 12" "fs_ok (fk_fs st)" "table_in (fk_fs st) xs" "length xs = eff_size (fk_fs st)"
    and "2 \<le> c" "c < fs_clusters (fk_fs st) + 2" "v < 2 ^ 12" "fat12_even_clusters (fk_fs st)"
  shows "\<exists>d. fat_code st c v = Inr (c * 3 div 2, d) \<and> length d = 2 \<and> table_in (with_value c v (fk_fs st)) (write_at (c * 3 div 2) d xs)"
proof -
  let ?fs = "fk_fs st"
  have e: "entry_in ?fs xs i (fs_fat ?fs ! i)" if "2 \<le> i" "i < fs_clusters ?fs + 2" for i using assms(3) that by (simp add: table_in_def)
  have val: "fe_value (fs_fat ?fs ! i) < 4096" if "2 \<le> i" "i < fs_clusters ?fs + 2" for i
    using entry_value_less [OF assms(2) e [OF that]] assms(1,2) by (auto simp: fs_ok_def fs_geo_def)
  have len: "length (fs_fat ?fs) = fs_clusters ?fs + 2" using assms(2) by (simp add: fs_ok_def fs_geo_def)
  note i12 = entry_in_12 [OF assms(1)]
  have cl: "even (fs_clusters ?fs)" "0 < fs_clusters ?fs" using assms(1,8) by (simp_all add: fat12_even_clusters_def)
  show ?thesis
  proof (cases "odd c")
    case True
    then obtain m where m: "c = 2 * m + 1" by (blast elim: oddE)
    let ?w = "fe_value (fs_fat ?fs ! (2 * m))"
    have c: "2 \<le> 2 * m" "2 * m < fs_clusters ?fs + 2" using assms(5,6) by (simp_all add: m)
    define b0 b1 :: byte where "b0 = word_of_nat (16 * (v mod 16) + ?w div 256)" and "b1 = word_of_nat (v div 16)"
    have w: "?w div 256 < 16" using val [OF c] by simp
    have "16 * (v mod 16) + ?w div 256 < 256" using w pos_mod_bound [of 16 "int v"] by linarith
    then have u: "unat b0 = 16 * (v mod 16) + ?w div 256" "unat b1 = v div 16"
      unfolding b0_def b1_def unat_byte_mod using assms(7) by simp_all
    have code: "fat_code st c v = Inr (3 * m + 1, [b0, b1])"
      using assms(1) fat_at_ok [OF assms(2) c] or_push [of "?w div 256" 4 "v mod 16"] w
      by (simp add: fat_code_def m fat12_index b0_def b1_def and_ones drop_bit_eq_div or.commute add.commute)
    have self: "3 * m + 2 < length xs" and prev: "3 * m + 1 < length xs" "?w = unat (xs ! (3 * m)) + 256 * (unat (xs ! (3 * m + 1)) mod 16)"
      using e [OF c] e [OF assms(5,6)] unfolding m i12 by simp_all
    have "table_in (with_value c v ?fs) (write_at (3 * m + 1) [b0, b1] xs)"
    proof (rule table_in_with_value [OF len])
      show "entry_in ?fs (write_at (3 * m + 1) [b0, b1] xs) c ((fs_fat ?fs ! c)\<lparr>fe_value := v\<rparr>)"
        using self u w unfolding m i12 by (simp add: nth_write_at)
      fix i
      assume i: "2 \<le> i" "i < fs_clusters ?fs + 2" "i \<noteq> c"
      show "entry_in ?fs (write_at (3 * m + 1) [b0, b1] xs) i (fs_fat ?fs ! i)"
      proof (cases "i = 2 * m")
        case True
        then show ?thesis using prev u w unat_byte_less [of "xs ! (3 * m)"] unfolding True i12 by (simp add: nth_write_at)
      next
        case False
        then show ?thesis using fat12_pair_write [OF assms(1) e [OF i(1,2)] False, of "3 * m + 1" "[b0, b1]"] i(3) by (simp add: m)
      qed
    qed
    then show ?thesis using code unfolding m fat12_index by auto
  next
    case False
    then obtain m where m: "c = 2 * m" by (auto elim: evenE)
    let ?w = "fe_value (fs_fat ?fs ! (2 * m + 1))"
    have c: "2 \<le> 2 * m + 1" "2 * m + 1 < fs_clusters ?fs + 2" and last: "2 * m \<noteq> fs_clusters ?fs - 1"
      using assms(5,6) cl unfolding m by presburger+
    define b0 b1 :: byte where "b0 = word_of_nat (v mod 256)" and "b1 = word_of_nat (v div 256 + 16 * (?w mod 256))"
    have u: "unat b0 = v mod 256" "unat b1 = v div 256 + 16 * (?w mod 16)"
      unfolding b0_def b1_def unat_byte_mod
      using assms(7) mod_mult2_eq [of "v div 256 + 16 * (?w mod 256)" 16 16] by (simp_all add: mod_mod_cancel)
    have code: "fat_code st c v = Inr (3 * m, [b0, b1])"
      using assms(1,7) fat_at_ok [OF assms(2) c] or_push [of "v div 256" 4 "?w mod 256"] last
      by (simp add: fat_code_def m b0_def b1_def and_ones drop_bit_eq_div)
    have self: "3 * m + 1 < length xs" and nxt: "3 * m + 2 < length xs" "?w = unat (xs ! (3 * m + 1)) div 16 + 16 * unat (xs ! (3 * m + 2))"
      using e [OF c] e [OF assms(5,6)] unfolding m i12 by simp_all
    have "table_in (with_value c v ?fs) (write_at (3 * m) [b0, b1] xs)"
    proof (rule table_in_with_value [OF len])
      show "entry_in ?fs (write_at (3 * m) [b0, b1] xs) c ((fs_fat ?fs ! c)\<lparr>fe_value := v\<rparr>)"
        using self u assms(7) unfolding m i12 by (simp add: nth_write_at)
      fix i
      assume i: "2 \<le> i" "i < fs_clusters ?fs + 2" "i \<noteq> c"
      show "entry_in ?fs (write_at (3 * m) [b0, b1] xs) i (fs_fat ?fs ! i)"
      proof (cases "i = 2 * m + 1")
        case True
        then show ?thesis using nxt u assms(7) unat_byte_less [of "xs ! (3 * m + 1)"] unfolding True i12 by (simp add: nth_write_at)
      next
        case False
        then show ?thesis using fat12_pair_write [OF assms(1) e [OF i(1,2)] _ False, of "3 * m" "[b0, b1]"] i(3) by (simp add: m)
      qed
    qed
    then show ?thesis using code by (simp add: m)
  qed
qed


text \<open>Entries of whole bytes.\<close>

lemma fat_code_bytes:
  assumes "fs_fat_bits (fk_fs st) = 8 * w" "w = 2 \<or> w = 4" "fs_ok (fk_fs st)" "table_in (fk_fs st) xs" "length xs = eff_size (fk_fs st)"
    and "2 \<le> c" "c < fs_clusters (fk_fs st) + 2" "v < 2 ^ fs_eff_fat_bits (fk_fs st)"
  shows "\<exists>d. fat_code st c v = Inr (c * w, d) \<and> length d = w \<and> table_in (with_value c v (fk_fs st)) (write_at (c * w) d xs)"
proof -
  let ?fs = "fk_fs st"
  define u where "u = (if w = 2 then v else v + 2 ^ 28 * fe_reserved (fs_fat ?fs ! c))"
  have e: "entry_in ?fs xs i (fs_fat ?fs ! i)" if "2 \<le> i" "i < fs_clusters ?fs + 2" for i using assms(4) that by (simp add: table_in_def)
  have ok: "fs_geo ?fs" "length (fs_fat ?fs) = fs_clusters ?fs + 2" using assms(3) by (simp_all add: fs_ok_def)
  have len: "length xs = w * (fs_clusters ?fs + 2)" "length (fs_fat ?fs) = fs_clusters ?fs + 2"
    using assms(1,2,5) ok(2) eff_size_bounds(2,3) [OF ok(1)] by auto
  have room: "i * w + w \<le> length xs" if "i < fs_clusters ?fs + 2" for i
    using that mult_le_mono1 [of "Suc i" "fs_clusters ?fs + 2" w] by (simp add: len mult.commute)
  have same: "take w (drop (c * w) (write_at (c * w) (le_bytes w u) xs)) = le_bytes w u"
    using slice_write_same [of "c * w" "le_bytes w u" xs] room [OF assms(7)] by simp
  have other: "take w (drop (i * w) (write_at (c * w) (le_bytes w u) xs)) = take w (drop (i * w) xs)" if "i \<noteq> c" for i
    using that mult_le_mono1 [of "Suc i" c w] mult_le_mono1 [of "Suc c" i w] by (intro slice_write_out) (auto simp: neq_iff)
  from assms(2) have "fat_code st c v = Inr (c * w, le_bytes w u) \<and> entry_in ?fs (write_at (c * w) (le_bytes w u) xs) c ((fs_fat ?fs ! c)\<lparr>fe_value := v\<rparr>)
    \<and> (\<forall>i. 2 \<le> i \<and> i < fs_clusters ?fs + 2 \<and> i \<noteq> c \<longrightarrow> entry_in ?fs (write_at (c * w) (le_bytes w u) xs) i (fs_fat ?fs ! i))"
  proof
    assume w: "w = 2"
    have v: "v < 65536" using assms(1,3,8) by (auto simp: fs_ok_def fs_geo_def w)
    have "fat_code st c v = Inr (c * w, le_bytes w u)" using assms(1) by (simp add: fat_code_def w u_def)
    moreover have "entry_in ?fs (write_at (c * w) (le_bytes w u) xs) c ((fs_fat ?fs ! c)\<lparr>fe_value := v\<rparr>)"
      using assms(1) same room [OF assms(7)] v by (simp add: w entry_in_simps le_value_le_bytes u_def)
    moreover have "entry_in ?fs (write_at (c * w) (le_bytes w u) xs) i (fs_fat ?fs ! i)" if "2 \<le> i" "i < fs_clusters ?fs + 2" "i \<noteq> c" for i
      using assms(1) other [OF that(3)] e [OF that(1,2)] by (simp add: w entry_in_simps)
    ultimately show ?thesis by blast
  next
    assume w: "w = 4"
    have v: "v < 2 ^ 28" using assms(1,3,8) by (auto simp: fs_ok_def fs_geo_def w)
    have "le_value (take 4 (drop (c * 4) xs)) < 2 ^ 32" using le_value_less [of "take 4 (drop (c * 4) xs)"] room [OF assms(7)] by (simp add: w)
    then have r: "fe_reserved (fs_fat ?fs ! c) < 16" using e [OF assms(6,7)] assms(1) by (simp add: w entry_in_simps)
    have "fat_code st c v = Inr (c * w, le_bytes w u)"
      using assms(1) fat_at_ok [OF assms(3,6,7)] v or_push [of v 28] by (simp add: fat_code_def w u_def and_ones)
    moreover have "u < 2 ^ 32" "u mod 2 ^ 28 = v" "u div 2 ^ 28 = fe_reserved (fs_fat ?fs ! c)" using v r by (simp_all add: u_def w)
    then have "entry_in ?fs (write_at (c * w) (le_bytes w u) xs) c ((fs_fat ?fs ! c)\<lparr>fe_value := v\<rparr>)"
      using assms(1) same room [OF assms(7)] by (simp add: w entry_in_simps le_value_le_bytes)
    moreover have "entry_in ?fs (write_at (c * w) (le_bytes w u) xs) i (fs_fat ?fs ! i)" if "2 \<le> i" "i < fs_clusters ?fs + 2" "i \<noteq> c" for i
      using assms(1) other [OF that(3)] e [OF that(1,2)] by (simp add: w entry_in_simps)
    ultimately show ?thesis by blast
  qed
  then show ?thesis using table_in_with_value [OF len(2)] by (intro exI [of _ "le_bytes w u"]) simp
qed

lemma fat_code_ok:
  assumes "fs_ok (fk_fs st)" "table_in (fk_fs st) xs" "length xs = eff_size (fk_fs st)" "fat12_even_clusters (fk_fs st)"
    and "2 \<le> c" "c < fs_clusters (fk_fs st) + 2" "v < 2 ^ fs_eff_fat_bits (fk_fs st)"
  shows "\<exists>k d. fat_code st c v = Inr (k, d) \<and> k + length d \<le> eff_size (fk_fs st) \<and> table_in (with_value c v (fk_fs st)) (write_at k d xs)"
proof -
  have geo: "fs_geo (fk_fs st)" using assms(1) by (simp add: fs_ok_def)
  from assms(1) consider "fs_fat_bits (fk_fs st) = 12" "fs_eff_fat_bits (fk_fs st) = 12" | "fs_fat_bits (fk_fs st) = 8 * 2"
    | "fs_fat_bits (fk_fs st) = 8 * 4" by (auto simp: fs_ok_def fs_geo_def)
  then show ?thesis
  proof cases
    case 1
    then show ?thesis using fat_code_12 [OF 1(1) assms(1-3,5,6)] assms(4,7) eff_size_bounds(1) [OF geo 1(1) assms(6)] by fastforce
  next
    case 2
    then show ?thesis using fat_code_bytes [OF 2 _ assms(1-3,5-7)] eff_size_bounds(2) [OF geo] assms(6) by fastforce
  next
    case 3
    then show ?thesis using fat_code_bytes [OF 3 _ assms(1-3,5-7)] eff_size_bounds(3) [OF geo] assms(6) by fastforce
  qed
qed


text \<open>The special values of entries.\<close>

lemma fat_values:
  assumes "fs_ok fs"
  shows "FAT_EXTD fs = 2 ^ fs_eff_fat_bits fs - 16"
    and "FAT_EOF atari fs = (if atari then 2 ^ fs_eff_fat_bits fs - 1 else 2 ^ fs_eff_fat_bits fs - 8)"
    and "FAT_IS_EOF fs v \<longleftrightarrow> 2 ^ fs_eff_fat_bits fs - 8 \<le> v"
    and "FAT_BAD fs = 2 ^ fs_eff_fat_bits fs - 9"
    and "FAT_MIN_BAD atari fs = (if atari then 2 ^ fs_eff_fat_bits fs - 16 else 2 ^ fs_eff_fat_bits fs - 9)"
    and "FAT_MAX_BAD fs = 2 ^ fs_eff_fat_bits fs - 9"
    and "16 < (2 :: nat) ^ fs_eff_fat_bits fs" and "(2 :: nat) ^ fs_eff_fat_bits fs \<le> 2 ^ 28"
proof -
  have "fs_eff_fat_bits fs \<in> {12, 16, 28}" using assms by (auto simp: fs_ok_def fs_geo_def)
  then show "FAT_EXTD fs = 2 ^ fs_eff_fat_bits fs - 16"
    and "FAT_EOF atari fs = (if atari then 2 ^ fs_eff_fat_bits fs - 1 else 2 ^ fs_eff_fat_bits fs - 8)"
    and "FAT_IS_EOF fs v \<longleftrightarrow> 2 ^ fs_eff_fat_bits fs - 8 \<le> v"
    and "FAT_BAD fs = 2 ^ fs_eff_fat_bits fs - 9"
    and "FAT_MIN_BAD atari fs = (if atari then 2 ^ fs_eff_fat_bits fs - 16 else 2 ^ fs_eff_fat_bits fs - 9)"
    and "FAT_MAX_BAD fs = 2 ^ fs_eff_fat_bits fs - 9"
    and "16 < (2 :: nat) ^ fs_eff_fat_bits fs" and "(2 :: nat) ^ fs_eff_fat_bits fs \<le> 2 ^ 28"
    by (auto simp: FAT_EXTD_def FAT_EOF_def FAT_IS_EOF_def FAT_BAD_def FAT_MIN_BAD_def FAT_MAX_BAD_def)
qed

text \<open>The value \<open>set_fat\<close> stores: -1 stands for the end of a chain, -2 for a bad cluster.\<close>

definition new_value :: "fsck \<Rightarrow> nat \<Rightarrow> nat" where
  "new_value st v = (if v = ULONG_MAX then FAT_EOF (fk_atari_format st) (fk_fs st) else if v = ULONG_MAX - 1 then FAT_BAD (fk_fs st) else v)"

definition value_ok :: "fsck \<Rightarrow> nat \<Rightarrow> bool" where
  "value_ok st v \<longleftrightarrow> v = ULONG_MAX \<or> v = ULONG_MAX - 1 \<or> v < 2 ^ fs_eff_fat_bits (fk_fs st)"

lemma new_value_less: "fs_ok (fk_fs st) \<Longrightarrow> value_ok st v \<Longrightarrow> new_value st v < 2 ^ fs_eff_fat_bits (fk_fs st)"
  using fat_values(7) [of "fk_fs st"] by (auto simp: new_value_def value_ok_def fat_values)

text \<open>What does not change: everything but the tables on the disk and the entries in memory.\<close>

definition outside_fat :: "fsck \<Rightarrow> nat \<Rightarrow> bool" where
  "outside_fat st p \<longleftrightarrow> p < nat (fs_fat_start (fk_fs st)) \<or> nat (fs_fat_start (fk_fs st)) + 2 * fs_fat_size (fk_fs st) \<le> p"

definition same_but_fat :: "fsck \<Rightarrow> fsck \<Rightarrow> bool" where
  "same_but_fat st st' \<longleftrightarrow> (\<exists>fat io. st' = st\<lparr>fk_fs := (fk_fs st)\<lparr>fs_fat := fat\<rparr>, fk_io := io\<rparr>
       \<and> readable io = readable (fk_io st) \<and> io_bad io = io_bad (fk_io st)
       \<and> length (contents io) = length (contents (fk_io st)) \<and> (\<not> fk_write_immed st \<longrightarrow> io_dev io = io_dev (fk_io st))
       \<and> (\<forall>p. outside_fat st p \<longrightarrow> p < length (contents (fk_io st)) \<longrightarrow> contents io ! p = contents (fk_io st) ! p))"

lemma same_but_fat_refl [simp]: "same_but_fat st st"
  unfolding same_but_fat_def by (intro exI [of _ "fs_fat (fk_fs st)"] exI [of _ "fk_io st"]) simp

lemma same_but_fat_trans: "same_but_fat a b \<Longrightarrow> same_but_fat b c \<Longrightarrow> same_but_fat a c"
  unfolding same_but_fat_def by (clarsimp simp: outside_fat_def) auto

lemma fs_write_step:
  assumes "io_mode_ok im io" "nat p + length d \<le> length (contents io)" "0 \<le> p"
  shows "\<exists>io'. fs_write im p d io = Inr io' \<and> io_mode_ok im io' \<and> contents io' = write_at (nat p) d (contents io)
     \<and> readable io' = readable io \<and> io_bad io' = io_bad io \<and> (\<not> im \<longrightarrow> io_dev io' = io_dev io)"
proof -
  have "io_ok io" "im \<longrightarrow> io_changes io = [] \<and> in_disk io p (length d)" using assms by (auto simp: io_mode_ok_def in_disk_def)
  from fs_write_contents [OF this(1) assms(3) this(2)] obtain io' where
    "fs_write im p d io = Inr io'" "contents io' = dev_write p d (contents io)" "io_ok io'" "io_bad io' = io_bad io"
    "length (io_dev io') = length (io_dev io)" "im \<longrightarrow> io_changes io' = []" "\<not> im \<longrightarrow> io_dev io' = io_dev io" by blast
  then show ?thesis using readable_cong [of io' io] by (simp add: io_mode_ok_def dev_write_def)
qed

lemma set_fat_run:
  assumes "state_ok st" "2 \<le> c" "c < fs_clusters (fk_fs st) + 2" "fat_code st c (new_value st v) = Inr (k, d)"
    and "k + length d \<le> eff_size (fk_fs st)"
  shows "\<exists>st'. set_fat c v st = Inr st' \<and> state_ok st' \<and> fk_fs st' = with_value c (new_value st v) (fk_fs st) \<and> same_but_fat st st'
     \<and> fat_copy st' 0 = write_at k d (fat_copy st 0) \<and> fat_copy st' 1 = write_at k d (fat_copy st 1)"
proof -
  let ?fs = "fk_fs st" and ?C = "contents (fk_io st)"
  define a n F u where "a = nat (fs_fat_start ?fs)" and "n = eff_size ?fs" and "F = fs_fat_size ?fs" and "u = new_value st v"
  have ok: "fs_ok ?fs" "io_mode_ok (fk_write_immed st) (fk_io st)" "a + 2 * F \<le> length ?C" "n \<le> F" "0 \<le> fs_fat_start ?fs" "k + length d \<le> n"
    using assms(1,5) by (auto simp: state_ok_def state_geo_def fs_geo_def a_def F_def n_def)
  have copies: "fat_copy st k = take n (drop (a + k * F) ?C)" for k by (simp add: fat_copy_def a_def n_def F_def)
  have pos: "nat (fs_fat_start ?fs + int k) = a + k" "nat (fs_fat_start ?fs + int k + int F) = a + k + F" using ok(5) by (auto simp: a_def)
  obtain io1 where io1: "fs_write (fk_write_immed st) (fs_fat_start ?fs + int k) d (fk_io st) = Inr io1" "io_mode_ok (fk_write_immed st) io1"
    "contents io1 = write_at (a + k) d ?C" "readable io1 = readable (fk_io st)" "io_bad io1 = io_bad (fk_io st)"
    "\<not> fk_write_immed st \<longrightarrow> io_dev io1 = io_dev (fk_io st)"
    using fs_write_step [OF ok(2), of "fs_fat_start ?fs + int k" d] ok(3-6) pos by auto
  have "a + k + F + length d \<le> length (contents io1)" using ok(3,4,6) by (simp add: io1(3))
  then obtain io2 where io2: "fs_write (fk_write_immed st) (fs_fat_start ?fs + int k + int F) d io1 = Inr io2" "io_mode_ok (fk_write_immed st) io2"
    "contents io2 = write_at (a + k + F) d (write_at (a + k) d ?C)" "readable io2 = readable io1" "io_bad io2 = io_bad io1"
    "\<not> fk_write_immed st \<longrightarrow> io_dev io2 = io_dev io1"
    using fs_write_step [OF io1(2), of "fs_fat_start ?fs + int k + int F" d] ok(5) pos(2) by (auto simp: io1(3))
  define st' where "st' = st\<lparr>fk_fs := with_value c u ?fs, fk_io := io2\<rparr>"
  have res: "set_fat c v st = Inr st'"
    using assms(4) fat_at_ok [OF ok(1) assms(2,3)] io1(1) io2(1)
    by (simp add: set_fat_def disk_write_def fat_update_def st'_def with_value_def F_def u_def new_value_def Let_def)
  have lenC: "length (contents io2) = length ?C" by (simp add: io2(3) del: length_contents)
  have "fat_copy st' 0 = write_at k d (fat_copy st 0)"
    using ok(3,4,6) unfolding copies fat_copy_def [of st']
    by (simp add: st'_def io2(3) slice_write_out slice_write_in flip: a_def n_def F_def)
  moreover have "fat_copy st' 1 = write_at k d (fat_copy st 1)"
    using ok(3,4,6) slice_write_in [of k d n "a + F" "write_at (a + k) d ?C"] unfolding copies fat_copy_def [of st']
    by (simp add: st'_def io2(3) slice_write_out add.assoc add.commute [of k F] flip: a_def n_def F_def)
  moreover have "state_ok st'" using assms(1) io2(2) lenC by (simp add: state_ok_def state_geo_def st'_def)
  moreover have "same_but_fat st st'"
    unfolding same_but_fat_def st'_def with_value_def
    by (intro exI [of _ "(fs_fat ?fs)[c := (fs_fat ?fs ! c)\<lparr>fe_value := u\<rparr>]"] exI [of _ io2])
      (use ok(4,6) io1 io2 lenC in \<open>auto simp: outside_fat_def nth_write_at a_def F_def\<close>)
  ultimately show ?thesis using res by (auto simp: st'_def u_def)
qed

lemma length_fat_copy: "state_geo st \<Longrightarrow> k \<le> 1 \<Longrightarrow> length (fat_copy st k) = eff_size (fk_fs st)"
  by (cases k) (auto simp: fat_copy_def state_geo_def fs_geo_def)

lemma set_fat_ok:
  assumes "state_ok st" "synced st" "fat12_even_clusters (fk_fs st)" "2 \<le> c" "c < fs_clusters (fk_fs st) + 2" "value_ok st v"
  shows "\<exists>st'. set_fat c v st = Inr st' \<and> state_ok st' \<and> synced st' \<and> fk_fs st' = with_value c (new_value st v) (fk_fs st)
     \<and> same_but_fat st st'"
proof -
  let ?fs = "fk_fs st" and ?u = "new_value st v"
  have ok: "fs_ok ?fs" "state_geo st" using assms(1) by (simp_all add: state_ok_def)
  note code = fat_code_ok [OF ok(1) _ _ assms(3-5) new_value_less [OF ok(1) assms(6)]]
  have t: "table_in ?fs (fat_copy st 0)" "table_in ?fs (fat_copy st 1)" using assms(2) by (simp_all add: synced_def)
  obtain k d where kd: "fat_code st c ?u = Inr (k, d)" "k + length d \<le> eff_size ?fs" "table_in (with_value c ?u ?fs) (write_at k d (fat_copy st 0))"
    using code [OF t(1) length_fat_copy [OF ok(2)]] by auto
  then have "table_in (with_value c ?u ?fs) (write_at k d (fat_copy st 1))" using code [OF t(2) length_fat_copy [OF ok(2)]] by auto
  then show ?thesis using set_fat_run [OF assms(1,4,5) kd(1,2)] kd(3) by (auto simp: synced_def)
qed

section \<open>Loops over the table\<close>

definition fat_inv :: "fsck \<Rightarrow> bool" where
  "fat_inv st \<longleftrightarrow> state_ok st \<and> synced st \<and> fat12_even_clusters (fk_fs st)"

abbreviation entries :: "fsck \<Rightarrow> FAT_ENTRY list" where
  "entries st \<equiv> fs_fat (fk_fs st)"

abbreviation is_cluster :: "fsck \<Rightarrow> nat \<Rightarrow> bool" where
  "is_cluster st c \<equiv> 2 \<le> c \<and> c < fs_clusters (fk_fs st) + 2"

abbreviation is_bad :: "fsck \<Rightarrow> nat \<Rightarrow> bool" where
  "is_bad st v \<equiv> FAT_IS_BAD (fk_atari_format st) (fk_fs st) v"

lemma fat_inv_length: "fat_inv st \<Longrightarrow> length (entries st) = fs_clusters (fk_fs st) + 2"
  by (simp add: fat_inv_def state_ok_def fs_ok_def)

lemma fat_inv_at: "fat_inv st \<Longrightarrow> is_cluster st c \<Longrightarrow> fat_at st c = Inr (entries st ! c)"
  by (simp add: fat_inv_def state_ok_def fat_at_ok)

lemma set_fat_inv:
  assumes "fat_inv st" "is_cluster st c" "value_ok st v"
  obtains st' where "set_fat c v st = Inr st'" "fat_inv st'" "same_but_fat st st'"
    "entries st' = (entries st)[c := (entries st ! c)\<lparr>fe_value := new_value st v\<rparr>]"
proof -
  have a: "state_ok st" "synced st" "fat12_even_clusters (fk_fs st)" using assms(1) by (simp_all add: fat_inv_def)
  from set_fat_ok [OF a, of c v] assms(2,3) obtain st' where st': "set_fat c v st = Inr st'" "state_ok st'" "synced st'"
    "fk_fs st' = with_value c (new_value st v) (fk_fs st)" "same_but_fat st st'" by blast
  show thesis by (rule that [OF st'(1) _ st'(5)]) (use st' a(3) in \<open>simp_all add: fat_inv_def\<close>, simp add: with_value_def)
qed

lemma same_but_fat_simps:
  assumes "same_but_fat st st'"
  shows "fs_clusters (fk_fs st') = fs_clusters (fk_fs st)" "fk_atari_format st' = fk_atari_format st"
    "FAT_IS_BAD a (fk_fs st') v = FAT_IS_BAD a (fk_fs st) v" "FAT_IS_EOF (fk_fs st') v = FAT_IS_EOF (fk_fs st) v" "new_value st' v = new_value st v"
    "value_ok st' v = value_ok st v" "cluster_start (fk_fs st') c = cluster_start (fk_fs st) c"
    "fs_cluster_size (fk_fs st') = fs_cluster_size (fk_fs st)" "readable (fk_io st') = readable (fk_io st)"
    "FAT_MIN_BAD a (fk_fs st') = FAT_MIN_BAD a (fk_fs st)" "fk_interactive st' = fk_interactive st"
  using assms
  by (auto simp: same_but_fat_def FAT_IS_BAD_def FAT_MIN_BAD_def FAT_MAX_BAD_def FAT_EXTD_def FAT_IS_EOF_def new_value_def value_ok_def
      FAT_EOF_def FAT_BAD_def cluster_start_def)

text \<open>
  A loop over all clusters that looks at one entry at a time and sets some of them to the same
  value: all three repairs have this form.
\<close>

lemma table_loop:
  assumes "fat_inv st" "value_ok st v"
    and body: "\<And>i s. same_but_fat st s \<Longrightarrow> fat_inv s \<Longrightarrow> is_cluster st i \<Longrightarrow> entries s ! i = entries st ! i
      \<Longrightarrow> f i s = (if T i (entries st ! i) then set_fat i v s else Inr s)"
  shows "\<exists>st'. fold_exit f [2..<fs_clusters (fk_fs st) + 2] st = Inr st' \<and> fat_inv st' \<and> same_but_fat st st'
    \<and> (\<forall>i. is_cluster st i \<longrightarrow> entries st' ! i
        = (if T i (entries st ! i) then (entries st ! i)\<lparr>fe_value := new_value st v\<rparr> else entries st ! i))"
proof -
  let ?n = "fs_clusters (fk_fs st) + 2"
  define g where "g i = (if T i (entries st ! i) then (entries st ! i)\<lparr>fe_value := new_value st v\<rparr> else entries st ! i)" for i
  define P where "P k s \<longleftrightarrow> fat_inv s \<and> same_but_fat st s \<and> (\<forall>i. is_cluster st i \<longrightarrow> entries s ! i = (if i < k then g i else entries st ! i))"
    for k s
  have "\<exists>s'. fold_exit f [2..<?n] st = Inr s' \<and> P ?n s'"
  proof (rule fold_exit_upt)
    show "P 2 st" using assms(1) by (simp add: P_def)
    fix i s
    assume P: "P i s" and i: "2 \<le> i" "i < ?n"
    then have s: "fat_inv s" "same_but_fat st s" "entries s ! i = entries st ! i" by (simp_all add: P_def)
    note eqs = same_but_fat_simps [OF s(2)]
    show "\<exists>s'. f i s = Inr s' \<and> P (Suc i) s'"
    proof (cases "T i (entries st ! i)")
      case True
      from s(1) obtain s' where s': "set_fat i v s = Inr s'" "fat_inv s'" "same_but_fat s s'"
        "entries s' = (entries s)[i := (entries s ! i)\<lparr>fe_value := new_value s v\<rparr>]"
        by (rule set_fat_inv [of s i v]) (use i assms(2) eqs in auto)
      have "i < length (entries s)" using fat_inv_length [OF s(1)] i eqs by simp
      then have "P (Suc i) s'"
        using P s s' eqs True same_but_fat_trans [OF s(2) s'(3)]
        by (auto simp: P_def g_def less_Suc_eq nth_list_update)
      then show ?thesis using body [OF s(2,1) _ s(3)] i s'(1) True by simp
    next
      case False
      then have "P (Suc i) s" using P by (auto simp: P_def g_def less_Suc_eq)
      then show ?thesis using body [OF s(2,1) _ s(3)] i False by simp
    qed
  qed simp
  then show ?thesis by (auto simp: P_def g_def)
qed

lemma fat_inv_value: "fat_inv st \<Longrightarrow> is_cluster st i \<Longrightarrow> fe_value (entries st ! i) < 2 ^ fs_eff_fat_bits (fk_fs st)"
  using entry_value_less by (auto simp: fat_inv_def state_ok_def synced_def table_in_def)

lemma value_ok_simps [simp]: "value_ok st ULONG_MAX" "value_ok st (ULONG_MAX - 1)" "value_ok st (ULONG_MAX - Suc 0)" "value_ok st 0"
  by (simp_all add: value_ok_def)

lemma new_value_0 [simp]: "new_value st 0 = 0"
  by (simp add: new_value_def ULONG_MAX_def)

text \<open>
  \<open>reclaim_free\<close> frees exactly the clusters that are neither owned nor bad, and changes nothing else:
  the table stays equal to both of its copies, and no byte outside of the copies is written.
\<close>

lemma reclaim_free_frees:
  assumes "fat_inv st"
  shows "\<exists>st'. reclaim_free st = Inr st' \<and> fat_inv st' \<and> same_but_fat st st'
    \<and> (\<forall>i. is_cluster st i \<longrightarrow> entries st' ! i
        = (if fe_owner (entries st ! i) = None \<and> \<not> is_bad st (fe_value (entries st ! i)) then (entries st ! i)\<lparr>fe_value := 0\<rparr>
           else entries st ! i))"
proof -
  have "\<exists>st'. reclaim_free st = Inr st' \<and> fat_inv st' \<and> same_but_fat st st' \<and> (\<forall>i. is_cluster st i \<longrightarrow> entries st' ! i
      = (if fe_owner (entries st ! i) = None \<and> fe_value (entries st ! i) \<noteq> 0 \<and> \<not> is_bad st (fe_value (entries st ! i))
         then (entries st ! i)\<lparr>fe_value := new_value st 0\<rparr> else entries st ! i))"
    unfolding reclaim_free_def
    by (rule table_loop [OF assms]) (auto simp: fat_inv_at same_but_fat_simps)
  then show ?thesis by fastforce
qed

lemma fs_test_readable: "0 \<le> p \<Longrightarrow> fs_test io p n = Inr (readable io p n)"
  by (auto simp: fs_test_def dev_read_def readable_def in_disk_def)

text \<open>\<open>fix_bad\<close> marks the clusters that are not owned and cannot be read.\<close>

lemma fix_bad_marks:
  assumes "fat_inv st" "0 \<le> fs_data_start (fk_fs st)"
  shows "\<exists>st'. fix_bad st = Inr st' \<and> fat_inv st' \<and> same_but_fat st st'
    \<and> (\<forall>i. is_cluster st i \<longrightarrow> entries st' ! i
        = (if fe_owner (entries st ! i) = None \<and> \<not> is_bad st (fe_value (entries st ! i))
             \<and> \<not> readable (fk_io st) (cluster_start (fk_fs st) i) (fs_cluster_size (fk_fs st))
           then (entries st ! i)\<lparr>fe_value := new_value st (ULONG_MAX - 1)\<rparr> else entries st ! i))"
  unfolding fix_bad_def
proof (rule table_loop [OF assms(1)])
  fix i s
  assume "same_but_fat st s" "fat_inv s" "is_cluster st i" "entries s ! i = entries st ! i"
  moreover have "0 \<le> cluster_start (fk_fs st) i" if "is_cluster st i" using assms(2) that by (simp add: cluster_start_def)
  ultimately show "exit_bind (fat_at s i) (\<lambda>e. if fe_owner e = None \<and> \<not> FAT_IS_BAD (fk_atari_format s) (fk_fs s) (fe_value e)
      then exit_bind (fs_test (fk_io s) (cluster_start (fk_fs s) i) (fs_cluster_size (fk_fs s))) (\<lambda>okay. if \<not> okay then set_fat i (ULONG_MAX - 1) s else Inr s)
      else Inr s)
    = (if fe_owner (entries st ! i) = None \<and> \<not> is_bad st (fe_value (entries st ! i))
          \<and> \<not> readable (fk_io st) (cluster_start (fk_fs st) i) (fs_cluster_size (fk_fs st))
       then set_fat i (ULONG_MAX - 1) s else Inr s)"
    by (simp add: fat_inv_at same_but_fat_simps fs_test_readable)
qed simp

section \<open>Reading the table\<close>

lemma get_fat_total:
  assumes "fs_geo fs" "length xs = eff_size fs" "c < fs_clusters fs + 2"
  shows "\<exists>e'. get_fat e xs c fs = Inr e' \<and> entry_in fs xs c e' \<and> fe_owner e' = None"
proof -
  from assms(1) consider "fs_fat_bits fs = 12" | "fs_fat_bits fs = 16" | "fs_fat_bits fs = 32" by (auto simp: fs_geo_def)
  then show ?thesis
  proof cases
    case 1
    then show ?thesis using eff_size_bounds(1) [OF assms(1) 1 assms(3)] assms(2) by (simp add: get_fat_def entry_in_def Let_def)
  next
    case 2
    then show ?thesis using eff_size_bounds(2) [OF assms(1) 2] assms(2,3) by (simp add: get_fat_def entry_in_def)
  next
    case 3
    then show ?thesis using eff_size_bounds(3) [OF assms(1) 3] assms(2,3) by (simp add: get_fat_def entry_in_def Let_def)
  qed
qed

lemma load_fat_ok:
  assumes "fs_geo (fk_fs st)" "length use = eff_size (fk_fs st)"
  shows "\<exists>fat. load_fat use st = Inr (st\<lparr>fk_fs := (fk_fs st)\<lparr>fs_fat := fat\<rparr>\<rparr>) \<and> length fat = fs_clusters (fk_fs st) + 2
     \<and> table_in ((fk_fs st)\<lparr>fs_fat := fat\<rparr>) use \<and> (\<forall>i < length fat. fe_owner (fat ! i) = None)"
proof -
  let ?fs = "fk_fs st" and ?n = "fs_clusters (fk_fs st) + 2"
  let ?blank = "\<lparr>fe_value = 0, fe_reserved = 0, fe_owner = None, fe_prev = 0\<rparr> :: FAT_ENTRY"
  define P where "P k fat \<longleftrightarrow> length fat = ?n \<and> (\<forall>i. 2 \<le> i \<and> i < k \<longrightarrow> entry_in ?fs use i (fat ! i)) \<and> (\<forall>i < ?n. fe_owner (fat ! i) = None)"
    for k and fat :: "FAT_ENTRY list"
  have "\<exists>fat. fold_exit (\<lambda>i fat. exit_bind (get_fat (fat ! i) use i ?fs) (\<lambda>e. Inr (fat[i := e]))) [2..<?n] (replicate ?n ?blank) = Inr fat \<and> P ?n fat"
  proof (rule fold_exit_upt)
    show "P 2 (replicate ?n ?blank)" by (auto simp: P_def simp del: replicate.simps)
    fix i fat
    assume P: "P i fat" and i: "2 \<le> i" "i < ?n"
    from get_fat_total [OF assms i(2), of "fat ! i"] obtain e where
      e: "get_fat (fat ! i) use i ?fs = Inr e" "entry_in ?fs use i e" "fe_owner e = None" by blast
    then have "P (Suc i) (fat[i := e])" using P i by (auto simp: P_def nth_list_update less_Suc_eq)
    then show "\<exists>fat'. exit_bind (get_fat (fat ! i) use i ?fs) (\<lambda>e. Inr (fat[i := e])) = Inr fat' \<and> P (Suc i) fat'" using e(1) by auto
  qed simp
  then obtain fat where fat: "fold_exit (\<lambda>i fat. exit_bind (get_fat (fat ! i) use i ?fs) (\<lambda>e. Inr (fat[i := e]))) [2..<?n] (replicate ?n ?blank) = Inr fat"
    "P ?n fat" by blast
  have "entry_in (?fs\<lparr>fs_fat := fat\<rparr>) use i e = entry_in ?fs use i e" for i e by (simp add: entry_in_def get_fat_def)
  then show ?thesis
    using fat by (intro exI [of _ fat]) (simp add: load_fat_def Let_def P_def table_in_def del: upt_Suc replicate.simps)
qed

text \<open>The table a copy is chosen from overwrites the other one.\<close>

lemma write_copy:
  assumes "state_geo st" "length xs = eff_size (fk_fs st)" "k \<le> 1"
  shows "\<exists>io. disk_write (fs_fat_start (fk_fs st) + int (k * fs_fat_size (fk_fs st))) xs st = Inr (st\<lparr>fk_io := io\<rparr>)
     \<and> state_geo (st\<lparr>fk_io := io\<rparr>) \<and> same_but_fat st (st\<lparr>fk_io := io\<rparr>)
     \<and> fat_copy (st\<lparr>fk_io := io\<rparr>) k = xs \<and> fat_copy (st\<lparr>fk_io := io\<rparr>) (1 - k) = fat_copy st (1 - k)"
proof -
  let ?fs = "fk_fs st"
  define a F where "a = nat (fs_fat_start ?fs)" and "F = fs_fat_size ?fs"
  have geo: "0 \<le> fs_fat_start ?fs" "eff_size ?fs \<le> F" "io_mode_ok (fk_write_immed st) (fk_io st)" "a + 2 * F \<le> length (contents (fk_io st))"
    using assms(1) by (simp_all add: state_geo_def fs_geo_def a_def F_def)
  have pos: "nat (fs_fat_start ?fs + int (k * F)) = a + k * F" using geo(1) by (simp add: a_def nat_add_distrib del: of_nat_mult)
  have kF: "k * F \<le> F" using assms(3) by (cases k) auto
  have room: "a + k * F + length xs \<le> length (contents (fk_io st))" using geo(2,4) assms(2) kF by linarith
  from fs_write_step [OF geo(3), of "fs_fat_start ?fs + int (k * F)" xs] obtain io where
    io: "fs_write (fk_write_immed st) (fs_fat_start ?fs + int (k * F)) xs (fk_io st) = Inr io" "io_mode_ok (fk_write_immed st) io"
      "contents io = write_at (a + k * F) xs (contents (fk_io st))" "readable io = readable (fk_io st)" "io_bad io = io_bad (fk_io st)"
      "\<not> fk_write_immed st \<longrightarrow> io_dev io = io_dev (fk_io st)"
    unfolding pos using geo(1) room by auto
  have len: "length (contents io) = length (contents (fk_io st))" by (simp add: io(3) del: length_contents)
  have "contents io ! p = contents (fk_io st) ! p" if "outside_fat st p" "p < length (contents (fk_io st))" for p
  proof -
    have "\<not> (a + k * F \<le> p \<and> p < a + k * F + length xs)"
      using that(1) kF geo(2) assms(2) unfolding outside_fat_def a_def F_def by linarith
    then show ?thesis using that(2) by (auto simp: io(3) nth_write_at)
  qed
  then have "same_but_fat st (st\<lparr>fk_io := io\<rparr>)"
    unfolding same_but_fat_def by (intro exI [of _ "fs_fat ?fs"] exI [of _ io])
      (use io(4-6) len in auto)
  moreover have "fat_copy (st\<lparr>fk_io := io\<rparr>) k = xs"
    using slice_write_same [OF room] assms(2) by (simp add: fat_copy_def io(3) flip: a_def F_def)
  moreover have "fat_copy (st\<lparr>fk_io := io\<rparr>) (1 - k) = fat_copy st (1 - k)"
    using geo(2) assms(2,3) by (cases k) (simp_all add: fat_copy_def io(3) slice_write_out flip: a_def F_def)
  moreover have "state_geo (st\<lparr>fk_io := io\<rparr>)" using assms(1) io(2) len by (simp add: state_geo_def)
  ultimately show ?thesis using io(1) by (auto simp: disk_write_def F_def)
qed

definition with_stdin :: "string \<Rightarrow> fsck \<Rightarrow> fsck" where
  "with_stdin inp st = st\<lparr>fk_stdin := inp\<rparr>"

lemma with_stdin_simps [simp]:
  "fk_fs (with_stdin inp st) = fk_fs st" "fk_io (with_stdin inp st) = fk_io st" "state_geo (with_stdin inp st) = state_geo st"
  "fat_copy (with_stdin inp st) k = fat_copy st k" "fk_atari_format (with_stdin inp st) = fk_atari_format st"
  by (simp_all add: with_stdin_def state_geo_def fat_copy_def)

text \<open>
  The value of an entry in the bytes of a table, and the two questions about a pair of copies. A copy is
  intact when its first entry has all bits set above the low four, which hold the media type.
\<close>

definition stored_value :: "DOS_FS \<Rightarrow> byte list \<Rightarrow> nat \<Rightarrow> nat" where
  "stored_value fs xs i =
     (let x = (\<lambda>k. unat (xs ! k))
      in if fs_fat_bits fs = 12 then
           if odd i then x (i * 3 div 2) div 16 + 16 * x (i * 3 div 2 + 1)
           else x (i * 3 div 2) + 256 * (x (i * 3 div 2 + 1) mod 16)
         else if fs_fat_bits fs = 16 then x (2 * i) + 256 * x (2 * i + 1)
         else (x (4 * i) + 256 * x (4 * i + 1) + 65536 * x (4 * i + 2) + 16777216 * x (4 * i + 3)) mod 2 ^ 28)"

definition intact :: "fsck \<Rightarrow> nat \<Rightarrow> bool" where
  "intact st k \<longleftrightarrow> 2 ^ fs_eff_fat_bits (fk_fs st) - 16 \<le> stored_value (fk_fs st) (fat_copy st k) 0"

text \<open>
  Of two copies that differ, an intact one is kept; of two intact ones the first, or the one the
  user names when he is asked. Without an intact copy, or without an answer, there is none to keep.
\<close>

definition keeps :: "fsck \<Rightarrow> nat \<Rightarrow> bool" where
  "keeps st k \<longleftrightarrow> intact st k
     \<and> (intact st (1 - k) \<longrightarrow>
          (if fk_interactive st then \<exists>rest. get_key ''12'' (fk_stdin st) = Inr (if k = 0 then CHR ''1'' else CHR ''2'', rest)
           else k = 0))"

definition none_kept :: "fsck \<Rightarrow> bool" where
  "none_kept st \<longleftrightarrow> \<not> intact st 0 \<and> \<not> intact st 1
     \<or> intact st 0 \<and> intact st 1 \<and> fk_interactive st \<and> get_key ''12'' (fk_stdin st) = Inl EXIT_FAILURE"

lemma entry_in_stored:
  assumes "fs_geo fs" "entry_in fs xs i e"
  shows "fe_value e = stored_value fs xs i"
proof -
  have two: "k + 1 < length xs \<Longrightarrow> take 2 (drop k xs) = [xs ! k, xs ! (k + 1)]" for k
    by (intro nth_equalityI) (auto simp: nth_Cons' less_2_cases_iff)
  have four: "k + 3 < length xs \<Longrightarrow> take 4 (drop k xs) = [xs ! k, xs ! (k + 1), xs ! (k + 2), xs ! (k + 3)]" for k
    by (intro nth_equalityI) (auto simp: nth_Cons' numeral_eq_Suc less_Suc_eq)
  from assms(1) consider "fs_fat_bits fs = 12" | "fs_fat_bits fs = 16" | "fs_fat_bits fs = 32" by (auto simp: fs_geo_def)
  then show ?thesis
  proof cases
    case 1
    then show ?thesis using assms(2) by (simp add: entry_in_simps stored_value_def)
  next
    case 2
    then show ?thesis using assms(2) two [of "i * 2"] by (simp add: entry_in_simps stored_value_def le_value_def mult.commute [of i])
  next
    case 3
    then show ?thesis using assms(2) four [of "i * 4"]
      by (simp add: entry_in_simps stored_value_def le_value_def mult.commute [of i] add.assoc)
  qed
qed

lemma high_bits_set:
  fixes v :: nat
  assumes "v < 2 ^ (n + 4)"
  shows "v AND ((2 ^ (n + 4) - 1) div 16 * 16) = (2 ^ (n + 4) - 1) div 16 * 16 \<longleftrightarrow> 2 ^ (n + 4) - 16 \<le> v"
proof -
  obtain N where N: "N = (2 :: nat) ^ n" "0 < N" by simp
  have pow: "2 ^ (n + 4) = 16 * N" by (simp add: N(1) power_add)
  have mask: "(16 * N - 1) div 16 * 16 = push_bit 4 (mask n :: nat)" "push_bit 4 (mask n :: nat) = 16 * (N - 1)"
    using N(2) by (cases N; simp add: push_bit_eq_mult mask_eq_exp_minus_1 flip: N(1))+
  have "v AND push_bit 4 (mask n) = push_bit 4 (take_bit n (drop_bit 4 v))"
    by (simp add: bit_eq_iff bit_and_iff bit_push_bit_iff bit_mask_iff bit_take_bit_iff bit_drop_bit_eq) auto
  also have "\<dots> = 16 * (v div 16)"
    using assms unfolding pow by (simp add: push_bit_eq_mult drop_bit_eq_div take_bit_eq_mod flip: N(1))
  finally have "v AND push_bit 4 (mask n) = 16 * (v div 16)" .
  moreover have "16 * (v div 16) = 16 * (N - 1) \<longleftrightarrow> 16 * N - 16 \<le> v" using assms N(2) unfolding pow by (cases N) auto
  ultimately show ?thesis unfolding pow mask by (simp add: mask(2))
qed


lemma stored_value_less:
  assumes "fs_geo fs"
  shows "stored_value fs xs i < 2 ^ fs_eff_fat_bits fs"
proof -
  have x: "unat (xs ! k) < 256" for k by (rule unat_byte_less)
  from assms consider "fs_fat_bits fs = 12" "fs_eff_fat_bits fs = 12" | "fs_fat_bits fs = 16" "fs_eff_fat_bits fs = 16"
    | "fs_fat_bits fs = 32" "fs_eff_fat_bits fs = 28" by (auto simp: fs_geo_def)
  then show ?thesis
  proof cases
    case 1
    have "unat (xs ! (i * 3 div 2)) div 16 < 16" using x [of "i * 3 div 2"] by simp
    moreover have "unat (xs ! (i * 3 div 2 + 1)) mod 16 < 16" by simp
    ultimately show ?thesis
      using 1 x [of "i * 3 div 2"] x [of "i * 3 div 2 + 1"] unfolding stored_value_def Let_def by (simp del: mod_less_divisor)
  next
    case 2
    then show ?thesis using x [of "2 * i"] x [of "2 * i + 1"] by (simp add: stored_value_def)
  next
    case 3
    then show ?thesis by (simp add: stored_value_def)
  qed
qed

lemma media_ok_intact:
  assumes "state_geo st" "fk_fs s = fk_fs st" "k \<le> 1"
  shows "media_ok s (fat_copy st k) = Inr (intact st k)"
proof -
  let ?fs = "fk_fs st" and ?v = "stored_value (fk_fs st) (fat_copy st k) 0"
  have g: "fs_geo ?fs" using assms(1) by (simp add: state_geo_def)
  let ?blank = "\<lparr>fe_value = 0, fe_reserved = 0, fe_owner = None, fe_prev = 0\<rparr> :: FAT_ENTRY"
  obtain e where e: "get_fat ?blank (fat_copy st k) 0 ?fs = Inr e" "fe_value e = ?v"
    using get_fat_total [OF g length_fat_copy [OF assms(1,3)], of 0 ?blank] entry_in_stored [OF g] by auto
  from g have "fs_eff_fat_bits ?fs \<in> {12, 16, 28}" by (auto simp: fs_geo_def)
  then obtain n where n: "fs_eff_fat_bits ?fs = n + 4" by force
  have "?v AND FAT_EXTD ?fs = FAT_EXTD ?fs \<longleftrightarrow> intact st k"
    using high_bits_set [of ?v n] stored_value_less [OF g] unfolding intact_def FAT_EXTD_def n by simp
  then show ?thesis using e assms(2) by (simp add: media_ok_def)
qed

lemma get_key_cases:
  "(case get_key valid inp of Inl s \<Rightarrow> s = EXIT_FAILURE | Inr (c, _) \<Rightarrow> c \<in> set valid)"
proof (induction valid inp rule: get_key.induct)
  case (1 valid inp)
  then show ?case by (subst get_key.simps) (auto split: list.splits if_splits)
qed

lemma choose_fat_ok:
  assumes "state_geo st"
  shows "case choose_fat (fat_copy st 0) (fat_copy st 1) st of
      Inl s \<Rightarrow> s = EXIT_FAILURE \<and> none_kept st
    | Inr (use, st') \<Rightarrow> state_geo st' \<and> fat_copy st' 0 = use \<and> fat_copy st' 1 = use \<and> fk_fs st' = fk_fs st
        \<and> (\<exists>k \<le> 1. keeps st k \<and> use = fat_copy st k) \<and> (\<exists>inp. same_but_fat (with_stdin inp st) st')"
proof -
  let ?fs = "fk_fs st"
  have len: "length (fat_copy st k) = eff_size ?fs" if "k \<le> 1" for k by (rule length_fat_copy [OF assms that])
  have media: "media_ok st (fat_copy st 0) = Inr (intact st 0)" "media_ok st (fat_copy st (Suc 0)) = Inr (intact st (Suc 0))"
    using media_ok_intact [OF assms refl] by simp_all
  define ok where "ok k r \<longleftrightarrow> (case r of Inl s \<Rightarrow> False
    | Inr (use, st') \<Rightarrow> state_geo st' \<and> fat_copy st' 0 = use \<and> fat_copy st' 1 = use \<and> fk_fs st' = ?fs
        \<and> use = fat_copy st k \<and> (\<exists>inp. same_but_fat (with_stdin inp st) st'))" for k and r :: "(byte list \<times> fsck) exit"
  have fs: "state_geo (with_stdin inp st)" for inp using assms by simp
  let ?use1 = "\<lambda>s. exit_bind (disk_write (fs_fat_start ?fs + int (fs_fat_size ?fs)) (fat_copy st 0) s) (\<lambda>st'. Inr (fat_copy st 0, st'))"
  let ?use2 = "\<lambda>s. exit_bind (disk_write (fs_fat_start ?fs) (fat_copy st 1) s) (\<lambda>st'. Inr (fat_copy st 1, st'))"
  have use1: "ok 0 (?use1 (with_stdin inp st))" for inp
    using write_copy [OF fs, of "fat_copy st 0" inp 1] len [of 0] by (auto simp: ok_def)
  have use2: "ok 1 (?use2 (with_stdin inp st))" for inp
    using write_copy [OF fs, of "fat_copy st 1" inp 0] len [of 1] by (auto simp: ok_def)
  have self: "with_stdin (fk_stdin st) st = st" by (simp add: with_stdin_def)
  have kept: ?thesis if "choose_fat (fat_copy st 0) (fat_copy st 1) st = r" "ok k r" "keeps st k" "k \<le> 1" for k r
    using that by (auto simp: ok_def split: sum.splits)
  let ?r = "choose_fat (fat_copy st 0) (fat_copy st 1) st"
  consider (first) "intact st 0" "\<not> intact st 1" | (second) "\<not> intact st 0" "intact st 1" | (none) "\<not> intact st 0" "\<not> intact st 1"
    | (both) "intact st 0" "intact st 1" "\<not> fk_interactive st" | (asked) "intact st 0" "intact st 1" "fk_interactive st"
    by blast
  then show ?thesis
  proof cases
    case first
    then have "?r = ?use1 st" "keeps st 0" by (simp_all add: choose_fat_def media Let_def keeps_def)
    then show ?thesis using kept [of _ 0] use1 [of "fk_stdin st"] unfolding self by simp
  next
    case second
    then have "?r = ?use2 st" "keeps st 1" by (simp_all add: choose_fat_def media Let_def keeps_def)
    then show ?thesis using kept [of _ 1] use2 [of "fk_stdin st"] unfolding self by simp
  next
    case none
    then show ?thesis by (simp add: choose_fat_def media Let_def none_kept_def)
  next
    case both
    then have "?r = ?use1 st" "keeps st 0" by (simp_all add: choose_fat_def media Let_def keeps_def)
    then show ?thesis using kept [of _ 0] use1 [of "fk_stdin st"] unfolding self by simp
  next
    case asked
    show ?thesis
    proof (cases "get_key ''12'' (fk_stdin st)")
      case (Inl s)
      then show ?thesis using asked get_key_cases [of "''12''" "fk_stdin st"]
        by (simp add: choose_fat_def ask_def media Let_def none_kept_def)
    next
      case (Inr p)
      obtain c inp where p: "p = (c, inp)" by (cases p)
      have c: "c = CHR ''1'' \<or> c = CHR ''2''" using get_key_cases [of "''12''" "fk_stdin st"] Inr p by simp
      then have "if c = CHR ''1'' then ?r = ?use1 (with_stdin inp st) \<and> keeps st 0
          else ?r = ?use2 (with_stdin inp st) \<and> keeps st 1"
        using asked Inr p by (auto simp: choose_fat_def ask_def media Let_def with_stdin_def keeps_def)
      then show ?thesis using kept [of _ 0, OF _ use1] kept [of _ 1, OF _ use2] by (auto split: if_splits)
    qed
  qed
qed

text \<open>The value after the table is read: numbers of no cluster become the end of a chain.\<close>

definition loaded_value :: "fsck \<Rightarrow> nat \<Rightarrow> nat" where
  "loaded_value st v =
     (if fs_clusters (fk_fs st) + 2 \<le> v \<and> v < FAT_MIN_BAD (fk_atari_format st) (fk_fs st) then new_value st ULONG_MAX else v)"

text \<open>After the table is read, an entry is a cluster number, or marks a bad cluster or the end of a chain.\<close>

definition in_range :: "fsck \<Rightarrow> bool" where
  "in_range st \<longleftrightarrow> (\<forall>i. is_cluster st i \<longrightarrow> fe_value (entries st ! i) < fs_clusters (fk_fs st) + 2
     \<or> FAT_MIN_BAD (fk_atari_format st) (fk_fs st) \<le> fe_value (entries st ! i))"

definition no_owners :: "fsck \<Rightarrow> bool" where
  "no_owners st \<longleftrightarrow> (\<forall>i. is_cluster st i \<longrightarrow> fe_owner (entries st ! i) = None)"

lemma eof_not_bad:
  "fs_ok (fk_fs st) \<Longrightarrow> FAT_MIN_BAD (fk_atari_format st) (fk_fs st) \<le> new_value st ULONG_MAX
     \<and> \<not> is_bad st (new_value st ULONG_MAX) \<and> FAT_IS_EOF (fk_fs st) (new_value st ULONG_MAX) \<and> new_value st ULONG_MAX \<noteq> 0
     \<and> fs_clusters (fk_fs st) + 2 \<le> new_value st ULONG_MAX"
  using fat_values(7) [of "fk_fs st"]
  by (auto simp: new_value_def fat_values FAT_IS_BAD_def fs_ok_def fs_geo_def)

lemma fix_range_loop:
  assumes "fat_inv st" "no_owners st"
  shows "\<exists>st'. fold_exit fix_range [2..<fs_clusters (fk_fs st) + 2] st = Inr st' \<and> fat_inv st' \<and> same_but_fat st st' \<and> in_range st' \<and> no_owners st'
     \<and> (\<forall>i. is_cluster st i \<longrightarrow> fe_value (entries st' ! i) = loaded_value st (fe_value (entries st ! i)))"
proof -
  have "\<exists>st'. fold_exit fix_range [2..<fs_clusters (fk_fs st) + 2] st = Inr st' \<and> fat_inv st' \<and> same_but_fat st st'
    \<and> (\<forall>i. is_cluster st i \<longrightarrow> entries st' ! i
        = (if fs_clusters (fk_fs st) + 2 \<le> fe_value (entries st ! i) \<and> fe_value (entries st ! i) < FAT_MIN_BAD (fk_atari_format st) (fk_fs st)
           then (entries st ! i)\<lparr>fe_value := new_value st ULONG_MAX\<rparr> else entries st ! i))"
    by (rule table_loop [OF assms(1)]) (auto simp: fix_range_def fat_inv_at same_but_fat_simps)
  then obtain st' where st': "fold_exit fix_range [2..<fs_clusters (fk_fs st) + 2] st = Inr st'" "fat_inv st'" "same_but_fat st st'"
    "\<And>i. is_cluster st i \<Longrightarrow> entries st' ! i
        = (if fs_clusters (fk_fs st) + 2 \<le> fe_value (entries st ! i) \<and> fe_value (entries st ! i) < FAT_MIN_BAD (fk_atari_format st) (fk_fs st)
           then (entries st ! i)\<lparr>fe_value := new_value st ULONG_MAX\<rparr> else entries st ! i)" by blast
  have "fs_ok (fk_fs st)" using assms(1) by (simp add: fat_inv_def state_ok_def)
  then have "in_range st'" using eof_not_bad [of st] by (auto simp: in_range_def same_but_fat_simps [OF st'(3)] st'(4) not_le not_less)
  moreover have "no_owners st'" using assms(2) by (auto simp: no_owners_def same_but_fat_simps [OF st'(3)] st'(4))
  moreover have "fe_value (entries st' ! i) = loaded_value st (fe_value (entries st ! i))" if "is_cluster st i" for i
    unfolding st'(4) [OF that] loaded_value_def by simp
  ultimately show ?thesis using st'(1-3) by blast
qed

lemma read_copy:
  assumes "state_geo st" "readable (fk_io st) (fs_fat_start (fk_fs st) + int (k * fs_fat_size (fk_fs st))) (eff_size (fk_fs st))"
  shows "fs_read (fk_io st) (fs_fat_start (fk_fs st) + int (k * fs_fat_size (fk_fs st))) (eff_size (fk_fs st)) = Inr (fat_copy st k)"
proof -
  have "nat (fs_fat_start (fk_fs st) + int (k * fs_fat_size (fk_fs st))) = nat (fs_fat_start (fk_fs st)) + k * fs_fat_size (fk_fs st)"
    using assms(1) by (simp add: state_geo_def fs_geo_def nat_add_distrib del: of_nat_mult)
  then show ?thesis using assms by (simp add: state_geo_def io_mode_ok_def fs_read_contents fat_copy_def)
qed

lemma load_and_fix:
  assumes "state_geo st" "fat_copy st 0 = use" "fat_copy st 1 = use" "fat12_even_clusters (fk_fs st)"
  shows "\<exists>st'. exit_bind (load_fat use st) (fold_exit fix_range [2..<fs_clusters (fk_fs st) + 2]) = Inr st'
     \<and> fat_inv st' \<and> in_range st' \<and> no_owners st' \<and> same_but_fat st st'
     \<and> (\<forall>i. is_cluster st i \<longrightarrow> fe_value (entries st' ! i) = loaded_value st (stored_value (fk_fs st) use i))"
proof -
  have g: "fs_geo (fk_fs st)" using assms(1) by (simp add: state_geo_def)
  have "length use = eff_size (fk_fs st)" using assms(1) by (auto simp: fat_copy_def state_geo_def fs_geo_def simp flip: assms(2))
  from load_fat_ok [OF g this] obtain fat where fat: "load_fat use st = Inr (st\<lparr>fk_fs := (fk_fs st)\<lparr>fs_fat := fat\<rparr>\<rparr>)"
    "length fat = fs_clusters (fk_fs st) + 2" "table_in ((fk_fs st)\<lparr>fs_fat := fat\<rparr>) use" "\<forall>i < length fat. fe_owner (fat ! i) = None" by blast
  let ?s = "st\<lparr>fk_fs := (fk_fs st)\<lparr>fs_fat := fat\<rparr>\<rparr>"
  have g': "fs_geo (fk_fs ?s)" using g by simp
  have "fs_geo ((fk_fs st)\<lparr>fs_fat := fat\<rparr>)" "\<And>k. fat_copy ?s k = fat_copy st k" "fat12_even_clusters (fk_fs ?s)"
    using g assms(4) by (simp_all add: fat_copy_def fat12_even_clusters_def)
  then have "fat_inv ?s" "no_owners ?s" "same_but_fat st ?s"
    using assms fat by (auto simp: fat_inv_def state_ok_def fs_ok_def state_geo_def synced_def no_owners_def)
      (auto simp: same_but_fat_def intro!: exI [of _ fat] exI [of _ "fk_io st"])
  moreover have "fe_value (fat ! i) = stored_value (fk_fs st) use i" if "is_cluster st i" for i
    using entry_in_stored [OF g', of use i "fat ! i"] fat(3) that by (simp add: table_in_def stored_value_def)
  moreover have "loaded_value ?s = loaded_value st"
    by (rule ext) (simp add: loaded_value_def new_value_def FAT_MIN_BAD_def FAT_EXTD_def FAT_EOF_def FAT_BAD_def)
  ultimately show ?thesis using fix_range_loop [of ?s] fat(1) by (auto intro: same_but_fat_trans)
qed

lemma read_fat_cases:
  assumes "state_geo st" "fat12_even_clusters (fk_fs st)" "fs_nfats (fk_fs st) > 1"
    and "readable (fk_io st) (fs_fat_start (fk_fs st)) (eff_size (fk_fs st))"
      "readable (fk_io st) (fs_fat_start (fk_fs st) + int (fs_fat_size (fk_fs st))) (eff_size (fk_fs st))"
  shows "case read_fat st of
      Inl s \<Rightarrow> s = EXIT_FAILURE \<and> fat_copy st 0 \<noteq> fat_copy st 1 \<and> none_kept st
    | Inr st' \<Rightarrow> fat_inv st' \<and> in_range st' \<and> no_owners st' \<and> (\<exists>inp. same_but_fat (with_stdin inp st) st')
        \<and> (\<exists>k \<le> 1. (fat_copy st 0 = fat_copy st 1 \<or> keeps st k)
             \<and> (\<forall>i. is_cluster st i \<longrightarrow>
                  fe_value (entries st' ! i) = loaded_value st (stored_value (fk_fs st) (fat_copy st k) i)))"
proof -
  let ?fs = "fk_fs st"
  have rd: "fs_read (fk_io st) (fs_fat_start ?fs) (eff_size ?fs) = Inr (fat_copy st 0)"
    "fs_read (fk_io st) (fs_fat_start ?fs + int (fs_fat_size ?fs)) (eff_size ?fs) = Inr (fat_copy st 1)"
    using read_copy [OF assms(1), of 0] read_copy [OF assms(1), of 1] assms(4,5) by simp_all
  have self: "with_stdin (fk_stdin st) st = st" by (simp add: with_stdin_def)
  show ?thesis
  proof (cases "fat_copy st 0 = fat_copy st 1")
    case True
    obtain st' where st': "read_fat st = Inr st'" "fat_inv st'" "in_range st'" "no_owners st'" "same_but_fat st st'"
      "\<forall>i. is_cluster st i \<longrightarrow> fe_value (entries st' ! i) = loaded_value st (stored_value ?fs (fat_copy st 0) i)"
      using load_and_fix [OF assms(1) refl _ assms(2)] assms(3) rd True
      by (auto simp: read_fat_def Let_def simp del: upt_Suc)
    then have "\<exists>inp. same_but_fat (with_stdin inp st) st'" using self by metis
    with st' True show ?thesis by auto
  next
    case False
    show ?thesis
    proof (cases "choose_fat (fat_copy st 0) (fat_copy st 1) st")
      case (Inl s)
      then show ?thesis using choose_fat_ok [OF assms(1)] False assms(3) rd by (simp add: read_fat_def Let_def)
    next
      case (Inr p)
      then obtain st1 inp k where p: "state_geo st1" "fat_copy st1 0 = fst p" "fat_copy st1 1 = fst p" "fk_fs st1 = ?fs" "p = (fst p, st1)"
        "same_but_fat (with_stdin inp st) st1" "k \<le> 1" "keeps st k" "fst p = fat_copy st k"
        using choose_fat_ok [OF assms(1)] by (cases p) auto
      have "exit_bind (load_fat (fst p) st1) (fold_exit fix_range [2..<fs_clusters ?fs + 2]) = read_fat st"
        using Inr False assms(3) rd p(5) by (simp add: read_fat_def Let_def split_beta del: upt_Suc) (metis snd_conv)
      moreover have "loaded_value st1 = loaded_value st"
        using p(4,6) by (auto simp: fun_eq_iff loaded_value_def new_value_def same_but_fat_simps [OF p(6)])
      ultimately obtain st' where st': "read_fat st = Inr st'" "fat_inv st'" "in_range st'" "no_owners st'" "same_but_fat st1 st'"
        "\<forall>i. is_cluster st i \<longrightarrow> fe_value (entries st' ! i) = loaded_value st (stored_value ?fs (fat_copy st k) i)"
        using load_and_fix [OF p(1-3)] p(4,9) assms(2) by auto
      then show ?thesis using same_but_fat_trans [OF p(6)] p(7,8) by auto
    qed
  qed
qed

text \<open>
  C26. \<open>read_fat\<close> repairs what it reads. On a file system with two readable tables it gives up exactly
  when the copies differ and none can be kept: neither is intact (in the entry with the media
  type), or both are and the input ends before the user has chosen. Otherwise it keeps one copy - of
  two that differ the only intact one, of two intact ones the first or, interactively, the one
  the user names -, loads every entry from the bytes of that copy, with numbers of no cluster replaced
  by the end mark, and leaves both copies on the disk equal to the table in memory. No
  cluster has an owner yet, every entry is a number of the file system or a mark, and nothing
  outside the tables was written. With entries of 12 bits the number of clusters must be even
  (\<open>fat12_even_clusters\<close>); what \<open>set_fat\<close> does otherwise is claim C38 below.
\<close>

theorem read_fat_repairs:
  assumes "state_geo st" "fat12_even_clusters (fk_fs st)" "fs_nfats (fk_fs st) > 1"
    and "readable (fk_io st) (fs_fat_start (fk_fs st)) (eff_size (fk_fs st))"
      "readable (fk_io st) (fs_fat_start (fk_fs st) + int (fs_fat_size (fk_fs st))) (eff_size (fk_fs st))"
  shows "case read_fat st of
      Inl s \<Rightarrow> s = EXIT_FAILURE \<and> fat_copy st 0 \<noteq> fat_copy st 1 \<and> none_kept st
    | Inr st' \<Rightarrow> fat_inv st' \<and> in_range st' \<and> no_owners st' \<and> (\<exists>inp. same_but_fat (with_stdin inp st) st')
        \<and> (\<exists>k \<le> 1. (fat_copy st 0 = fat_copy st 1 \<or> keeps st k)
             \<and> (\<forall>i. is_cluster st i \<longrightarrow>
                  fe_value (entries st' ! i) = loaded_value st (stored_value (fk_fs st) (fat_copy st k) i)))"
  using assms by (rule read_fat_cases)

section \<open>Properties of single entries\<close>

text \<open>
  C25. \<open>set_fat\<close> keeps the table in memory equal to its two copies on the disk. For entries of 12, 16 and
  32 bits, every cluster and every value, it succeeds, changes the one entry (-1 becomes the end
  mark, -2 the mark of bad clusters), leaves the other entries, which may share bytes with it,
  and the reserved bits alone, and writes no byte outside of the tables; without \<open>-w\<close> the device is
  not touched. With 12 bits the number of clusters must be even.
\<close>

theorem set_fat_synced:
  assumes "state_ok st" "synced st" "fat12_even_clusters (fk_fs st)" "is_cluster st c" "value_ok st v"
  shows "\<exists>st'. set_fat c v st = Inr st' \<and> state_ok st' \<and> synced st' \<and> same_but_fat st st'
     \<and> entries st' = (entries st)[c := (entries st ! c)\<lparr>fe_value := new_value st v\<rparr>]"
proof -
  have "fat_inv st" using assms(1-3) by (simp add: fat_inv_def)
  from set_fat_inv [OF this assms(4,5)] show ?thesis by (metis fat_inv_def)
qed

text \<open>A file system with an empty table, for entries of 12, 16 and 32 bits.\<close>

definition sample_fs :: "nat \<Rightarrow> nat \<Rightarrow> nat \<Rightarrow> DOS_FS" where
  "sample_fs bits eff clusters =
     \<lparr>fs_nfats = 2, fs_fat_start = 2, fs_fat_size = 40, fs_fat_bits = bits, fs_eff_fat_bits = eff, fs_root_cluster = 0, fs_root_start = 82,
      fs_root_entries = 2, fs_data_start = 146, fs_cluster_size = 4, fs_clusters = clusters, fs_fsinfo_start = 0, fs_free_clusters = -1,
      fs_backupboot_start = 0, fs_fat = replicate (clusters + 2) \<lparr>fe_value = 0, fe_reserved = 0, fe_owner = None, fe_prev = 0\<rparr>\<rparr>"

definition sample :: "DOS_FS \<Rightarrow> byte list \<Rightarrow> fsck" where
  "sample fs dev = \<lparr>fk_io = \<lparr>io_dev = dev, io_bad = (\<lambda>_. False), io_changes = [], io_did_change = False\<rparr>, fk_fs = fs, fk_stdin = [],
      fk_interactive = False, fk_write_immed = False, fk_atari_format = False, fk_n_files = 0, fk_curr_num = 0\<rparr>"

lemma sample_fs_simps [simp]:
  "fs_fat_bits (sample_fs bits eff clusters) = bits" "fs_eff_fat_bits (sample_fs bits eff clusters) = eff"
  "fs_clusters (sample_fs bits eff clusters) = clusters"
  by (simp_all add: sample_fs_def)

lemma sample_fs_entry:
  "i < clusters + 2 \<Longrightarrow> fs_fat (sample_fs bits eff clusters) ! i = \<lparr>fe_value = 0, fe_reserved = 0, fe_owner = None, fe_prev = 0\<rparr>"
  by (simp only: sample_fs_def DOS_FS.select_convs nth_replicate)

lemma le_value_zeros: "le_value (replicate n 0) = 0"
  by (induction n) (simp_all add: le_value_def)

lemma sample_ok:
  assumes "(bits, eff) \<in> {(12, 12), (16, 16), (32, 28)}" "clusters \<le> 8"
  shows "state_ok (sample (sample_fs bits eff clusters) (replicate 300 0))" "synced (sample (sample_fs bits eff clusters) (replicate 300 0))"
proof -
  let ?fs = "sample_fs bits eff clusters" and ?st = "sample (sample_fs bits eff clusters) (replicate 300 0)"
  have n: "eff_size ?fs \<le> 40" using assms by (auto simp: eff_size_def sample_fs_def)
  have fs: "fs_ok ?fs" using assms n by (auto simp: fs_ok_def fs_geo_def) (simp_all add: sample_fs_def)
  then show "state_ok ?st" using n
    by (simp add: state_ok_def state_geo_def fs_ok_def sample_def io_mode_ok_def io_ok_def contents_def) (simp add: sample_fs_def)
  have copy: "fat_copy ?st k = replicate (eff_size ?fs) 0" if "k \<le> 1" for k
    using n that by (cases k) (simp_all add: fat_copy_def sample_def contents_def, simp_all add: sample_fs_def)
  define N where "N = eff_size ?fs"
  have "entry_in ?fs (replicate N 0) i \<lparr>fe_value = 0, fe_reserved = 0, fe_owner = None, fe_prev = 0\<rparr>" if "i < clusters + 2" for i
  proof -
    have N: "bits = 12 \<Longrightarrow> i * 3 div 2 + 1 < N" "bits = 16 \<Longrightarrow> i * 2 + 1 < N" "bits = 32 \<Longrightarrow> i * 4 + 3 < N"
      using eff_size_bounds [of ?fs] fs that by (simp_all add: N_def fs_ok_def)
    from assms(1) consider "bits = 12" | "bits = 16" | "bits = 32" by auto
    then show ?thesis
      using N by cases (simp_all add: entry_in_simps le_value_zeros del: replicate.simps)
  qed
  then have "table_in ?fs (replicate (eff_size ?fs) 0)" unfolding N_def [symmetric] by (simp add: table_in_def sample_fs_entry)
  then show "synced ?st" by (simp add: synced_def copy) (simp add: sample_def)
qed

theorem set_fat_synced_witness:
  "\<exists>st'. set_fat 3 ULONG_MAX (sample (sample_fs 12 12 4) (replicate 300 0)) = Inr st' \<and> synced st' \<and> fe_value (entries st' ! 3) = 0xff8"
proof -
  let ?st = "sample (sample_fs 12 12 4) (replicate 300 0)"
  have "fat12_even_clusters (fk_fs ?st)" "is_cluster ?st 3" "length (entries ?st) = 6"
    by (simp_all add: fat12_even_clusters_def sample_def sample_fs_def)
  moreover have "new_value ?st ULONG_MAX = 0xff8"
    using fat_values(2) [of "fk_fs ?st"] sample_ok(1) [of 12 12 4]
    by (simp add: new_value_def state_ok_def) (simp add: sample_def sample_fs_def)
  ultimately show ?thesis using set_fat_synced [OF sample_ok(1) sample_ok(2), of 12 12 4 3 ULONG_MAX] by fastforce
qed

text \<open>The first copy is blank, the second one intact with a chain from cluster 2 to 3: the second is kept.\<close>

theorem read_fat_repairs_witness:
  "\<exists>st'. read_fat (sample (sample_fs 32 28 3)
       (replicate 42 0 @ [0xf8, 0xff, 0xff, 0x0f, 0, 0, 0, 0, 3, 0, 0, 0] @ replicate 246 0)) = Inr st'
     \<and> synced st' \<and> fe_value (entries st' ! 2) = 3"
proof -
  let ?d = "[0xf8, 0xff, 0xff, 0x0f, 0, 0, 0, 0, 3, 0, 0, 0] :: byte list"
  let ?st = "sample (sample_fs 32 28 3) (replicate 42 0 @ ?d @ replicate 246 0)"
  have n: "eff_size (sample_fs 32 28 3) = 20" by (simp add: eff_size_def sample_fs_def)
  have "fs_geo (sample_fs 32 28 3)" using sample_ok(1) [of 32 28 3] by (simp add: state_ok_def state_geo_def sample_def)
  then have s: "state_geo ?st"
    by (simp add: state_geo_def sample_def io_mode_ok_def io_ok_def contents_def) (simp add: sample_fs_def)
  have h: "fat12_even_clusters (fk_fs ?st)" "fs_nfats (fk_fs ?st) > 1"
    "readable (fk_io ?st) (fs_fat_start (fk_fs ?st)) (eff_size (fk_fs ?st))"
    "readable (fk_io ?st) (fs_fat_start (fk_fs ?st) + int (fs_fat_size (fk_fs ?st))) (eff_size (fk_fs ?st))"
    using n by (simp_all add: fat12_even_clusters_def sample_def readable_def in_disk_def list_ex_iff) (simp_all add: sample_fs_def)
  have fs: "fk_fs ?st = sample_fs 32 28 3" by (simp add: sample_def)
  have c: "fat_copy ?st 0 = replicate 20 0" "fat_copy ?st 1 = ?d @ replicate 8 0"
    using n by (simp_all add: fat_copy_def contents_def sample_def) (simp_all add: sample_fs_def)
  have "fat_copy ?st 0 ! 0 \<noteq> fat_copy ?st 1 ! 0" unfolding c by simp
  then have ne: "fat_copy ?st 0 \<noteq> fat_copy ?st 1" by metis
  have k: "\<not> intact ?st 0" "intact ?st 1" "stored_value (fk_fs ?st) (fat_copy ?st 1) 2 = 3"
    unfolding intact_def c fs by (simp_all add: stored_value_def)
  then have none: "\<not> none_kept ?st" and keeps: "keeps ?st k \<Longrightarrow> k \<le> 1 \<Longrightarrow> k = 1" for k
    by (auto simp: none_kept_def keeps_def le_Suc_eq)
  have v: "is_cluster ?st 2" "loaded_value ?st 3 = 3" by (simp_all add: loaded_value_def sample_def sample_fs_def)
  obtain st' where st': "read_fat ?st = Inr st'" "fat_inv st'" and copy: "\<exists>k \<le> 1. (fat_copy ?st 0 = fat_copy ?st 1 \<or> keeps ?st k)
      \<and> (\<forall>i. is_cluster ?st i \<longrightarrow> fe_value (entries st' ! i) = loaded_value ?st (stored_value (fk_fs ?st) (fat_copy ?st k) i))"
    using read_fat_repairs [OF s h] none by (cases "read_fat ?st") (simp_all only: sum.case; blast)+
  from copy keeps ne have "fe_value (entries st' ! 2) = loaded_value ?st (stored_value (fk_fs ?st) (fat_copy ?st 1) 2)"
    using v(1) by metis
  then show ?thesis using st' unfolding k(3) v(2) by (auto simp: fat_inv_def)
qed

text \<open>
  C38. With entries of 12 bits and an odd number of clusters, \<open>set_fat\<close> is wrong at the end of the table,
  because it takes \<open>clusters - 1\<close> for the last cluster number. For the last one, \<open>clusters + 1\<close>, it reads
  behind the table in memory; and for \<open>clusters - 1\<close> it overwrites the low four bits of the following
  entry, which is in use, with zeros on the disk, although not in memory.
\<close>

theorem fat12_odd_clusters:
  assumes "state_ok st" "synced st" "fs_fat_bits (fk_fs st) = 12" "odd (fs_clusters (fk_fs st))" "3 \<le> fs_clusters (fk_fs st)" "value_ok st v"
  defines "n \<equiv> fs_clusters (fk_fs st)"
  shows "set_fat (n + 1) v st = Inl FAULT
     \<and> (\<exists>st' e. set_fat (n - 1) v st = Inr st' \<and> entries st' ! n = entries st ! n
          \<and> get_fat (entries st ! n) (fat_copy st' 0) n (fk_fs st') = Inr e \<and> fe_value e = fe_value (entries st ! n) div 16 * 16)"
proof -
  let ?fs = "fk_fs st" and ?u = "new_value st v" and ?xs = "fat_copy st 0"
  have ok: "fs_ok ?fs" "state_geo st" using assms(1) by (simp_all add: state_ok_def)
  obtain m where m: "n = 2 * m + 1" "1 \<le> m" using assms(4,5) by (auto simp: n_def elim!: oddE)
  have eff: "fs_eff_fat_bits ?fs = 12" using ok(1) assms(3) by (auto simp: fs_ok_def fs_geo_def)
  then have u: "?u < 4096" using new_value_less [OF ok(1) assms(6)] by simp
  have "fat_code st (n + 1) ?u = Inl FAULT"
    using assms(3) m by (simp add: fat_code_def fat_at_def flip: n_def)
  then have fault: "set_fat (n + 1) v st = Inl FAULT" by (simp add: set_fat_def new_value_def Let_def)
  define b0 b1 :: byte where "b0 = word_of_nat (?u mod 256)" and "b1 = word_of_nat (?u div 256)"
  have b1: "unat b1 = ?u div 256" unfolding b1_def unat_byte_mod using u by simp
  have code: "fat_code st (n - 1) ?u = Inr (3 * m, [b0, b1])"
    using assms(3) m by (simp add: fat_code_def and_ones drop_bit_eq_div b0_def b1_def flip: n_def)
  have e: "entry_in ?fs ?xs (2 * m + 1) (entries st ! n)" using assms(2) m by (simp add: synced_def table_in_def flip: n_def)
  then have room: "3 * m + 2 < length ?xs" and w: "fe_value (entries st ! n) = unat (?xs ! (3 * m + 1)) div 16 + 16 * unat (?xs ! (3 * m + 2))"
    using entry_in_12(2) [OF assms(3)] by simp_all
  have "3 * m + length [b0, b1] \<le> eff_size ?fs" using room length_fat_copy [OF ok(2), of 0] by simp
  from set_fat_run [OF assms(1) _ _ code this] m obtain st' where st': "set_fat (n - 1) v st = Inr st'"
    "fk_fs st' = with_value (n - 1) ?u ?fs" "fat_copy st' 0 = write_at (3 * m) [b0, b1] ?xs" by (auto simp flip: n_def)
  define e where "e = (entries st ! n)\<lparr>fe_value := 16 * unat (?xs ! (3 * m + 2)), fe_owner := None\<rparr>"
  have "entry_in (fk_fs st') (fat_copy st' 0) (2 * m + 1) e"
    using room b1 u entry_in_12(2) [of "fk_fs st'" "fat_copy st' 0" m e] assms(3) by (simp add: st' e_def nth_write_at)
  then have "get_fat (entries st ! n) (fat_copy st' 0) n (fk_fs st') = Inr e"
    using assms(3) by (auto simp: entry_in_def get_fat_def e_def m(1) st'(2) Let_def split: if_splits)
  moreover have "fe_value e = fe_value (entries st ! n) div 16 * 16" using unat_byte_less [of "?xs ! (3 * m + 1)"] by (simp add: e_def w)
  moreover have "entries st' ! n = entries st ! n" using m by (simp add: st'(2) with_value_def)
  ultimately show ?thesis using fault st'(1) by blast
qed

theorem fat12_odd_clusters_witness:
  "\<exists>st st' e. fe_value (entries st ! 3) = 5 \<and> set_fat 4 0 st = Inl FAULT \<and> set_fat 2 0 st = Inr st' \<and> fe_value (entries st' ! 3) = 5
     \<and> get_fat (entries st ! 3) (fat_copy st' 0) 3 (fk_fs st') = Inr e \<and> fe_value e = 0"
proof -
  let ?z = "\<lparr>fe_value = 0, fe_reserved = 0, fe_owner = None, fe_prev = 0\<rparr> :: FAT_ENTRY"
  let ?fs = "(sample_fs 12 12 3)\<lparr>fs_fat := [?z, ?z, ?z, ?z\<lparr>fe_value := 5\<rparr>, ?z]\<rparr>"
  let ?t = "[0, 0, 0, 0, 0x50, 0, 0, 0] :: byte list"
  let ?st = "sample ?fs ([0, 0] @ ?t @ replicate 32 0 @ ?t @ replicate 32 0)"
  have copy: "fat_copy ?st 0 = ?t" "fat_copy ?st 1 = ?t"
    by (simp_all add: fat_copy_def contents_def sample_def sample_fs_def eff_size_def)
  have ok: "state_ok ?st"
    by (simp add: state_ok_def state_geo_def fs_ok_def fs_geo_def sample_def io_mode_ok_def io_ok_def contents_def sample_fs_def eff_size_def)
  have "entry_in ?fs ?t 2 ?z" "entry_in ?fs ?t 3 (?z\<lparr>fe_value := 5\<rparr>)" "entry_in ?fs ?t 4 ?z"
    using entry_in_12 [of ?fs ?t 1] entry_in_12(1) [of ?fs ?t 2] by simp_all
  moreover have "i = 2 \<or> i = 3 \<or> i = 4" if "2 \<le> i" "i < (5 :: nat)" for i using that by linarith
  ultimately have "table_in ?fs ?t" unfolding table_in_def by fastforce
  then have sync: "synced ?st" unfolding synced_def copy by (simp add: sample_def)
  have st: "fk_fs ?st = ?fs" "fs_clusters ?fs = 3" "fs_fat_bits ?fs = 12" "fs_fat ?fs ! 3 = ?z\<lparr>fe_value := 5\<rparr>" by (simp_all add: sample_def)
  have "value_ok ?st 0" by simp
  then obtain st' e where "set_fat 4 0 ?st = Inl FAULT" "set_fat 2 0 ?st = Inr st'" "entries st' ! 3 = entries ?st ! 3"
    "get_fat (entries ?st ! 3) (fat_copy st' 0) 3 (fk_fs st') = Inr e" "fe_value e = fe_value (entries ?st ! 3) div 16 * 16"
    using fat12_odd_clusters [OF ok sync, of 0] st by auto
  then show ?thesis using st by (intro exI [of _ ?st] exI [of _ st'] exI [of _ e]) simp
qed

end
