(* ===== verification/FS_Reclaim.thy ===== *)
theory FS_Reclaim
  imports FS_Table
begin

text \<open>
  Lost clusters (\<open>reclaim_file\<close> of \<open>fat.c\<close> with \<open>alloc_rootdir_entry\<close> of \<open>check.c\<close>): chains of clusters that
  no file owns are cut where they run into other clusters or into themselves, and each chain gets
  an entry in the root directory. A result \<open>None\<close> means that the program does not return.
\<close>

section \<open>Marking the chains\<close>

text \<open>Every step of the walk along a chain marks a cluster that has no owner.\<close>

definition unowned :: "fsck \<Rightarrow> nat" where
  "unowned st = length (filter (\<lambda>e. fe_owner e = None) (entries st))"

lemma filter_update_less:
  "i < length xs \<Longrightarrow> P (xs ! i) \<Longrightarrow> \<not> P y \<Longrightarrow> length (filter P (xs[i := y])) < length (filter P xs)"
proof (induction xs arbitrary: i)
  case (Cons x xs)
  then show ?case by (cases i) auto
qed simp

lemma set_owner_unowned:
  assumes "get_owner st c = Inr None" "set_owner c (Some p) st = Inr st'"
  shows "unowned st' < unowned st"
proof -
  have c: "fat_at st c = Inr (entries st ! c)" "c < length (entries st)" "fe_owner (entries st ! c) = None"
    using assms(1) by (auto simp: get_owner_def fat_at_def split: if_splits)
  then show ?thesis using assms(2) by (auto simp: set_owner_def fat_update_def unowned_def intro!: filter_update_less)
qed

text \<open>The walk along a chain from \<open>walk\<close>; \<open>ptr\<close> is the address of the dummy file.\<close>

function tag_walk :: "nat \<Rightarrow> nat \<Rightarrow> nat \<Rightarrow> fsck \<Rightarrow> fsck exit" where
  "tag_walk ptr prev walk st =
     (if walk = 0 \<or> walk = ULONG_MAX then Inr st
      else exit_bind (get_owner st walk) (\<lambda>owner.
        case owner of
          None \<Rightarrow>
            exit_bind (set_owner walk (Some ptr) st) (\<lambda>st'.
            exit_bind (next_cluster st' walk) (\<lambda>next.
            tag_walk ptr walk next st'))
        | Some p \<Rightarrow> if p \<noteq> ptr then Inl EXIT_FAILURE else set_fat prev ULONG_MAX st))"
  by auto
termination by (relation "measure (\<lambda>(_, _, _, st). unowned st)") (auto dest: set_owner_unowned)

declare tag_walk.simps [simp del]

text \<open>A cluster in a chain that no file owns.\<close>

definition is_loose :: "fsck \<Rightarrow> FAT_ENTRY \<Rightarrow> bool" where
  "is_loose st e \<longleftrightarrow> fe_value e \<noteq> 0 \<and> \<not> FAT_IS_BAD (fk_atari_format st) (fk_fs st) (fe_value e) \<and> fe_owner e = None"

definition tag_free :: "nat \<Rightarrow> fsck \<Rightarrow> fsck exit" where
  "tag_free ptr st = fold_exit (\<lambda>i st.
     exit_bind (fat_at st i) (\<lambda>e. if is_loose st e \<and> fe_prev e = 0 then tag_walk ptr 0 i st else Inr st))
     [2..<fs_clusters (fk_fs st) + 2] st"

text \<open>The number of predecessors, and the end of chains that run into clusters of files.\<close>

definition count_prev :: "nat \<Rightarrow> fsck \<Rightarrow> fsck exit" where
  "count_prev i st =
     exit_bind (fat_at st i) (\<lambda>e.
     let next = fe_value e
     in if fe_owner e = None \<and> next \<noteq> 0 \<and> next < fs_clusters (fk_fs st) + 2 then
          exit_bind (fat_at st next) (\<lambda>f.
          if fe_owner f \<noteq> None \<or> fe_value f = 0 \<or> FAT_IS_BAD (fk_atari_format st) (fk_fs st) (fe_value f) then set_fat i ULONG_MAX st
          else Inr (fat_update next (fe_prev_update (\<lambda>n. n + 1)) st))
        else Inr st)"

definition count_prevs :: "fsck \<Rightarrow> fsck exit" where
  "count_prevs st =
     (let n = fs_clusters (fk_fs st) + 2
      in exit_bind (fold_exit (\<lambda>i st. exit_bind (fat_at st i) (\<lambda>_. Inr (fat_update i (fe_prev_update (\<lambda>_. 0)) st))) [2..<n] st)
           (fold_exit count_prev [2..<n]))"

text \<open>The first cluster that is still loose: it is in a cycle, which is broken there.\<close>

fun find_exit :: "(nat \<Rightarrow> bool exit) \<Rightarrow> nat list \<Rightarrow> nat option exit" where
  "find_exit f [] = Inr None"
| "find_exit f (i # is) = exit_bind (f i) (\<lambda>b. if b then Inr (Some i) else find_exit f is)"

definition break_cycle :: "fsck \<Rightarrow> (bool \<times> fsck) exit" where
  "break_cycle st =
     exit_bind (find_exit (\<lambda>i. exit_bind (fat_at st i) (\<lambda>e. Inr (is_loose st e))) [2..<fs_clusters (fk_fs st) + 2]) (\<lambda>found.
     case found of
       None \<Rightarrow> Inr (False, st)
     | Some i \<Rightarrow>
         exit_bind (fat_at st i) (\<lambda>e.
         exit_bind (fat_at st (fe_value e)) (\<lambda>f.
           if fe_prev f = 0 then Inl EXIT_FAILURE
           else exit_bind (set_fat i ULONG_MAX (fat_update (fe_value e) (fe_prev_update (\<lambda>n. n - 1)) st)) (\<lambda>st. Inr (True, st)))))"

partial_function (option) reclaim_loop :: "nat \<Rightarrow> fsck \<Rightarrow> fsck exit option" where
  "reclaim_loop ptr st =
     (case tag_free ptr st of
        Inl s \<Rightarrow> Some (Inl s)
      | Inr st1 \<Rightarrow>
          (case break_cycle st1 of
             Inl s \<Rightarrow> Some (Inl s)
           | Inr r \<Rightarrow> if fst r then reclaim_loop ptr (snd r) else Some (Inr (snd r))))"

section \<open>Entries in the root directory\<close>

text \<open>
  A directory entry is its 32 bytes: name at 0, attributes at 11, high half of the start cluster
  at 20, low half at 26, size at 28. A slot is free when its first byte is 0 or \<open>0xe5\<close>.
\<close>

definition slot_free :: "byte list \<Rightarrow> bool" where
  "slot_free d \<longleftrightarrow> (d ! 0 = 0 \<or> d ! 0 = 0xe5) \<and> d ! 11 \<noteq> 0x0f"

text \<open>\<open>sprintf\<close> with the pattern \<open>FSCK%04dREC\<close>; the string is longer for numbers from 10000 on.\<close>

definition dec_digits :: "nat \<Rightarrow> byte list" where
  "dec_digits n = map (\<lambda>k. word_of_nat (48 + n div 10 ^ k mod 10)) [3, 2, 1, 0]"

definition rec_name :: "nat \<Rightarrow> byte list" where
  "rec_name n = [0x46, 0x53, 0x43, 0x4b] @ dec_digits n @ [0x52, 0x45, 0x43]"

definition same_name :: "byte list \<Rightarrow> byte list \<Rightarrow> bool" where
  "same_name d name \<longleftrightarrow> take 11 d = take 11 name"

text \<open>The chain of a FAT32 root directory: a free slot, or the last cluster.\<close>

partial_function (option) find_slot :: "fsck \<Rightarrow> nat \<Rightarrow> nat \<Rightarrow> int \<Rightarrow> nat \<Rightarrow> (int option \<times> nat) exit option" where
  "find_slot st clu i offset prev =
     (if clu = 0 \<or> clu = ULONG_MAX then Some (Inr (None, prev))
      else case fs_read (fk_io st) offset 32 of
        Inl s \<Rightarrow> Some (Inl s)
      | Inr d2 \<Rightarrow>
          if slot_free d2 then Some (Inr (Some offset, prev))
          else if fs_cluster_size (fk_fs st) = 0 then Some (Inl FAULT)
          else if (i + 32) mod fs_cluster_size (fk_fs st) = 0 then
            (case next_cluster st clu of
               Inl s \<Rightarrow> Some (Inl s)
             | Inr clu' \<Rightarrow>
                 if clu' = 0 \<or> clu' = ULONG_MAX then Some (Inr (None, clu))
                 else find_slot st clu' (i + 32) (cluster_start (fk_fs st) clu') clu)
          else find_slot st clu (i + 32) (offset + 32) prev)"

text \<open>The next free cluster after \<open>prev\<close>, in a circle; \<open>prev\<close> itself when there is none.\<close>

partial_function (option) find_free :: "fsck \<Rightarrow> nat \<Rightarrow> nat \<Rightarrow> nat exit option" where
  "find_free st prev clu =
     (if clu = prev then Some (Inr clu)
      else let clu' = (if clu \<ge> fs_clusters (fk_fs st) + 2 then 2 else clu)
           in case fat_at st clu' of
                Inl s \<Rightarrow> Some (Inl s)
              | Inr e \<Rightarrow> if fe_value e = 0 then Some (Inr clu') else find_free st prev (clu' + 1))"

partial_function (option) name_used :: "fsck \<Rightarrow> byte list \<Rightarrow> int \<Rightarrow> nat \<Rightarrow> nat \<Rightarrow> int \<Rightarrow> bool exit option" where
  "name_used st name offset clu i offset2 =
     (if clu = 0 \<or> clu = ULONG_MAX then Some (Inr False)
      else case fs_read (fk_io st) offset2 32 of
        Inl s \<Rightarrow> Some (Inl s)
      | Inr d2 \<Rightarrow>
          if offset2 \<noteq> offset \<and> same_name d2 name then Some (Inr True)
          else if fs_cluster_size (fk_fs st) = 0 then Some (Inl FAULT)
          else if (i + 32) mod fs_cluster_size (fk_fs st) = 0 then
            (case next_cluster st clu of
               Inl s \<Rightarrow> Some (Inl s)
             | Inr clu' \<Rightarrow>
                 if clu' = 0 \<or> clu' = ULONG_MAX then Some (Inr False)
                 else name_used st name offset clu' (i + 32) (cluster_start (fk_fs st) clu'))
          else name_used st name offset clu (i + 32) (offset2 + 32))"

partial_function (option) unique_chain :: "fsck \<Rightarrow> int \<Rightarrow> nat \<Rightarrow> nat exit option" where
  "unique_chain st offset num =
     (let root = fs_root_cluster (fk_fs st)
      in case name_used st (rec_name num) offset root 0 (cluster_start (fk_fs st) root) of
           None \<Rightarrow> None
         | Some r \<Rightarrow>
             (case r of
                Inl s \<Rightarrow> Some (Inl s)
              | Inr used \<Rightarrow>
                  if \<not> used then Some (Inr num)
                  else if num + 1 \<ge> 10000 then Some (Inl EXIT_FAILURE) else unique_chain st offset (num + 1)))"

text \<open>A new cluster for the root directory, cleared; the position of its first slot.\<close>

definition clear_slots :: "int \<Rightarrow> fsck \<Rightarrow> fsck exit" where
  "clear_slots offset st =
     fold_exit (\<lambda>k. disk_write (offset + int (32 * k)) (replicate 32 0)) [0..<(fs_cluster_size (fk_fs st) + 31) div 32] st"

definition extend_root :: "nat \<Rightarrow> fsck \<Rightarrow> (int \<times> fsck) exit option" where
  "extend_root prev st =
     (if prev = 0 then Some (Inl EXIT_FAILURE)
      else case find_free st prev (prev + 1) of
        None \<Rightarrow> None
      | Some (Inl s) \<Rightarrow> Some (Inl s)
      | Some (Inr clu) \<Rightarrow>
          if clu = prev then Some (Inl EXIT_FAILURE)
          else Some (
            exit_bind (set_fat prev clu st) (\<lambda>st.
            exit_bind (set_fat clu ULONG_MAX st) (\<lambda>st.
            exit_bind (get_owner st (fs_root_cluster (fk_fs st))) (\<lambda>owner.
            exit_bind (set_owner clu owner st) (\<lambda>st.
            let offset = cluster_start (fk_fs st) clu
            in exit_bind (clear_slots offset st) (\<lambda>st. Inr (offset, st))))))))"

text \<open>The root directory of fixed size: the first free slot and a name no other slot has.\<close>

definition root_slot :: "byte list \<Rightarrow> nat \<Rightarrow> byte list" where
  "root_slot root k = take 32 (drop (32 * k) root)"

function unique_fixed :: "byte list \<Rightarrow> nat \<Rightarrow> nat \<Rightarrow> nat \<Rightarrow> nat exit" where
  "unique_fixed root n next_free num =
     (if \<not> list_ex (\<lambda>scan. scan \<noteq> next_free \<and> same_name (root_slot root scan) (rec_name num)) [0..<n] then Inr num
      else if num + 1 \<ge> 10000 then Inl EXIT_FAILURE else unique_fixed root n next_free (num + 1))"
  by auto
termination by (relation "measure (\<lambda>(_, _, _, num). 10000 - num)") auto

declare unique_fixed.simps [simp del]

definition alloc_fixed :: "fsck \<Rightarrow> (int \<times> nat) exit" where
  "alloc_fixed st =
     (let fs = fk_fs st; n = fs_root_entries fs
      in exit_bind (fs_read (fk_io st) (fs_root_start fs) (n * 32)) (\<lambda>root.
         let next_free = length (takeWhile (\<lambda>k. \<not> slot_free (root_slot root k)) [0..<n])
         in if next_free = n then Inl EXIT_FAILURE
            else exit_bind (unique_fixed root n next_free (fk_curr_num st)) (\<lambda>num. Inr (fs_root_start fs + int (next_free * 32), num))))"

text \<open>The position and the bytes of a new entry.\<close>

definition alloc_rootdir_entry :: "fsck \<Rightarrow> (int \<times> byte list \<times> fsck) exit option" where
  "alloc_rootdir_entry st =
     (let fs = fk_fs st; root = fs_root_cluster fs;
          finish = (\<lambda>offset num st. (offset, rec_name num @ replicate 21 0, st\<lparr>fk_curr_num := num, fk_n_files := fk_n_files st + 1\<rparr>))
      in if root \<noteq> 0 then
           (case find_slot st root 0 (cluster_start fs root) 0 of
              None \<Rightarrow> None
            | Some (Inl s) \<Rightarrow> Some (Inl s)
            | Some (Inr (slot, prev)) \<Rightarrow>
                (case (case slot of Some offset \<Rightarrow> Some (Inr (offset, st)) | None \<Rightarrow> extend_root prev st) of
                   None \<Rightarrow> None
                 | Some (Inl s) \<Rightarrow> Some (Inl s)
                 | Some (Inr (offset, st)) \<Rightarrow>
                     (case unique_chain st offset (fk_curr_num st) of
                        None \<Rightarrow> None
                      | Some (Inl s) \<Rightarrow> Some (Inl s)
                      | Some (Inr num) \<Rightarrow> Some (Inr (finish offset num st)))))
         else Some (exit_bind (alloc_fixed st) (\<lambda>(offset, num). Inr (finish offset num st))))"

section \<open>Reclaiming\<close>

text \<open>The walk that adds up the size: the number of clusters of a chain.\<close>

partial_function (option) chain_count :: "fsck \<Rightarrow> nat \<Rightarrow> nat \<Rightarrow> nat exit option" where
  "chain_count st walk n =
     (if walk = 0 \<or> walk = ULONG_MAX then Some (Inr n)
      else case next_cluster st walk of
        Inl s \<Rightarrow> Some (Inl s)
      | Inr next \<Rightarrow> chain_count st next (n + 1))"

definition rec_entry :: "fsck \<Rightarrow> byte list \<Rightarrow> nat \<Rightarrow> nat \<Rightarrow> byte list" where
  "rec_entry st de i n =
     write_at 28 (le_bytes 4 (n * fs_cluster_size (fk_fs st)))
       (write_at 26 (le_bytes 2 i) (if fs_fat_bits (fk_fs st) = 32 then write_at 20 (le_bytes 2 (drop_bit 16 i)) de else de))"

definition reclaim_chain :: "nat \<Rightarrow> nat \<Rightarrow> fsck \<Rightarrow> fsck exit option" where
  "reclaim_chain ptr i st =
     (case fat_at st i of
        Inl s \<Rightarrow> Some (Inl s)
      | Inr e \<Rightarrow>
          if fe_owner e = Some ptr \<and> fe_prev e = 0 then
            (case alloc_rootdir_entry st of
               None \<Rightarrow> None
             | Some (Inl s) \<Rightarrow> Some (Inl s)
             | Some (Inr (offset, de, st)) \<Rightarrow>
                 (case chain_count st i 0 of
                    None \<Rightarrow> None
                  | Some (Inl s) \<Rightarrow> Some (Inl s)
                  | Some (Inr n) \<Rightarrow> Some (disk_write offset (rec_entry st de i n) st)))
          else Some (Inr st))"

fun fold_run :: "(nat \<Rightarrow> fsck \<Rightarrow> fsck exit option) \<Rightarrow> nat list \<Rightarrow> fsck \<Rightarrow> fsck exit option" where
  "fold_run f [] st = Some (Inr st)"
| "fold_run f (i # is) st =
     (case f i st of None \<Rightarrow> None | Some (Inl s) \<Rightarrow> Some (Inl s) | Some (Inr st') \<Rightarrow> fold_run f is st')"

definition reclaim_file :: "nat \<Rightarrow> fsck \<Rightarrow> fsck exit option" where
  "reclaim_file ptr st =
     (case count_prevs st of
        Inl s \<Rightarrow> Some (Inl s)
      | Inr st \<Rightarrow>
          (case reclaim_loop ptr st of
             None \<Rightarrow> None
           | Some (Inl s) \<Rightarrow> Some (Inl s)
           | Some (Inr st) \<Rightarrow> fold_run (reclaim_chain ptr) [2..<fs_clusters (fk_fs st) + 2] st))"

end
