(* ===== verification/FS_Chains.thy ===== *)
theory FS_Chains
  imports FS_Reclaim
begin

text \<open>
  The first half of \<open>reclaim_file\<close>: the marking of chains is followed step by step, what it leaves
  unmarked in a round are cycles, and breaking them ends the loop with every lost cluster in a chain.
\<close>

section \<open>Marked states\<close>

text \<open>
  Relative to the state \<open>s0\<close> in which \<open>L\<close> are the loose clusters: \<open>marking\<close> holds while the chains are
  marked. Clusters outside of \<open>L\<close> are as before; those of \<open>L\<close> lead to clusters of \<open>L\<close> or end a chain; those
  not yet marked know the number of their predecessors.
\<close>

abbreviation val :: "fsck \<Rightarrow> nat \<Rightarrow> nat" where
  "val st i \<equiv> fe_value (entries st ! i)"

abbreviation own :: "fsck \<Rightarrow> nat \<Rightarrow> nat option" where
  "own st i \<equiv> fe_owner (entries st ! i)"

abbreviation prv :: "fsck \<Rightarrow> nat \<Rightarrow> int" where
  "prv st i \<equiv> fe_prev (entries st ! i)"

abbreviation ends :: "fsck \<Rightarrow> nat \<Rightarrow> bool" where
  "ends st v \<equiv> FAT_IS_EOF (fk_fs st) v \<and> \<not> is_bad st v"

definition loose :: "fsck \<Rightarrow> nat set" where
  "loose st = {i. is_cluster st i \<and> is_loose st (entries st ! i)}"

definition marking :: "fsck \<Rightarrow> nat \<Rightarrow> fsck \<Rightarrow> bool" where
  "marking s0 ptr st \<longleftrightarrow> fat_inv st \<and> same_but_fat s0 st
     \<and> (\<forall>i. is_cluster s0 i \<longrightarrow> i \<notin> loose s0 \<longrightarrow> val st i = val s0 i \<and> own st i = own s0 i \<and> own s0 i \<noteq> Some ptr)
     \<and> (\<forall>i \<in> loose s0. own st i \<in> {None, Some ptr} \<and> (val st i \<in> loose s0 \<or> ends s0 (val st i)))
     \<and> (\<forall>i \<in> loose s0. own st i = None \<longrightarrow> prv st i = int (card {p \<in> loose s0. val st p = i}))"

definition tagged :: "fsck \<Rightarrow> nat \<Rightarrow> fsck \<Rightarrow> nat set" where
  "tagged s0 ptr st = {i \<in> loose s0. own st i = Some ptr}"

text \<open>A chain that is marked completely; only its first cluster has no predecessor.\<close>

definition chain :: "fsck \<Rightarrow> nat list \<Rightarrow> bool" where
  "chain st c \<longleftrightarrow> c \<noteq> [] \<and> successively (\<lambda>x y. val st x = y) c \<and> ends st (val st (last c))
     \<and> prv st (hd c) = 0 \<and> (\<forall>x \<in> set (tl c). 0 < prv st x)"

definition chains :: "fsck \<Rightarrow> nat \<Rightarrow> fsck \<Rightarrow> nat list list \<Rightarrow> bool" where
  "chains s0 ptr st cs \<longleftrightarrow> distinct (concat cs) \<and> set (concat cs) = tagged s0 ptr st \<and> (\<forall>c \<in> set cs. chain st c)"

lemma finite_loose [simp]: "finite (loose st)"
  by (rule finite_subset [of _ "{..<fs_clusters (fk_fs st) + 2}"]) (auto simp: loose_def)

lemma loose_cluster: "i \<in> loose st \<Longrightarrow> is_cluster st i"
  by (simp add: loose_def)

lemma fat_inv_ok: "fat_inv st \<Longrightarrow> fs_ok (fk_fs st)"
  by (simp add: fat_inv_def state_ok_def)

lemma ends_eq:
  assumes "fs_ok (fk_fs st)"
  shows "ends st v \<longleftrightarrow> 2 ^ fs_eff_fat_bits (fk_fs st) - 8 \<le> v"
proof -
  obtain N where N: "(2 :: nat) ^ fs_eff_fat_bits (fk_fs st) = N" "16 < N" using fat_values(7) [OF assms] by blast
  then show ?thesis using fat_values [OF assms] by (auto simp: FAT_IS_BAD_def)
qed

lemma cluster_not_end:
  assumes "fs_ok (fk_fs st)" "is_cluster st v"
  shows "\<not> FAT_IS_EOF (fk_fs st) v" "\<not> is_bad st v" "v \<noteq> 0" "v \<noteq> ULONG_MAX"
proof -
  obtain N where N: "(2 :: nat) ^ fs_eff_fat_bits (fk_fs st) = N" "16 < N" "N \<le> 2 ^ 28" using fat_values(7,8) [OF assms(1)] by blast
  have "v < N - 16" using assms N(1) by (auto simp: fs_ok_def fs_geo_def)
  then show "\<not> FAT_IS_EOF (fk_fs st) v" "\<not> is_bad st v" "v \<noteq> 0" "v \<noteq> ULONG_MAX"
    using fat_values [OF assms(1)] N assms(2) by (auto simp: FAT_IS_BAD_def ULONG_MAX_def)
qed

lemma next_cluster_loose:
  assumes "marking s0 ptr st" "i \<in> loose s0" "fat_inv s0"
  shows "next_cluster st i = Inr (if val st i \<in> loose s0 then val st i else ULONG_MAX)"
proof -
  have st: "fat_inv st" "same_but_fat s0 st" "val st i \<in> loose s0 \<or> ends s0 (val st i)" using assms(1,2) by (auto simp: marking_def)
  note eqs = same_but_fat_simps [OF st(2)]
  have "fat_at st i = Inr (entries st ! i)" using fat_inv_at [OF st(1)] loose_cluster [OF assms(2)] by (simp add: eqs)
  moreover have "val st i \<notin> loose s0" if "ends s0 (val st i)"
    using that cluster_not_end(1) [OF fat_inv_ok [OF assms(3)]] loose_cluster by blast
  moreover have "\<not> FAT_IS_EOF (fk_fs s0) (val st i)" "\<not> is_bad s0 (val st i)" if "val st i \<in> loose s0"
    using cluster_not_end(1,2) [OF fat_inv_ok [OF assms(3)] loose_cluster [OF that]] by simp_all
  ultimately show ?thesis using st(3) by (cases "val st i \<in> loose s0") (simp_all add: next_cluster_def eqs)
qed

text \<open>Changes of owner and predecessor counts do not reach the disk.\<close>

lemma fat_update_mem:
  assumes "fat_inv st" "is_cluster st c" "\<And>e. fe_value (f e) = fe_value e" "\<And>e. fe_reserved (f e) = fe_reserved e"
  shows "fat_inv (fat_update c f st)" "same_but_fat st (fat_update c f st)"
    "entries (fat_update c f st) = (entries st)[c := f (entries st ! c)]"
proof -
  let ?st = "fat_update c f st"
  show e: "entries ?st = (entries st)[c := f (entries st ! c)]" by (simp add: fat_update_def)
  have len: "c < length (entries st)" using fat_inv_length [OF assms(1)] assms(2) by simp
  have geo: "fs_geo (fk_fs ?st) = fs_geo (fk_fs st)" "fs_clusters (fk_fs ?st) = fs_clusters (fk_fs st)" "fs_fat_bits (fk_fs ?st) = fs_fat_bits (fk_fs st)"
    "fat_copy ?st k = fat_copy st k" "fk_io ?st = fk_io st" "fk_write_immed ?st = fk_write_immed st"
    "fs_fat_start (fk_fs ?st) = fs_fat_start (fk_fs st)" "fs_fat_size (fk_fs ?st) = fs_fat_size (fk_fs st)" for k
    by (simp_all add: fat_update_def fs_geo_def eff_size_def fat_copy_def)
  have ent: "entry_in (fk_fs ?st) xs i (f e) = entry_in (fk_fs st) xs i e" "entry_in (fk_fs ?st) xs i e = entry_in (fk_fs st) xs i e"
    if "fs_geo (fk_fs st)" for xs i e
    using that assms(3,4) by (auto simp: entry_in_simps geo fs_geo_def)
  have "table_in (fk_fs st) xs \<Longrightarrow> table_in (fk_fs ?st) xs" if "fs_geo (fk_fs st)" for xs
    unfolding table_in_def geo using ent [OF that] len by (auto simp: e nth_list_update)
  then show "fat_inv ?st"
    using assms(1) by (auto simp: fat_inv_def state_ok_def state_geo_def fs_ok_def geo synced_def e fat12_even_clusters_def)
  show "same_but_fat st ?st"
    unfolding same_but_fat_def by (intro exI [of _ "(entries st)[c := f (entries st ! c)]"] exI [of _ "fk_io st"]) (simp add: fat_update_def)
qed

section \<open>Steps\<close>

lemma eof_not_loose:
  assumes "fat_inv s0"
  shows "new_value s0 ULONG_MAX \<notin> loose s0" "ends s0 (new_value s0 ULONG_MAX)"
  using eof_not_bad [OF fat_inv_ok [OF assms]] loose_cluster [of "new_value s0 ULONG_MAX" s0] by auto

lemma marking_cluster: "marking s0 ptr st \<Longrightarrow> i \<in> loose s0 \<Longrightarrow> is_cluster st i \<and> i < length (entries st)"
  using loose_cluster [of i s0] fat_inv_length [of st] same_but_fat_simps(1) [of s0 st] by (auto simp: marking_def)

lemma marking_own: "marking s0 ptr st \<Longrightarrow> i \<in> loose s0 \<Longrightarrow> own st i = None \<or> own st i = Some ptr"
  by (auto simp: marking_def)

lemma marking_tag:
  assumes "marking s0 ptr st" "w \<in> loose s0" "own st w = None"
  obtains st' where "set_owner w (Some ptr) st = Inr st'" "marking s0 ptr st'"
    "entries st' = (entries st)[w := (entries st ! w)\<lparr>fe_owner := Some ptr\<rparr>]"
proof -
  let ?st = "fat_update w (fe_owner_update (\<lambda>_. Some ptr)) st"
  have inv: "fat_inv st" "same_but_fat s0 st" using assms(1) by (simp_all add: marking_def)
  have w: "is_cluster st w" "w < length (entries st)" using marking_cluster [OF assms(1,2)] by simp_all
  note u = fat_update_mem [OF inv(1) w(1), of "fe_owner_update (\<lambda>_. Some ptr)", simplified]
  have v: "val ?st i = val st i" "prv ?st i = prv st i" "own ?st i = (if i = w then Some ptr else own st i)" for i
    using w(2) by (simp_all add: u(3) nth_list_update)
  have "marking s0 ptr ?st"
    using assms u(1) same_but_fat_trans [OF inv(2) u(2)] unfolding marking_def v by auto
  moreover have "set_owner w (Some ptr) st = Inr ?st" using assms(3) fat_inv_at [OF inv(1) w(1)] by (simp add: set_owner_def)
  ultimately show thesis using u(3) that by simp
qed

text \<open>The entry of a marked cluster that leads to a marked one is made the end of its chain.\<close>

lemma marking_cut:
  assumes "marking s0 ptr st" "fat_inv s0" "x \<in> loose s0" "own st x \<noteq> None" "val st x \<notin> loose s0 \<or> own st (val st x) \<noteq> None"
  obtains st' where "set_fat x ULONG_MAX st = Inr st'" "marking s0 ptr st'"
    "entries st' = (entries st)[x := (entries st ! x)\<lparr>fe_value := new_value s0 ULONG_MAX\<rparr>]"
proof -
  have inv: "fat_inv st" "same_but_fat s0 st" using assms(1) by (simp_all add: marking_def)
  have x: "is_cluster st x" "x < length (entries st)" using marking_cluster [OF assms(1,3)] by simp_all
  from set_fat_inv [OF inv(1) x(1), of ULONG_MAX] obtain st' where st': "set_fat x ULONG_MAX st = Inr st'" "fat_inv st'" "same_but_fat st st'"
    "entries st' = (entries st)[x := (entries st ! x)\<lparr>fe_value := new_value s0 ULONG_MAX\<rparr>]"
    by (auto simp: same_but_fat_simps [OF inv(2)])
  note eof = eof_not_loose [OF assms(2)]
  have v: "val st' i = (if i = x then new_value s0 ULONG_MAX else val st i)" "prv st' i = prv st i" "own st' i = own st i" for i
    using x(2) by (simp_all add: st'(4) nth_list_update)
  have "{p \<in> loose s0. val st' p = i} = {p \<in> loose s0. val st p = i}" if "i \<in> loose s0" "own st i = None" for i
    using that assms(5) eof(1) by (auto simp: v)
  then have "marking s0 ptr st'"
    using assms(1,3) st'(2) same_but_fat_trans [OF inv(2) st'(3)] eof(2) unfolding marking_def by (auto simp: v)
  then show thesis using st'(1,4) that by blast
qed

section \<open>The walk\<close>

definition walking :: "fsck \<Rightarrow> nat \<Rightarrow> fsck \<Rightarrow> nat list list \<Rightarrow> nat list \<Rightarrow> nat \<Rightarrow> bool" where
  "walking s0 ptr st cs c w \<longleftrightarrow> marking s0 ptr st \<and> distinct (concat (c # cs)) \<and> set (concat (c # cs)) = tagged s0 ptr st
     \<and> (\<forall>d \<in> set cs. chain st d) \<and> successively (\<lambda>x y. val st x = y) c
     \<and> (if c = [] then w \<in> loose s0 \<and> own st w = None \<and> prv st w = 0
        else prv st (hd c) = 0 \<and> (\<forall>x \<in> set (tl c). 0 < prv st x) \<and> w = (if val st (last c) \<in> loose s0 then val st (last c) else ULONG_MAX))"

lemma chain_cong:
  assumes "chain st c" "\<And>x. x \<in> set c \<Longrightarrow> val st' x = val st x" "\<And>x. x \<in> set c \<Longrightarrow> prv st' x = prv st x" "\<And>v. ends st' v = ends st v"
  shows "chain st' c"
proof -
  have "c \<noteq> []" using assms(1) by (simp add: chain_def)
  moreover have "successively (\<lambda>x y. val st' x = y) c = successively (\<lambda>x y. val st x = y) c"
    by (rule successively_cong) (auto simp: assms(2))
  ultimately show ?thesis using assms by (auto simp: chain_def list.set_sel)
qed

lemma tagged_loose: "tagged s0 ptr st \<subseteq> loose s0"
  by (auto simp: tagged_def)

lemma walking_step:
  assumes "walking s0 ptr st cs c w" "w \<in> loose s0" "own st w = None" "fat_inv s0"
  obtains st' where "set_owner w (Some ptr) st = Inr st'" "walking s0 ptr st' cs (c @ [w]) (if val st' w \<in> loose s0 then val st' w else ULONG_MAX)"
    "\<And>i. val st' i = val st i \<and> prv st' i = prv st i" "next_cluster st' w = Inr (if val st' w \<in> loose s0 then val st' w else ULONG_MAX)"
    "tagged s0 ptr st' = insert w (tagged s0 ptr st)"
proof -
  have m: "marking s0 ptr st" using assms(1) by (simp add: walking_def)
  from marking_tag [OF m assms(2,3)] obtain st' where st': "set_owner w (Some ptr) st = Inr st'" "marking s0 ptr st'"
    "entries st' = (entries st)[w := (entries st ! w)\<lparr>fe_owner := Some ptr\<rparr>]" by blast
  have len: "w < length (entries st)" using marking_cluster [OF m assms(2)] by simp
  have v: "val st' i = val st i" "prv st' i = prv st i" "own st' i = (if i = w then Some ptr else own st i)" for i
    using len by (simp_all add: st'(3) nth_list_update)
  have t: "tagged s0 ptr st' = insert w (tagged s0 ptr st)" using assms(2) by (auto simp: tagged_def v)
  have nw: "w \<notin> tagged s0 ptr st" using assms(3) by (simp add: tagged_def)
  have e: "ends st' x = ends st x" for x
    using m st'(2) same_but_fat_simps(2,3,4) by (auto simp: marking_def)
  have pos: "0 < prv st w" if "c \<noteq> []"
  proof -
    have "last c \<in> loose s0" using assms(1) that tagged_loose [of s0 ptr st] last_in_set [OF that] unfolding walking_def by auto
    moreover have "val st (last c) = w"
      using assms(1,2) that cluster_not_end(4) [OF fat_inv_ok [OF assms(4)] loose_cluster [OF assms(2)]]
      by (auto simp: walking_def split: if_splits)
    ultimately have "0 < card {p \<in> loose s0. val st p = w}" by (auto simp: card_gt_0_iff)
    then show ?thesis using m assms(2,3) by (simp add: marking_def)
  qed
  have succ: "successively (\<lambda>x y. val st' x = y) (c @ [w])"
    using assms(1,2) cluster_not_end(4) [OF fat_inv_ok [OF assms(4)] loose_cluster [OF assms(2)]]
    by (auto simp: walking_def v successively_append_iff split: if_splits)
  have "walking s0 ptr st' cs (c @ [w]) (if val st' w \<in> loose s0 then val st' w else ULONG_MAX)"
    unfolding walking_def
  proof (intro conjI)
    show "distinct (concat ((c @ [w]) # cs))" "set (concat ((c @ [w]) # cs)) = tagged s0 ptr st'"
      using assms(1) nw unfolding t walking_def by auto
    show "\<forall>d \<in> set cs. chain st' d" using assms(1) chain_cong [OF _ v(1) v(2) e] by (auto simp: walking_def)
    show "if c @ [w] = [] then (if val st' w \<in> loose s0 then val st' w else ULONG_MAX) \<in> loose s0 \<and> own st' (if val st' w \<in> loose s0 then val st' w else ULONG_MAX) = None
            \<and> prv st' (if val st' w \<in> loose s0 then val st' w else ULONG_MAX) = 0
          else prv st' (hd (c @ [w])) = 0 \<and> (\<forall>x \<in> set (tl (c @ [w])). 0 < prv st' x)
            \<and> (if val st' w \<in> loose s0 then val st' w else ULONG_MAX) = (if val st' (last (c @ [w])) \<in> loose s0 then val st' (last (c @ [w])) else ULONG_MAX)"
      using assms(1) pos by (cases c) (auto simp: walking_def v)
  qed (use st'(2) succ in simp_all)
  then show thesis using that st'(1) v t next_cluster_loose [OF st'(2) assms(2,4)] by simp
qed


text \<open>What a walk from a loose cluster leaves behind.\<close>

definition walked :: "fsck \<Rightarrow> nat \<Rightarrow> fsck \<Rightarrow> fsck \<Rightarrow> bool" where
  "walked s0 ptr st st' \<longleftrightarrow> marking s0 ptr st' \<and> (\<exists>cs. chains s0 ptr st' cs) \<and> tagged s0 ptr st \<subseteq> tagged s0 ptr st'
     \<and> (\<forall>i. prv st' i = prv st i) \<and> (\<forall>i \<in> loose s0. val st' i \<in> loose s0 \<longrightarrow> val st' i = val st i)"

lemma walked_trans: "walked s0 ptr a b \<Longrightarrow> walked s0 ptr b c \<Longrightarrow> walked s0 ptr a c"
  unfolding walked_def by (intro conjI) (blast, blast, blast, simp, metis)

lemma tag_walk_ok:
  assumes "walking s0 ptr st cs c w" "fat_inv s0" "prev = (if c = [] then 0 else last c)"
  shows "\<exists>st'. tag_walk ptr prev w st = Inr st' \<and> walked s0 ptr st st' \<and> (c = [] \<longrightarrow> w \<in> tagged s0 ptr st')"
  using assms
proof (induction "unowned st" arbitrary: st c prev w rule: less_induct)
  case less
  have m: "marking s0 ptr st" using less.prems(1) by (simp add: walking_def)
  have e: "ends st x = ends s0 x" for x using m same_but_fat_simps(2,3,4) by (auto simp: marking_def)
  consider "w = ULONG_MAX" "c \<noteq> []" | "w \<in> loose s0" "own st w = None" | "w \<in> loose s0" "own st w = Some ptr" "c \<noteq> []"
    using less.prems(1) m by (fastforce simp: walking_def marking_def split: if_splits)
  then show ?case
  proof cases
    case 1
    have c: "last c \<in> loose s0" using less.prems(1) 1(2) tagged_loose [of s0 ptr st] unfolding walking_def by auto
    then have "ends st (val st (last c))"
      using less.prems(1) 1 m cluster_not_end(4) [OF fat_inv_ok [OF less.prems(2)] loose_cluster] unfolding e
      by (auto simp: walking_def marking_def split: if_splits)
    then have "chains s0 ptr st (c # cs)" using less.prems(1) 1(2) by (auto simp: walking_def chains_def chain_def)
    then show ?thesis using 1 m by (auto simp: tag_walk.simps walked_def)
  next
    case 2
    from walking_step [OF less.prems(1) 2 less.prems(2)] obtain st1 where st1: "set_owner w (Some ptr) st = Inr st1"
      "walking s0 ptr st1 cs (c @ [w]) (if val st1 w \<in> loose s0 then val st1 w else ULONG_MAX)"
      "\<And>i. val st1 i = val st i \<and> prv st1 i = prv st i" "next_cluster st1 w = Inr (if val st1 w \<in> loose s0 then val st1 w else ULONG_MAX)"
      "tagged s0 ptr st1 = insert w (tagged s0 ptr st)" by blast
    have w: "w \<noteq> 0" "w \<noteq> ULONG_MAX" using cluster_not_end(3,4) [OF fat_inv_ok [OF less.prems(2)] loose_cluster [OF 2(1)]] by simp_all
    have go: "get_owner st w = Inr None"
      using 2 fat_inv_at [of st w] marking_cluster [OF m 2(1)] m by (simp add: get_owner_def marking_def)
    from less.hyps [OF set_owner_unowned [OF go st1(1)] st1(2) less.prems(2)] obtain st' where
      st': "tag_walk ptr w (if val st1 w \<in> loose s0 then val st1 w else ULONG_MAX) st1 = Inr st'" "walked s0 ptr st1 st'" by auto
    have "tag_walk ptr prev w st = Inr st'" using w go st1(1,4) st'(1) by (subst tag_walk.simps) simp
    moreover have "walked s0 ptr st st'" "w \<in> tagged s0 ptr st'" using st'(2) st1(3,5) by (auto simp: walked_def)
    ultimately show ?thesis by blast
  next
    case 3
    have w: "w \<noteq> 0" "w \<noteq> ULONG_MAX" using cluster_not_end(3,4) [OF fat_inv_ok [OF less.prems(2)] loose_cluster [OF 3(1)]] by simp_all
    have go: "get_owner st w = Inr (Some ptr)"
      using 3 fat_inv_at [of st w] marking_cluster [OF m 3(1)] m by (simp add: get_owner_def marking_def)
    have l: "last c \<in> tagged s0 ptr st" "val st (last c) = w" using less.prems(1) 3 w by (auto simp: walking_def split: if_splits)
    then have l': "last c \<in> loose s0" "own st (last c) \<noteq> None" by (simp_all add: tagged_def)
    from marking_cut [OF m less.prems(2) l'] 3(2) l(2) obtain st' where st': "set_fat (last c) ULONG_MAX st = Inr st'" "marking s0 ptr st'"
      "entries st' = (entries st)[last c := (entries st ! last c)\<lparr>fe_value := new_value s0 ULONG_MAX\<rparr>]" by auto
    have len: "last c < length (entries st)" using marking_cluster [OF m l'(1)] by simp
    have v: "val st' i = (if i = last c then new_value s0 ULONG_MAX else val st i)" "prv st' i = prv st i" "own st' i = own st i" for i
      using len by (simp_all add: st'(3) nth_list_update)
    have e': "ends st' x = ends s0 x" for x using st'(2) same_but_fat_simps(2,3,4) by (auto simp: marking_def)
    have "chain st' d" if "d \<in> set cs" for d
    proof (rule chain_cong)
      have "set c \<inter> set d = {}" using less.prems(1) that by (auto simp: walking_def)
      then have "last c \<notin> set d" using last_in_set [OF 3(3)] by blast
      then show "val st' x = val st x" if "x \<in> set d" for x using that by (auto simp: v)
    qed (use less.prems(1) that e e' in \<open>auto simp: walking_def v\<close>)
    moreover have "chain st' c"
    proof -
      obtain b x where b: "c = b @ [x]" using 3(3) by (cases c rule: rev_cases) auto
      have d: "distinct (b @ [x])" "successively (\<lambda>x y. val st x = y) (b @ [x])" using less.prems(1) b by (simp_all add: walking_def)
      have vx: "val st' y = val st y" if "y \<in> set b" for y using that d(1) b by (auto simp: v)
      have "successively (\<lambda>x y. val st' x = y) b = successively (\<lambda>x y. val st x = y) b" by (rule successively_cong) (auto simp: vx)
      then have "successively (\<lambda>x y. val st' x = y) c"
        using d(2) vx by (cases "b = []") (simp_all add: b successively_append_iff)
      moreover have "ends st' (val st' (last c))" using eof_not_bad [OF fat_inv_ok [OF less.prems(2)]] by (simp add: e' v)
      ultimately show ?thesis using less.prems(1) 3(3) by (simp add: chain_def walking_def v(2))
    qed
    ultimately have "chains s0 ptr st' (c # cs)" using less.prems(1) by (auto simp: walking_def chains_def tagged_def v)
    moreover have "tag_walk ptr prev w st = Inr st'" using w go st'(1) less.prems(3) 3(3) by (subst tag_walk.simps) simp
    ultimately show ?thesis using st'(2) 3(3) eof_not_loose(1) [OF less.prems(2)] by (auto simp: walked_def tagged_def v)
  qed
qed


section \<open>Rounds\<close>

text \<open>A round marks all clusters that have no predecessor.\<close>

lemma walked_refl: "marking s0 ptr st \<Longrightarrow> chains s0 ptr st cs \<Longrightarrow> walked s0 ptr st st"
  by (auto simp: walked_def)

lemma is_loose_iff:
  assumes "marking s0 ptr st" "is_cluster s0 i" "fat_inv s0"
  shows "is_loose st (entries st ! i) \<longleftrightarrow> i \<in> loose s0 \<and> own st i = None"
proof (cases "i \<in> loose s0")
  case True
  have "same_but_fat s0 st" "val st i \<in> loose s0 \<or> ends s0 (val st i)" using assms(1) True by (auto simp: marking_def)
  moreover have "\<not> is_bad s0 v \<and> v \<noteq> 0" if "v \<in> loose s0" for v
    using cluster_not_end [OF fat_inv_ok [OF assms(3)] loose_cluster [OF that]] by simp
  moreover have "v \<noteq> 0" if "ends s0 v" for v
  proof -
    obtain N where "(2 :: nat) ^ fs_eff_fat_bits (fk_fs s0) = N" "16 < N" using fat_values(7) [OF fat_inv_ok [OF assms(3)]] by blast
    then show ?thesis using that ends_eq [OF fat_inv_ok [OF assms(3)], of v] by auto
  qed
  ultimately show ?thesis using True by (auto simp: is_loose_def same_but_fat_simps)
next
  case False
  have "same_but_fat s0 st" "val st i = val s0 i" "own st i = own s0 i" using assms(1,2) False by (auto simp: marking_def)
  then show ?thesis using False assms(2) by (auto simp: is_loose_def loose_def same_but_fat_simps)
qed

lemma tag_free_ok:
  assumes "marking s0 ptr st" "chains s0 ptr st cs" "fat_inv s0"
  shows "\<exists>st'. tag_free ptr st = Inr st' \<and> walked s0 ptr st st' \<and> (\<forall>i \<in> loose s0. prv st i = 0 \<longrightarrow> i \<in> tagged s0 ptr st')"
proof -
  let ?n = "fs_clusters (fk_fs st) + 2"
  let ?f = "\<lambda>i st. exit_bind (fat_at st i) (\<lambda>e. if is_loose st e \<and> fe_prev e = 0 then tag_walk ptr 0 i st else Inr st)"
  have n: "?n = fs_clusters (fk_fs s0) + 2" using assms(1) same_but_fat_simps(1) [of s0 st] by (simp add: marking_def)
  define P where "P k s \<longleftrightarrow> walked s0 ptr st s \<and> (\<forall>i \<in> loose s0. i < k \<longrightarrow> prv st i = 0 \<longrightarrow> i \<in> tagged s0 ptr s)" for k s
  have "\<exists>s'. fold_exit ?f [2..<?n] st = Inr s' \<and> P ?n s'"
  proof (rule fold_exit_upt)
    show "P 2 st" using walked_refl [OF assms(1,2)] loose_cluster [of _ s0] by (fastforce simp: P_def)
    fix i s
    assume P: "P i s" and i: "2 \<le> i" "i < ?n"
    have w: "walked s0 ptr st s" using P by (simp add: P_def)
    then obtain cs' where m: "marking s0 ptr s" "chains s0 ptr s cs'" by (auto simp: walked_def)
    have fi: "fat_inv s" "is_cluster s i" using m(1) i n same_but_fat_simps(1) [of s0 s] by (simp_all add: marking_def)
    have loose: "is_loose s (entries s ! i) \<longleftrightarrow> i \<in> loose s0 \<and> own s i = None" using is_loose_iff [OF m(1) _ assms(3)] i n by simp
    show "\<exists>s'. ?f i s = Inr s' \<and> P (Suc i) s'"
    proof (cases "is_loose s (entries s ! i) \<and> prv s i = 0")
      case True
      then have "walking s0 ptr s cs' [] i" using m loose by (simp add: walking_def chains_def)
      from tag_walk_ok [OF this assms(3), of 0] obtain s' where s': "tag_walk ptr 0 i s = Inr s'" "walked s0 ptr s s'" "i \<in> tagged s0 ptr s'" by auto
      then have "P (Suc i) s'" using P walked_trans [OF w s'(2)] by (auto simp: P_def walked_def less_Suc_eq)
      then show ?thesis using s'(1) True fat_inv_at [OF fi] by simp
    next
      case False
      have "i \<in> tagged s0 ptr s" if "i \<in> loose s0" "prv st i = 0"
        using that False loose m(1) w by (auto simp: walked_def tagged_def marking_def)
      then have "P (Suc i) s" using P by (auto simp: P_def less_Suc_eq)
      then show ?thesis using False fat_inv_at [OF fi] by auto
    qed
  qed simp
  then show ?thesis using n loose_cluster [of _ s0] by (fastforce simp: P_def tag_free_def)
qed

text \<open>
  What is not marked after a round is a set of cycles: every cluster in it has a predecessor in
  it, so the links permute it, and the predecessor is the only one.
\<close>

lemma cycles_left:
  assumes "marking s0 ptr st" "chains s0 ptr st cs" "\<forall>i \<in> loose s0. prv st i = 0 \<longrightarrow> i \<in> tagged s0 ptr st"
    and "i \<in> loose s0" "own st i = None" "fat_inv s0"
  shows "val st i \<in> loose s0 \<and> own st (val st i) = None \<and> prv st (val st i) \<noteq> 0"
proof -
  define U where "U = {i \<in> loose s0. own st i = None}"
  have fin: "finite U" by (simp add: U_def)
  have closed: "val st p \<notin> U" if "p \<in> tagged s0 ptr st" for p
  proof -
    have "p \<in> set (concat cs)" using that assms(2) by (simp add: chains_def)
    then obtain c where "c \<in> set cs" "p \<in> set c" by auto
    moreover from this have "chain st c" "set c \<subseteq> tagged s0 ptr st" using assms(2) by (auto simp: chains_def)
    ultimately have c: "p \<in> set c" "chain st c" "set c \<subseteq> tagged s0 ptr st" by simp_all
    show ?thesis
    proof (cases "p = last c")
      case True
      then have "ends s0 (val st p)" using c(2) assms(1) by (auto simp: chain_def marking_def same_but_fat_simps)
      then show ?thesis using cluster_not_end(1) [OF fat_inv_ok [OF assms(6)] loose_cluster] by (auto simp: U_def)
    next
      case False
      then obtain xs y ys where "c = xs @ p # y # ys" using c(1) by (metis last_ConsL last_appendR list.distinct(1) list.exhaust split_list)
      then have "val st p = y" "y \<in> set c" using c(2) by (simp_all add: chain_def successively_append_iff)
      then show ?thesis using c(3) by (auto simp: U_def tagged_def)
    qed
  qed
  have pred: "\<exists>p \<in> U. val st p = j" if "j \<in> U" for j
  proof -
    have j: "j \<in> loose s0" "own st j = None" "j \<notin> tagged s0 ptr st" using that by (auto simp: U_def tagged_def)
    then have "card {p \<in> loose s0. val st p = j} \<noteq> 0" using assms(1,3) by (auto simp: marking_def)
    then obtain p where "p \<in> loose s0" "val st p = j" by (auto simp: card_eq_0_iff)
    moreover from this have "p \<in> U" using closed [of p] that assms(1) by (auto simp: U_def tagged_def marking_def)
    ultimately show ?thesis by blast
  qed
  then have "U \<subseteq> val st ` U" by blast
  then have "val st ` U = U" using fin by (metis card_image_le card_subset_eq card_mono finite_imageI le_antisym)
  then have "val st i \<in> U" using assms(4,5) by (auto simp: U_def)
  then show ?thesis using assms(3) by (auto simp: U_def tagged_def)
qed


section \<open>The loop\<close>

lemma find_exit_total:
  assumes "\<And>i. i \<in> set is \<Longrightarrow> f i = Inr (b i)"
  shows "find_exit f is = Inr (find b is)"
  using assms by (induction "is") auto

definition pointing :: "fsck \<Rightarrow> fsck \<Rightarrow> nat set" where
  "pointing s0 st = {i \<in> loose s0. val st i \<in> loose s0}"

text \<open>Breaking a cycle: its cluster ends a chain, and the next one has lost its only predecessor.\<close>

lemma marking_break:
  assumes "marking s0 ptr st" "fat_inv s0" "i \<in> loose s0" "own st i = None" "val st i \<in> loose s0" "own st (val st i) = None"
    and "chains s0 ptr st cs"
  obtains st' where "set_fat i ULONG_MAX (fat_update (val st i) (fe_prev_update (\<lambda>n. n - 1)) st) = Inr st'" "marking s0 ptr st'"
    "chains s0 ptr st' cs" "pointing s0 st' \<subset> pointing s0 st"
proof -
  let ?s = "val st i" and ?st1 = "fat_update (val st i) (fe_prev_update (\<lambda>n. n - 1)) st"
  have inv: "fat_inv st" "same_but_fat s0 st" using assms(1) by (simp_all add: marking_def)
  have c: "is_cluster st ?s" "?s < length (entries st)" "is_cluster st i" "i < length (entries st)"
    using marking_cluster [OF assms(1,3)] marking_cluster [OF assms(1,5)] by simp_all
  note u = fat_update_mem [OF inv(1) c(1), of "fe_prev_update (\<lambda>n. n - 1)", simplified]
  have i1: "is_cluster ?st1 i" using c(3) same_but_fat_simps(1) [OF u(2)] by simp
  from set_fat_inv [OF u(1) i1, of ULONG_MAX] obtain st' where st': "set_fat i ULONG_MAX ?st1 = Inr st'" "fat_inv st'" "same_but_fat ?st1 st'"
    "entries st' = (entries ?st1)[i := (entries ?st1 ! i)\<lparr>fe_value := new_value s0 ULONG_MAX\<rparr>]"
    by (auto simp: same_but_fat_simps [OF u(2)] same_but_fat_simps [OF inv(2)])
  note eof = eof_not_loose [OF assms(2)]
  have v: "val st' j = (if j = i then new_value s0 ULONG_MAX else val st j)" "prv st' j = (if j = ?s then prv st j - 1 else prv st j)"
    "own st' j = own st j" for j
    using c by (auto simp: st'(4) u(3) nth_list_update)
  have count: "prv st' j = int (card {p \<in> loose s0. val st' p = j})" if j: "j \<in> loose s0" "own st j = None" for j
  proof -
    have old: "prv st j = int (card {p \<in> loose s0. val st p = j})" using assms(1) j by (simp add: marking_def)
    show ?thesis
    proof (cases "j = ?s")
      case True
      have "{p \<in> loose s0. val st' p = j} = {p \<in> loose s0. val st p = j} - {i}" using eof(1) j(1) by (auto simp: v)
      moreover have i: "i \<in> {p \<in> loose s0. val st p = j}" using assms(3) True by simp
      moreover have "card {p \<in> loose s0. val st p = j} \<ge> 1" using i by (auto simp: Suc_le_eq card_gt_0_iff)
      ultimately show ?thesis using old True by (simp add: v(2) card_Diff_singleton of_nat_diff)
    next
      case False
      have "{p \<in> loose s0. val st' p = j} = {p \<in> loose s0. val st p = j}" using eof(1) j(1) False by (auto simp: v)
      then show ?thesis using old False by (simp add: v(2))
    qed
  qed
  have same: "same_but_fat s0 st'" using same_but_fat_trans [OF inv(2) same_but_fat_trans [OF u(2) st'(3)]] .
  then have m: "marking s0 ptr st'"
    using assms(1,3) st'(2) eof(2) count unfolding marking_def by (auto simp: v(1,3))
  have t: "tagged s0 ptr st' = tagged s0 ptr st" by (auto simp: tagged_def v)
  have "chain st' d" if "d \<in> set cs" for d
  proof (rule chain_cong)
    have "set d \<subseteq> tagged s0 ptr st" using assms(7) that by (auto simp: chains_def)
    then have "i \<notin> set d" "?s \<notin> set d" using assms(4,6) by (auto simp: tagged_def)
    then show "val st' x = val st x" "prv st' x = prv st x" if "x \<in> set d" for x using that by (auto simp: v)
    show "ends st' w = ends st w" for w using same_but_fat_simps(2,3,4) [OF same] same_but_fat_simps(2,3,4) [OF inv(2)] by simp
  qed (use assms(7) that in \<open>simp add: chains_def\<close>)
  then have "chains s0 ptr st' cs" using assms(7) by (simp add: chains_def t)
  moreover have "pointing s0 st' \<subset> pointing s0 st" using assms(3,5) eof(1) by (auto simp: pointing_def v psubset_eq)
  ultimately show thesis using that st'(1) m by blast
qed

lemma break_cycle_ok:
  assumes "marking s0 ptr st" "chains s0 ptr st cs" "fat_inv s0" "\<forall>i \<in> loose s0. prv st i = 0 \<longrightarrow> i \<in> tagged s0 ptr st"
  shows "(loose s0 = tagged s0 ptr st \<and> break_cycle st = Inr (False, st))
     \<or> (\<exists>st'. break_cycle st = Inr (True, st') \<and> marking s0 ptr st' \<and> chains s0 ptr st' cs \<and> pointing s0 st' \<subset> pointing s0 st)"
proof -
  let ?is = "[2..<fs_clusters (fk_fs st) + 2]"
  have inv: "fat_inv st" "same_but_fat s0 st" using assms(1) by (simp_all add: marking_def)
  have at: "fat_at st i = Inr (entries st ! i)" if "i \<in> loose s0" for i using fat_inv_at [OF inv(1)] marking_cluster [OF assms(1) that] by simp
  have "find_exit (\<lambda>i. exit_bind (fat_at st i) (\<lambda>e. Inr (is_loose st e))) ?is = Inr (find (\<lambda>i. i \<in> loose s0 \<and> own st i = None) ?is)"
  proof (rule find_exit_total)
    fix i
    assume "i \<in> set ?is"
    then have "2 \<le> i" "i < fs_clusters (fk_fs st) + 2" by (simp_all only: set_upt atLeastLessThan_iff)
    then show "exit_bind (fat_at st i) (\<lambda>e. Inr (is_loose st e)) = Inr (i \<in> loose s0 \<and> own st i = None)"
      using fat_inv_at [OF inv(1), of i] is_loose_iff [OF assms(1) _ assms(3), of i] same_but_fat_simps(1) [OF inv(2)] by simp
  qed
  then have brk: "break_cycle st = (case find (\<lambda>i. i \<in> loose s0 \<and> own st i = None) ?is of None \<Rightarrow> Inr (False, st)
     | Some i \<Rightarrow> exit_bind (fat_at st i) (\<lambda>e. exit_bind (fat_at st (fe_value e)) (\<lambda>f.
           if fe_prev f = 0 then Inl EXIT_FAILURE
           else exit_bind (set_fat i ULONG_MAX (fat_update (fe_value e) (fe_prev_update (\<lambda>n. n - 1)) st)) (\<lambda>st. Inr (True, st)))))"
    by (simp add: break_cycle_def)
  show ?thesis
  proof (cases "find (\<lambda>i. i \<in> loose s0 \<and> own st i = None) ?is")
    case None
    then have "own st i \<noteq> None" if "i \<in> loose s0" for i
      using that marking_cluster [OF assms(1) that] by (auto simp: find_None_iff)
    then have "loose s0 = tagged s0 ptr st" using marking_own [OF assms(1)] unfolding tagged_def by blast
    then show ?thesis using brk None by simp
  next
    case (Some i)
    then have i: "i \<in> loose s0" "own st i = None" by (auto simp: find_Some_iff)
    note l = cycles_left [OF assms(1,2,4) i assms(3)]
    from marking_break [OF assms(1,3) i, OF _ _ assms(2)] l obtain st' where
      "set_fat i ULONG_MAX (fat_update (val st i) (fe_prev_update (\<lambda>n. n - 1)) st) = Inr st'" "marking s0 ptr st'"
      "chains s0 ptr st' cs" "pointing s0 st' \<subset> pointing s0 st" by blast
    then show ?thesis using brk Some at [OF i(1)] at [of "val st i"] l by auto
  qed
qed

lemma reclaim_loop_ok:
  assumes "marking s0 ptr st" "chains s0 ptr st cs" "fat_inv s0"
  shows "\<exists>st' cs'. reclaim_loop ptr st = Some (Inr st') \<and> marking s0 ptr st' \<and> chains s0 ptr st' cs' \<and> tagged s0 ptr st' = loose s0"
  using assms(1,2)
proof (induction "card (pointing s0 st)" arbitrary: st cs rule: less_induct)
  case less
  from tag_free_ok [OF less.prems assms(3)] obtain st1 where st1: "tag_free ptr st = Inr st1" "walked s0 ptr st st1"
    "\<forall>i \<in> loose s0. prv st i = 0 \<longrightarrow> i \<in> tagged s0 ptr st1" by blast
  then obtain cs1 where m1: "marking s0 ptr st1" "chains s0 ptr st1 cs1" "\<forall>i \<in> loose s0. prv st1 i = 0 \<longrightarrow> i \<in> tagged s0 ptr st1"
    by (auto simp: walked_def)
  have le: "pointing s0 st1 \<subseteq> pointing s0 st" using st1(2) by (auto simp: walked_def pointing_def)
  from break_cycle_ok [OF m1(1,2) assms(3) m1(3)] show ?case
  proof
    assume "loose s0 = tagged s0 ptr st1 \<and> break_cycle st1 = Inr (False, st1)"
    then show ?thesis using m1(1,2) st1(1) by (subst reclaim_loop.simps) auto
  next
    assume "\<exists>st'. break_cycle st1 = Inr (True, st') \<and> marking s0 ptr st' \<and> chains s0 ptr st' cs1 \<and> pointing s0 st' \<subset> pointing s0 st1"
    then obtain st2 where st2: "break_cycle st1 = Inr (True, st2)" "marking s0 ptr st2" "chains s0 ptr st2 cs1" "pointing s0 st2 \<subset> pointing s0 st1"
      by blast
    have "card (pointing s0 st2) < card (pointing s0 st)" using st2(4) le by (intro psubset_card_mono) (auto simp: pointing_def)
    from less.hyps [OF this st2(2,3)] show ?thesis using st1(1) st2(1) by (subst reclaim_loop.simps) simp
  qed
qed


section \<open>Counting\<close>

definition counted :: "fsck \<Rightarrow> nat \<Rightarrow> fsck \<Rightarrow> bool" where
  "counted s0 k st \<longleftrightarrow> fat_inv st \<and> same_but_fat s0 st
     \<and> (\<forall>i. is_cluster s0 i \<longrightarrow> own st i = own s0 i \<and> (i \<notin> loose s0 \<or> k \<le> i \<longrightarrow> val st i = val s0 i))
     \<and> (\<forall>i \<in> loose s0. i < k \<longrightarrow> val st i \<in> loose s0 \<or> ends s0 (val st i))
     \<and> (\<forall>i \<in> loose s0. prv st i = int (card {p \<in> loose s0. p < k \<and> val st p = i}))"

lemma reset_ok:
  assumes "fat_inv st"
  shows "\<exists>st'. fold_exit (\<lambda>i st. exit_bind (fat_at st i) (\<lambda>_. Inr (fat_update i (fe_prev_update (\<lambda>_. 0)) st))) [2..<fs_clusters (fk_fs st) + 2] st = Inr st'
     \<and> counted st 0 st'"
proof -
  let ?n = "fs_clusters (fk_fs st) + 2"
  define P where "P k s \<longleftrightarrow> fat_inv s \<and> same_but_fat st s \<and> (\<forall>i. is_cluster st i \<longrightarrow> own s i = own st i \<and> val s i = val st i \<and> (i < k \<longrightarrow> prv s i = 0))"
    for k s
  have "\<exists>s'. fold_exit (\<lambda>i st. exit_bind (fat_at st i) (\<lambda>_. Inr (fat_update i (fe_prev_update (\<lambda>_. 0)) st))) [2..<?n] st = Inr s' \<and> P ?n s'"
  proof (rule fold_exit_upt)
    show "P 2 st" using assms by (simp add: P_def)
    fix i s
    assume P: "P i s" and i: "2 \<le> i" "i < ?n"
    then have s: "fat_inv s" "same_but_fat st s" by (simp_all add: P_def)
    have c: "is_cluster s i" "i < length (entries s)" using i same_but_fat_simps(1) [OF s(2)] fat_inv_length [OF s(1)] by simp_all
    note u = fat_update_mem [OF s(1) c(1), of "fe_prev_update (\<lambda>_. 0)", simplified]
    have "P (Suc i) (fat_update i (fe_prev_update (\<lambda>_. 0)) s)"
      using P c(2) u(1) same_but_fat_trans [OF s(2) u(2)] by (auto simp: P_def u(3) nth_list_update less_Suc_eq)
    then show "\<exists>s'. exit_bind (fat_at s i) (\<lambda>_. Inr (fat_update i (fe_prev_update (\<lambda>_. 0)) s)) = Inr s' \<and> P (Suc i) s'"
      using fat_inv_at [OF s(1) c(1)] by simp
  qed simp
  then show ?thesis by (auto simp: P_def counted_def loose_def)
qed

lemma count_prev_ok:
  assumes "counted s0 i s" "is_cluster s0 i" "fat_inv s0" "in_range s0" "\<forall>i \<in> loose s0. val s0 i \<noteq> 1"
  shows "\<exists>s'. count_prev i s = Inr s' \<and> counted s0 (Suc i) s'"
proof -
  let ?n = "fs_clusters (fk_fs s0) + 2" and ?v = "val s0 i"
  have s: "fat_inv s" "same_but_fat s0 s" using assms(1) by (simp_all add: counted_def)
  note eqs = same_but_fat_simps [OF s(2)]
  have at: "fat_at s j = Inr (entries s ! j)" "j < length (entries s)" if "is_cluster s0 j" for j
    using that fat_inv_at [OF s(1), of j] fat_inv_length [OF s(1)] by (simp_all add: eqs)
  have i: "own s i = own s0 i" "val s i = ?v" using assms(1,2) by (simp_all add: counted_def)
  note ok = fat_inv_ok [OF assms(3)]
  obtain N where N: "(2 :: nat) ^ fs_eff_fat_bits (fk_fs s0) = N" "16 < N" using fat_values(7) [OF ok] by blast
  have nN: "?n \<le> N - 16" using ok N(1) by (auto simp: fs_ok_def fs_geo_def)
  have bad: "is_bad s0 v \<Longrightarrow> ?n \<le> v" for v using fat_values [OF ok] N nN by (auto simp: FAT_IS_BAD_def split: if_splits)
  have fin: "counted s0 (Suc i) s" if "i \<in> loose s0 \<Longrightarrow> ends s0 ?v"
  proof -
    have "?v \<notin> loose s0" if "i \<in> loose s0"
      using cluster_not_end(1) [OF ok loose_cluster] \<open>i \<in> loose s0 \<Longrightarrow> ends s0 ?v\<close> that by blast
    then have "{p \<in> loose s0. p < Suc i \<and> val s p = j} = {p \<in> loose s0. p < i \<and> val s p = j}" if "j \<in> loose s0" for j
      using that i(2) by (auto simp: less_Suc_eq)
    then show ?thesis using assms(1) that i(2) by (auto simp: counted_def less_Suc_eq)
  qed
  show ?thesis
  proof (cases "i \<in> loose s0 \<and> ?v < ?n")
    case False
    have "i \<in> loose s0 \<Longrightarrow> ends s0 ?v"
    proof -
      assume l: "i \<in> loose s0"
      then have "\<not> is_bad s0 ?v" "FAT_MIN_BAD (fk_atari_format s0) (fk_fs s0) \<le> ?v"
        using False assms(2,4) by (auto simp: loose_def is_loose_def in_range_def)
      then show ?thesis using fat_values [OF ok] N by (auto simp: FAT_IS_BAD_def split: if_splits)
    qed
    moreover have "\<not> (own s0 i = None \<and> ?v \<noteq> 0 \<and> ?v < ?n)"
      using False assms(2) bad [of ?v] by (auto simp: loose_def is_loose_def)
    ultimately show ?thesis using fin at(1) [OF assms(2)] i by (auto simp: count_prev_def Let_def eqs)
  next
    case True
    then have v: "own s0 i = None" "?v \<noteq> 0" "is_cluster s0 ?v" "?v < ?n"
      using assms(5) by (auto simp: loose_def is_loose_def le_eq_less_or_eq)
    have lv: "own s ?v \<noteq> None \<or> val s ?v = 0 \<or> is_bad s0 (val s ?v) \<longleftrightarrow> ?v \<notin> loose s0"
    proof (cases "?v \<in> loose s0 \<and> ?v < i")
      case True
      then have "val s ?v \<in> loose s0 \<or> ends s0 (val s ?v)" "own s ?v = None" using assms(1) by (auto simp: counted_def loose_def is_loose_def)
      moreover have "val s ?v \<noteq> 0 \<and> \<not> is_bad s0 (val s ?v)" if "val s ?v \<in> loose s0"
        using cluster_not_end(2,3) [OF ok loose_cluster [OF that]] by simp
      moreover have "val s ?v \<noteq> 0" if "ends s0 (val s ?v)" using that ends_eq [OF ok] N by auto
      ultimately show ?thesis using True by blast
    next
      case False
      then have "val s ?v = val s0 ?v" "own s ?v = own s0 ?v" using assms(1) v(3) by (auto simp: counted_def)
      then show ?thesis using v(3) by (auto simp: loose_def is_loose_def)
    qed
    have cp: "count_prev i s = (if ?v \<notin> loose s0 then set_fat i ULONG_MAX s else Inr (fat_update ?v (fe_prev_update (\<lambda>n. n + 1)) s))"
      using at(1) [OF assms(2)] at(1) [OF v(3)] i v(1,2,4) lv by (simp add: count_prev_def Let_def eqs)
    show ?thesis
    proof (cases "?v \<in> loose s0")
      case True
      let ?s = "fat_update ?v (fe_prev_update (\<lambda>n. n + 1)) s"
      note u = fat_update_mem [OF s(1), of ?v "fe_prev_update (\<lambda>n. n + 1)", simplified, unfolded eqs, OF v(3) [simplified]]
      have e: "val ?s j = val s j" "own ?s j = own s j" "prv ?s j = (if j = ?v then prv s j + 1 else prv s j)" for j
        using at(2) [OF v(3)] by (auto simp: u(3) nth_list_update)
      have set: "{p \<in> loose s0. p < Suc i \<and> val s p = j} = (if j = ?v then insert i else (\<lambda>S. S)) {p \<in> loose s0. p < i \<and> val s p = j}" for j
        using \<open>i \<in> loose s0 \<and> ?v < ?n\<close> i(2) by (auto simp: less_Suc_eq)
      have "counted s0 (Suc i) ?s"
        using assms(1) u(1) same_but_fat_trans [OF s(2) u(2)] True i(2) unfolding counted_def e set
        by (auto simp: less_Suc_eq)
      then show ?thesis using cp True by simp
    next
      case False
      from set_fat_inv [OF s(1), of i ULONG_MAX] obtain s' where s': "set_fat i ULONG_MAX s = Inr s'" "fat_inv s'" "same_but_fat s s'"
        "entries s' = (entries s)[i := (entries s ! i)\<lparr>fe_value := new_value s0 ULONG_MAX\<rparr>]"
        using assms(2) by (auto simp: eqs)
      note eof = eof_not_loose [OF assms(3)]
      have e: "val s' j = (if j = i then new_value s0 ULONG_MAX else val s j)" "own s' j = own s j" "prv s' j = prv s j" for j
        using at(2) [OF assms(2)] by (auto simp: s'(4) nth_list_update)
      have set: "{p \<in> loose s0. p < Suc i \<and> val s' p = j} = {p \<in> loose s0. p < i \<and> val s p = j}" if "j \<in> loose s0" for j
        using that eof(1) by (auto simp: less_Suc_eq e)
      have "counted s0 (Suc i) s'"
        using assms(1) s'(2) same_but_fat_trans [OF s(2) s'(3)] \<open>i \<in> loose s0 \<and> ?v < ?n\<close> eof(2) set unfolding counted_def
        by (auto simp: less_Suc_eq e)
      then show ?thesis using cp s'(1) False by simp
    qed
  qed
qed

lemma count_prevs_ok:
  assumes "fat_inv st" "in_range st" "\<forall>i. is_cluster st i \<longrightarrow> own st i \<noteq> Some ptr" "\<forall>i \<in> loose st. val st i \<noteq> 1"
  shows "\<exists>st'. count_prevs st = Inr st' \<and> marking st ptr st' \<and> chains st ptr st' []"
proof -
  let ?n = "fs_clusters (fk_fs st) + 2"
  from reset_ok [OF assms(1)] obtain s where s: "fold_exit (\<lambda>i st. exit_bind (fat_at st i) (\<lambda>_. Inr (fat_update i (fe_prev_update (\<lambda>_. 0)) st))) [2..<?n] st = Inr s"
    "counted st 0 s" by blast
  have "\<not> i < 2" if "i \<in> loose st" for i using loose_cluster [OF that] by simp
  then have "counted st 2 s" using s(2) by (auto simp: counted_def)
  then have "\<exists>s'. fold_exit count_prev [2..<?n] s = Inr s' \<and> counted st ?n s'"
    by (rule fold_exit_upt) (use count_prev_ok [OF _ _ assms(1,2,4)] in auto)
  then obtain s' where s': "fold_exit count_prev [2..<?n] s = Inr s'" "counted st ?n s'" by blast
  have lt: "p < ?n" if "p \<in> loose st" for p using loose_cluster [OF that] by simp
  have "{p \<in> loose st. p < ?n \<and> val s' p = i} = {p \<in> loose st. val s' p = i}" for i using lt by auto
  then have "marking st ptr s'"
    using s'(2) assms(3) lt unfolding marking_def counted_def by (auto simp: loose_def is_loose_def)
  moreover have "tagged st ptr s' = {}" using s'(2) by (auto simp: tagged_def counted_def loose_def is_loose_def)
  ultimately show ?thesis using s(1) s'(1) by (auto simp: count_prevs_def Let_def chains_def simp del: upt_Suc)
qed

end
