(* ===== verification/FS_Recover.thy ===== *)
theory FS_Recover
  imports FS_Chains
begin

text \<open>
  The second half of \<open>reclaim_file\<close>: every chain of lost clusters gets an entry in a root directory of fixed
  size, under a name that is not in use; and the search for a free cluster when the root directory
  is a chain itself.
\<close>

section \<open>The length of a chain\<close>

lemma chain_count_ok:
  assumes "successively (\<lambda>x y. val s x = y) c" "c \<noteq> []" "ends s (val s (last c))" "fs_ok (fk_fs s)" "\<forall>x \<in> set c. is_cluster s x"
  shows "chain_count s (hd c) n = Some (Inr (n + length c))"
  using assms
proof (induction c arbitrary: n)
  case (Cons x c)
  have x: "is_cluster s x" using Cons.prems(5) by simp
  then have at: "fat_at s x = Inr (entries s ! x)" using Cons.prems(4) by (simp add: fat_at_ok)
  have ne: "x \<noteq> 0" "x \<noteq> ULONG_MAX" using cluster_not_end(3,4) [OF Cons.prems(4) x] by simp_all
  show ?case
  proof (cases c)
    case Nil
    then have "next_cluster s x = Inr ULONG_MAX" using at Cons.prems(3) by (simp add: next_cluster_def)
    then show ?thesis using ne Nil by (subst chain_count.simps) (simp add: chain_count.simps)
  next
    case (Cons y d)
    have y: "val s x = y" "is_cluster s y" using Cons.prems(1,5) local.Cons by simp_all
    then have "next_cluster s x = Inr y" using at cluster_not_end(1,2) [OF Cons.prems(4) y(2)] by (simp add: next_cluster_def)
    moreover have "chain_count s (hd c) (n + 1) = Some (Inr (n + 1 + length c))"
      using Cons.prems local.Cons by (intro Cons.IH) simp_all
    ultimately show ?thesis using ne local.Cons by (subst chain_count.simps) simp
  qed
qed simp

section \<open>Entries in a root directory of fixed size\<close>

definition root_bytes :: "fsck \<Rightarrow> byte list" where
  "root_bytes st = take (fs_root_entries (fk_fs st) * 32) (drop (nat (fs_root_start (fk_fs st))) (contents (fk_io st)))"

abbreviation free_slots :: "fsck \<Rightarrow> nat set" where
  "free_slots st \<equiv> {k. k < fs_root_entries (fk_fs st) \<and> slot_free (root_slot (root_bytes st) k)}"

text \<open>The names are different, so a name is found while there are fewer slots than numbers.\<close>

lemma rec_name_shape: "length (rec_name m) = 11" "rec_name m ! 0 = 0x46" "take 11 (rec_name m) = rec_name m"
  by (simp_all add: rec_name_def dec_digits_def)

lemma digit_byte:
  assumes "(word_of_nat (48 + a mod 10) :: byte) = word_of_nat (48 + b mod 10)"
  shows "a mod 10 = b mod (10 :: nat)"
proof -
  have "unat (word_of_nat (48 + x mod 10) :: byte) = 48 + x mod 10" for x :: nat
    by (subst unsigned_of_nat) (simp add: take_bit_nat_eq_self less_trans [of _ 58])
  then show ?thesis using arg_cong [OF assms, of unat] by simp
qed

lemma rec_name_inj:
  assumes "rec_name m = rec_name m'" "m < 10000" "m' < 10000"
  shows "m = m'"
proof -
  have three: "u = p + 10 * q + 100 * r + 1000 * c" if "u = a * 10 + p" "a = b * 10 + q" "b = c * 10 + r" for u p q r a b c :: nat
    using that by simp
  have sum: "x = x mod 10 + 10 * (x div 10 mod 10) + 100 * (x div 100 mod 10) + 1000 * (x div 1000 mod 10)" if "x < 10000" for x :: nat
  proof -
    have "x div 100 = x div 10 div 10" "x div 1000 mod 10 = x div 10 div 10 div 10" using that by (simp_all flip: div_mult2_eq)
    then show ?thesis using three [OF div_mod_decomp div_mod_decomp div_mod_decomp, of x] by simp
  qed
  have eq: "(word_of_nat (48 + m div d mod 10) :: byte) = word_of_nat (48 + m' div d mod 10)" if "d \<in> {1000, 100, 10, 1}" for d
    using assms(1) that by (auto simp: rec_name_def dec_digits_def)
  have "m div d mod 10 = m' div d mod 10" if "d \<in> {1000, 100, 10, 1}" for d using digit_byte [OF eq [OF that]] .
  from this [of 1000] this [of 100] this [of 10] this [of 1] show ?thesis using sum [OF assms(2)] sum [OF assms(3)] by simp
qed

definition taken :: "byte list \<Rightarrow> nat \<Rightarrow> nat \<Rightarrow> bool" where
  "taken root n m \<longleftrightarrow> (\<exists>k < n. same_name (root_slot root k) (rec_name m))"

lemma taken_bound:
  assumes "\<forall>m. num0 \<le> m \<and> m < num \<longrightarrow> taken root n m" "num \<le> 10000"
  shows "num - num0 \<le> n"
proof -
  define slot where "slot m = (SOME k. k < n \<and> same_name (root_slot root k) (rec_name m))" for m
  have slot: "slot m < n \<and> same_name (root_slot root (slot m)) (rec_name m)" if "m \<in> {num0..<num}" for m
  proof -
    have "\<exists>k. k < n \<and> same_name (root_slot root k) (rec_name m)" using assms(1) that by (simp add: taken_def)
    then show ?thesis unfolding slot_def by (rule someI_ex)
  qed
  have "inj_on slot {num0..<num}"
  proof (rule inj_onI)
    fix a b
    assume a: "a \<in> {num0..<num}" and b: "b \<in> {num0..<num}" and "slot a = slot b"
    then have "rec_name a = rec_name b" using slot [OF a] slot [OF b] by (simp add: same_name_def rec_name_shape)
    then show "a = b" using a b assms(2) by (intro rec_name_inj) simp_all
  qed
  then have "card {num0..<num} \<le> card {..<n}" using slot by (intro card_inj_on_le [of slot]) auto
  then show ?thesis by simp
qed

lemma unique_fixed_ok:
  assumes "\<forall>m. num0 \<le> m \<and> m < num \<longrightarrow> taken root n m" "num0 \<le> num" "num0 + n < 10000" "num \<le> 10000"
  shows "\<exists>m. unique_fixed root n k num = Inr m \<and> num0 \<le> m \<and> (\<forall>j. num0 \<le> j \<and> j < m \<longrightarrow> taken root n j) \<and> m < 10000
    \<and> (\<forall>scan < n. scan \<noteq> k \<longrightarrow> \<not> same_name (root_slot root scan) (rec_name m))"
  using assms
proof (induction root n k num rule: unique_fixed.induct)
  case (1 root n k num)
  let ?used = "list_ex (\<lambda>scan. scan \<noteq> k \<and> same_name (root_slot root scan) (rec_name num)) [0..<n]"
  have lt: "num < 10000" using taken_bound [OF "1.prems"(1,4)] "1.prems"(3) by simp
  show ?case
  proof (cases ?used)
    case True
    then have t: "\<forall>m. num0 \<le> m \<and> m < num + 1 \<longrightarrow> taken root n m"
      using "1.prems"(1) by (auto simp: taken_def list_ex_iff less_Suc_eq)
    have "num + 1 < 10000" using taken_bound [OF t] lt "1.prems"(2,3) by simp
    then have "\<exists>m. unique_fixed root n k (num + 1) = Inr m \<and> num0 \<le> m \<and> (\<forall>j. num0 \<le> j \<and> j < m \<longrightarrow> taken root n j) \<and> m < 10000
      \<and> (\<forall>scan < n. scan \<noteq> k \<longrightarrow> \<not> same_name (root_slot root scan) (rec_name m))"
      using True t "1.prems"(2,3) by (intro "1.IH") simp_all
    moreover have "unique_fixed root n k num = unique_fixed root n k (num + 1)"
      using True \<open>num + 1 < 10000\<close> by (subst unique_fixed.simps) simp
    ultimately show ?thesis by simp
  next
    case False
    then show ?thesis using "1.prems" lt by (subst unique_fixed.simps) (auto simp: list_ex_iff)
  qed
qed

text \<open>
  Room in the root directory: it lies behind the tables, can be read, it has \<open>need\<close> free slots, and the numbers from \<open>num0\<close> up to
  the current one are in use.
\<close>

definition root_room :: "nat \<Rightarrow> nat \<Rightarrow> fsck \<Rightarrow> bool" where
  "root_room num0 need st \<longleftrightarrow> nat (fs_fat_start (fk_fs st)) + 2 * fs_fat_size (fk_fs st) \<le> nat (fs_root_start (fk_fs st))
     \<and> io_mode_ok (fk_write_immed st) (fk_io st)
     \<and> readable (fk_io st) (fs_root_start (fk_fs st)) (fs_root_entries (fk_fs st) * 32) \<and> need \<le> card (free_slots st)
     \<and> num0 + fs_root_entries (fk_fs st) < 10000 \<and> num0 \<le> fk_curr_num st \<and> fk_curr_num st < 10000
     \<and> (\<forall>m. num0 \<le> m \<and> m < fk_curr_num st \<longrightarrow> taken (root_bytes st) (fs_root_entries (fk_fs st)) m)"

lemma alloc_fixed_ok:
  assumes "root_room num0 (Suc need) st"
  shows "\<exists>k num. alloc_fixed st = Inr (fs_root_start (fk_fs st) + int (32 * k), num) \<and> k \<in> free_slots st \<and> num0 \<le> num \<and> num < 10000
     \<and> (\<forall>m. num0 \<le> m \<and> m < num \<longrightarrow> taken (root_bytes st) (fs_root_entries (fk_fs st)) m)"
proof -
  let ?fs = "fk_fs st" and ?n = "fs_root_entries (fk_fs st)"
  define k where "k = length (takeWhile (\<lambda>k. \<not> slot_free (root_slot (root_bytes st) k)) [0..<?n])"
  have rd: "fs_read (fk_io st) (fs_root_start ?fs) (?n * 32) = Inr (root_bytes st)"
    using fs_read_contents assms by (simp add: root_bytes_def root_room_def io_mode_ok_def)
  have "0 < card (free_slots st)" using assms by (simp add: root_room_def)
  then have "free_slots st \<noteq> {}" using card_gt_0_iff by blast
  then obtain j where j: "j < ?n" "slot_free (root_slot (root_bytes st) j)" by auto
  have "k \<noteq> ?n"
  proof
    assume "k = ?n"
    then have "takeWhile (\<lambda>k. \<not> slot_free (root_slot (root_bytes st) k)) [0..<?n] = [0..<?n]"
      unfolding k_def by (metis length_upt minus_nat.diff_0 takeWhile_eq_take take_all order_refl)
    then show False using j set_takeWhileD [of j _ "[0..<?n]"] by auto
  qed
  then have kn: "k < ?n" using length_takeWhile_le [of _ "[0..<?n]"] by (simp add: k_def nat_less_le)
  then have sf: "slot_free (root_slot (root_bytes st) k)"
    using nth_length_takeWhile [of "\<lambda>k. \<not> slot_free (root_slot (root_bytes st) k)" "[0..<?n]"] by (simp add: k_def)
  have "\<exists>m. unique_fixed (root_bytes st) ?n k (fk_curr_num st) = Inr m \<and> num0 \<le> m \<and> (\<forall>j. num0 \<le> j \<and> j < m \<longrightarrow> taken (root_bytes st) ?n j)
    \<and> m < 10000 \<and> (\<forall>scan < ?n. scan \<noteq> k \<longrightarrow> \<not> same_name (root_slot (root_bytes st) scan) (rec_name m))"
    by (rule unique_fixed_ok) (use assms in \<open>auto simp: root_room_def\<close>)
  then obtain m where m: "unique_fixed (root_bytes st) ?n k (fk_curr_num st) = Inr m" "num0 \<le> m" "m < 10000"
    "\<forall>j. num0 \<le> j \<and> j < m \<longrightarrow> taken (root_bytes st) ?n j" by blast
  have "alloc_fixed st = Inr (fs_root_start ?fs + int (32 * k), m)"
    using rd kn m(1) by (simp add: alloc_fixed_def Let_def mult.commute flip: k_def)
  then show ?thesis using m(2-) kn sf by blast
qed

lemma rec_entry_fields:
  assumes "length de = 32"
  shows "length (rec_entry st de i n) = 32" "take 11 (rec_entry st de i n) = take 11 de"
    "take 2 (drop 26 (rec_entry st de i n)) = le_bytes 2 i" "take 4 (drop 28 (rec_entry st de i n)) = le_bytes 4 (n * fs_cluster_size (fk_fs st))"
proof -
  define d where "d = (if fs_fat_bits (fk_fs st) = 32 then write_at 20 (le_bytes 2 (drop_bit 16 i)) de else de)"
  have d: "length d = 32" "take 11 d = take 11 de" using assms by (auto simp: d_def slice_write_out [of _ _ 0 11, simplified])
  have e: "rec_entry st de i n = write_at 28 (le_bytes 4 (n * fs_cluster_size (fk_fs st))) (write_at 26 (le_bytes 2 i) d)"
    by (simp add: rec_entry_def d_def)
  show "length (rec_entry st de i n) = 32" using d by (simp add: e)
  show "take 11 (rec_entry st de i n) = take 11 de"
    using d by (simp add: e slice_write_out [of _ _ 0 11, simplified])
  show "take 4 (drop 28 (rec_entry st de i n)) = le_bytes 4 (n * fs_cluster_size (fk_fs st))"
    using slice_write_same [of 28 "le_bytes 4 (n * fs_cluster_size (fk_fs st))" "write_at 26 (le_bytes 2 i) d"] d by (simp add: e)
  show "take 2 (drop 26 (rec_entry st de i n)) = le_bytes 2 i"
    using slice_write_same [of 26 "le_bytes 2 i" d] d by (simp add: e slice_write_out)
qed

text \<open>The entry of a chain: a name, the number of its first cluster and its size in bytes.\<close>

definition recovered :: "fsck \<Rightarrow> nat list \<Rightarrow> bool" where
  "recovered st c \<longleftrightarrow> (\<exists>k < fs_root_entries (fk_fs st). (\<exists>m < 10000. same_name (root_slot (root_bytes st) k) (rec_name m))
     \<and> take 2 (drop 26 (root_slot (root_bytes st) k)) = le_bytes 2 (hd c)
     \<and> take 4 (drop 28 (root_slot (root_bytes st) k)) = le_bytes 4 (length c * fs_cluster_size (fk_fs st)))"

lemma named_not_free:
  assumes "same_name d (rec_name m)"
  shows "\<not> slot_free d"
proof -
  have "d ! 0 = take 11 d ! 0" by simp
  then have "d ! 0 = 0x46" using assms by (simp only: same_name_def rec_name_shape)
  then show ?thesis by (simp add: slot_free_def)
qed

definition same_dir :: "fsck \<Rightarrow> fsck \<Rightarrow> bool" where
  "same_dir a b \<longleftrightarrow> b = a\<lparr>fk_io := fk_io b, fk_curr_num := fk_curr_num b, fk_n_files := fk_n_files b\<rparr>"

lemma same_dir_simps:
  assumes "same_dir a b"
  shows "fk_fs b = fk_fs a" "fk_write_immed b = fk_write_immed a" "fk_atari_format b = fk_atari_format a" "chain b c = chain a c"
proof -
  obtain io m n where b: "b = a\<lparr>fk_io := io, fk_curr_num := m, fk_n_files := n\<rparr>" using assms by (auto simp: same_dir_def)
  show "fk_fs b = fk_fs a" "fk_write_immed b = fk_write_immed a" "fk_atari_format b = fk_atari_format a" "chain b c = chain a c"
    by (simp_all add: b chain_def)
qed

lemma same_dir_trans: "same_dir a b \<Longrightarrow> same_dir b c \<Longrightarrow> same_dir a c"
proof -
  assume "same_dir a b" "same_dir b c"
  then obtain io m n io' m' n' where "b = a\<lparr>fk_io := io, fk_curr_num := m, fk_n_files := n\<rparr>" "c = b\<lparr>fk_io := io', fk_curr_num := m', fk_n_files := n'\<rparr>"
    unfolding same_dir_def by blast
  then show "same_dir a c" by (simp add: same_dir_def)
qed

lemma root_slot_write:
  assumes "length e = 32" "k < n" "length root = n * 32" "j < n"
  shows "root_slot (write_at (32 * k) e root) j = (if j = k then e else root_slot root j)"
proof (cases "j = k")
  case True
  then show ?thesis using slice_write_same [of "32 * k" e root] assms by (simp add: root_slot_def)
next
  case False
  then have "32 * k + length e \<le> 32 * j \<or> 32 * j + 32 \<le> 32 * k" using assms(1) by linarith
  then show ?thesis using False by (simp add: root_slot_def slice_write_out)
qed

lemma reclaim_chain_start:
  assumes "chain s c" "\<forall>x \<in> set c. is_cluster s x" "own s (hd c) = Some ptr" "fs_ok (fk_fs s)" "fs_root_cluster (fk_fs s) = 0"
    and "root_room num0 (Suc need) s"
  shows "\<exists>s'. reclaim_chain ptr (hd c) s = Some (Inr s') \<and> same_dir s s' \<and> root_room num0 need s' \<and> recovered s' c
        \<and> (\<forall>d. recovered s d \<longrightarrow> recovered s' d) \<and> (fat_inv s \<longrightarrow> fat_inv s') \<and> fk_n_files s' = fk_n_files s + 1"
proof -
  let ?fs = "fk_fs s" and ?n = "fs_root_entries (fk_fs s)"
  have c: "c \<noteq> []" "prv s (hd c) = 0" using assms(1) by (simp_all add: chain_def)
  have at: "fat_at s (hd c) = Inr (entries s ! hd c)" using assms(2,4) c(1) by (simp add: fat_at_ok)
  from alloc_fixed_ok [OF assms(6)] obtain k num where k: "alloc_fixed s = Inr (fs_root_start ?fs + int (32 * k), num)" "k < ?n"
    "slot_free (root_slot (root_bytes s) k)" "num0 \<le> num" "num < 10000" "\<forall>m. num0 \<le> m \<and> m < num \<longrightarrow> taken (root_bytes s) ?n m" by blast
  have room: "io_mode_ok (fk_write_immed s) (fk_io s)" "readable (fk_io s) (fs_root_start ?fs) (?n * 32)" "Suc need \<le> card (free_slots s)"
    "num0 + ?n < 10000" "nat (fs_fat_start ?fs) + 2 * fs_fat_size ?fs \<le> nat (fs_root_start ?fs)" using assms(6) by (simp_all add: root_room_def)
  define offset where "offset = fs_root_start ?fs + int (32 * k)"
  define s1 where "s1 = s\<lparr>fk_curr_num := num, fk_n_files := fk_n_files s + 1\<rparr>"
  define e where "e = rec_entry s1 (rec_name num @ replicate 21 0) (hd c) (length c)"
  have "length (rec_name num @ replicate 21 0) = 32" by (simp add: rec_name_shape)
  note f = rec_entry_fields [OF this, of s1 "hd c" "length c", folded e_def]
  have e: "length e = 32" "same_name e (rec_name num)" "take 2 (drop 26 e) = le_bytes 2 (hd c)"
    "take 4 (drop 28 e) = le_bytes 4 (length c * fs_cluster_size ?fs)"
    using f by (simp_all add: same_name_def rec_name_shape s1_def)
  have "chain_count s1 (hd c) 0 = Some (Inr (length c))"
    using chain_count_ok [of s1 c 0] assms(1,2,4) c(1) by (simp add: chain_def s1_def)
  then have rc: "reclaim_chain ptr (hd c) s = Some (disk_write offset e s1)"
    using at assms(3,5) c(2) k(1) by (simp add: reclaim_chain_def alloc_rootdir_entry_def e_def s1_def offset_def)
  define a where "a = nat (fs_root_start ?fs)"
  have pos: "0 \<le> offset" "nat offset = a + 32 * k" "a + ?n * 32 \<le> length (contents (fk_io s))" "32 * k + 32 \<le> ?n * 32"
    using room(2) k(2) by (auto simp: readable_def offset_def in_disk_def a_def nat_add_distrib)
  then have "nat offset + length e \<le> length (contents (fk_io s))" using e(1) by linarith
  from fs_write_step [OF room(1) this pos(1)] obtain io where io: "fs_write (fk_write_immed s) offset e (fk_io s) = Inr io"
    "io_mode_ok (fk_write_immed s) io" "contents io = write_at (a + 32 * k) e (contents (fk_io s))" "readable io = readable (fk_io s)"
    by (auto simp: pos(2))
  define s2 where "s2 = s1\<lparr>fk_io := io\<rparr>"
  have root: "root_bytes s2 = write_at (32 * k) e (root_bytes s)" "length (root_bytes s) = ?n * 32"
    using slice_write_in [of "32 * k" e "?n * 32" a "contents (fk_io s)"] pos(3,4) e(1)
    by (simp_all add: root_bytes_def s2_def s1_def io(3) flip: a_def)
  have slot: "root_slot (root_bytes s2) j = (if j = k then e else root_slot (root_bytes s) j)" if "j < ?n" for j
    unfolding root(1) by (rule root_slot_write [OF e(1) k(2) root(2) that])
  have s2: "fk_fs s2 = ?fs" "fk_write_immed s2 = fk_write_immed s" "fk_io s2 = io" "fk_curr_num s2 = num" "fk_n_files s2 = fk_n_files s + 1"
    by (simp_all add: s2_def s1_def)
  have keep: "j < ?n \<and> j \<noteq> k \<and> root_slot (root_bytes s2) j = root_slot (root_bytes s) j"
    if "j < ?n" "same_name (root_slot (root_bytes s) j) (rec_name m)" for j m
    using that k(3) named_not_free slot by auto
  have "recovered s2 c" unfolding recovered_def s2 by (rule exI [of _ k]) (use e k(2,5) slot [OF k(2)] in auto)
  moreover have "recovered s2 d" if "recovered s d" for d
    using that keep unfolding recovered_def s2 by metis
  moreover have "taken (root_bytes s2) ?n m" if "taken (root_bytes s) ?n m" for m
    using that keep unfolding taken_def by metis
  moreover have "free_slots s2 = free_slots s - {k}" using named_not_free [OF e(2)] by (auto simp: s2 slot split: if_splits)
  then have "need \<le> card (free_slots s2)" using room(3) k(2,3) by (simp add: card_Diff_singleton)
  moreover have "fat_inv s2" if "fat_inv s"
  proof -
    have ok: "fs_geo ?fs" "eff_size ?fs \<le> fs_fat_size ?fs" using assms(4) by (simp_all add: fs_ok_def fs_geo_def)
    have "fat_copy s2 m = fat_copy s m" if "m \<le> 1" for m
      using that ok(2) room(5) unfolding fat_copy_def s2 io(3)
      by (cases m) (auto intro!: slice_write_out simp: a_def)
    moreover have "length (contents io) = length (contents (fk_io s))" by (simp add: io(3) del: length_contents)
    ultimately show ?thesis
      using that io(2) by (simp add: fat_inv_def synced_def state_ok_def state_geo_def s2 del: length_contents)
  qed
  ultimately have "root_room num0 need s2" using room k(4-6) io(2,4) by (simp add: root_room_def s2)
  moreover have "disk_write offset e s1 = Inr s2" using io(1) by (simp add: disk_write_def s2_def s1_def)
  moreover have "same_dir s s2" by (simp add: same_dir_def s2_def s1_def)
  ultimately show ?thesis using rc \<open>recovered s2 c\<close> \<open>\<And>d. recovered s d \<Longrightarrow> recovered s2 d\<close> \<open>fat_inv s \<Longrightarrow> fat_inv s2\<close> s2(5) by simp
qed

lemma fold_run_upt:
  assumes "P a s" "a \<le> b"
    and "\<And>i s. P i s \<Longrightarrow> a \<le> i \<Longrightarrow> i < b \<Longrightarrow> \<exists>s'. f i s = Some (Inr s') \<and> P (Suc i) s'"
  shows "\<exists>s'. fold_run f [a..<b] s = Some (Inr s') \<and> P b s'"
  using assms
proof (induction "b - a" arbitrary: a s)
  case (Suc n)
  then have ab: "a < b" by simp
  obtain s' where s': "f a s = Some (Inr s')" "P (Suc a) s'" using Suc.prems(1,3) ab by blast
  have "\<exists>s''. fold_run f [Suc a..<b] s' = Some (Inr s'') \<and> P b s''"
    using Suc.hyps(2) ab s'(2) Suc.prems(3) by (intro Suc.hyps(1)) auto
  then show ?case using ab s'(1) by (simp add: upt_conv_Cons)
qed simp

lemma one_head:
  "distinct (concat cs) \<Longrightarrow> \<forall>c \<in> set cs. c \<noteq> [] \<Longrightarrow> c \<in> set cs \<Longrightarrow> length (filter (\<lambda>d. hd d = hd c) cs) = 1"
proof (induction cs)
  case (Cons d cs)
  have ne: "hd e \<noteq> hd d" if e: "e \<in> set cs" for e
  proof -
    have "hd d \<in> set d" using Cons.prems(2) by simp
    moreover have "hd e \<in> set (concat cs)" using e Cons.prems(2) by (auto intro!: bexI [of _ e] hd_in_set)
    moreover have "set d \<inter> set (concat cs) = {}" using Cons.prems(1) by simp
    ultimately show ?thesis by (metis IntI empty_iff)
  qed
  show ?case
  proof (cases "c \<in> set cs")
    case True
    have "length (filter (\<lambda>d. hd d = hd c) cs) = 1" using Cons.prems True by (intro Cons.IH) simp_all
    then show ?thesis using ne [OF True] by simp
  next
    case False
    then have "c = d" using Cons.prems(3) by simp
    moreover have "filter (\<lambda>e. hd e = hd d) cs = []" using ne by (simp add: filter_empty_conv)
    ultimately show ?thesis by simp
  qed
qed simp

lemma filter_from: "length (filter (\<lambda>c. i \<le> hd c) cs) = length (filter (\<lambda>c. hd c = i) cs) + length (filter (\<lambda>c. Suc i \<le> hd c) cs)"
  by (induction cs) auto

lemma length_concat: "\<forall>c \<in> set cs. c \<noteq> [] \<Longrightarrow> length cs \<le> length (concat cs)"
proof (induction cs)
  case (Cons c cs)
  then show ?case by (cases c) auto
qed simp

text \<open>Changes of the table do not reach the root directory.\<close>

lemma root_room_fat:
  assumes "root_room num0 need st" "same_but_fat st st'" "fat_inv st'"
  shows "root_room num0 need st'"
proof -
  obtain fat io where st': "st' = st\<lparr>fk_fs := (fk_fs st)\<lparr>fs_fat := fat\<rparr>, fk_io := io\<rparr>" "readable io = readable (fk_io st)"
    "length (contents io) = length (contents (fk_io st))"
    "\<forall>p. outside_fat st p \<longrightarrow> p < length (contents (fk_io st)) \<longrightarrow> contents io ! p = contents (fk_io st) ! p"
    using assms(2) unfolding same_but_fat_def by blast
  have "contents io ! p = contents (fk_io st) ! p" if "nat (fs_root_start (fk_fs st)) \<le> p" "p < length (contents (fk_io st))" for p
    using st'(4) that assms(1) by (simp add: root_room_def outside_fat_def del: length_contents)
  then have "drop (nat (fs_root_start (fk_fs st))) (contents io) = drop (nat (fs_root_start (fk_fs st))) (contents (fk_io st))"
    by (intro nth_equalityI) (simp_all add: st'(3) del: length_contents)
  then have "root_bytes st' = root_bytes st" by (simp add: root_bytes_def st'(1))
  moreover have "io_mode_ok (fk_write_immed st) io" using assms(3) by (simp add: fat_inv_def state_ok_def state_geo_def st'(1))
  ultimately show ?thesis using assms(1) by (simp add: root_room_def st'(1,2))
qed

lemma reclaim_chains_ok:
  assumes m: "marking s0 ptr s1" "chains s0 ptr s1 cs" "tagged s0 ptr s1 = loose s0"
    and r: "root_room num0 (length cs) s1" "fs_root_cluster (fk_fs s1) = 0"
  shows "\<exists>s. fold_run (reclaim_chain ptr) [2..<fs_clusters (fk_fs s1) + 2] s1 = Some (Inr s) \<and> same_dir s1 s \<and> fat_inv s
    \<and> (\<forall>c \<in> set cs. recovered s c) \<and> fk_n_files s = fk_n_files s1 + length cs"
proof -
  let ?n = "fs_clusters (fk_fs s1) + 2" and ?rest = "\<lambda>i. length (filter (\<lambda>c. i \<le> hd c) cs)"
  have inv: "fat_inv s1" "same_but_fat s0 s1" using m(1) by (simp_all add: marking_def)
  have cs: "distinct (concat cs)" "set (concat cs) = loose s0" "\<forall>c \<in> set cs. chain s1 c \<and> c \<noteq> []"
    using m(2,3) by (auto simp: chains_def chain_def)
  have clu: "is_cluster s1 x" if "c \<in> set cs" "x \<in> set c" for c x
  proof -
    have "x \<in> loose s0" using that cs(2) by auto
    then show ?thesis using loose_cluster same_but_fat_simps(1) [OF inv(2)] by simp
  qed
  have hd: "2 \<le> hd c" "hd c < ?n" "own s1 (hd c) = Some ptr" if "c \<in> set cs" for c
  proof -
    have "hd c \<in> set c" using cs(3) that by simp
    then show "2 \<le> hd c" "hd c < ?n" using clu [OF that] by auto
    have "hd c \<in> tagged s0 ptr s1" using \<open>hd c \<in> set c\<close> that cs(2) m(3) by auto
    then show "own s1 (hd c) = Some ptr" by (simp add: tagged_def)
  qed
  have heads: "\<exists>c \<in> set cs. hd c = i" if "2 \<le> i" "i < ?n" "own s1 i = Some ptr" "prv s1 i = 0" for i
  proof -
    have "i \<in> loose s0" using m(1) that(1-3) same_but_fat_simps(1) [OF inv(2)] by (auto simp: marking_def)
    then obtain c where c: "c \<in> set cs" "i \<in> set c" using cs(2) by auto
    then have "\<forall>x \<in> set (tl c). 0 < prv s1 x" using cs(3) by (simp add: chain_def)
    then have "i \<notin> set (tl c)" using that(4) by (metis less_irrefl)
    then have "hd c = i" using c(2) by (cases c) auto
    then show ?thesis using c(1) by blast
  qed
  define P where "P i s \<longleftrightarrow> same_dir s1 s \<and> fat_inv s \<and> root_room num0 (?rest i) s \<and> (\<forall>c \<in> set cs. hd c < i \<longrightarrow> recovered s c)
    \<and> fk_n_files s + ?rest i = fk_n_files s1 + length cs" for i s
  have "\<exists>s. fold_run (reclaim_chain ptr) [2..<?n] s1 = Some (Inr s) \<and> P ?n s"
  proof (rule fold_run_upt)
    have "filter (\<lambda>c. 2 \<le> hd c) cs = cs" "\<not> hd c < 2" if "c \<in> set cs" for c using hd(1) that by (auto simp: filter_id_conv not_less)
    moreover have "filter (\<lambda>c. 2 \<le> hd c) cs = cs" using hd(1) by (simp add: filter_id_conv)
    ultimately show "P 2 s1" using inv(1) r(1) by (simp add: P_def) (simp add: same_dir_def)
  next
    fix i s
    assume P: "P i s" and i: "2 \<le> i" "i < ?n"
    then have s: "same_dir s1 s" "fat_inv s" "root_room num0 (?rest i) s" by (simp_all add: P_def)
    note eqs = same_dir_simps [OF s(1)]
    have at: "fat_at s i = Inr (entries s1 ! i)" using fat_inv_at [OF s(2)] i by (simp add: eqs)
    show "\<exists>s'. reclaim_chain ptr i s = Some (Inr s') \<and> P (Suc i) s'"
    proof (cases "own s1 i = Some ptr \<and> prv s1 i = 0")
      case True
      then obtain c where c: "c \<in> set cs" "hd c = i" using heads i by blast
      have one: "?rest i = Suc (?rest (Suc i))" using one_head [OF cs(1) _ c(1)] cs(3) c(2) filter_from [of i cs] by simp
      have "\<exists>s'. reclaim_chain ptr (hd c) s = Some (Inr s') \<and> same_dir s s' \<and> root_room num0 (?rest (Suc i)) s' \<and> recovered s' c
        \<and> (\<forall>d. recovered s d \<longrightarrow> recovered s' d) \<and> (fat_inv s \<longrightarrow> fat_inv s') \<and> fk_n_files s' = fk_n_files s + 1"
        by (rule reclaim_chain_start)
          (use s(3) one cs(3) c(1) clu hd(3) [OF c(1)] r(2) fat_inv_ok [OF s(2)] in \<open>simp_all add: eqs\<close>)
      then obtain s' where s': "reclaim_chain ptr i s = Some (Inr s')" "same_dir s s'" "root_room num0 (?rest (Suc i)) s'" "recovered s' c"
        "\<forall>d. recovered s d \<longrightarrow> recovered s' d" "fat_inv s'" "fk_n_files s' = fk_n_files s + 1" using c(2) s(2) by blast
      have "d = c" if "d \<in> set cs" "hd d = i" for d
      proof -
        have "length (filter (\<lambda>d. hd d = hd c) cs) = 1" using one_head [OF cs(1) _ c(1)] cs(3) by blast
        then obtain x where "filter (\<lambda>d. hd d = hd c) cs = [x]" by (auto simp: length_Suc_conv)
        then have "set (filter (\<lambda>d. hd d = hd c) cs) = {x}" by simp
        then have "c \<in> {x}" "d \<in> {x}" using that c by auto
        then show ?thesis by simp
      qed
      then have "recovered s' d" if "d \<in> set cs" "hd d < Suc i" for d
        using that P s'(4,5) unfolding P_def less_Suc_eq by blast
      moreover have "fk_n_files s' + ?rest (Suc i) = fk_n_files s1 + length cs" using P s'(7) one by (simp add: P_def)
      ultimately have "P (Suc i) s'" unfolding P_def using s'(3,6) same_dir_trans [OF s(1) s'(2)] by blast
      then show ?thesis using s'(1) by blast
    next
      case False
      have none: "hd c \<noteq> i" if "c \<in> set cs" for c using False hd(3) [OF that] cs(3) that by (auto simp: chain_def)
      then have "filter (\<lambda>c. hd c = i) cs = []" by (simp add: filter_empty_conv)
      then have "?rest i = ?rest (Suc i)" using filter_from [of i cs] by simp
      then have "P (Suc i) s" using P none by (auto simp: P_def less_Suc_eq)
      moreover have "reclaim_chain ptr i s = Some (Inr s)" using at False by (auto simp: reclaim_chain_def)
      ultimately show ?thesis by blast
    qed
  qed simp
  moreover have "?rest ?n = 0" using hd(2) by (auto simp: filter_empty_conv not_le)
  ultimately show ?thesis using hd(2) by (auto simp: P_def)
qed

section \<open>Recovery of lost clusters\<close>

text \<open>
  C24. \<open>reclaim_file\<close> ends and recovers every lost cluster: for a consistent table with values in range, a root directory of
  fixed size with room, no cluster owned by the dummy file and no lost cluster with value 1 (\<open>reclaim_file\<close> would follow
  it to an entry of the table that is never set), it returns with the lost clusters - those in use that no file
  owns - arranged in chains without common clusters, each properly ended and not entered from elsewhere. Every chain has an entry
  in the root directory, with a name \<open>FSCKnnnnREC\<close>, its first cluster and its size; the file count grew by
  the number of chains. Other clusters keep value and owner, and both tables on the disk agree with memory.
\<close>

theorem reclaim_file_recovers:
  assumes "fat_inv st" "in_range st" "fs_root_cluster (fk_fs st) = 0" "\<forall>i. is_cluster st i \<longrightarrow> own st i \<noteq> Some ptr" "\<forall>i \<in> loose st. val st i \<noteq> 1"
    and "root_room (fk_curr_num st) (card (loose st)) st"
  shows "\<exists>st' cs. reclaim_file ptr st = Some (Inr st') \<and> fat_inv st' \<and> distinct (concat cs) \<and> set (concat cs) = loose st
    \<and> (\<forall>c \<in> set cs. chain st' c \<and> recovered st' c) \<and> fk_n_files st' = fk_n_files st + length cs
    \<and> (\<forall>i. is_cluster st i \<and> i \<notin> loose st \<longrightarrow> val st' i = val st i \<and> own st' i = own st i)"
proof -
  from count_prevs_ok [OF assms(1,2,4,5)] obtain s where s: "count_prevs st = Inr s" "marking st ptr s" "chains st ptr s []" by blast
  from reclaim_loop_ok [OF s(2,3) assms(1)] obtain s1 cs where s1: "reclaim_loop ptr s = Some (Inr s1)" "marking st ptr s1" "chains st ptr s1 cs"
    "tagged st ptr s1 = loose st" by blast
  have inv: "fat_inv s1" "same_but_fat st s1" using s1(2) by (simp_all add: marking_def)
  have cs: "distinct (concat cs)" "set (concat cs) = loose st" "\<forall>c \<in> set cs. chain s1 c" using s1(3,4) by (simp_all add: chains_def)
  have "length cs \<le> length (concat cs)" using cs(3) by (intro length_concat) (simp add: chain_def)
  then have "length cs \<le> card (loose st)" using distinct_card [OF cs(1)] cs(2) by simp
  then have "root_room (fk_curr_num st) (length cs) s1"
    using root_room_fat [OF assms(6) inv(2,1)] unfolding root_room_def by (meson le_trans)
  moreover have same: "fs_root_cluster (fk_fs s1) = fs_root_cluster (fk_fs st)" "fk_n_files s1 = fk_n_files st"
    using inv(2) by (auto simp: same_but_fat_def)
  ultimately obtain st' where st': "fold_run (reclaim_chain ptr) [2..<fs_clusters (fk_fs s1) + 2] s1 = Some (Inr st')" "same_dir s1 st'" "fat_inv st'"
    "\<forall>c \<in> set cs. recovered st' c" "fk_n_files st' = fk_n_files st + length cs"
    using reclaim_chains_ok [OF s1(2-4)] assms(3) by auto
  have "reclaim_file ptr st = Some (Inr st')" using s(1) s1(1) st'(1) by (simp add: reclaim_file_def del: upt_Suc)
  moreover have "val st' i = val st i \<and> own st' i = own st i" if "is_cluster st i" "i \<notin> loose st" for i
    using s1(2) that same_dir_simps(1) [OF st'(2)] by (simp add: marking_def)
  ultimately show ?thesis using st'(3-5) cs same_dir_simps(4) [OF st'(2)] by blast
qed

text \<open>Two clusters that refer to each other.\<close>

definition cyclic :: fsck where
  "cyclic = (let z = \<lparr>fe_value = 0, fe_reserved = 0, fe_owner = None, fe_prev = 0\<rparr>; t = [0, 0, 0, 0, 3, 0, 2, 0] @ replicate 32 0
     in sample ((sample_fs 16 16 2)\<lparr>fs_fat := [z, z, z\<lparr>fe_value := 3\<rparr>, z\<lparr>fe_value := 2\<rparr>]\<rparr>) ([0, 0] @ t @ t @ replicate 64 0))"

lemma cyclic_clusters: "is_cluster cyclic i \<longleftrightarrow> i = 2 \<or> i = 3"
  by (auto simp: cyclic_def Let_def sample_def sample_fs_def)

lemma cyclic_inv: "fat_inv cyclic"
proof -
  let ?t = "[0, 0, 0, 0, 3, 0, 2, 0] :: byte list"
  have "fat_copy cyclic 0 = ?t" "fat_copy cyclic 1 = ?t"
    by (simp_all add: cyclic_def Let_def fat_copy_def contents_def sample_def sample_fs_def eff_size_def)
  moreover have "entry_in (fk_fs cyclic) ?t i (entries cyclic ! i)" if "is_cluster cyclic i" for i
    using that unfolding cyclic_clusters
    by (auto simp: cyclic_def Let_def sample_def entry_in_simps le_value_def)
  ultimately have "synced cyclic" by (auto simp: synced_def table_in_def)
  moreover have "state_ok cyclic"
    by (simp add: cyclic_def Let_def state_ok_def state_geo_def fs_ok_def fs_geo_def sample_def io_mode_ok_def io_ok_def contents_def sample_fs_def eff_size_def)
  ultimately show ?thesis by (simp add: fat_inv_def) (simp add: fat12_even_clusters_def cyclic_def Let_def sample_def sample_fs_def)
qed

lemma cyclic_loose: "loose cyclic = {2, 3}"
  unfolding loose_def cyclic_clusters
  by (auto simp: cyclic_def Let_def is_loose_def FAT_IS_BAD_def FAT_MIN_BAD_def FAT_MAX_BAD_def FAT_EXTD_def sample_def sample_fs_def)

lemma cyclic_room: "root_room 0 2 cyclic"
proof -
  have "root_slot (root_bytes cyclic) k = replicate 32 0" if "k < 2" for k
    using that by (auto simp: root_slot_def root_bytes_def cyclic_def Let_def contents_def sample_def sample_fs_def less_2_cases_iff)
  then have "free_slots cyclic = {0, 1}"
    by (auto simp: slot_free_def) (auto simp: cyclic_def Let_def sample_def sample_fs_def less_2_cases_iff)
  then show ?thesis
    by (simp add: root_room_def)
      (auto simp: cyclic_def Let_def io_mode_ok_def io_ok_def readable_def in_disk_def sample_def sample_fs_def list_ex_iff)
qed

theorem reclaim_file_recovers_witness:
  "\<exists>st' cs. reclaim_file 4096 cyclic = Some (Inr st') \<and> set (concat cs) = {2, 3} \<and> (\<forall>c \<in> set cs. chain st' c \<and> recovered st' c)
     \<and> fk_n_files st' = length cs"
proof -
  have fs: "fs_root_cluster (fk_fs cyclic) = 0" "fk_curr_num cyclic = 0" "fk_n_files cyclic = 0"
    by (simp_all add: cyclic_def Let_def sample_def sample_fs_def)
  have e: "own cyclic i = None \<and> val cyclic i \<noteq> 1 \<and> val cyclic i < fs_clusters (fk_fs cyclic) + 2" if "is_cluster cyclic i" for i
    using that unfolding cyclic_clusters by (auto simp: cyclic_def Let_def sample_def sample_fs_def)
  have "in_range cyclic" using e by (simp add: in_range_def)
  moreover have "root_room (fk_curr_num cyclic) (card (loose cyclic)) cyclic" using cyclic_room by (simp add: fs cyclic_loose flip: numeral_2_eq_2)
  moreover have "\<forall>i. is_cluster cyclic i \<longrightarrow> own cyclic i \<noteq> Some 4096" "\<forall>i \<in> loose cyclic. val cyclic i \<noteq> 1"
    using e loose_cluster by (simp, blast)
  ultimately show ?thesis using reclaim_file_recovers [OF cyclic_inv _ fs(1), of 4096] by (simp add: fs cyclic_loose) blast
qed

section \<open>A full disk\<close>

lemma find_free_up:
  assumes "fs_ok (fk_fs st)" "\<forall>i. is_cluster st i \<longrightarrow> val st i \<noteq> 0" "is_cluster st p" "2 \<le> c" "c \<le> p"
  shows "find_free st p c = Some (Inr p)"
  using assms(4,5)
proof (induction "p - c" arbitrary: c)
  case 0
  then show ?case by (subst find_free.simps) simp
next
  case (Suc n)
  then have c: "is_cluster st c" "c \<noteq> p" using assms(3) by auto
  have "find_free st p (c + 1) = Some (Inr p)" using Suc by (intro Suc.hyps(1)) auto
  then show ?case using c assms(2) fat_at_ok [OF assms(1)] by (subst find_free.simps) simp
qed

lemma find_free_around:
  assumes "fs_ok (fk_fs st)" "\<forall>i. is_cluster st i \<longrightarrow> val st i \<noteq> 0" "is_cluster st p" "p \<noteq> 2" "p < c"
  shows "find_free st p c = Some (Inr p)"
  using assms(5)
proof (induction "fs_clusters (fk_fs st) + 2 - c" arbitrary: c)
  case 0
  have "find_free st p 3 = Some (Inr p)" by (rule find_free_up) (use assms in auto)
  moreover have "fat_at st 2 = Inr (entries st ! 2)" "val st 2 \<noteq> 0" using assms(2,3) fat_at_ok [OF assms(1)] by auto
  ultimately show ?case using 0 by (subst find_free.simps) (simp add: numeral_3_eq_3)
next
  case (Suc n)
  then have "find_free st p (c + 1) = Some (Inr p)" by (intro Suc.hyps(1)) auto
  moreover have "fat_at st c = Inr (entries st ! c)" "val st c \<noteq> 0" using Suc assms(2,3) fat_at_ok [OF assms(1)] by auto
  moreover have "\<not> fs_clusters (fk_fs st) + 2 \<le> c" "c \<noteq> p" using Suc by auto
  ultimately show ?case by (subst find_free.simps) simp
qed

lemma find_free_endless:
  "find_free st p c = Some r \<Longrightarrow> fs_ok (fk_fs st) \<Longrightarrow> \<forall>i. is_cluster st i \<longrightarrow> val st i \<noteq> 0 \<Longrightarrow> 0 < fs_clusters (fk_fs st)
    \<Longrightarrow> 2 < c \<longrightarrow> p \<noteq> 2"
proof (induction st p c r rule: find_free.raw_induct [rotated, consumes 1, case_names step])
  case (step find_free st p c r)
  define d where "d = (if c \<ge> fs_clusters (fk_fs st) + 2 then 2 else c)"
  show ?case
  proof (intro impI notI)
    assume p: "2 < c" "p = 2"
    then have d: "is_cluster st d" "2 < d + 1" using step.prems(3) by (auto simp: d_def)
    then have "fat_at st d = Inr (entries st ! d)" "val st d \<noteq> 0" using step.prems(1,2) fat_at_ok [of st d] by auto
    then have "find_free st p (d + 1) = Some r" using step.hyps p by (simp add: d_def Let_def split: if_splits)
    then show False using step.IH step.prems d(2) p(2) by blast
  qed
qed

text \<open>
  C40. When the root directory needs another cluster and none is free, the search for one, which starts
  behind the last cluster of the directory and wraps around, stops where it began and the program
  gives up - except if this cluster is number 2: the search steps over it each time and never ends.
\<close>

theorem full_disk:
  assumes "fs_ok (fk_fs st)" "\<forall>i. is_cluster st i \<longrightarrow> val st i \<noteq> 0" "is_cluster st prev"
  shows "extend_root prev st = (if prev = 2 then None else Some (Inl EXIT_FAILURE))"
proof (cases "prev = 2")
  case True
  have "find_free st 2 3 \<noteq> Some r" for r
    using find_free_endless [of st 2 3 r] assms True by auto
  then have "find_free st 2 3 = None" by (cases "find_free st 2 3") auto
  then show ?thesis using True by (simp add: extend_root_def)
next
  case False
  then have "find_free st prev (prev + 1) = Some (Inr prev)" using assms by (intro find_free_around) auto
  then show ?thesis using False assms(3) by (simp add: extend_root_def)
qed

theorem full_disk_witness: "extend_root 2 cyclic = None \<and> extend_root 3 cyclic = Some (Inl EXIT_FAILURE)"
proof -
  have "fs_ok (fk_fs cyclic)" using cyclic_inv by (rule fat_inv_ok)
  moreover have "val cyclic i \<noteq> 0" if "is_cluster cyclic i" for i
  proof -
    have "i \<in> loose cyclic" using that unfolding cyclic_clusters cyclic_loose by blast
    then show ?thesis by (simp add: loose_def is_loose_def)
  qed
  moreover have "is_cluster cyclic 2" "is_cluster cyclic 3" unfolding cyclic_clusters by simp_all
  ultimately show ?thesis using full_disk [of cyclic 2] full_disk [of cyclic 3] by simp
qed

end
