(* ===== verification/FS_Boot.thy ===== *)
theory FS_Boot
  imports FS_Table
begin

text \<open>
  The boot sector (\<open>boot.c\<close> of \<open>dosfsck\<close>): the geometry of the file system, the backup of the boot sector and
  the information sector. A structure read from the disk is its 512 bytes. \<open>off_t\<close> and \<open>loff_t\<close> have 64 bits;
  \<open>unsigned\<close> arithmetic wraps at 32.
\<close>

section \<open>Fields\<close>

definition w8 :: "byte list \<Rightarrow> nat \<Rightarrow> nat" where
  "w8 b k = unat (b ! k)"

definition w16 :: "byte list \<Rightarrow> nat \<Rightarrow> nat" where
  "w16 b k = le_value (take 2 (drop k b))"

definition w32 :: "byte list \<Rightarrow> nat \<Rightarrow> nat" where
  "w32 b k = le_value (take 4 (drop k b))"

text \<open>The fields of \<open>boot_sector\<close>.\<close>

abbreviation (input) b_sector_size :: "byte list \<Rightarrow> nat" where "b_sector_size b \<equiv> w16 b 11"
abbreviation (input) b_cluster_size :: "byte list \<Rightarrow> nat" where "b_cluster_size b \<equiv> w8 b 13"
abbreviation (input) b_reserved :: "byte list \<Rightarrow> nat" where "b_reserved b \<equiv> w16 b 14"
abbreviation (input) b_fats :: "byte list \<Rightarrow> nat" where "b_fats b \<equiv> w8 b 16"
abbreviation (input) b_dir_entries :: "byte list \<Rightarrow> nat" where "b_dir_entries b \<equiv> w16 b 17"
abbreviation (input) b_sectors :: "byte list \<Rightarrow> nat" where "b_sectors b \<equiv> w16 b 19"
abbreviation (input) b_fat_length :: "byte list \<Rightarrow> nat" where "b_fat_length b \<equiv> w16 b 22"
abbreviation (input) b_secs_track :: "byte list \<Rightarrow> nat" where "b_secs_track b \<equiv> w16 b 24"
abbreviation (input) b_heads :: "byte list \<Rightarrow> nat" where "b_heads b \<equiv> w16 b 26"
abbreviation (input) b_total_sect :: "byte list \<Rightarrow> nat" where "b_total_sect b \<equiv> w32 b 32"
abbreviation (input) b_fat32_length :: "byte list \<Rightarrow> nat" where "b_fat32_length b \<equiv> w32 b 36"
abbreviation (input) b_root_cluster :: "byte list \<Rightarrow> nat" where "b_root_cluster b \<equiv> w32 b 44"
abbreviation (input) b_info_sector :: "byte list \<Rightarrow> nat" where "b_info_sector b \<equiv> w16 b 48"
abbreviation (input) b_backup_boot :: "byte list \<Rightarrow> nat" where "b_backup_boot b \<equiv> w16 b 50"

text \<open>A value stored into a field, and an \<open>unsigned long\<close> taken for a \<open>long\<close>.\<close>

definition put16 :: "nat \<Rightarrow> nat \<Rightarrow> byte list \<Rightarrow> byte list" where
  "put16 k v b = write_at k (le_bytes 2 v) b"

definition put32 :: "nat \<Rightarrow> nat \<Rightarrow> byte list \<Rightarrow> byte list" where
  "put32 k v b = write_at k (le_bytes 4 v) b"

definition to_long :: "nat \<Rightarrow> int" where
  "to_long v = (if v < 2 ^ 31 then int v else int v - 2 ^ 32)"

definition ROUND_TO_MULTIPLE :: "nat \<Rightarrow> nat \<Rightarrow> nat" where
  "ROUND_TO_MULTIPLE n m = (if n \<noteq> 0 \<and> m \<noteq> 0 then n + m - 1 - (n - 1) mod m else 0)"

section \<open>The backup of the boot sector\<close>

text \<open>The answer to a question that is yes when nobody is asked.\<close>

definition confirm :: "fsck \<Rightarrow> (bool \<times> fsck) exit" where
  "confirm st = (if fk_interactive st then exit_bind (ask ''12'' st) (\<lambda>(c, st). Inr (c = CHR ''1'', st)) else Inr (True, st))"

text \<open>The sector for a new backup.\<close>

definition backup_sector :: "byte list \<Rightarrow> nat" where
  "backup_sector b =
     (if b_reserved b \<ge> 7 \<and> b_info_sector b \<noteq> 6 then 6
      else let bbs = b_reserved b - 1 in if bbs = b_info_sector b then bbs - 1 else bbs)"

text \<open>The boot sector in memory and the state afterwards.\<close>

definition check_backup_boot :: "byte list \<Rightarrow> nat \<Rightarrow> fsck \<Rightarrow> (byte list \<times> fsck) exit" where
  "check_backup_boot b lss st =
     (if fs_backupboot_start (fk_fs st) = 0 then
        if b_reserved b < 3 then Inr (b, st)
        else exit_bind (confirm st) (\<lambda>(create, st).
          if create then
            let bbs = backup_sector b
            in exit_bind (int_value (int (bbs * lss))) (\<lambda>start.
               let b = put16 50 bbs b
               in exit_bind (disk_write start b (st\<lparr>fk_fs := (fk_fs st)\<lparr>fs_backupboot_start := start\<rparr>\<rparr>)) (\<lambda>st.
                  exit_bind (disk_write 50 (take 2 (drop 50 b)) st) (\<lambda>st. Inr (b, st))))
          else Inr (b, st))
      else exit_bind (fs_read (fk_io st) (fs_backupboot_start (fk_fs st)) 512) (\<lambda>b2.
        if b \<noteq> b2 \<and> fk_interactive st then
          exit_bind (ask ''123'' st) (\<lambda>(c, st).
            if c = CHR ''1'' then exit_bind (disk_write (fs_backupboot_start (fk_fs st)) b st) (\<lambda>st. Inr (b, st))
            else if c = CHR ''2'' then exit_bind (disk_write 0 b2 st) (\<lambda>st. Inr (b, st))
            else Inr (b, st))
        else Inr (b, st)))"

section \<open>The information sector\<close>

definition init_fsinfo :: "byte list \<Rightarrow> byte list" where
  "init_fsinfo i = put16 510 0xaa55 (put32 492 2 (put32 488 (2 ^ 32 - 1) (put32 484 0x61417272 (put32 0 0x41615252 i))))"

definition fsinfo_ok :: "byte list \<Rightarrow> bool" where
  "fsinfo_ok i \<longleftrightarrow> w32 i 0 = 0x41615252 \<and> w32 i 484 = 0x61417272 \<and> w16 i 510 = 0xaa55"

text \<open>\<open>stack\<close> is what an uninitialised \<open>info_sector\<close> on the stack holds. A new sector: its number, if there is one.\<close>

definition create_fsinfo :: "byte list \<Rightarrow> byte list \<Rightarrow> nat \<Rightarrow> fsck \<Rightarrow> (byte list option \<times> fsck) exit" where
  "create_fsinfo stack b lss st =
     (case find (\<lambda>s. s \<noteq> b_backup_boot b) [1..<b_reserved b] of
        None \<Rightarrow> Inr (None, st)
      | Some s \<Rightarrow>
          exit_bind (disk_write (int (s * lss)) (init_fsinfo stack) st) (\<lambda>st.
          let b = put16 48 s b
          in exit_bind (disk_write 48 (take 2 (drop 48 b)) st) (\<lambda>st.
             exit_bind (if fs_backupboot_start (fk_fs st) \<noteq> 0 then disk_write (fs_backupboot_start (fk_fs st) + 48) (take 2 (drop 48 b)) st
                        else Inr st) (\<lambda>st. Inr (Some b, st)))))"

text \<open>The sector is put right, or its position forgotten.\<close>

definition correct_fsinfo :: "int \<Rightarrow> byte list \<Rightarrow> fsck \<Rightarrow> (int \<times> byte list \<times> fsck) exit" where
  "correct_fsinfo start i st =
     (if fsinfo_ok i then Inr (start, i, st)
      else exit_bind (confirm st) (\<lambda>(correct, st).
        if correct then exit_bind (disk_write start (init_fsinfo i) st) (\<lambda>st. Inr (start, init_fsinfo i, st))
        else Inr (0, i, st)))"

definition find_fsinfo :: "byte list \<Rightarrow> byte list \<Rightarrow> nat \<Rightarrow> fsck \<Rightarrow> (byte list option \<times> fsck) exit" where
  "find_fsinfo stack b lss st =
     (if b_info_sector b \<noteq> 0 then Inr (Some b, st)
      else if fk_interactive st then
        exit_bind (ask ''12'' st) (\<lambda>(c, st). if c = CHR ''1'' then create_fsinfo stack b lss st else Inr (None, st))
      else Inr (None, st))"

definition read_fsinfo :: "byte list \<Rightarrow> byte list \<Rightarrow> nat \<Rightarrow> fsck \<Rightarrow> fsck exit" where
  "read_fsinfo stack b lss st =
     exit_bind (find_fsinfo stack b lss st) (\<lambda>(b, st).
     case b of
       None \<Rightarrow> Inr st
     | Some b \<Rightarrow>
         exit_bind (int_value (int (b_info_sector b * lss))) (\<lambda>start.
         exit_bind (fs_read (fk_io st) start 512) (\<lambda>i.
         exit_bind (correct_fsinfo start i st) (\<lambda>(start, i, st).
         Inr (st\<lparr>fk_fs := (fk_fs st)\<lparr>fs_fsinfo_start := start,
           fs_free_clusters := (if start \<noteq> 0 then to_long (w32 i 488) else fs_free_clusters (fk_fs st))\<rparr>\<rparr>)))))"

section \<open>The geometry\<close>

definition MSDOS_FAT12 :: nat where "MSDOS_FAT12 = 4084"

text \<open>What \<open>read_boot\<close> computes before it knows the width of entries. Division truncates.\<close>

definition boot_total :: "byte list \<Rightarrow> nat" where
  "boot_total b = (if b_sectors b \<noteq> 0 then b_sectors b else b_total_sect b)"

definition boot_fat_length :: "byte list \<Rightarrow> nat" where
  "boot_fat_length b = (if b_fat_length b \<noteq> 0 then b_fat_length b else b_fat32_length b)"

definition quotient :: "int \<Rightarrow> nat \<Rightarrow> int" where
  "quotient d c = (if d \<ge> 0 then d div int c else - (- d div int c))"

definition boot_geometry :: "byte list \<Rightarrow> nat \<Rightarrow> DOS_FS \<Rightarrow> DOS_FS" where
  "boot_geometry b lss fs =
     (let root_start = int ((b_reserved b + b_fats b * boot_fat_length b mod 2 ^ 32) * lss);
          data_start = root_start + int (ROUND_TO_MULTIPLE (b_dir_entries b * 32) lss);
          data_size = int (boot_total b * lss) - data_start
      in fs\<lparr>fs_cluster_size := b_cluster_size b * lss, fs_nfats := int (b_fats b), fs_fat_start := int (b_reserved b * lss),
           fs_root_start := root_start, fs_root_entries := b_dir_entries b, fs_data_start := data_start,
           fs_clusters := nat (quotient data_size (b_cluster_size b * lss) mod 2 ^ 32),
           fs_root_cluster := 0, fs_fsinfo_start := 0, fs_free_clusters := -1\<rparr>)"

text \<open>The FAT32 part.\<close>

definition boot_fat32 :: "byte list \<Rightarrow> byte list \<Rightarrow> nat \<Rightarrow> fsck \<Rightarrow> fsck exit" where
  "boot_fat32 stack b lss st =
     (let fs = (fk_fs st)\<lparr>fs_fat_bits := 32, fs_root_cluster := b_root_cluster b\<rparr>
      in if fs_root_cluster fs = 0 \<and> fs_root_entries fs = 0 then Inl EXIT_FAILURE
         else exit_bind (int_value (int (b_backup_boot b * lss))) (\<lambda>start.
              exit_bind (check_backup_boot b lss (st\<lparr>fk_fs := fs\<lparr>fs_backupboot_start := start\<rparr>\<rparr>)) (\<lambda>(b, st).
              read_fsinfo stack b lss st)))"

text \<open>The width of entries on an Atari; \<open>device_no\<close> is 2 for a floppy disk, 1 or 7 for others that may be one.\<close>

definition atari_fat_bits :: "nat \<Rightarrow> byte list \<Rightarrow> nat \<Rightarrow> DOS_FS \<Rightarrow> nat" where
  "atari_fat_bits device_no b lss fs =
     (if (fs_clusters fs + 2) mod 2 ^ 32 > boot_fat_length b * lss * 8 mod 2 ^ 32 div 16 \<or> device_no = 2
        \<or> (device_no = 1 \<or> device_no = 7) \<and> boot_total b \<in> {720, 1440, 2880} then 12 else 16)"

text \<open>The width of entries.\<close>

definition boot_width :: "nat \<Rightarrow> byte list \<Rightarrow> byte list \<Rightarrow> nat \<Rightarrow> fsck \<Rightarrow> fsck exit" where
  "boot_width device_no stack b lss st =
     (if b_fat_length b = 0 \<and> b_fat32_length b \<noteq> 0 then boot_fat32 stack b lss st
      else let bits = (if \<not> fk_atari_format st then (if fs_clusters (fk_fs st) > MSDOS_FAT12 then 16 else 12)
                       else atari_fat_bits device_no b lss (fk_fs st))
           in Inr (st\<lparr>fk_fs := (fk_fs st)\<lparr>fs_fat_bits := bits\<rparr>\<rparr>))"

text \<open>The size of the table and the final tests.\<close>

definition boot_finish :: "byte list \<Rightarrow> nat \<Rightarrow> fsck \<Rightarrow> fsck exit" where
  "boot_finish b lss st =
     (let bits = fs_fat_bits (fk_fs st); fat_size = boot_fat_length b * lss mod 2 ^ 32;
          fs = (fk_fs st)\<lparr>fs_eff_fat_bits := (if bits = 32 then 28 else bits), fs_fat_size := fat_size\<rparr>
      in if int (fs_clusters fs) > (int (fat_size * 8 div bits) - 2) mod 2 ^ 64
            \<or> fs_root_entries fs = 0 \<and> fs_root_cluster fs = 0
            \<or> fs_root_entries fs mod 16 \<noteq> 0 \<or> lss mod 512 \<noteq> 0
            \<or> \<not> fk_atari_format st \<and> (b_secs_track b = 0 \<or> b_heads b = 0)
         then Inl EXIT_FAILURE else Inr (st\<lparr>fk_fs := fs\<rparr>))"

definition read_boot :: "nat \<Rightarrow> byte list \<Rightarrow> fsck \<Rightarrow> fsck exit" where
  "read_boot device_no stack st =
     exit_bind (fs_read (fk_io st) 0 512) (\<lambda>b.
     let lss = b_sector_size b
     in if lss = 0 \<or> b_cluster_size b * lss = 0 \<or> b_fats b \<noteq> 2 \<and> b_fats b \<noteq> 1 then Inl EXIT_FAILURE
        else exit_bind (fs_test (fk_io st) (int ((boot_total b div 2 * 2 + (2 ^ 32 - 1)) mod 2 ^ 32) * int lss) lss) (\<lambda>_.
             exit_bind (boot_width device_no stack b lss (st\<lparr>fk_fs := boot_geometry b lss (fk_fs st)\<rparr>)) (boot_finish b lss)))"

section \<open>What stays as it was\<close>

text \<open>The steps of \<open>read_boot\<close> keep the disk in order and change three fields of the structure only.\<close>

definition disk_ok :: "fsck \<Rightarrow> bool" where
  "disk_ok st \<longleftrightarrow> io_mode_ok (fk_write_immed st) (fk_io st)"

definition geo_of :: "DOS_FS \<Rightarrow> DOS_FS" where
  "geo_of fs = fs\<lparr>fs_backupboot_start := 0, fs_fsinfo_start := 0, fs_free_clusters := 0\<rparr>"

definition boot_kept :: "fsck \<Rightarrow> fsck \<Rightarrow> bool" where
  "boot_kept a b \<longleftrightarrow> disk_ok b \<and> readable (fk_io b) = readable (fk_io a) \<and> length (contents (fk_io b)) = length (contents (fk_io a))
     \<and> fk_write_immed b = fk_write_immed a \<and> fk_atari_format b = fk_atari_format a \<and> fk_interactive b = fk_interactive a
     \<and> geo_of (fk_fs b) = geo_of (fk_fs a)"

lemma boot_kept_refl: "disk_ok a \<Longrightarrow> boot_kept a a"
  by (simp add: boot_kept_def)

lemma boot_kept_trans: "boot_kept a b \<Longrightarrow> boot_kept b c \<Longrightarrow> boot_kept a c"
  by (simp add: boot_kept_def)

lemma boot_keptD: "boot_kept a b \<Longrightarrow> disk_ok b"
  by (simp add: boot_kept_def)

lemma geo_of_eq:
  assumes "geo_of a = geo_of b"
  shows "fs_clusters a = fs_clusters b" "fs_fat_bits a = fs_fat_bits b" "fs_fat_start a = fs_fat_start b" "fs_nfats a = fs_nfats b"
    "fs_cluster_size a = fs_cluster_size b" "fs_data_start a = fs_data_start b" "fs_root_start a = fs_root_start b"
    "fs_root_entries a = fs_root_entries b" "fs_root_cluster a = fs_root_cluster b"
  using arg_cong [OF assms, of fs_clusters] arg_cong [OF assms, of fs_fat_bits] arg_cong [OF assms, of fs_fat_start] arg_cong [OF assms, of fs_nfats]
    arg_cong [OF assms, of fs_cluster_size] arg_cong [OF assms, of fs_data_start] arg_cong [OF assms, of fs_root_start]
    arg_cong [OF assms, of fs_root_entries] arg_cong [OF assms, of fs_root_cluster]
  by (simp_all add: geo_of_def)

lemma disk_write_ok:
  assumes "disk_write pos d st = Inr st'" "0 \<le> pos" "disk_ok st"
  shows "\<exists>io. st' = st\<lparr>fk_io := io\<rparr> \<and> io_mode_ok (fk_write_immed st) io \<and> contents io = write_at (nat pos) d (contents (fk_io st))
    \<and> readable io = readable (fk_io st)"
proof -
  have ok: "io_ok (fk_io st)" "fk_write_immed st \<longrightarrow> io_changes (fk_io st) = [] \<and> in_disk (fk_io st) pos (length d)"
    using assms by (auto simp: disk_ok_def io_mode_ok_def disk_write_def fs_write_def in_disk_def exit_bind_Inr split: if_splits)
  from fs_write_contents [OF ok(1) assms(2) ok(2)] obtain io where io: "fs_write (fk_write_immed st) pos d (fk_io st) = Inr io"
    "contents io = dev_write pos d (contents (fk_io st))" "io_ok io" "io_bad io = io_bad (fk_io st)" "length (io_dev io) = length (io_dev (fk_io st))"
    "fk_write_immed st \<longrightarrow> io_changes io = []" by blast
  then show ?thesis using assms(1) readable_cong [OF io(4,5)] by (auto simp: disk_write_def dev_write_def io_mode_ok_def)
qed

lemma disk_write_kept: "disk_write pos d st = Inr st' \<Longrightarrow> 0 \<le> pos \<Longrightarrow> disk_ok st \<Longrightarrow> boot_kept st st' \<and> fk_fs st' = fk_fs st"
  using disk_write_ok [of pos d st st'] by (auto simp: boot_kept_def disk_ok_def simp del: length_contents)

lemma ask_kept: "ask valid st = Inr (c, st') \<Longrightarrow> disk_ok st \<Longrightarrow> boot_kept st st' \<and> fk_fs st' = fk_fs st"
  by (auto simp: ask_def exit_bind_Inr boot_kept_def disk_ok_def)

lemma boot_kept_fs: "disk_ok a \<Longrightarrow> geo_of fs = geo_of (fk_fs a) \<Longrightarrow> boot_kept a (a\<lparr>fk_fs := fs\<rparr>)"
  by (simp add: boot_kept_def disk_ok_def)

lemma int_value_nat: "int_value (int n) = Inr x \<longleftrightarrow> n < 2 ^ 31 \<and> x = int n"
  by (auto simp: int_value_def)

lemma confirm_kept: "confirm st = Inr (r, st') \<Longrightarrow> disk_ok st \<Longrightarrow> boot_kept st st' \<and> fk_fs st' = fk_fs st"
  using ask_kept boot_kept_refl by (auto simp: confirm_def exit_bind_Inr split: if_splits)

lemma check_backup_boot_kept:
  assumes "check_backup_boot b lss st = Inr (b', st')" "disk_ok st" "0 \<le> fs_backupboot_start (fk_fs st)"
  shows "boot_kept st st' \<and> 0 \<le> fs_backupboot_start (fk_fs st')"
proof (cases "fs_backupboot_start (fk_fs st) = 0")
  case True
  show ?thesis
  proof (cases "b_reserved b < 3")
    case True
    then show ?thesis using assms boot_kept_refl \<open>fs_backupboot_start (fk_fs st) = 0\<close> by (simp add: check_backup_boot_def)
  next
    case False
    then obtain r s where s: "confirm st = Inr (r, s)"
      and rest: "(if r then
            let bbs = backup_sector b
            in exit_bind (int_value (int (bbs * lss))) (\<lambda>start.
               let b = put16 50 bbs b
               in exit_bind (disk_write start b (s\<lparr>fk_fs := (fk_fs s)\<lparr>fs_backupboot_start := start\<rparr>\<rparr>)) (\<lambda>st.
                  exit_bind (disk_write 50 (take 2 (drop 50 b)) st) (\<lambda>st. Inr (b, st))))
          else Inr (b, s)) = Inr (b', st')"
      using assms(1) True by (simp add: check_backup_boot_def exit_bind_Inr del: exit_bind.simps) blast
    note k = confirm_kept [OF s assms(2)]
    show ?thesis
    proof (cases r)
      case True
      define start where "start = int (backup_sector b * lss)"
      from True rest obtain s1 where s1: "disk_write start (put16 50 (backup_sector b) b) (s\<lparr>fk_fs := (fk_fs s)\<lparr>fs_backupboot_start := start\<rparr>\<rparr>) = Inr s1"
        "disk_write 50 (take 2 (drop 50 (put16 50 (backup_sector b) b))) s1 = Inr st'"
        by (auto simp: Let_def exit_bind_Inr int_value_nat start_def simp del: of_nat_mult)
      have k0: "boot_kept s (s\<lparr>fk_fs := (fk_fs s)\<lparr>fs_backupboot_start := start\<rparr>\<rparr>)"
        using k by (intro boot_kept_fs) (auto simp: geo_of_def dest: boot_keptD)
      have k1: "boot_kept (s\<lparr>fk_fs := (fk_fs s)\<lparr>fs_backupboot_start := start\<rparr>\<rparr>) s1" "fs_backupboot_start (fk_fs s1) = start"
        using disk_write_kept [OF s1(1) _ boot_keptD [OF k0]] by (simp_all add: start_def)
      have k2: "boot_kept s1 st'" "fk_fs st' = fk_fs s1" using disk_write_kept [OF s1(2) _ boot_keptD [OF k1(1)]] by simp_all
      have "boot_kept st st'" using k k0 k1(1) k2(1) boot_kept_trans by blast
      then show ?thesis using k1(2) k2(2) by (simp add: start_def)
    qed (use rest k \<open>fs_backupboot_start (fk_fs st) = 0\<close> in auto)
  qed
next
  case False
  then obtain b2 where rest: "(if b \<noteq> b2 \<and> fk_interactive st then
          exit_bind (ask ''123'' st) (\<lambda>(c, st).
            if c = CHR ''1'' then exit_bind (disk_write (fs_backupboot_start (fk_fs st)) b st) (\<lambda>st. Inr (b, st))
            else if c = CHR ''2'' then exit_bind (disk_write 0 b2 st) (\<lambda>st. Inr (b, st))
            else Inr (b, st))
        else Inr (b, st)) = Inr (b', st')"
    using assms(1) by (simp add: check_backup_boot_def exit_bind_Inr del: exit_bind.simps) blast
  show ?thesis
  proof (cases "b \<noteq> b2 \<and> fk_interactive st")
    case True
    then obtain c s where s: "ask ''123'' st = Inr (c, s)"
      "(if c = CHR ''1'' then exit_bind (disk_write (fs_backupboot_start (fk_fs s)) b s) (\<lambda>st. Inr (b, st))
            else if c = CHR ''2'' then exit_bind (disk_write 0 b2 s) (\<lambda>st. Inr (b, st))
            else Inr (b, s)) = Inr (b', st')" using rest by (auto simp: exit_bind_Inr)
    note k = ask_kept [OF s(1) assms(2)]
    have "boot_kept s st' \<and> fk_fs st' = fk_fs s"
      using s(2) k assms(3) boot_keptD [of st s] boot_kept_refl [of s] disk_write_kept by (auto simp: exit_bind_Inr split: if_splits)
    then show ?thesis using k assms(3) boot_kept_trans by auto
  qed (use rest assms(2,3) boot_kept_refl in auto)
qed

lemma create_fsinfo_kept:
  assumes "create_fsinfo stack b lss st = Inr (r, st')" "disk_ok st" "0 \<le> fs_backupboot_start (fk_fs st)"
  shows "boot_kept st st'"
proof (cases "find (\<lambda>s. s \<noteq> b_backup_boot b) [1..<b_reserved b]")
  case (Some k)
  then obtain s1 s2 where s: "disk_write (int (k * lss)) (init_fsinfo stack) st = Inr s1" "disk_write 48 (take 2 (drop 48 (put16 48 k b))) s1 = Inr s2"
    "(if fs_backupboot_start (fk_fs s2) \<noteq> 0 then disk_write (fs_backupboot_start (fk_fs s2) + 48) (take 2 (drop 48 (put16 48 k b))) s2 else Inr s2) = Inr st'"
    using assms(1) by (auto simp: create_fsinfo_def exit_bind_Inr Let_def simp del: of_nat_mult)
  have k1: "boot_kept st s1" "fk_fs s1 = fk_fs st" using disk_write_kept [OF s(1) _ assms(2)] by simp_all
  have k2: "boot_kept s1 s2" "fk_fs s2 = fk_fs s1" using disk_write_kept [OF s(2) _ boot_keptD [OF k1(1)]] by simp_all
  have "boot_kept s2 st'"
    using s(3) boot_kept_refl [OF boot_keptD [OF k2(1)]] disk_write_kept [OF _ _ boot_keptD [OF k2(1)]] assms(3) k1(2) k2(2) by (auto split: if_splits)
  then show ?thesis using k1(1) k2(1) boot_kept_trans by blast
qed (use assms boot_kept_refl in \<open>simp add: create_fsinfo_def\<close>)

lemma find_fsinfo_kept:
  assumes "find_fsinfo stack b lss st = Inr (r, st')" "disk_ok st" "0 \<le> fs_backupboot_start (fk_fs st)"
  shows "boot_kept st st'"
proof (cases "b_info_sector b = 0 \<and> fk_interactive st")
  case True
  then obtain c s where s: "ask ''12'' st = Inr (c, s)" "(if c = CHR ''1'' then create_fsinfo stack b lss s else Inr (None, s)) = Inr (r, st')"
    using assms(1) by (auto simp: find_fsinfo_def exit_bind_Inr)
  have k: "boot_kept st s" "fk_fs s = fk_fs st" using ask_kept [OF s(1) assms(2)] by simp_all
  have "boot_kept s st'"
    using s(2) create_fsinfo_kept [OF _ boot_keptD [OF k(1)]] boot_kept_refl [OF boot_keptD [OF k(1)]] assms(3) k(2) by (auto split: if_splits)
  then show ?thesis using k(1) boot_kept_trans by blast
qed (use assms(1,2) boot_kept_refl in \<open>auto simp: find_fsinfo_def split: if_splits\<close>)

lemma correct_fsinfo_kept:
  assumes "correct_fsinfo start i st = Inr (start', i', st')" "disk_ok st" "0 \<le> start"
  shows "boot_kept st st'"
proof (cases "fsinfo_ok i")
  case False
  then obtain q s where s: "confirm st = Inr (q, s)"
    "(if q then exit_bind (disk_write start (init_fsinfo i) s) (\<lambda>st. Inr (start, init_fsinfo i, st)) else Inr (0, i, s)) = Inr (start', i', st')"
    using assms(1) by (auto simp: correct_fsinfo_def exit_bind_Inr [of "confirm st"])
  have k: "boot_kept st s" using confirm_kept [OF s(1) assms(2)] by simp
  have "boot_kept s st'"
    using s(2) disk_write_kept [OF _ assms(3) boot_keptD [OF k]] boot_kept_refl [OF boot_keptD [OF k]] by (auto simp: exit_bind_Inr split: if_splits)
  then show ?thesis using k boot_kept_trans by blast
qed (use assms(1,2) boot_kept_refl in \<open>auto simp: correct_fsinfo_def\<close>)

lemma read_fsinfo_kept:
  assumes "read_fsinfo stack b lss st = Inr st'" "disk_ok st" "0 \<le> fs_backupboot_start (fk_fs st)"
  shows "boot_kept st st'"
proof -
  from assms(1) obtain r s where s: "find_fsinfo stack b lss st = Inr (r, s)" by (auto simp: read_fsinfo_def exit_bind_Inr)
  note k = find_fsinfo_kept [OF s assms(2,3)]
  show ?thesis
  proof (cases r)
    case (Some b')
    then obtain i start' i' s1 where s1: "correct_fsinfo (int (b_info_sector b' * lss)) i s = Inr (start', i', s1)"
      "st' = s1\<lparr>fk_fs := (fk_fs s1)\<lparr>fs_fsinfo_start := start', fs_free_clusters := (if start' \<noteq> 0 then to_long (w32 i' 488) else fs_free_clusters (fk_fs s1))\<rparr>\<rparr>"
      using assms(1) s by (auto simp: read_fsinfo_def exit_bind_Inr int_value_nat simp del: of_nat_mult)
    have k1: "boot_kept s s1" using correct_fsinfo_kept [OF s1(1) boot_keptD [OF k]] by simp
    have "boot_kept s1 st'" unfolding s1(2) using boot_keptD [OF k1] by (intro boot_kept_fs) (simp_all add: geo_of_def)
    then show ?thesis using k k1 boot_kept_trans by blast
  qed (use assms(1) s k in \<open>simp add: read_fsinfo_def\<close>)
qed

section \<open>The geometry that results\<close>

abbreviation boot_of :: "fsck \<Rightarrow> byte list" where
  "boot_of st \<equiv> take 512 (contents (fk_io st))"

lemma boot_geometry_simps [simp]:
  "fs_cluster_size (boot_geometry b lss fs) = b_cluster_size b * lss" "fs_nfats (boot_geometry b lss fs) = int (b_fats b)"
  "fs_fat_start (boot_geometry b lss fs) = int (b_reserved b * lss)" "fs_root_entries (boot_geometry b lss fs) = b_dir_entries b"
  "fs_root_start (boot_geometry b lss fs) = int ((b_reserved b + b_fats b * boot_fat_length b mod 2 ^ 32) * lss)"
  "fs_data_start (boot_geometry b lss fs) = fs_root_start (boot_geometry b lss fs) + int (ROUND_TO_MULTIPLE (b_dir_entries b * 32) lss)"
  "fs_clusters (boot_geometry b lss fs)
    = nat (quotient (int (boot_total b * lss) - fs_data_start (boot_geometry b lss fs)) (b_cluster_size b * lss) mod 2 ^ 32)"
  by (simp_all add: boot_geometry_def Let_def)

text \<open>The state that the FAT32 part, or the choice between 12 and 16 bits, leaves.\<close>

lemma boot_width_kept:
  assumes "boot_width device_no stack b lss st = Inr s" "disk_ok st"
  shows "\<exists>bits root. bits \<in> {12, 16, 32} \<and> boot_kept (st\<lparr>fk_fs := (fk_fs st)\<lparr>fs_fat_bits := bits, fs_root_cluster := root\<rparr>\<rparr>) s"
proof (cases "b_fat_length b = 0 \<and> b_fat32_length b \<noteq> 0")
  case True
  define fs where "fs = (fk_fs st)\<lparr>fs_fat_bits := 32, fs_root_cluster := b_root_cluster b\<rparr>"
  define s0 where "s0 = st\<lparr>fk_fs := fs\<lparr>fs_backupboot_start := int (b_backup_boot b * lss)\<rparr>\<rparr>"
  from True assms(1) obtain b' s1 where s1: "check_backup_boot b lss s0 = Inr (b', s1)" "read_fsinfo stack b' lss s1 = Inr s"
    by (auto simp: boot_width_def boot_fat32_def Let_def exit_bind_Inr int_value_nat s0_def fs_def simp del: of_nat_mult split: if_splits)
  have "disk_ok s0" using assms(2) by (simp add: s0_def disk_ok_def)
  note k1 = check_backup_boot_kept [OF s1(1) this]
  have "boot_kept s0 s" using k1 read_fsinfo_kept [OF s1(2)] boot_keptD [of s0 s1] boot_kept_trans by (auto simp: s0_def)
  moreover have "boot_kept (st\<lparr>fk_fs := fs\<rparr>) s0"
    unfolding s0_def using assms(2) boot_kept_fs [of "st\<lparr>fk_fs := fs\<rparr>" "fs\<lparr>fs_backupboot_start := int (b_backup_boot b * lss)\<rparr>"]
    by (simp add: disk_ok_def geo_of_def)
  ultimately have "boot_kept (st\<lparr>fk_fs := fs\<rparr>) s" using boot_kept_trans by blast
  then show ?thesis unfolding fs_def by blast
next
  case False
  then obtain bits where bits: "s = st\<lparr>fk_fs := (fk_fs st)\<lparr>fs_fat_bits := bits\<rparr>\<rparr>" "bits \<in> {12, 16}"
    using assms(1) by (auto simp: boot_width_def Let_def atari_fat_bits_def split: if_splits)
  have "boot_kept (st\<lparr>fk_fs := (fk_fs st)\<lparr>fs_fat_bits := bits, fs_root_cluster := fs_root_cluster (fk_fs st)\<rparr>\<rparr>) s"
    using assms(2) unfolding bits(1) by (simp add: boot_kept_def disk_ok_def)
  then show ?thesis using bits(2) by blast
qed

lemma read_boot_result:
  assumes "read_boot device_no stack st = Inr st'" "disk_ok st"
  defines "b \<equiv> boot_of st" and "lss \<equiv> b_sector_size (boot_of st)"
  obtains bits root s where "0 < lss" "0 < b_cluster_size b" "b_fats b = 1 \<or> b_fats b = 2" "lss mod 512 = 0" "bits \<in> {12, 16, 32}"
    and "boot_kept (st\<lparr>fk_fs := (boot_geometry b lss (fk_fs st))\<lparr>fs_fat_bits := bits, fs_root_cluster := root\<rparr>\<rparr>) s"
    and "fk_fs st' = (fk_fs s)\<lparr>fs_eff_fat_bits := (if bits = 32 then 28 else bits), fs_fat_size := boot_fat_length b * lss mod 2 ^ 32\<rparr>"
    and "st' = s\<lparr>fk_fs := fk_fs st'\<rparr>"
    and "int (fs_clusters (fk_fs st')) \<le> (int (fs_fat_size (fk_fs st') * 8 div bits) - 2) mod 2 ^ 64"
proof -
  have "io_ok (fk_io st)" using assms(2) by (simp add: disk_ok_def io_mode_ok_def)
  from fs_read_contents [OF this, of 0 512] have rd: "fs_read (fk_io st) 0 512 = Inr b" using assms(1)
    by (auto simp: b_def read_boot_def split: if_splits)
  let ?st = "st\<lparr>fk_fs := boot_geometry b lss (fk_fs st)\<rparr>"
  have pre: "lss \<noteq> 0" "b_cluster_size b * lss \<noteq> 0" "b_fats b = 2 \<or> b_fats b = 1"
    using assms(1) rd by (auto simp: read_boot_def lss_def b_def Let_def split: if_splits)
  obtain s where s: "boot_width device_no stack b lss ?st = Inr s" and fin: "boot_finish b lss s = Inr st'"
    using assms(1) rd pre by (auto simp: read_boot_def lss_def b_def Let_def exit_bind_Inr split: if_splits)
  have "disk_ok ?st" using assms(2) by (simp add: disk_ok_def)
  from boot_width_kept [OF s this] obtain bits root where k: "bits \<in> {12, 16, 32}"
    "boot_kept (st\<lparr>fk_fs := (boot_geometry b lss (fk_fs st))\<lparr>fs_fat_bits := bits, fs_root_cluster := root\<rparr>\<rparr>) s" by auto
  have bits: "fs_fat_bits (fk_fs s) = bits" using k(2) by (auto simp: boot_kept_def dest: geo_of_eq(2))
  have st': "st' = s\<lparr>fk_fs := (fk_fs s)\<lparr>fs_eff_fat_bits := (if bits = 32 then 28 else bits), fs_fat_size := boot_fat_length b * lss mod 2 ^ 32\<rparr>\<rparr>"
    "lss mod 512 = 0" "int (fs_clusters (fk_fs s)) \<le> (int (boot_fat_length b * lss mod 2 ^ 32 * 8 div bits) - 2) mod 2 ^ 64"
    using fin bits by (simp_all add: boot_finish_def Let_def split: if_splits)
  show thesis by (rule that [of bits root s]) (use pre k st' in auto)
qed

lemma read_boot_disk_ok:
  assumes "read_boot device_no stack st = Inr st'" "disk_ok st"
  shows "disk_ok st'"
proof -
  obtain s fs where "disk_ok s" "st' = s\<lparr>fk_fs := fs\<rparr>" by (rule read_boot_result [OF assms]) (blast dest: boot_keptD)
  then show ?thesis by (simp add: disk_ok_def)
qed

lemma round_up: "n \<le> ROUND_TO_MULTIPLE n m" if "0 < m"
proof (cases n)
  case (Suc k)
  have "k mod m < m" using that by simp
  then show ?thesis using Suc by (simp add: ROUND_TO_MULTIPLE_def)
qed (simp add: ROUND_TO_MULTIPLE_def)

lemma quotient_bound:
  assumes "0 \<le> d" "0 < c" "k < nat (quotient d c mod 2 ^ 32)"
  shows "int (Suc k * c) \<le> d"
proof -
  have "0 \<le> d div int c" using assms(1) by (simp add: pos_imp_zdiv_nonneg_iff assms(2))
  moreover have "(d div int c) mod 2 ^ 32 \<le> d div int c" using calculation by (intro zmod_le_nonneg_dividend)
  ultimately have "int (Suc k) \<le> d div int c" using assms(1,3) by (simp add: quotient_def nat_less_iff zless_nat_eq_int_zless)
  then have "int (Suc k) * int c \<le> d div int c * int c" by (intro mult_right_mono) simp_all
  also have "\<dots> \<le> d" using div_mult_mod_eq [of d "int c"] pos_mod_sign [of "int c" d] assms(2) by linarith
  finally show ?thesis by (simp add: algebra_simps)
qed

lemma boot_geometry_ok:
  assumes "read_boot device_no stack st = Inr st'" "disk_ok st"
  defines "fs \<equiv> fk_fs st'" and "b \<equiv> boot_of st"
  shows "0 < fs_cluster_size fs \<and> fs_nfats fs \<in> {1, 2} \<and> (fs_fat_bits fs, fs_eff_fat_bits fs) \<in> {(12, 12), (16, 16), (32, 28)} \<and> 0 \<le> fs_fat_start fs
    \<and> (2 \<le> fs_fat_size fs * 8 div fs_fat_bits fs \<longrightarrow> (fs_clusters fs + 2) * fs_fat_bits fs \<le> fs_fat_size fs * 8)
    \<and> (b_fats b * boot_fat_length b < 2 ^ 32 \<and> boot_fat_length b * b_sector_size b < 2 ^ 32
         \<longrightarrow> fs_root_start fs = fs_fat_start fs + fs_nfats fs * int (fs_fat_size fs))
    \<and> fs_root_start fs + int (fs_root_entries fs * 32) \<le> fs_data_start fs
    \<and> (fs_data_start fs \<le> int (boot_total b * b_sector_size b) \<longrightarrow> (\<forall>c. 2 \<le> c \<and> c < fs_clusters fs + 2
         \<longrightarrow> fs_data_start fs \<le> cluster_start fs c \<and> cluster_start fs c + int (fs_cluster_size fs) \<le> int (boot_total b * b_sector_size b)))"
proof -
  define lss where "lss = b_sector_size b"
  from read_boot_result [OF assms(1,2), folded b_def lss_def] obtain bits root s where r: "0 < lss" "0 < b_cluster_size b" "b_fats b = 1 \<or> b_fats b = 2"
    "bits \<in> {12, 16, 32}" "boot_kept (st\<lparr>fk_fs := (boot_geometry b lss (fk_fs st))\<lparr>fs_fat_bits := bits, fs_root_cluster := root\<rparr>\<rparr>) s"
    "fs = (fk_fs s)\<lparr>fs_eff_fat_bits := (if bits = 32 then 28 else bits), fs_fat_size := boot_fat_length b * lss mod 2 ^ 32\<rparr>"
    "int (fs_clusters fs) \<le> (int (fs_fat_size fs * 8 div bits) - 2) mod 2 ^ 64"
    unfolding fs_def lss_def b_def by metis
  define g where "g = boot_geometry b lss (fk_fs st)"
  have "geo_of (fk_fs s) = geo_of (g\<lparr>fs_fat_bits := bits, fs_root_cluster := root\<rparr>)" using r(5) by (simp add: boot_kept_def g_def)
  note eqs = geo_of_eq [OF this]
  have f: "fs_cluster_size fs = b_cluster_size b * lss" "fs_nfats fs = int (b_fats b)" "fs_fat_start fs = int (b_reserved b * lss)"
    "fs_root_entries fs = b_dir_entries b" "fs_root_start fs = fs_root_start g" "fs_data_start fs = fs_data_start g" "fs_clusters fs = fs_clusters g"
    "fs_fat_bits fs = bits" "fs_eff_fat_bits fs = (if bits = 32 then 28 else bits)" "fs_fat_size fs = boot_fat_length b * lss mod 2 ^ 32"
    by (simp_all add: r(6) eqs) (simp_all add: g_def)
  have fit: "(fs_clusters fs + 2) * bits \<le> fs_fat_size fs * 8" if two: "2 \<le> fs_fat_size fs * 8 div bits"
  proof -
    define q where "q = fs_fat_size fs * 8 div bits"
    have "fs_fat_size fs < 2 ^ 32" by (simp add: f(10))
    then have "fs_fat_size fs * 8 < 2 ^ 64" by simp
    then have "q < 2 ^ 64" using div_le_dividend [of "fs_fat_size fs * 8" bits] unfolding q_def by (rule le_less_trans [rotated])
    then have "(int q - 2) mod 2 ^ 64 = int q - 2" using two by (intro mod_pos_pos_trivial) (simp_all add: q_def)
    then have "fs_clusters fs + 2 \<le> q" using r(7) two by (simp add: q_def)
    then have "(fs_clusters fs + 2) * bits \<le> q * bits" by (rule mult_le_mono1)
    also have "\<dots> \<le> fs_fat_size fs * 8" unfolding q_def by (rule div_times_less_eq_dividend)
    finally show ?thesis .
  qed
  have root: "fs_root_start fs = fs_fat_start fs + fs_nfats fs * int (fs_fat_size fs)"
    if "b_fats b * boot_fat_length b < 2 ^ 32" "boot_fat_length b * lss < 2 ^ 32"
    using that by (simp add: f(2,3,5,10)) (simp add: g_def algebra_simps)
  have room: "fs_root_start fs + int (fs_root_entries fs * 32) \<le> fs_data_start fs"
    using round_up [OF r(1), of "b_dir_entries b * 32"] by (simp add: f(4-6)) (simp add: g_def)
  have inside: "fs_data_start fs \<le> cluster_start fs c \<and> cluster_start fs c + int (fs_cluster_size fs) \<le> int (boot_total b * lss)"
    if d: "fs_data_start fs \<le> int (boot_total b * lss)" and c: "2 \<le> c" "c < fs_clusters fs + 2" for c
  proof -
    obtain k where k: "c = k + 2" using c(1) by (metis add.commute le_Suc_ex)
    have "k < nat (quotient (int (boot_total b * lss) - fs_data_start fs) (b_cluster_size b * lss) mod 2 ^ 32)"
      using c(2) k by (simp add: f(6,7)) (simp add: g_def)
    then have "int (Suc k * (b_cluster_size b * lss)) \<le> int (boot_total b * lss) - fs_data_start fs"
      using d r(1,2) by (intro quotient_bound) simp_all
    then show ?thesis by (simp add: cluster_start_def k f(1) algebra_simps)
  qed
  show ?thesis using r(1-4) fit root room inside unfolding lss_def [symmetric] by (auto simp: f(1-3,8,9))
qed

text \<open>
  C28. When \<open>read_boot\<close> returns, the geometry is consistent: one or two tables with entries of 12, 16 or 32 bits (28 of them used);
  the clusters, and the two numbers before the first, fit the table, provided it has room for two
  entries at all; the root directory follows the tables, provided their size in bytes does not overflow,
  and the data area follows the root directory; and every cluster lies in the data area and ends before the
  last sector does, provided the data area begins before it.
\<close>

theorem read_boot_geometry:
  assumes "read_boot device_no stack st = Inr st'" "disk_ok st"
  defines "fs \<equiv> fk_fs st'" and "b \<equiv> boot_of st"
  shows "0 < fs_cluster_size fs \<and> fs_nfats fs \<in> {1, 2} \<and> (fs_fat_bits fs, fs_eff_fat_bits fs) \<in> {(12, 12), (16, 16), (32, 28)} \<and> 0 \<le> fs_fat_start fs
    \<and> (2 \<le> fs_fat_size fs * 8 div fs_fat_bits fs \<longrightarrow> (fs_clusters fs + 2) * fs_fat_bits fs \<le> fs_fat_size fs * 8)
    \<and> (b_fats b * boot_fat_length b < 2 ^ 32 \<and> boot_fat_length b * b_sector_size b < 2 ^ 32
         \<longrightarrow> fs_root_start fs = fs_fat_start fs + fs_nfats fs * int (fs_fat_size fs))
    \<and> fs_root_start fs + int (fs_root_entries fs * 32) \<le> fs_data_start fs
    \<and> (fs_data_start fs \<le> int (boot_total b * b_sector_size b) \<longrightarrow> (\<forall>c. 2 \<le> c \<and> c < fs_clusters fs + 2
         \<longrightarrow> fs_data_start fs \<le> cluster_start fs c \<and> cluster_start fs c + int (fs_cluster_size fs) \<le> int (boot_total b * b_sector_size b)))"
  unfolding fs_def b_def by (rule boot_geometry_ok [OF assms(1,2)])

text \<open>A floppy disk of twelve sectors with empty tables.\<close>

definition boot_bytes :: "byte list" where
  "boot_bytes = [0, 0, 0, 0, 0, 0, 0, 0, 0, 0, 0, 0, 2, 1, 1, 0, 2, 16, 0, 12, 0, 0xf0, 1, 0, 1, 0, 1, 0] @ replicate 484 0"

definition floppy :: fsck where
  "floppy = sample (sample_fs 12 12 0) (boot_bytes @ replicate 5632 0)"

lemma boot_bytes_fields:
  "w16 boot_bytes 11 = 512" "w8 boot_bytes 13 = 1" "w16 boot_bytes 14 = 1" "w8 boot_bytes 16 = 2" "w16 boot_bytes 17 = 16" "w16 boot_bytes 19 = 12"
  "w16 boot_bytes 22 = 1" "w16 boot_bytes 24 = 1" "w16 boot_bytes 26 = 1" "length boot_bytes = 512"
  by (simp_all add: boot_bytes_def w16_def w8_def le_value_def)

lemma floppy_simps:
  "boot_of floppy = boot_bytes" "disk_ok floppy" "length (contents (fk_io floppy)) = 6144" "readable (fk_io floppy) p n \<longleftrightarrow> 0 \<le> p \<and> nat p + n \<le> 6144"
  using boot_bytes_fields(10)
  by (simp_all add: floppy_def sample_def contents_def disk_ok_def io_mode_ok_def io_ok_def readable_def in_disk_def list_ex_iff)

lemma floppy_boot: "\<exists>st'. read_boot 0 [] floppy = Inr st' \<and> fs_nfats (fk_fs st') = 2 \<and> fs_fat_bits (fk_fs st') = 12 \<and> fs_eff_fat_bits (fk_fs st') = 12
   \<and> fs_clusters (fk_fs st') = 8 \<and> fs_fat_start (fk_fs st') = 512 \<and> fs_fat_size (fk_fs st') = 512 \<and> fk_io st' = fk_io floppy \<and> fs_data_start (fk_fs st') = 2048"
proof -
  have "io_ok (fk_io floppy)" using floppy_simps(2) by (simp add: disk_ok_def io_mode_ok_def)
  then have rd: "fs_read (fk_io floppy) 0 512 = Inr boot_bytes" using fs_read_contents [of "fk_io floppy" 0 512] floppy_simps(1,4) by simp
  have tst: "\<exists>r. fs_test (fk_io floppy) 5632 512 = Inr r" by (simp add: fs_test_def)
  note f = boot_bytes_fields
  define g where "g = boot_geometry boot_bytes 512 (fk_fs floppy)"
  have fl: "boot_total boot_bytes = 12" "boot_fat_length boot_bytes = 1" by (simp_all add: boot_total_def boot_fat_length_def f)
  have g: "fs_clusters g = 8" "fs_root_entries g = 16" "fs_nfats g = 2" "fs_fat_start g = 512" "fs_data_start g = 2048"
    by (simp_all add: g_def f fl ROUND_TO_MULTIPLE_def quotient_def)
  have at: "\<not> fk_atari_format floppy" by (simp add: floppy_def sample_def)
  have w: "boot_width 0 [] boot_bytes 512 (floppy\<lparr>fk_fs := g\<rparr>) = Inr (floppy\<lparr>fk_fs := g\<lparr>fs_fat_bits := 12\<rparr>\<rparr>)"
    using g(1) at f(7) by (simp add: boot_width_def MSDOS_FAT12_def)
  have "boot_finish boot_bytes 512 (floppy\<lparr>fk_fs := g\<lparr>fs_fat_bits := 12\<rparr>\<rparr>)
      = Inr (floppy\<lparr>fk_fs := g\<lparr>fs_fat_bits := 12, fs_eff_fat_bits := 12, fs_fat_size := 512\<rparr>\<rparr>)"
    using g f fl by (simp add: boot_finish_def Let_def)
  then have "read_boot 0 [] floppy = Inr (floppy\<lparr>fk_fs := g\<lparr>fs_fat_bits := 12, fs_eff_fat_bits := 12, fs_fat_size := 512\<rparr>\<rparr>)"
    using rd tst f fl w by (auto simp: read_boot_def Let_def g_def [symmetric])
  then show ?thesis using g by simp
qed

theorem read_boot_geometry_witness:
  "\<exists>st'. read_boot 0 [] floppy = Inr st' \<and> (\<forall>c. 2 \<le> c \<and> c < 10 \<longrightarrow> cluster_start (fk_fs st') c + int (fs_cluster_size (fk_fs st')) \<le> 6144)"
proof -
  obtain st' where st': "read_boot 0 [] floppy = Inr st'" "fs_clusters (fk_fs st') = 8" "fs_data_start (fk_fs st') = 2048" using floppy_boot by blast
  from read_boot_geometry [OF st'(1) floppy_simps(2)] st' show ?thesis
    by (auto simp: floppy_simps(1) boot_total_def boot_bytes_fields)
qed

section \<open>The backup and the boot sector agree\<close>

lemma field_slice: "length b = 512 \<Longrightarrow> k + n \<le> 512 \<Longrightarrow> length v = n \<Longrightarrow> take n (drop k (write_at k v b)) = v"
  using slice_write_same [of k v b] by simp

lemma init_fsinfo_valid:
  assumes "length i = 512"
  shows "length (init_fsinfo i) = 512" "fsinfo_ok (init_fsinfo i)"
proof -
  show "length (init_fsinfo i) = 512" using assms by (simp add: init_fsinfo_def put16_def put32_def)
  have "w16 (init_fsinfo i) 510 = 0xaa55"
    unfolding init_fsinfo_def w16_def put16_def by (subst field_slice) (simp_all add: put32_def le_value_le_bytes assms)
  moreover have "w32 (init_fsinfo i) 484 = 0x61417272"
    using assms by (simp add: init_fsinfo_def w32_def put16_def put32_def slice_write_out field_slice le_value_le_bytes)
  moreover have "w32 (init_fsinfo i) 0 = 0x41615252"
    using assms slice_write_same [of 0 "le_bytes 4 0x41615252" i]
    by (simp add: init_fsinfo_def w32_def put16_def put32_def slice_write_out [of _ _ 0, simplified] le_value_le_bytes)
  ultimately show "fsinfo_ok (init_fsinfo i)" by (simp add: fsinfo_ok_def)
qed

lemma backup_sector_range:
  assumes "3 \<le> b_reserved b"
  shows "1 \<le> backup_sector b" "backup_sector b < b_reserved b" "backup_sector b \<noteq> b_info_sector b"
  using assms by (auto simp: backup_sector_def Let_def)

text \<open>Sectors of at least 512 bytes do not overlap.\<close>

lemma sectors_apart: "512 \<le> lss \<Longrightarrow> j < k \<Longrightarrow> j * lss + 512 \<le> k * (lss :: nat)"
  using mult_le_mono1 [of "Suc j" k lss] by simp

lemma check_backup_boot_creates:
  assumes "check_backup_boot b lss st = Inr (b', st')" "disk_ok st" "fs_backupboot_start (fk_fs st) = 0" "\<not> fk_interactive st" "3 \<le> b_reserved b"
    and "length b = 512" "512 \<le> lss" "boot_of st = b" "b_reserved b * lss \<le> length (contents (fk_io st))"
  defines "k \<equiv> backup_sector b"
  shows "b' = put16 50 k b" "fs_backupboot_start (fk_fs st') = int (k * lss)" "disk_ok st'" "boot_of st' = b'"
    "take 512 (drop (k * lss) (contents (fk_io st'))) = b'" "length (contents (fk_io st')) = length (contents (fk_io st))" "\<not> fk_interactive st'"
proof -
  note k = backup_sector_range [OF assms(5), folded k_def]
  define start where "start = int (k * lss)"
  define c where "c = put16 50 k b"
  have c: "length c = 512" using assms(6) by (simp add: c_def put16_def)
  from assms(1,3-5) obtain s1 where s1: "disk_write start c (st\<lparr>fk_fs := (fk_fs st)\<lparr>fs_backupboot_start := start\<rparr>\<rparr>) = Inr s1"
    "disk_write 50 (take 2 (drop 50 c)) s1 = Inr st'" "b' = c"
    by (auto simp: check_backup_boot_def confirm_def Let_def exit_bind_Inr int_value_nat start_def c_def k_def simp del: of_nat_mult)
  show b': "b' = put16 50 k b" by (simp add: s1(3) c_def)
  have "disk_ok (st\<lparr>fk_fs := (fk_fs st)\<lparr>fs_backupboot_start := start\<rparr>\<rparr>)" using assms(2) by (simp add: disk_ok_def)
  from disk_write_ok [OF s1(1) _ this] obtain io1 where io1: "s1 = st\<lparr>fk_fs := (fk_fs st)\<lparr>fs_backupboot_start := start\<rparr>, fk_io := io1\<rparr>"
    "io_mode_ok (fk_write_immed st) io1" "contents io1 = write_at (k * lss) c (contents (fk_io st))" by (auto simp: start_def simp del: of_nat_mult)
  have "disk_ok s1" using io1(1,2) by (simp add: disk_ok_def)
  from disk_write_ok [OF s1(2) _ this] obtain io2 where io2: "st' = s1\<lparr>fk_io := io2\<rparr>" "io_mode_ok (fk_write_immed st) io2"
    "contents io2 = write_at 50 (take 2 (drop 50 c)) (contents io1)" by (auto simp: io1(1))
  show "fs_backupboot_start (fk_fs st') = int (k * lss)" "disk_ok st'" "\<not> fk_interactive st'"
    using io2(1,2) io1(1) assms(4) by (simp_all add: start_def disk_ok_def)
  let ?C = "contents (fk_io st)"
  have C: "contents (fk_io st') = write_at 50 (take 2 (drop 50 c)) (write_at (k * lss) c ?C)" using io2(1,3) io1(3) by simp
  show len: "length (contents (fk_io st')) = length ?C" unfolding C by simp
  have far: "512 \<le> k * lss" "k * lss + 512 \<le> length ?C"
    using sectors_apart [OF assms(7), of 0 k] sectors_apart [OF assms(7) k(2)] k(1) assms(9) by simp_all
  show "take 512 (drop (k * lss) (contents (fk_io st'))) = b'"
    using slice_write_same [of "k * lss" c ?C] far c unfolding C by (simp add: slice_write_out s1(3))
  have "boot_of st' = write_at 50 (take 2 (drop 50 c)) (take 512 (write_at (k * lss) c ?C))"
    unfolding C using slice_write_in [of 50 "take 2 (drop 50 c)" 512 0 "write_at (k * lss) c ?C"] far by (simp del: length_contents)
  also have "take 512 (write_at (k * lss) c ?C) = b" using slice_write_out [of "k * lss" c 0 512 ?C] far(1) assms(8) by simp
  also have "take 2 (drop 50 c) = le_bytes 2 k" using assms(6) by (simp add: c_def put16_def field_slice)
  finally show "boot_of st' = b'" by (simp add: b' put16_def)
qed

lemma read_fsinfo_corrects:
  assumes "read_fsinfo stack b lss st = Inr st'" "disk_ok st" "\<not> fk_interactive st" "b_info_sector b \<noteq> 0"
  defines "p \<equiv> b_info_sector b * lss"
  shows "fs_backupboot_start (fk_fs st') = fs_backupboot_start (fk_fs st)" "fsinfo_ok (take 512 (drop p (contents (fk_io st'))))"
    "\<And>q. q + 512 \<le> p \<or> p + 512 \<le> q \<Longrightarrow> take 512 (drop q (contents (fk_io st'))) = take 512 (drop q (contents (fk_io st)))"
proof -
  define i where "i = take 512 (drop p (contents (fk_io st)))"
  have iok: "io_ok (fk_io st)" using assms(2) by (simp add: disk_ok_def io_mode_ok_def)
  from assms(1,3,4) obtain i0 start' i' s1 where s1: "fs_read (fk_io st) (int p) 512 = Inr i0" "correct_fsinfo (int p) i0 st = Inr (start', i', s1)"
    "st' = s1\<lparr>fk_fs := (fk_fs s1)\<lparr>fs_fsinfo_start := start', fs_free_clusters := (if start' \<noteq> 0 then to_long (w32 i' 488) else fs_free_clusters (fk_fs s1))\<rparr>\<rparr>"
    by (auto simp: read_fsinfo_def find_fsinfo_def exit_bind_Inr int_value_nat p_def simp del: of_nat_mult)
  have i: "i0 = i" "readable (fk_io st) (int p) 512" using s1(1) by (auto simp: fs_read_contents [OF iok] i_def split: if_splits)
  then have len: "p + 512 \<le> length (contents (fk_io st))" by (simp add: readable_def in_disk_def)
  then have len_i: "length i = 512" by (simp add: i_def del: length_contents)
  have "fk_fs s1 = fk_fs st \<and> fsinfo_ok (take 512 (drop p (contents (fk_io s1))))
    \<and> (\<forall>q. q + 512 \<le> p \<or> p + 512 \<le> q \<longrightarrow> take 512 (drop q (contents (fk_io s1))) = take 512 (drop q (contents (fk_io st))))"
  proof (cases "fsinfo_ok i")
    case True
    then show ?thesis using s1(2) i(1) by (simp add: correct_fsinfo_def i_def)
  next
    case False
    then have w: "disk_write (int p) (init_fsinfo i) st = Inr s1" using s1(2) i(1) assms(3) by (auto simp: correct_fsinfo_def confirm_def exit_bind_Inr)
    from disk_write_ok [OF w _ assms(2)] obtain io where io: "s1 = st\<lparr>fk_io := io\<rparr>" "contents io = write_at p (init_fsinfo i) (contents (fk_io st))" by auto
    note v = init_fsinfo_valid [OF len_i]
    have "take 512 (drop p (contents io)) = init_fsinfo i"
      using slice_write_same [of p "init_fsinfo i" "contents (fk_io st)"] len v(1) by (simp add: io(2) del: length_contents)
    then show ?thesis using v by (auto simp: io slice_write_out)
  qed
  then show "fs_backupboot_start (fk_fs st') = fs_backupboot_start (fk_fs st)" "fsinfo_ok (take 512 (drop p (contents (fk_io st'))))"
    "\<And>q. q + 512 \<le> p \<or> p + 512 \<le> q \<Longrightarrow> take 512 (drop q (contents (fk_io st'))) = take 512 (drop q (contents (fk_io st)))"
    unfolding s1(3) by auto
qed

lemma read_fsinfo_none: "b_info_sector b = 0 \<Longrightarrow> \<not> fk_interactive st \<Longrightarrow> read_fsinfo stack b lss st = Inr st"
  by (simp add: read_fsinfo_def find_fsinfo_def)

text \<open>
  C29. A FAT32 file system without backup of its boot sector gets one, when it has three reserved sectors and
  nobody is asked: after \<open>read_boot\<close> the boot sector and the backup agree, the backup is in a reserved sector
  that is neither the boot sector nor the information sector, the boot sector says where, and the
  information sector, if there is one, is valid.
\<close>

theorem backup_created:
  assumes "read_boot device_no stack st = Inr st'" "disk_ok st" "\<not> fk_interactive st"
  defines "b \<equiv> boot_of st" and "lss \<equiv> b_sector_size (boot_of st)"
  assumes "b_fat_length b = 0" "b_fat32_length b \<noteq> 0" "b_backup_boot b = 0" "3 \<le> b_reserved b"
    "b_reserved b * lss \<le> length (contents (fk_io st))" "b_info_sector b < b_reserved b"
  shows "\<exists>k. 1 \<le> k \<and> k < b_reserved b \<and> k \<noteq> b_info_sector b \<and> fs_backupboot_start (fk_fs st') = int (k * lss)
    \<and> take 512 (drop (k * lss) (contents (fk_io st'))) = boot_of st' \<and> boot_of st' = put16 50 k b \<and> b_backup_boot (boot_of st') = k
    \<and> (b_info_sector b \<noteq> 0 \<longrightarrow> fsinfo_ok (take 512 (drop (b_info_sector b * lss) (contents (fk_io st')))))"
proof -
  let ?k = "backup_sector b"
  note k = backup_sector_range [OF assms(9)]
  from read_boot_result [OF assms(1,2), folded b_def lss_def] have lss: "512 \<le> lss" by (metis dvd_imp_le mod_0_imp_dvd)
  have "io_ok (fk_io st)" using assms(2) by (simp add: disk_ok_def io_mode_ok_def)
  from fs_read_contents [OF this, of 0 512] have rd: "fs_read (fk_io st) 0 512 = Inr b" using assms(1)
    by (auto simp: b_def read_boot_def split: if_splits)
  define g where "g = (boot_geometry b lss (fk_fs st))\<lparr>fs_fat_bits := 32, fs_root_cluster := b_root_cluster b, fs_backupboot_start := 0\<rparr>"
  define s0 where "s0 = st\<lparr>fk_fs := g\<rparr>"
  from assms(1) rd obtain s where s: "boot_width device_no stack b lss (st\<lparr>fk_fs := boot_geometry b lss (fk_fs st)\<rparr>) = Inr s" "boot_finish b lss s = Inr st'"
    by (auto simp: read_boot_def lss_def b_def Let_def exit_bind_Inr split: if_splits)
  from s(1) assms(6-8) obtain b' s1 where s1: "check_backup_boot b lss s0 = Inr (b', s1)" "read_fsinfo stack b' lss s1 = Inr s"
    by (auto simp: boot_width_def boot_fat32_def Let_def exit_bind_Inr int_value_def s0_def g_def split: if_splits)
  have s0: "disk_ok s0" "fs_backupboot_start (fk_fs s0) = 0" "\<not> fk_interactive s0" "boot_of s0 = b" "fk_io s0 = fk_io st"
    using assms(2,3) by (simp_all add: s0_def g_def disk_ok_def b_def)
  have "512 \<le> length (contents (fk_io st))" using sectors_apart [OF lss, of 0 "b_reserved b"] assms(9,10) by simp
  then have lenb: "length b = 512" by (simp add: b_def del: length_contents)
  note c = check_backup_boot_creates [OF s1(1) s0(1-3) assms(9) lenb lss s0(4), unfolded s0(5), OF assms(10)]
  have info: "b_info_sector b' = b_info_sector b" by (simp add: c(1) w16_def put16_def slice_write_out)
  have bb: "b_backup_boot b' = ?k"
  proof -
    have "b_reserved b < 256 ^ 2" using le_value_less [of "take 2 (drop 14 b)"] lenb by (simp add: w16_def)
    then show ?thesis using k(2) lenb by (simp add: c(1) w16_def put16_def field_slice le_value_le_bytes)
  qed
  have st': "contents (fk_io st') = contents (fk_io s)" "fs_backupboot_start (fk_fs st') = fs_backupboot_start (fk_fs s)"
    using s(2) by (auto simp: boot_finish_def Let_def split: if_splits)
  have "fs_backupboot_start (fk_fs s) = int (?k * lss) \<and> take 512 (drop (?k * lss) (contents (fk_io s))) = b' \<and> boot_of s = b'
    \<and> (b_info_sector b \<noteq> 0 \<longrightarrow> fsinfo_ok (take 512 (drop (b_info_sector b * lss) (contents (fk_io s)))))"
  proof (cases "b_info_sector b = 0")
    case True
    then show ?thesis using s1(2) read_fsinfo_none [of b' s1] c(2,4,5,7) info by simp
  next
    case False
    let ?p = "b_info_sector b * lss"
    note r = read_fsinfo_corrects [OF s1(2) c(3,7), unfolded info, OF False]
    have "0 + 512 \<le> ?p" using sectors_apart [OF lss, of 0 "b_info_sector b"] False by simp
    moreover have "?k * lss + 512 \<le> ?p \<or> ?p + 512 \<le> ?k * lss" using k(3) sectors_apart [OF lss] by (metis nat_neq_iff)
    ultimately show ?thesis using r(1,2) r(3) [of 0] r(3) [of "?k * lss"] c(2,4,5) by simp
  qed
  then show ?thesis using k bb c(1) unfolding st' by (intro exI [of _ ?k]) simp
qed

text \<open>A FAT32 file system of 128 sectors, three of them reserved, without information sector and backup.\<close>

definition boot32_bytes :: "byte list" where
  "boot32_bytes = [0, 0, 0, 0, 0, 0, 0, 0, 0, 0, 0, 0, 2, 1, 3, 0, 2, 0, 0, 128, 0, 0xf8, 0, 0, 1, 0, 1, 0, 0, 0, 0, 0, 0, 0, 0, 0, 1, 0, 0, 0,
     0, 0, 0, 0, 2, 0, 0, 0, 0, 0, 0, 0] @ replicate 460 0"

definition disk32 :: fsck where
  "disk32 = sample (sample_fs 12 12 0) (boot32_bytes @ replicate 65024 0)"

lemma boot32_fields:
  "w16 boot32_bytes 11 = 512" "w8 boot32_bytes 13 = 1" "w16 boot32_bytes 14 = 3" "w8 boot32_bytes 16 = 2" "w16 boot32_bytes 17 = 0" "w16 boot32_bytes 19 = 128"
  "w16 boot32_bytes 22 = 0" "w16 boot32_bytes 24 = 1" "w16 boot32_bytes 26 = 1" "w32 boot32_bytes 36 = 1" "w32 boot32_bytes 44 = 2" "w16 boot32_bytes 48 = 0"
  "w16 boot32_bytes 50 = 0" "length boot32_bytes = 512"
  by (simp_all add: boot32_bytes_def w16_def w8_def w32_def le_value_def)

lemma disk32_simps:
  "boot_of disk32 = boot32_bytes" "disk_ok disk32" "length (contents (fk_io disk32)) = 65536" "\<not> fk_interactive disk32" "\<not> fk_atari_format disk32"
  "readable (fk_io disk32) p n \<longleftrightarrow> 0 \<le> p \<and> nat p + n \<le> 65536" "\<not> fk_write_immed disk32"
  using boot32_fields(14)
  by (simp_all add: disk32_def sample_def contents_def disk_ok_def io_mode_ok_def io_ok_def readable_def in_disk_def list_ex_iff)

lemma disk32_boot: "\<exists>st'. read_boot 0 [] disk32 = Inr st'"
proof -
  note f = boot32_fields
  have "io_ok (fk_io disk32)" using disk32_simps(2) by (simp add: disk_ok_def io_mode_ok_def)
  then have rd: "fs_read (fk_io disk32) 0 512 = Inr boot32_bytes" using fs_read_contents [of "fk_io disk32" 0 512] disk32_simps(1,6) by simp
  have tst: "\<exists>r. fs_test (fk_io disk32) 65024 512 = Inr r" by (simp add: fs_test_def)
  define g where "g = boot_geometry boot32_bytes 512 (fk_fs disk32)"
  have fl: "boot_total boot32_bytes = 128" "boot_fat_length boot32_bytes = 1" by (simp_all add: boot_total_def boot_fat_length_def f)
  have g: "fs_clusters g = 123" "fs_root_entries g = 0"
    by (simp_all add: g_def f fl ROUND_TO_MULTIPLE_def quotient_def)
  have k: "backup_sector boot32_bytes = 2" by (simp add: backup_sector_def f)
  have info: "w16 (put16 50 2 boot32_bytes) 48 = 0" using f(12) by (simp add: w16_def put16_def slice_write_out)
  have w: "\<exists>s. boot_width 0 [] boot32_bytes 512 (disk32\<lparr>fk_fs := g\<rparr>) = Inr s \<and> fs_fat_bits (fk_fs s) = 32 \<and> fs_root_cluster (fk_fs s) = 2
      \<and> fs_root_entries (fk_fs s) = 0 \<and> fs_clusters (fk_fs s) = 123"
    using disk32_simps(4,7) g
    by (simp add: boot_width_def boot_fat32_def f k info check_backup_boot_def confirm_def int_value_def disk_write_def fs_write_def read_fsinfo_none Let_def)
  then obtain s where "boot_width 0 [] boot32_bytes 512 (disk32\<lparr>fk_fs := g\<rparr>) = Inr s" "fs_fat_bits (fk_fs s) = 32" "fs_root_cluster (fk_fs s) = 2"
    "fs_root_entries (fk_fs s) = 0" "fs_clusters (fk_fs s) = 123" by blast
  moreover have "\<exists>st'. boot_finish boot32_bytes 512 s = Inr st'" using calculation(2-5) f fl by (simp add: boot_finish_def Let_def)
  ultimately show ?thesis using rd tst f fl by (auto simp: read_boot_def Let_def g_def [symmetric])
qed

theorem backup_created_witness:
  "\<exists>st' k. read_boot 0 [] disk32 = Inr st' \<and> 1 \<le> k \<and> k < 3 \<and> take 512 (drop (k * 512) (contents (fk_io st'))) = boot_of st' \<and> b_backup_boot (boot_of st') = k"
proof -
  obtain st' where st': "read_boot 0 [] disk32 = Inr st'" using disk32_boot by blast
  from backup_created [OF st' disk32_simps(2,4), unfolded disk32_simps(1), OF boot32_fields(7)] show ?thesis
    using st' by (auto simp: boot32_fields disk32_simps(3) simp del: length_contents)
qed

section \<open>From the boot sector to the table\<close>

text \<open>
  The two steps with which a check begins. When \<open>read_boot\<close> returns a geometry with two tables inside the
  readable device, room for two entries, a number of clusters that fits the width of entries, and
  that is even with entries of 12 bits and below \<open>2^27\<close> (above, the product in \<open>eff_size\<close> wraps), then
  the hypotheses of the facts about \<open>read_fat\<close> hold.
\<close>

lemma boot_then_fat:
  assumes "read_boot device_no stack st = Inr st1" "disk_ok st"
  defines "fs \<equiv> fk_fs st1"
  assumes "fs_nfats fs = 2" "2 \<le> fs_fat_size fs * 8 div fs_fat_bits fs" "fs_clusters fs + 2 \<le> 2 ^ fs_eff_fat_bits fs - 16"
    "fs_clusters fs + 2 < 2 ^ 27" "fat12_even_clusters fs" "nat (fs_fat_start fs) + 2 * fs_fat_size fs \<le> length (contents (fk_io st1))"
    "readable (fk_io st1) (fs_fat_start fs) (eff_size fs)" "readable (fk_io st1) (fs_fat_start fs + int (fs_fat_size fs)) (eff_size fs)"
  shows "case read_fat st1 of
      Inl s \<Rightarrow> s = EXIT_FAILURE \<and> fat_copy st1 0 \<noteq> fat_copy st1 1 \<and> none_kept st1
    | Inr st2 \<Rightarrow> fat_inv st2 \<and> in_range st2 \<and> no_owners st2
        \<and> (\<exists>k \<le> 1. (fat_copy st1 0 = fat_copy st1 1 \<or> keeps st1 k)
             \<and> (\<forall>i. is_cluster st1 i \<longrightarrow> fe_value (entries st2 ! i) = loaded_value st1 (stored_value fs (fat_copy st1 k) i)))"
proof -
  note g = boot_geometry_ok [OF assms(1,2), folded fs_def]
  have bits: "(fs_fat_bits fs, fs_eff_fat_bits fs) \<in> {(12, 12), (16, 16), (32, 28)}" "0 \<le> fs_fat_start fs"
    "(fs_clusters fs + 2) * fs_fat_bits fs \<le> fs_fat_size fs * 8" using g assms(5) by simp_all
  have small: "(fs_clusters fs + 2) * fs_fat_bits fs + 7 < 2 ^ 32" using bits(1) assms(7) by auto
  have "eff_size fs \<le> fs_fat_size fs" unfolding eff_size_eq [OF small] using bits(3) by simp
  then have "fs_geo fs" using bits small assms(6) by (simp add: fs_geo_def)
  moreover have "disk_ok st1" by (rule read_boot_disk_ok [OF assms(1,2)])
  ultimately have "state_geo st1" using assms(9) by (simp add: state_geo_def disk_ok_def fs_def del: length_contents)
  from read_fat_cases [OF this] show ?thesis using assms(4,8,10,11) by (auto simp: fs_def split: sum.splits)
qed

end
