(* ===== verification/FS_File.thy ===== *)
theory FS_File
  imports QR_Prelude "HOL-Library.Sublist"
begin

text \<open>
  File names and the files to drop or to undelete (\<open>file.c\<close> of \<open>dosfsck\<close>). A directory of the tree of
  files is the list of its entries; a null pointer to a directory is the empty list, and a place in a
  directory is an index. A program that ends with a status other than 0 is \<open>EXIT_FAILURE\<close>.
\<close>

section \<open>Names\<close>

definition DELETED_FLAG :: byte where "DELETED_FLAG = 0xe5"

text \<open>\<open>strncmp\<close> returns 0.\<close>

definition strneq :: "nat \<Rightarrow> byte list \<Rightarrow> byte list \<Rightarrow> bool" where
  "strneq n a b \<longleftrightarrow> takeWhile (\<lambda>c. c \<noteq> 0) (take n a) = takeWhile (\<lambda>c. c \<noteq> 0) (take n b)"

definition put_char :: "byte \<Rightarrow> byte list" where
  "put_char c =
     (if 0x20 \<le> c \<and> c < 0x7f \<or> 0xa0 \<le> c then [c]
      else [0x5c, 0x30 + drop_bit 6 c, 0x30 + (drop_bit 3 c AND 7), 0x30 + (c AND 7)])"

text \<open>One of the two loops of \<open>file_name\<close>: the output and \<open>j\<close>.\<close>

definition name_step :: "byte list \<Rightarrow> nat \<Rightarrow> byte list \<times> nat \<Rightarrow> byte list \<times> nat" where
  "name_step fixed i = (\<lambda>(p, j).
     if fixed ! i \<noteq> 0x20 then (p @ replicate (i - j) 0x20 @ put_char (fixed ! i), max i j + 1) else (p, j))"

definition name_loop :: "byte list \<Rightarrow> nat \<Rightarrow> byte list" where
  "name_loop fixed n = fst (fold (name_step fixed) [0..<n] ([], 0))"

definition file_name :: "byte list \<Rightarrow> byte list" where
  "file_name fixed =
     name_loop fixed 8 @ (if \<not> strneq 3 (drop 8 fixed) [0x20, 0x20, 0x20] then 0x2e # name_loop (drop 8 fixed) 3 else [])"

text \<open>The digits behind a backslash, read from \<open>name\<close> on; what is left of \<open>cnt\<close> is returned too.\<close>

fun octal :: "nat \<Rightarrow> byte \<Rightarrow> byte list \<Rightarrow> (nat \<times> byte \<times> byte list) option" where
  "octal 0 c name = Some (0, c, name)"
| "octal (Suc cnt) c [] = None"
| "octal (Suc cnt) c (d # name) = (if d < 0x30 \<or> 0x37 < d then None else octal cnt (c * 8 + d - 0x30) name)"

definition toupper :: "byte \<Rightarrow> byte" where
  "toupper c = (if 0x61 \<le> c \<and> c \<le> 0x7a then c - 0x20 else c)"

definition bad_char :: "byte \<Rightarrow> bool" where
  "bad_char c \<longleftrightarrow> c < 0x20 \<or> 0x7e < c \<or> c \<in> {0x2a, 0x3f, 0x3c, 0x3e, 0x7c, 0x22, 0x2f}"

lemma octal_length: "octal cnt c name = Some (k, c', name') \<Longrightarrow> length name' \<le> length name"
  by (induction cnt c name rule: octal.induct) (auto split: if_splits)

function cvt_loop :: "byte list \<Rightarrow> byte list \<Rightarrow> nat \<Rightarrow> bool \<Rightarrow> (byte list \<times> nat \<times> bool) option" where
  "cvt_loop [] fixed sz ext = Some (fixed, sz, ext)"
| "cvt_loop (c # name) fixed sz ext =
     (if bad_char c then None
      else if c = 0x2e then if ext then None else cvt_loop name (fixed @ replicate sz 0x20) 3 True
      else if c = 0x5c then
        (case octal 3 0 (c # name) of
           None \<Rightarrow> None
         | Some (cnt, c', name') \<Rightarrow>
             if cnt < 4 then None
             else cvt_loop (drop 4 name') (if sz \<noteq> 0 then fixed @ [toupper c'] else fixed) (sz - 1) ext)
      else cvt_loop name (if sz \<noteq> 0 then fixed @ [toupper c] else fixed) (sz - 1) ext)"
  by pat_completeness auto
termination
  by (relation "measure (\<lambda>(name, _). length name)") (auto dest!: octal_length)

definition file_cvt :: "byte list \<Rightarrow> byte list option" where
  "file_cvt name =
     (case cvt_loop name [] 8 False of
        None \<Rightarrow> None
      | Some (fixed, sz, ext) \<Rightarrow>
          if sz = 8 then None
          else if ext then Some (fixed @ replicate sz 0x20) else Some (fixed @ replicate sz 0x20 @ replicate 3 0x20))"

section \<open>The tree of files\<close>

datatype FD_TYPE = fdt_none | fdt_drop | fdt_undelete

datatype FDSC = FDSC (fd_name: "byte list") (fd_type: FD_TYPE) (fd_first: "FDSC list")

definition index_of :: "('a \<Rightarrow> bool) \<Rightarrow> 'a list \<Rightarrow> nat option" where
  "index_of P xs = (let k = length (takeWhile (\<lambda>x. \<not> P x) xs) in if k < length xs then Some k else None)"

lemma tl_dropWhile_less: "dropWhile P xs \<noteq> [] \<Longrightarrow> length (tl (dropWhile P xs)) < length xs"
  by (induction xs) auto

function file_add_in :: "FDSC list \<Rightarrow> byte list \<Rightarrow> FD_TYPE \<Rightarrow> FDSC list exit" where
  "file_add_in dir path ty =
     (let here = dropWhile (\<lambda>c. c \<noteq> 0x2f) path
      in case file_cvt (takeWhile (\<lambda>c. c \<noteq> 0x2f) path) of
           None \<Rightarrow> Inl EXIT_FAILURE
         | Some name \<Rightarrow>
             if here = [] then
               if list_ex (\<lambda>w. strneq 11 name (fd_name w) \<or> ty = fdt_undelete \<and> strneq 10 (tl name) (tl (fd_name w))) dir
               then Inl EXIT_FAILURE
               else Inr (FDSC name ty [] # dir)
             else (case index_of (\<lambda>w. strneq 11 name (fd_name w)) dir of
                 None \<Rightarrow> exit_bind (file_add_in [] (tl here) ty) (\<lambda>sub. Inr (FDSC name fdt_none sub # dir))
               | Some k \<Rightarrow>
                   exit_bind (file_add_in (fd_first (dir ! k)) (tl here) ty) (\<lambda>sub.
                   Inr (dir[k := FDSC (fd_name (dir ! k)) (fd_type (dir ! k)) sub]))))"
  by auto
termination by (relation "measure (\<lambda>(_, path, _). length path)") (auto simp del: length_tl dropWhile_eq_Nil_conv intro!: tl_dropWhile_less)

declare file_add_in.simps [simp del]

definition file_add :: "FDSC list \<Rightarrow> byte list \<Rightarrow> FD_TYPE \<Rightarrow> FDSC list exit" where
  "file_add fp_root path ty =
     (case path of [] \<Rightarrow> Inl EXIT_FAILURE | c # rest \<Rightarrow> if c \<noteq> 0x2f then Inl EXIT_FAILURE else file_add_in fp_root rest ty)"

definition file_cd :: "FDSC list \<Rightarrow> byte list \<Rightarrow> nat option" where
  "file_cd dir fixed = index_of (\<lambda>w. strneq 11 (fd_name w) fixed \<and> fd_first w \<noteq> []) dir"

definition file_find :: "FDSC list \<Rightarrow> byte list \<Rightarrow> nat option" where
  "file_find dir fixed =
     (if hd fixed = DELETED_FLAG then index_of (\<lambda>w. strneq 10 (tl (fd_name w)) (tl fixed) \<and> fd_first w = []) dir
      else index_of (\<lambda>w. strneq 11 (fd_name w) fixed \<and> fd_first w = []) dir)"

definition file_type :: "FDSC list \<Rightarrow> byte list \<Rightarrow> FD_TYPE" where
  "file_type dir fixed = (case file_find dir fixed of None \<Rightarrow> fdt_none | Some k \<Rightarrow> fd_type (dir ! k))"

text \<open>The directory without the entry, and the changed name.\<close>

definition file_modify :: "FDSC list \<Rightarrow> byte list \<Rightarrow> (FDSC list \<times> byte list) exit" where
  "file_modify dir fixed =
     (case file_find dir fixed of
        None \<Rightarrow> Inl EXIT_FAILURE
      | Some k \<Rightarrow>
          (let rest = take k dir @ drop (Suc k) dir
           in case fd_type (dir ! k) of
                fdt_drop \<Rightarrow> Inr (rest, DELETED_FLAG # tl fixed)
              | fdt_undelete \<Rightarrow> Inr (rest, hd (fd_name (dir ! k)) # tl fixed)
              | fdt_none \<Rightarrow> Inl EXIT_FAILURE))"

text \<open>The warnings about entries that were never used.\<close>

fun report_entry :: "FDSC \<Rightarrow> (FD_TYPE \<times> byte list) list" where
  "report_entry (FDSC name ty first) =
     (if first \<noteq> [] then concat (map report_entry first)
      else if ty \<noteq> fdt_none then [(ty, file_name name)] else [])"

definition report_unused :: "FDSC list \<Rightarrow> (FD_TYPE \<times> byte list) list" where
  "report_unused this = concat (map report_entry this)"

definition file_unused :: "FDSC list \<Rightarrow> (FD_TYPE \<times> byte list) list" where
  "file_unused fp_root = report_unused fp_root"

section \<open>Names there and back\<close>

text \<open>Characters that need no escape and are not changed.\<close>

definition plain_char :: "byte \<Rightarrow> bool" where
  "plain_char c \<longleftrightarrow> \<not> bad_char c \<and> c \<noteq> 0x2e \<and> c \<noteq> 0x5c \<and> toupper c = c"

lemma put_char_plain: "\<not> bad_char c \<Longrightarrow> put_char c = [c]"
  by (auto simp: bad_char_def put_char_def not_less word_less_nat_alt word_le_nat_alt)

lemma replicate_snoc: "replicate n x @ [x] = x # replicate n x"
  by (induction n) auto

lemma name_loop_trim:
  assumes "n \<le> length fixed" "\<forall>c \<in> set fixed. \<not> bad_char c"
  shows "length (name_loop fixed n) \<le> n \<and> name_loop fixed n @ replicate (n - length (name_loop fixed n)) 0x20 = take n fixed"
proof -
  have "\<exists>p j. fold (name_step fixed) [0..<n] ([], 0) = (p, j) \<and> j \<le> n \<and> length p = j \<and> p @ replicate (n - j) 0x20 = take n fixed"
    using assms(1)
  proof (induction n)
    case (Suc n)
    then obtain p j where p: "fold (name_step fixed) [0..<n] ([], 0) = (p, j)" "j \<le> n" "length p = j" "p @ replicate (n - j) 0x20 = take n fixed" by auto
    have tk: "take (Suc n) fixed = take n fixed @ [fixed ! n]" using Suc.prems by (simp add: take_Suc_conv_app_nth)
    have st: "fold (name_step fixed) [0..<Suc n] ([], 0) = name_step fixed n (p, j)" by (simp add: p(1))
    show ?case
    proof (cases "fixed ! n = 0x20")
      case True
      have "take n fixed @ [0x20] = p @ replicate (Suc n - j) 0x20" using p(2) by (simp flip: p(4) add: replicate_snoc Suc_diff_le)
      then show ?thesis using p(2,3) True by (simp only: st) (simp add: name_step_def tk)
    next
      case False
      have "put_char (fixed ! n) = [fixed ! n]" using assms(2) Suc.prems by (simp add: put_char_plain)
      then show ?thesis using p False unfolding st by (simp add: name_step_def tk)
    qed
  qed simp
  then show ?thesis by (auto simp: name_loop_def)
qed

lemma cvt_loop_plain:
  "\<forall>c \<in> set p. plain_char c \<Longrightarrow> length p \<le> sz \<Longrightarrow> cvt_loop (p @ rest) fixed sz ext = cvt_loop rest (fixed @ p) (sz - length p) ext"
proof (induction p arbitrary: fixed sz)
  case (Cons c p)
  then show ?case by (simp add: plain_char_def)
qed simp

text \<open>
  C32. \<open>file_cvt\<close> reads back the names \<open>file_name\<close> prints: for an entry of eleven characters, each valid, not
  lower case and no dot or backslash, and not all of them blank, \<open>file_cvt (file_name fixed)\<close> is \<open>fixed\<close>; blanks
  inside and in front of both parts are kept.
\<close>

theorem file_name_roundtrip:
  assumes "length fixed = 11" "\<forall>c \<in> set fixed. plain_char c" "fixed \<noteq> replicate 11 0x20"
  shows "file_cvt (file_name fixed) = Some fixed"
proof -
  define p q where "p = name_loop fixed 8" and "q = name_loop (drop 8 fixed) 3"
  have ok: "\<forall>c \<in> set fixed. \<not> bad_char c" using assms(2) by (simp add: plain_char_def)
  have p: "length p \<le> 8" "p @ replicate (8 - length p) 0x20 = take 8 fixed"
    using name_loop_trim [of 8 fixed] assms(1) ok by (simp_all add: p_def)
  have q: "length q \<le> 3" "q @ replicate (3 - length q) 0x20 = drop 8 fixed"
    using name_loop_trim [of 3 "drop 8 fixed"] assms(1) ok by (auto simp: q_def dest: in_set_dropD)
  have "set p \<subseteq> set (take 8 fixed)" "set q \<subseteq> set (drop 8 fixed)"
    using arg_cong [OF p(2), of set] arg_cong [OF q(2), of set] by auto
  then have plain: "\<forall>c \<in> set p. plain_char c" "\<forall>c \<in> set q. plain_char c"
    using assms(2) by (auto dest: in_set_takeD in_set_dropD)
  have fixed: "take 8 fixed @ drop 8 fixed = fixed" by simp
  have "bad_char 0" by (simp add: bad_char_def)
  then have "\<forall>c \<in> set fixed. c \<noteq> 0" using ok by metis
  then have "takeWhile (\<lambda>c. c \<noteq> 0) (drop 8 fixed) = drop 8 fixed" by (intro takeWhile_eq_all_conv [THEN iffD2]) (auto dest: in_set_dropD)
  moreover have "take 3 (drop 8 fixed) = drop 8 fixed" using assms(1) by simp
  ultimately have blank: "strneq 3 (drop 8 fixed) [0x20, 0x20, 0x20] \<longleftrightarrow> drop 8 fixed = [0x20, 0x20, 0x20]"
    unfolding strneq_def by (simp only:) simp
  show ?thesis
  proof (cases "drop 8 fixed = [0x20, 0x20, 0x20]")
    case True
    have "p \<noteq> []"
    proof
      assume "p = []"
      then have "fixed = replicate 8 0x20 @ replicate 3 0x20" using p(2) True fixed by (simp add: numeral_3_eq_3)
      then show False using assms(3) by (simp flip: replicate_add)
    qed
    then have "8 - length p \<noteq> 8" by (cases p) auto
    then have "file_cvt p = Some (p @ replicate (8 - length p) 0x20 @ replicate 3 0x20)"
      using cvt_loop_plain [OF plain(1) p(1), of "[]" "[]" False] by (simp add: file_cvt_def)
    then show ?thesis using True blank p(2) fixed by (simp add: file_name_def p_def numeral_3_eq_3 flip: append_assoc)
  next
    case False
    have "cvt_loop (p @ 0x2e # q) [] 8 False = cvt_loop q (take 8 fixed) 3 True"
      using cvt_loop_plain [OF plain(1) p(1), of "0x2e # q" "[]" False] by (simp add: bad_char_def p(2))
    also have "\<dots> = Some (take 8 fixed @ q, 3 - length q, True)"
      using cvt_loop_plain [OF plain(2) q(1), of "[]" "take 8 fixed" True] by simp
    finally have "file_cvt (p @ 0x2e # q) = Some fixed" using q fixed by (simp add: file_cvt_def)
    then show ?thesis using False blank by (simp add: file_name_def p_def q_def)
  qed
qed

theorem file_name_roundtrip_witness:
  "file_cvt (file_name [0x52, 0x45, 0x41, 0x44, 0x20, 0x4d, 0x45, 0x20, 0x54, 0x58, 0x54]) = Some [0x52, 0x45, 0x41, 0x44, 0x20, 0x4d, 0x45, 0x20, 0x54, 0x58, 0x54]"
proof -
  let ?fixed = "[0x52, 0x45, 0x41, 0x44, 0x20, 0x4d, 0x45, 0x20, 0x54, 0x58, 0x54] :: byte list"
  have "?fixed \<noteq> replicate 11 0x20" using nth_replicate [of 0 11 "0x20 :: byte"] by (auto simp: list_eq_iff_nth_eq intro!: exI [of _ 0])
  moreover have "\<forall>c \<in> set ?fixed. plain_char c" by (simp add: plain_char_def bad_char_def toupper_def)
  ultimately show ?thesis using file_name_roundtrip [of ?fixed] by simp
qed

lemma cvt_loop_backslash: "0x5c \<in> set name \<Longrightarrow> cvt_loop name fixed sz ext = None"
  by (induction name arbitrary: fixed sz ext) (auto simp: numeral_3_eq_3)

text \<open>
  C39. The escapes \<open>file_name\<close> prints for other characters are not accepted by \<open>file_cvt\<close>: no name with a
  backslash is, because the digits are looked for at the backslash itself. So the files whose names have
  such characters cannot be given on the command line.
\<close>

theorem escapes_refused:
  "file_cvt (xs @ 0x5c # ys) = None
    \<and> (c < 0x20 \<or> 0x7f \<le> c \<and> c < 0xa0 \<longrightarrow> file_cvt (xs @ put_char c @ ys) = None)"
proof -
  have "file_cvt name = None" if "0x5c \<in> set name" for name using that by (simp add: file_cvt_def cvt_loop_backslash)
  moreover have "0x5c \<in> set (put_char c)" if "c < 0x20 \<or> 0x7f \<le> c \<and> c < 0xa0"
    using that by (auto simp: put_char_def word_less_nat_alt word_le_nat_alt)
  ultimately show ?thesis by simp
qed

theorem escapes_refused_witness: "file_cvt ([0x41] @ put_char 7 @ [0x42]) = None"
  using escapes_refused [of "[0x41]" "[0x42]" 7] by simp

section \<open>Files that are registered\<close>

text \<open>Names in the tree are those \<open>file_cvt\<close> returns, and no two entries of a directory have the same.\<close>

definition name_ok :: "byte list \<Rightarrow> bool" where
  "name_ok n \<longleftrightarrow> length n = 11 \<and> (\<forall>c \<in> set n. 0x20 \<le> c \<and> c \<le> 0x7e)"

fun entry_ok :: "FDSC \<Rightarrow> bool" where
  "entry_ok (FDSC name ty first) \<longleftrightarrow> name_ok name \<and> distinct (map fd_name first) \<and> (\<forall>w \<in> set first. entry_ok w)"

definition dir_ok :: "FDSC list \<Rightarrow> bool" where
  "dir_ok dir \<longleftrightarrow> distinct (map fd_name dir) \<and> (\<forall>w \<in> set dir. entry_ok w)"

text \<open>The way to a file and its type, the way the directory check goes.\<close>

fun file_lookup :: "FDSC list \<Rightarrow> byte list list \<Rightarrow> FD_TYPE" where
  "file_lookup dir [] = fdt_none"
| "file_lookup dir [n] = file_type dir n"
| "file_lookup dir (n # m # ns) = (case file_cd dir n of None \<Rightarrow> fdt_none | Some k \<Rightarrow> file_lookup (fd_first (dir ! k)) (m # ns))"

text \<open>The directory \<open>file_cd\<close> leads to along the names of a path; it is empty where there is none.\<close>

fun file_dir :: "FDSC list \<Rightarrow> byte list list \<Rightarrow> FDSC list" where
  "file_dir dir [] = dir"
| "file_dir dir (n # ns) = (case file_cd dir n of None \<Rightarrow> [] | Some k \<Rightarrow> file_dir (fd_first (dir ! k)) ns)"

text \<open>The names of a path.\<close>

function path_names :: "byte list \<Rightarrow> byte list list" where
  "path_names path =
     (let here = dropWhile (\<lambda>c. c \<noteq> 0x2f) path; name = the (file_cvt (takeWhile (\<lambda>c. c \<noteq> 0x2f) path))
      in if here = [] then [name] else name # path_names (tl here))"
  by auto
termination by (relation "measure length") (auto simp del: length_tl dropWhile_eq_Nil_conv intro!: tl_dropWhile_less)

declare path_names.simps [simp del]

lemma octal_backslash: "octal 3 0 (0x5c # name) = None"
  by (simp add: numeral_3_eq_3)

lemma toupper_range: "0x20 \<le> c \<Longrightarrow> c \<le> 0x7e \<Longrightarrow> 0x20 \<le> toupper c \<and> toupper c \<le> 0x7e"
  by (auto simp: toupper_def word_le_nat_alt unat_sub)

lemma cvt_loop_name:
  assumes "cvt_loop name fixed sz ext = Some (fixed', sz', ext')" "length fixed + sz = (if ext then 11 else 8)" "\<forall>c \<in> set fixed. 0x20 \<le> c \<and> c \<le> 0x7e"
  shows "length fixed' + sz' = (if ext' then 11 else 8) \<and> (\<forall>c \<in> set fixed'. 0x20 \<le> c \<and> c \<le> 0x7e)"
  using assms
proof (induction name fixed sz ext rule: cvt_loop.induct)
  case (2 c name fixed sz ext)
  have ok: "\<not> bad_char c" using "2.prems"(1) by (auto split: if_splits)
  have c5: "c \<noteq> 0x5c" using "2.prems"(1) by (auto simp: octal_backslash simp del: octal.simps split: if_splits)
  show ?case
  proof (cases "c = 0x2e")
    case True
    then have e: "\<not> ext" "cvt_loop name (fixed @ replicate sz 0x20) 3 True = Some (fixed', sz', ext')"
      using "2.prems"(1) ok by (simp_all split: if_splits)
    show ?thesis by (rule "2.IH"(1) [OF ok True e]) (use "2.prems"(2,3) e(1) in auto)
  next
    case False
    then have c: "0x20 \<le> c" "c \<le> 0x7e" using ok by (auto simp: bad_char_def not_less)
    have e: "cvt_loop name (if sz \<noteq> 0 then fixed @ [toupper c] else fixed) (sz - 1) ext = Some (fixed', sz', ext')"
      using "2.prems"(1) ok False c5 by simp
    show ?thesis by (rule "2.IH"(3) [OF ok False c5 e]) (use "2.prems"(2,3) toupper_range [OF c] in auto)
  qed
qed simp

lemma file_cvt_name_ok: "file_cvt name = Some fixed \<Longrightarrow> name_ok fixed"
  using cvt_loop_name [of name "[]" 8 False] by (auto simp: file_cvt_def name_ok_def split: option.splits if_splits)

lemma name_ok_nz: "name_ok n \<Longrightarrow> takeWhile (\<lambda>c. c \<noteq> 0) n = n"
proof (rule takeWhile_eq_all_conv [THEN iffD2], rule ballI)
  fix c
  assume "name_ok n" "c \<in> set n"
  then have "0x20 \<le> c" by (simp add: name_ok_def)
  then show "c \<noteq> 0" by auto
qed

lemma strneq_name:
  assumes "name_ok n" "length m = 11"
  shows "strneq 11 n m \<longleftrightarrow> n = m" "strneq 11 m n \<longleftrightarrow> m = n"
proof -
  have "takeWhile (\<lambda>c. c \<noteq> 0) m = n \<longleftrightarrow> m = n"
  proof
    assume e: "takeWhile (\<lambda>c. c \<noteq> 0) m = n"
    then have "length (takeWhile (\<lambda>c. c \<noteq> 0) m) = length m" using assms by (simp add: name_ok_def)
    then show "m = n" using e by (metis takeWhile_eq_take take_all order_refl)
  qed (use name_ok_nz [OF assms(1)] in simp)
  then show "strneq 11 n m \<longleftrightarrow> n = m" "strneq 11 m n \<longleftrightarrow> m = n"
    using assms name_ok_nz [OF assms(1)] unfolding strneq_def by (simp_all add: name_ok_def del: takeWhile_eq_all_conv) auto
qed

text \<open>With different names a directory is a map.\<close>

definition entry :: "FDSC list \<Rightarrow> byte list \<Rightarrow> FDSC option" where
  "entry dir = map_of (map (\<lambda>w. (fd_name w, w)) dir)"

lemma entry_simps [simp]: "entry [] = Map.empty" "entry (w # dir) = (entry dir)(fd_name w \<mapsto> w)"
  by (simp_all add: entry_def)

lemma entry_Some: "entry dir n = Some w \<Longrightarrow> w \<in> set dir \<and> fd_name w = n"
  by (auto simp: entry_def dest!: map_of_SomeD)

lemma entry_update:
  "distinct (map fd_name dir) \<Longrightarrow> k < length dir \<Longrightarrow> fd_name w = fd_name (dir ! k) \<Longrightarrow> entry (dir[k := w]) = (entry dir)(fd_name w \<mapsto> w)"
proof (induction dir arbitrary: k)
  case (Cons v dir)
  show ?case
  proof (cases k)
    case (Suc j)
    have "fd_name (dir ! j) \<in> fd_name ` set dir" using Cons.prems(2) Suc by simp
    then have "fd_name w \<noteq> fd_name v" using Cons.prems(1,3) Suc by auto
    then show ?thesis using Cons Suc by (auto simp: fun_upd_twist)
  qed (use Cons.prems in \<open>auto simp: fun_eq_iff\<close>)
qed simp

lemma index_of_entry:
  assumes "dir_ok dir" "\<And>w. w \<in> set dir \<Longrightarrow> P w \<longleftrightarrow> fd_name w = n \<and> Q w"
  shows "(case index_of P dir of None \<Rightarrow> a | Some k \<Rightarrow> f (dir ! k)) = (case entry dir n of None \<Rightarrow> a | Some w \<Rightarrow> if Q w then f w else a)"
proof -
  have "(case index_of P dir of None \<Rightarrow> a | Some k \<Rightarrow> f (dir ! k)) = (case entry dir n of None \<Rightarrow> a | Some w \<Rightarrow> if Q w then f w else a)"
    if "distinct (map fd_name dir)" "\<And>w. w \<in> set dir \<Longrightarrow> P w \<longleftrightarrow> fd_name w = n \<and> Q w" for dir
    using that
  proof (induction dir)
    case (Cons w dir)
    have "index_of P (w # dir) = (if P w then Some 0 else map_option Suc (index_of P dir))" by (auto simp: index_of_def Let_def)
    moreover have "entry dir n = None" if "fd_name w = n" using Cons.prems(1) that by (cases "entry dir n") (auto dest!: entry_Some intro: rev_image_eqI)
    moreover have "P w \<longleftrightarrow> fd_name w = n \<and> Q w" using Cons.prems(2) by simp
    ultimately show ?case using Cons.IH Cons.prems by (cases "index_of P dir") (auto split: option.splits)
  qed (simp add: index_of_def)
  then show ?thesis using assms by (simp add: dir_ok_def)
qed

lemma entry_okD: "entry_ok w \<Longrightarrow> name_ok (fd_name w) \<and> dir_ok (fd_first w)"
  by (cases w) (simp add: dir_ok_def)

lemma dir_ok_first: "dir_ok dir \<Longrightarrow> entry dir n = Some w \<Longrightarrow> dir_ok (fd_first w)"
  by (auto dest!: entry_Some entry_okD simp: dir_ok_def)

lemma file_type_entry:
  assumes "dir_ok dir" "length n = 11" "hd n \<noteq> DELETED_FLAG"
  shows "file_type dir n = (case entry dir n of None \<Rightarrow> fdt_none | Some w \<Rightarrow> if fd_first w = [] then fd_type w else fdt_none)"
proof -
  have "file_type dir n = (case index_of (\<lambda>w. strneq 11 (fd_name w) n \<and> fd_first w = []) dir of None \<Rightarrow> fdt_none | Some k \<Rightarrow> fd_type (dir ! k))"
    using assms(3) by (simp add: file_type_def file_find_def)
  also have "\<dots> = (case entry dir n of None \<Rightarrow> fdt_none | Some w \<Rightarrow> if fd_first w = [] then fd_type w else fdt_none)"
    using assms(1,2) by (intro index_of_entry) (auto simp: dir_ok_def strneq_name dest!: entry_okD)
  finally show ?thesis .
qed

lemma file_lookup_entry:
  assumes "dir_ok dir" "length n = 11" "hd n \<noteq> DELETED_FLAG"
  shows "file_lookup dir (n # ns) = (case entry dir n of None \<Rightarrow> fdt_none
     | Some w \<Rightarrow> if ns = [] then (if fd_first w = [] then fd_type w else fdt_none) else file_lookup (fd_first w) ns)"
proof (cases ns)
  case (Cons m ms)
  have "file_lookup [] (m # ms) = fdt_none" by (cases ms) (simp_all add: file_type_def file_find_def file_cd_def index_of_def)
  moreover have "(case file_cd dir n of None \<Rightarrow> fdt_none | Some k \<Rightarrow> file_lookup (fd_first (dir ! k)) (m # ms))
     = (case entry dir n of None \<Rightarrow> fdt_none | Some w \<Rightarrow> if fd_first w \<noteq> [] then file_lookup (fd_first w) (m # ms) else fdt_none)"
    unfolding file_cd_def using assms(1,2) by (intro index_of_entry) (auto simp: dir_ok_def strneq_name dest!: entry_okD)
  ultimately show ?thesis using Cons by (auto split: option.splits)
qed (simp add: file_type_entry [OF assms] cong: option.case_cong if_cong)

lemma file_dir_Nil [simp]: "file_dir [] ns = []"
  by (cases ns) (simp_all add: file_cd_def index_of_def)

lemma file_dir_entry:
  assumes "dir_ok dir" "length n = 11"
  shows "file_dir dir (n # ns) = (case entry dir n of None \<Rightarrow> [] | Some w \<Rightarrow> file_dir (fd_first w) ns)"
proof -
  have "(case file_cd dir n of None \<Rightarrow> [] | Some k \<Rightarrow> file_dir (fd_first (dir ! k)) ns)
     = (case entry dir n of None \<Rightarrow> [] | Some w \<Rightarrow> if fd_first w \<noteq> [] then file_dir (fd_first w) ns else [])"
    unfolding file_cd_def using assms by (intro index_of_entry) (auto simp: dir_ok_def strneq_name dest!: entry_okD)
  then show ?thesis by (auto split: option.splits)
qed

text \<open>
  What an insertion changes. The new entry is the first one of the directory its path leads to, and
  one to undelete has a name that differs from those around it behind the first character.
\<close>

definition in_front :: "FDSC list \<Rightarrow> FDSC list \<Rightarrow> byte list list \<Rightarrow> FD_TYPE \<Rightarrow> bool" where
  "in_front dir dir' ns ty \<longleftrightarrow> name_ok (last ns)
     \<and> file_dir dir' (butlast ns) = FDSC (last ns) ty [] # file_dir dir (butlast ns)
     \<and> (ty = fdt_undelete \<longrightarrow> (\<forall>w \<in> set (file_dir dir (butlast ns)). \<not> strneq 10 (tl (last ns)) (tl (fd_name w))))"

definition added :: "FDSC list \<Rightarrow> FDSC list \<Rightarrow> byte list list \<Rightarrow> FD_TYPE \<Rightarrow> bool" where
  "added dir dir' ns ty \<longleftrightarrow> dir_ok dir' \<and> dir' \<noteq> [] \<and> file_lookup dir' ns = ty \<and> in_front dir dir' ns ty
     \<and> (\<forall>ms. (\<forall>m \<in> set ms. length m = 11 \<and> hd m \<noteq> DELETED_FLAG) \<longrightarrow> \<not> prefix ms ns \<longrightarrow> file_lookup dir' ms = file_lookup dir ms)"

lemma name_ok_key: "name_ok n \<Longrightarrow> length n = 11 \<and> hd n \<noteq> DELETED_FLAG"
  by (cases n) (auto simp: name_ok_def DELETED_FLAG_def)

lemma added_leaf:
  assumes "dir_ok dir" "name_ok n" "n \<notin> fd_name ` set dir"
    and "ty = fdt_undelete \<Longrightarrow> \<forall>w \<in> set dir. \<not> strneq 10 (tl n) (tl (fd_name w))"
  shows "added dir (FDSC n ty [] # dir) [n] ty"
proof -
  let ?d = "FDSC n ty [] # dir"
  have ok: "dir_ok ?d" using assms by (simp add: dir_ok_def)
  have none: "entry dir n = None" using assms(3) by (cases "entry dir n") (auto dest!: entry_Some)
  have "file_lookup ?d ms = file_lookup dir ms" if ms: "\<forall>m \<in> set ms. length m = 11 \<and> hd m \<noteq> DELETED_FLAG" "\<not> prefix ms [n]" for ms
  proof (cases ms)
    case (Cons m rest)
    have empty: "file_lookup [] rest = fdt_none" by (cases rest rule: remdups_adj.cases) (simp_all add: file_type_def file_find_def file_cd_def index_of_def)
    show ?thesis
    proof (cases "m = n")
      case True
      then have "rest \<noteq> []" using ms(2) Cons by auto
      then show ?thesis using Cons True ms(1) ok assms(1) none empty by (simp add: file_lookup_entry)
    next
      case False
      then show ?thesis using Cons ms(1) ok assms(1) by (simp add: file_lookup_entry)
    qed
  qed (use ms(2) in simp)
  moreover have "file_lookup ?d [n] = ty" using file_type_entry [OF ok] name_ok_key [OF assms(2)] by simp
  moreover have "in_front dir ?d [n] ty" using assms(2,4) by (simp add: in_front_def)
  ultimately show ?thesis using ok by (simp add: added_def)
qed

lemma added_node:
  assumes "dir_ok dir" "dir_ok dir'" "dir' \<noteq> []" "name_ok n" "entry dir' = (entry dir)(n \<mapsto> FDSC n t sub')" "ns \<noteq> []"
    and "sub = (case entry dir n of None \<Rightarrow> [] | Some w \<Rightarrow> fd_first w)" "added sub sub' ns ty"
  shows "added dir dir' (n # ns) ty"
proof -
  note key = name_ok_key [OF assms(4)]
  have sub': "sub' \<noteq> []" "file_lookup sub' ns = ty" using assms(8) by (simp_all add: added_def)
  have "file_lookup dir' ms = file_lookup dir ms"
    if ms: "\<forall>m \<in> set ms. length m = 11 \<and> hd m \<noteq> DELETED_FLAG" "\<not> prefix ms (n # ns)" for ms
  proof (cases ms)
    case (Cons m rest)
    show ?thesis
    proof (cases "m = n")
      case True
      then have "rest \<noteq> []" "\<not> prefix rest ns" using ms(2) Cons by auto
      then have "file_lookup sub' rest = file_lookup sub rest" using assms(8) ms(1) Cons by (simp add: added_def)
      moreover have "file_lookup [] rest = fdt_none" by (cases rest rule: remdups_adj.cases) (simp_all add: file_type_def file_find_def file_cd_def index_of_def)
      ultimately show ?thesis
        using Cons True key \<open>rest \<noteq> []\<close> by (simp add: file_lookup_entry assms(1,2,5,7) split: option.splits)
    next
      case False
      then show ?thesis using Cons ms(1) by (simp add: file_lookup_entry assms(1,2,5))
    qed
  qed (use ms(2) in simp)
  moreover have "file_lookup dir' (n # ns) = ty" using key sub'(2) assms(6) by (simp add: file_lookup_entry assms(2,5))
  moreover have "in_front dir dir' (n # ns) ty"
  proof -
    have "file_dir dir (n # butlast ns) = file_dir sub (butlast ns)"
      using key by (simp only: file_dir_entry [OF assms(1)] assms(7)) (simp split: option.splits)
    moreover have "file_dir dir' (n # butlast ns) = file_dir sub' (butlast ns)"
      using key by (simp only: file_dir_entry [OF assms(2)] assms(5)) simp
    moreover have "in_front sub sub' ns ty" using assms(8) by (simp add: added_def)
    ultimately show ?thesis using assms(6) by (simp add: in_front_def del: file_dir.simps)
  qed
  ultimately show ?thesis using assms(2,3) by (simp add: added_def)
qed

lemma path_names_ne: "path_names path \<noteq> []"
  by (subst path_names.simps) (simp add: Let_def)

lemma file_add_in_ok:
  "file_add_in dir path ty = Inr dir' \<Longrightarrow> dir_ok dir \<Longrightarrow> added dir dir' (path_names path) ty"
proof (induction dir path ty arbitrary: dir' rule: file_add_in.induct)
  case (1 dir path ty)
  define here where "here = dropWhile (\<lambda>c. c \<noteq> 0x2f) path"
  obtain n where n: "file_cvt (takeWhile (\<lambda>c. c \<noteq> 0x2f) path) = Some n"
    using "1.prems"(1) by (subst (asm) file_add_in.simps) (auto simp: Let_def split: option.splits)
  then have ok: "name_ok n" by (rule file_cvt_name_ok)
  have eq: "strneq 11 n (fd_name w) \<longleftrightarrow> fd_name w = n" if "w \<in> set dir" for w
    using that ok "1.prems"(2) strneq_name(1) [of n "fd_name w"] entry_okD [of w] by (auto simp: dir_ok_def name_ok_def)
  note add = "1.prems"(1) [unfolded file_add_in.simps [of dir path ty], folded here_def, simplified n Let_def, simplified]
  have names: "path_names path = (if here = [] then [n] else n # path_names (tl here))"
    by (subst path_names.simps) (simp add: n Let_def here_def del: dropWhile_eq_Nil_conv)
  show ?case
  proof (cases "here = []")
    case True
    then have "dir' = FDSC n ty [] # dir" "n \<notin> fd_name ` set dir"
      "ty = fdt_undelete \<Longrightarrow> \<forall>w \<in> set dir. \<not> strneq 10 (tl n) (tl (fd_name w))"
      using add eq by (auto simp: list_ex_iff split: if_splits)
    then show ?thesis using added_leaf [OF "1.prems"(2) ok] True names by simp
  next
    case False
    define P where "P = (\<lambda>w. strneq 11 n (fd_name w))"
    have add': "(case index_of P dir of None \<Rightarrow> exit_bind (file_add_in [] (tl here) ty) (\<lambda>sub. Inr (FDSC n fdt_none sub # dir))
      | Some k \<Rightarrow> exit_bind (file_add_in (fd_first (dir ! k)) (tl here) ty) (\<lambda>sub. Inr (dir[k := FDSC (fd_name (dir ! k)) (fd_type (dir ! k)) sub]))) = Inr dir'"
      using add False by (simp add: P_def)
    have ent: "(case index_of P dir of None \<Rightarrow> None | Some k \<Rightarrow> Some (dir ! k)) = entry dir n"
      using index_of_entry [OF "1.prems"(2), of P n "\<lambda>_. True" None Some] eq by (simp add: P_def split: option.splits)
    show ?thesis
    proof (cases "index_of P dir")
      case None
      then have no: "entry dir n = None" using ent by simp
      from add' None obtain sub where sub: "file_add_in [] (tl here) ty = Inr sub" "dir' = FDSC n fdt_none sub # dir"
        by (auto simp: exit_bind_Inr)
      have IH: "added [] sub (path_names (tl here)) ty"
        using "1.IH"(1) [OF here_def n False] None sub(1) by (simp add: P_def dir_ok_def)
      have "n \<notin> fd_name ` set dir" using no by (auto simp: entry_def map_of_eq_None_iff image_image)
      then have "dir_ok dir'" using IH ok "1.prems"(2) by (simp add: dir_ok_def sub(2) added_def)
      then show ?thesis using added_node [OF "1.prems"(2) _ _ ok, of dir' fdt_none sub "path_names (tl here)" "[]"] IH no names False path_names_ne
        by (simp add: sub(2))
    next
      case (Some k)
      have k: "k < length dir" "fd_name (dir ! k) = n" "entry dir n = Some (dir ! k)"
        using Some ent entry_Some [of dir n "dir ! k"] by (auto simp: index_of_def Let_def split: if_splits)
      from add' Some obtain sub where sub: "file_add_in (fd_first (dir ! k)) (tl here) ty = Inr sub"
        "dir' = dir[k := FDSC n (fd_type (dir ! k)) sub]" using k(2) by (auto simp: exit_bind_Inr)
      have IH: "added (fd_first (dir ! k)) sub (path_names (tl here)) ty"
        using "1.IH"(2) [OF here_def n False] Some sub(1) dir_ok_first [OF "1.prems"(2) k(3)] by (simp add: P_def)
      have "map fd_name dir' = map fd_name dir" using k by (simp add: sub(2) map_update) (metis list_update_id map_update)
      moreover have "entry_ok (FDSC n (fd_type (dir ! k)) sub)" using IH ok by (simp add: added_def dir_ok_def)
      then have "\<forall>w \<in> set dir'. entry_ok w" 
        using "1.prems"(2) set_update_subset_insert [of dir k "FDSC n (fd_type (dir ! k)) sub"] unfolding dir_ok_def sub(2) by blast
      ultimately have "dir_ok dir'" using "1.prems"(2) by (simp add: dir_ok_def)
      moreover have "entry dir' = (entry dir)(n \<mapsto> FDSC n (fd_type (dir ! k)) sub)"
        using entry_update [of dir k "FDSC n (fd_type (dir ! k)) sub"] k(1,2) "1.prems"(2) by (simp add: sub(2) dir_ok_def)
      moreover have "dir' \<noteq> []" using k(1) by (auto simp: sub(2))
      ultimately show ?thesis
        using added_node [OF "1.prems"(2) _ _ ok, of dir' "fd_type (dir ! k)" sub "path_names (tl here)" "fd_first (dir ! k)"] IH k(3) names False path_names_ne
        by simp
    qed
  qed
qed

lemma file_find_once:
  assumes "dir_ok dir" "length n = 11" "hd n \<noteq> DELETED_FLAG" "file_find dir n = Some k"
  shows "file_type (take k dir @ drop (Suc k) dir) n = fdt_none \<and> dir_ok (take k dir @ drop (Suc k) dir)"
proof -
  let ?d = "take k dir @ drop (Suc k) dir"
  have P: "index_of (\<lambda>w. strneq 11 (fd_name w) n \<and> fd_first w = []) dir = Some k" using assms(3,4) by (simp add: file_find_def)
  then have k: "k < length dir" by (auto simp: index_of_def Let_def split: if_splits)
  have dir: "dir = take k dir @ dir ! k # drop (Suc k) dir" using k by (simp add: id_take_nth_drop)
  have "strneq 11 (fd_name (dir ! k)) n" using P nth_length_takeWhile [of "\<lambda>w. \<not> (strneq 11 (fd_name w) n \<and> fd_first w = [])" dir]
    by (auto simp: index_of_def Let_def split: if_splits)
  then have n: "fd_name (dir ! k) = n" using strneq_name(1) [of "fd_name (dir ! k)" n] assms(1,2) k entry_okD by (auto simp: dir_ok_def)
  have "distinct (map fd_name (take k dir @ dir ! k # drop (Suc k) dir))" using assms(1) dir by (simp add: dir_ok_def)
  then have "n \<notin> fd_name ` set ?d" "distinct (map fd_name ?d)" using n by auto
  moreover have "\<forall>w \<in> set ?d. entry_ok w" using assms(1) by (auto simp: dir_ok_def dest: in_set_takeD in_set_dropD)
  ultimately have ok: "dir_ok ?d" "n \<notin> fd_name ` set ?d" by (simp_all add: dir_ok_def)
  then have "entry ?d n = None" by (auto simp: entry_def map_of_eq_None_iff image_image)
  then show ?thesis using file_type_entry [OF ok(1) assms(2,3)] ok(1) by simp
qed

text \<open>
  How \<open>check.c\<close> uses the entry in front of a directory: a deleted file is looked up by its name without
  the first character.
\<close>

lemma file_find_deleted_front:
  "file_find (FDSC n ty [] # old) (DELETED_FLAG # tl n) = Some 0"
  by (simp add: file_find_def index_of_def strneq_def)

lemma file_find_front:
  assumes "length n = 11" "hd n \<noteq> DELETED_FLAG"
  shows "file_find (FDSC n ty [] # old) n = Some 0"
  using assms by (simp add: file_find_def index_of_def strneq_def)

lemma file_modify_front:
  assumes "file_find (FDSC n ty [] # old) fixed = Some 0"
  shows "file_type (FDSC n ty [] # old) fixed = ty"
    and "ty = fdt_drop \<Longrightarrow> file_modify (FDSC n ty [] # old) fixed = Inr (old, DELETED_FLAG # tl fixed)"
    and "ty = fdt_undelete \<Longrightarrow> file_modify (FDSC n ty [] # old) fixed = Inr (old, hd n # tl fixed)"
  using assms by (simp_all add: file_type_def file_modify_def)

lemma file_type_deleted_none:
  assumes "\<forall>w \<in> set old. \<not> strneq 10 (tl n) (tl (fd_name w))"
  shows "file_type old (DELETED_FLAG # tl n) = fdt_none"
proof -
  have "\<forall>w \<in> set old. \<not> strneq 10 (tl (fd_name w)) (tl n)" using assms unfolding strneq_def by metis
  then have "takeWhile (\<lambda>w. \<not> (strneq 10 (tl (fd_name w)) (tl n) \<and> fd_first w = [])) old = old" by simp
  then have "index_of (\<lambda>w. strneq 10 (tl (fd_name w)) (tl n) \<and> fd_first w = []) old = None"
    by (simp only: index_of_def Let_def) simp
  then show ?thesis by (simp add: file_type_def file_find_def)
qed

text \<open>
  C31. \<open>file_add\<close> registers a file under its path: from a tree without double names, going through the
  directories of the path with \<open>file_cd\<close> and asking \<open>file_type\<close> for the last name returns the type given, and
  for every path that is not a beginning of the new one it returns what it returned before. The tree
  again has no double names.

  What the directory scan does with the entry: for a file to drop, \<open>file_modify\<close> with the name gives the
  name with the mark of deleted files. For a file to undelete, a deleted entry, whose name has that mark as its
  first character, is found by the other ten characters, \<open>file_modify\<close> restores the first character,
  and the entry is used once: the same deleted name has no type any more. In both cases the
  directory is what it was before the file was added. Also for every other entry of the root, looked up by
  the name of a file that is not deleted, the name has no type after \<open>file_modify\<close>.
\<close>

theorem file_add_registers:
  assumes "dir_ok fp_root" "file_add fp_root path ty = Inr fp_root'"
  shows "dir_ok fp_root' \<and> file_lookup fp_root' (path_names (tl path)) = ty
    \<and> (\<forall>ms. (\<forall>m \<in> set ms. length m = 11 \<and> hd m \<noteq> DELETED_FLAG) \<longrightarrow> \<not> prefix ms (path_names (tl path))
         \<longrightarrow> file_lookup fp_root' ms = file_lookup fp_root ms)
    \<and> (let n = last (path_names (tl path)); ds = butlast (path_names (tl path));
           dir = file_dir fp_root' ds; old = file_dir fp_root ds
       in (ty = fdt_drop \<longrightarrow> file_type dir n = fdt_drop \<and> file_modify dir n = Inr (old, DELETED_FLAG # tl n))
        \<and> (ty = fdt_undelete \<longrightarrow> file_type dir (DELETED_FLAG # tl n) = fdt_undelete
             \<and> file_modify dir (DELETED_FLAG # tl n) = Inr (old, n)
             \<and> file_type old (DELETED_FLAG # tl n) = fdt_none))
    \<and> (\<forall>n dir fixed. length n = 11 \<longrightarrow> hd n \<noteq> DELETED_FLAG \<longrightarrow> file_modify fp_root' n = Inr (dir, fixed)
         \<longrightarrow> dir_ok dir \<and> file_type dir n = fdt_none
           \<and> fixed = (if file_type fp_root' n = fdt_drop then DELETED_FLAG # tl n else n))"
proof -
  have add: "added fp_root fp_root' (path_names (tl path)) ty"
    using assms file_add_in_ok [of fp_root "tl path" ty] by (auto simp: file_add_def split: list.splits if_splits)
  define n old where "n = last (path_names (tl path))" and "old = file_dir fp_root (butlast (path_names (tl path)))"
  have front: "file_dir fp_root' (butlast (path_names (tl path))) = FDSC n ty [] # old" "name_ok n"
    "ty = fdt_undelete \<Longrightarrow> file_type old (DELETED_FLAG # tl n) = fdt_none"
    using add file_type_deleted_none [of old n] by (auto simp: added_def in_front_def n_def old_def)
  have n: "length n = 11" "hd n \<noteq> DELETED_FLAG" "hd n # tl n = n" using name_ok_key [OF front(2)] by (cases n; simp)+
  have used: "(ty = fdt_drop \<longrightarrow> file_type (FDSC n ty [] # old) n = fdt_drop \<and> file_modify (FDSC n ty [] # old) n = Inr (old, DELETED_FLAG # tl n))
    \<and> (ty = fdt_undelete \<longrightarrow> file_type (FDSC n ty [] # old) (DELETED_FLAG # tl n) = fdt_undelete
         \<and> file_modify (FDSC n ty [] # old) (DELETED_FLAG # tl n) = Inr (old, n) \<and> file_type old (DELETED_FLAG # tl n) = fdt_none)"
    using file_modify_front [OF file_find_front [OF n(1,2)]] file_modify_front [OF file_find_deleted_front] front(3) n(3)
    by (simp del: One_nat_def)
  have other: "dir_ok dir \<and> file_type dir n = fdt_none \<and> fixed = (if file_type fp_root' n = fdt_drop then DELETED_FLAG # tl n else n)"
    if ok: "dir_ok fp_root'" and n: "length n = 11" "hd n \<noteq> DELETED_FLAG" and m: "file_modify fp_root' n = Inr (dir, fixed)" for n dir fixed
  proof -
    obtain k where k: "file_find fp_root' n = Some k" using m by (auto simp: file_modify_def split: option.splits)
    then have "strneq 11 (fd_name (fp_root' ! k)) n" "k < length fp_root'"
      using nth_length_takeWhile [of "\<lambda>w. \<not> (strneq 11 (fd_name w) n \<and> fd_first w = [])" fp_root'] n(2)
      by (auto simp: file_find_def index_of_def Let_def split: if_splits)
    then have "fd_name (fp_root' ! k) = n" using strneq_name(1) [of "fd_name (fp_root' ! k)" n] ok n(1) entry_okD by (auto simp: dir_ok_def)
    moreover have "hd n # tl n = n" using n(1) by (cases n) auto
    ultimately show ?thesis using m k file_find_once [OF ok n k] by (auto simp: file_modify_def file_type_def Let_def split: FD_TYPE.splits)
  qed
  show ?thesis
    unfolding Let_def n_def [symmetric] old_def [symmetric] front(1)
    using add used other by (auto simp: added_def)
qed

theorem file_add_registers_witness:
  "\<exists>t a b. file_add [] [0x2f, 0x61, 0x2f, 0x62] fdt_undelete = Inr t \<and> path_names [0x61, 0x2f, 0x62] = [a, b]
     \<and> file_lookup t [a, b] = fdt_undelete \<and> file_modify (file_dir t [a]) (DELETED_FLAG # tl b) = Inr ([], b)"
proof -
  have "\<exists>a. file_cvt [0x61] = Some a" "\<exists>b. file_cvt [0x62] = Some b" by (simp_all add: file_cvt_def bad_char_def)
  then obtain a b where ab: "file_cvt [0x61] = Some a" "file_cvt [0x62] = Some b" by blast
  then obtain t where t: "file_add [] [0x2f, 0x61, 0x2f, 0x62] fdt_undelete = Inr t"
    by (simp add: file_add_def file_add_in.simps index_of_def)
  have "path_names [0x61, 0x2f, 0x62] = [a, b]" by (simp add: path_names.simps ab)
  moreover have "dir_ok []" by (simp add: dir_ok_def)
  ultimately show ?thesis using file_add_registers [OF _ t] t by (auto simp: Let_def simp del: file_dir.simps(2))
qed

text \<open>
  A deleted entry is matched with requests to drop as well, when the names agree behind the first
  character: the request is used up by the entry that is deleted already.
\<close>

lemma drop_taken_by_deleted:
  "file_type (FDSC n fdt_drop [] # old) (DELETED_FLAG # tl n) = fdt_drop
     \<and> file_modify (FDSC n fdt_drop [] # old) (DELETED_FLAG # tl n) = Inr (old, DELETED_FLAG # tl n)"
  using file_modify_front [OF file_find_deleted_front [of n fdt_drop old]] by simp

end
