(* ===== verification/Spec2Isabelle.thy ===== *)
theory Spec2Isabelle
  imports QR_Library QR_Images QR_MicroCode FS_Recover FS_Boot FS_File
begin

text \<open>
  A verification development for two programs of the repository: \<open>src/C/qrencode-3.4.4\<close>, the library
  libqrencode, which turns strings and data into QR Code and Micro QR Code symbols, with its command
  line tool; and \<open>src/C/dosfstools-2.11/dosfsck\<close>, a checker of FAT file systems, without its check of
  directories.

  \<^bold>\<open>libqrencode.\<close> A client builds an input object (\<open>qrinput.c\<close>), a list of entries of data with an
  encoding mode each, by hand or through the string splitter (\<open>split.c\<close>). The encoder
  (\<open>qrencode.c\<close>) asks the input for its byte stream: the entries are encoded (\<open>qrinput.c\<close> over
  \<open>bitstream.c\<close>), a version that holds them is found and the stream is padded to the capacity the
  tables of the standard give (\<open>qrspec.c\<close>, \<open>mqrspec.c\<close>). The bytes are cut into blocks, each block gets
  its error correction codewords (\<open>rscode.c\<close>), and the codewords are interleaved. A frame with the
  function patterns (\<open>qrspec.c\<close>) is filled with their bits by the frame filler and masked with the
  pattern of least penalty (\<open>mask.c\<close>, \<open>mmask.c\<close>). Long inputs can be split into up to sixteen
  linked symbols. Three caches (codecs, frames, Micro QR frames) are the library's static state. The
  tool (\<open>qrenc.c\<close>) reads options and a text, calls the library and writes the symbols as PNG, EPS,
  SVG or text.

  \<^bold>\<open>dosfsck\<close> reads and writes a device through a virtual disk (\<open>io.c\<close>) that keeps its writes in a list
  until it is closed, unless they are to be immediate. From the boot sector \<open>boot.c\<close> computes where
  everything is; on FAT32 it also looks after the backup of the boot sector and the information
  sector. Then \<open>fat.c\<close> keeps the table that links the
  clusters of files to chains, twice on the disk and once in memory: it chooses between two copies
  that differ, sets single entries, finds unreadable clusters, and treats clusters in use that belong
  to no file: it frees them, or it makes files of them, whose entries in the root directory
  \<open>alloc_rootdir_entry\<close> of \<open>check.c\<close> provides. Files to drop or to undelete are kept in a tree (\<open>file.c\<close>).

  \<^bold>\<open>The theories\<close>, in the order of import.

  \<^item> \<open>QR_Prelude\<close>: bytes, machine integers, the result type with the \<open>errno\<close> values as errors, the
    bits of a number as reference for all streams, and generic lemmas; the locale of a loop that
    keeps the best candidate.
  \<^item> \<open>QR_BitStream\<close> is \<open>bitstream.c\<close>: a stream is the record \<open>BitStream\<close>; its operations are shown to
    be concatenation and the big-endian encoding of bits, and packing into bytes is undone by
    reading bits.
  \<^item> \<open>QR_GF256\<close> has no counterpart in the sources: a locale of fields of characteristic two with
    polynomial evaluation, division by a shift register and the distance of cyclic codes, and its
    interpretation by \<open>GF(2^8)\<close>. \<open>QR_RScode\<close> is \<open>rscode.c\<close> statement by statement: \<open>init_rs_char\<close> builds
    the tables of that field and the generator polynomial, \<open>encode_rs_char\<close> divides by it, so that
    data and parity form codewords of full distance, and \<open>init_rs\<close> returns the codec of the parameters
    asked for on every cache that earlier calls can leave.
  \<^item> \<open>QR_Spec\<close> and \<open>QR_MSpec\<close> are \<open>qrspec.c\<close> and \<open>mqrspec.c\<close>: the tables as lists, the lookups, the frames
    and the frame caches (the locale \<open>frame_provider\<close>, interpreted for both). The BCH codes behind
    the version and format tables and the consistency of the block tables are shown.
  \<^item> \<open>QR_Penalty\<close> has no counterpart in the sources: it states the penalty rules of the standard for
    rows and columns on their modules, and derives their form in terms of run lengths. \<open>QR_Mask\<close> and
    \<open>QR_MMask\<close> are \<open>mask.c\<close> and \<open>mmask.c\<close>: masking is an involution that leaves function modules alone,
    format information is written as two readable copies, the penalties the code computes from
    arrays of run lengths are those of the rules, and \<open>Mask_mask\<close> returns the candidate of least penalty.
  \<^item> \<open>QR_Filler\<close> is the frame filler of \<open>qrencode.c\<close>, whose walk is shown to visit every module inside
    the columns exactly once; \<open>QR_Frame\<close> computes which modules of the forty frames are function
    modules, and that the free ones are as many as the capacity table says; \<open>QR_Symbol\<close> puts frames,
    filler and masks together. \<open>QR_Micro\<close> does the same for the four Micro QR Code versions, and shows
    that \<open>MMask_mask\<close> returns the symbol of highest score.
  \<^item> \<open>QR_Entry\<close> holds the validation, the estimates and the encoders of entries, \<open>QR_Input\<close> the input
    object with setters, version estimate, conversion loop and padding, \<open>QR_Struct\<close> the structured
    inputs (all \<open>qrinput.c\<close>), \<open>QR_Split\<close> the splitter \<open>split.c\<close>. \<open>QR_Segments\<close> writes the streams of entries
    down directly and defines the decoder of the standard; \<open>QR_Stream\<close> shows that the conversion
    loop ends, that padding fills a symbol exactly and that the decoder reads the data back, and
    \<open>QR_MStream\<close> the same for Micro QR Code with its shorter headers and its half codeword.
    \<open>QR_Strings\<close> shows that the splitter appends entries that spell the string, \<open>QR_Parts\<close> that splitting
    for structured append ends, loses no byte and makes parts that fit.
  \<^item> \<open>QR_Raw\<close> is the block splitting and interleaving of \<open>qrencode.c\<close>, \<open>QR_Encode\<close> its entry points. There
    the component theorems meet: the symbol \<open>QRcode_encodeMask\<close> returns is described module by
    module, and a reader that unmasks, collects, de-interleaves and decodes recovers the input.
    \<open>QR_MicroCode\<close> is that theorem for \<open>QRcode_encodeMaskMQR\<close>, \<open>QR_Text\<close> carries it to the entry points
    for strings and data and settles when they succeed, \<open>QR_Structured\<close> to linked symbols.
  \<^item> \<open>QR_Library\<close> sees the entry points as calls on the caches: a locale of operations over a hidden
    cache is interpreted for them, so that in every reachable state a sequence of calls returns
    what it returns on a fresh library.
  \<^item> \<open>QR_Tool\<close> is \<open>qrenc.c\<close>: the static variables are the record \<open>tool\<close>, every writer is a function from
    them and a symbol to the text or image it writes, \<open>option_loop\<close> and \<open>check_options\<close> are the option
    handling, \<open>main\<close> gives the exit status and the files written. \<open>QR_Images\<close> has readers for the
    formats: what the tool prints shows a symbol that reads as its operand, the pixels of the PNG
    image are the enlarged modules, run-length encoding does not change an SVG image, and the
    buffers the writers allocate are never overrun.
  \<^item> \<open>FS_IO\<close> is \<open>io.c\<close>. The record \<open>io\<close> has the bytes of the device, which of them cannot be read, and the
    list of changes. A locale of virtual disks, interpreted by its operations in both modes, says
    what reads and writes do to the visible contents; clients cannot tell delayed from immediate writes.
  \<^item> \<open>FS_Fat\<close> is \<open>fat.c\<close> up to \<open>reclaim_file\<close>, over the record \<open>fsck\<close>: the disk, the structure \<open>DOS_FS\<close>, the
    remaining input and the globals. \<open>FS_Table\<close> shows that \<open>set_fat\<close> keeps both copies on the disk equal to
    memory in the three widths of entries, which of two copies that differ \<open>read_fat\<close> keeps and what it
    loads and repairs, what \<open>reclaim_free\<close> and \<open>fix_bad\<close> change, and where the 12-bit tables go wrong.
  \<^item> \<open>FS_Reclaim\<close> is \<open>reclaim_file\<close> with \<open>alloc_rootdir_entry\<close>. \<open>FS_Chains\<close> follows the marking of lost chains
    with an invariant: what a round leaves unmarked are cycles, each break removes a link, so that the
    loop ends with all lost clusters in disjoint chains. \<open>FS_Recover\<close> shows that each chain gets its entry
    in a root directory of fixed size, and when the search for a free cluster does not end.
  \<^item> \<open>FS_Boot\<close> is \<open>boot.c\<close>: \<open>read_boot\<close> from the 512 bytes of the boot sector to \<open>DOS_FS\<close>. The geometry it accepts
    is shown consistent, so that \<open>read_fat\<close> after it establishes the invariant of \<open>FS_Table\<close> when also the
    number of clusters fits (and is even with 12 bits) and the tables are readable; a backup it
    creates agrees with the boot sector. \<open>FS_File\<close> is \<open>file.c\<close>: names are read back as printed, except for the
    escapes, the tree of files returns what was registered, and a file to undelete is found by its
    deleted name and gets its first character back.

  \<^bold>\<open>Conventions.\<close> Objects that the code changes in place are passed and returned; fallible
  operations return \<open>errno + 'a\<close>. A C \<open>int\<close> is an \<open>int\<close> where the code tests its sign and a \<open>nat\<close> where
  it is a count bounded by the symbol; \<open>unsigned char\<close> and \<open>unsigned int\<close> are words, so that their
  arithmetic wraps. A null pointer is \<open>None\<close>; an access the validation does not exclude and that C
  leaves undefined is the error \<open>EFAULT\<close>. Loops are structural recursions or folds over their
  index ranges. The reduction loop \<open>modnn\<close> is a recursive function with a termination proof. The
  loop of \<open>QRinput_convertData\<close>, which retries at ever higher versions, is a partial function whose
  value \<open>None\<close> is not to return; \<open>getByteStream_total\<close> shows that it does return. No fuel is used. In
  the tool an \<open>exit\<close> is the left value of a sum with the status, and \<open>FAULT\<close> is what C leaves undefined,
  an \<open>int\<close> that overflows or a store outside a buffer. \<open>dosfsck\<close> has the same conventions: \<open>die\<close> and
  \<open>exit(1)\<close> are \<open>EXIT_FAILURE\<close>, an access outside the table or to its two entries that are never set is
  \<open>FAULT\<close>, \<open>None\<close> means that a loop does not end. Its \<open>unsigned long\<close> has 32 bits, as on
  the ARM target its Makefile names, and file offsets 64; the result \<open>-1\<close> of
  \<open>next_cluster\<close> is \<open>ULONG_MAX\<close>. A \<open>DOS_FILE\<close> that owns clusters is its address.

  \<^bold>\<open>Not modelled.\<close> Allocation succeeds and freeing has no effect; the \<open>pthread\<close> mutex of the codec
  cache is left out, so the caches are those of one thread. Of the tool, the messages on standard
  error and the usage text are left out; what \<open>getopt_long\<close> returns and which files can be created
  are fields of the record \<open>invocation\<close>, the conversions of floating point numbers are fields of
  \<open>floats\<close>, and a PNG image is the header, palette and rows handed to the PNG library. Of \<open>dosfsck\<close>, the
  directory check in \<open>check.c\<close>, long names and the options are left out, and so are the messages. What \<open>boot.c\<close>
  does not test - that the number of clusters fits the width of entries and that the tables lie on the
  device - is a hypothesis of the theorems on the table. Writing to the device succeeds inside its length; what
  an uninitialised structure on the stack holds is a parameter of \<open>read_boot\<close>. The other programs of
  the repository (the formatter \<open>mkdosfs\<close>, a vendored JSON parser, image and flash tools, network
  clients and demonstrations of system calls) are separate programs around devices, sockets and
  third-party libraries.
\<close>

end
